(* ===== verification/Prelude.thy ===== *)
theory Prelude
  imports Main "HOL-Library.Word"
begin

text \<open>
  Shared vocabulary of the development: bytes and C strings, the character
  classes of \<^verbatim>\<open>ctype.h\<close> in the C locale, decimal printing and
  the \<^verbatim>\<open>strto*\<close> family, \<^verbatim>\<open>strsep\<close>-style splitting, C integer
  division and casts, and the wrap-around comparison of 32-bit millisecond
  ticks that the shell uses for every deadline.

  A C string is the list of the characters before its terminating NUL. A
  fixed-size buffer of capacity \<open>n\<close> that holds a terminated string is such a
  list of length below \<open>n\<close>; a list of length \<open>n\<close> or more stands for a buffer
  without a terminator, which is what the \<^verbatim>\<open>strnlen\<close> checks of the code
  look for.
\<close>

unbundle bit_operations_syntax

type_synonym u8 = "8 word"
type_synonym u16 = "16 word"
type_synonym u32 = "32 word"
type_synonym u64 = "64 word"
type_synonym tick = "32 word"

named_theorems byte_simps \<open>values of bytes and character classes\<close>
named_theorems tick_simps \<open>wrap-around arithmetic on 32-bit ticks\<close>

section \<open>Bytes and C strings\<close>

definition byte :: "char \<Rightarrow> nat" where
  "byte c = of_char c"

lemma byte_less [simp]: "byte c < 256"
  by (simp add: byte_def)

lemma byte_le [simp]: "byte c \<le> 255"
  using byte_less [of c] by linarith

lemma char_of_byte [simp]: "char_of (byte c) = c"
  by (simp add: byte_def)

lemma byte_char_of [simp]: "n < 256 \<Longrightarrow> byte (char_of n) = n"
  by (simp add: byte_def)

lemma byte_inj [simp]: "byte c = byte d \<longleftrightarrow> c = d"
  by (simp add: byte_def)

lemma byte_Char [simp]:
  "byte (Char b0 b1 b2 b3 b4 b5 b6 b7) =
    of_bool b0 + 2 * (of_bool b1 + 2 * (of_bool b2 + 2 * (of_bool b3 +
      2 * (of_bool b4 + 2 * (of_bool b5 + 2 * (of_bool b6 + 2 * of_bool b7))))))"
  by (simp add: byte_def)

text \<open>A shifted number and a smaller one have no bit in common.\<close>

lemma push_bit_or_add: "y < 2 ^ n \<Longrightarrow> push_bit n (x :: nat) OR y = x * 2 ^ n + y"
proof -
  assume y: "y < 2 ^ n"
  have "push_bit n x AND y = 0"
    using y by (auto intro!: bit_eqI simp: bit_and_iff bit_push_bit_iff)
      (metis bit_take_bit_iff not_le take_bit_nat_eq_self)
  then show ?thesis by (simp add: disjunctive_add_eq_or [symmetric] push_bit_eq_mult)
qed

abbreviation NUL :: char where "NUL \<equiv> CHR 0x00"
abbreviation TAB :: char where "TAB \<equiv> CHR 0x09"
abbreviation LF :: char where "LF \<equiv> CHR 0x0A"
abbreviation CR :: char where "CR \<equiv> CHR 0x0D"

definition cstr :: "string \<Rightarrow> string" where
  "cstr = takeWhile (\<lambda>c. c \<noteq> NUL)"

lemma cstr_id [simp]: "NUL \<notin> set s \<Longrightarrow> cstr s = s"
  by (auto simp: cstr_def takeWhile_eq_all_conv)

lemma cstr_no_nul [simp]: "NUL \<notin> set (cstr s)"
  by (auto simp: cstr_def dest: set_takeWhileD)

text \<open>\<^verbatim>\<open>strnlen(s, n)\<close>: the terminator is looked for in the first \<open>n\<close> bytes only.\<close>

definition strnlen :: "string \<Rightarrow> nat \<Rightarrow> nat" where
  "strnlen s n = min (length s) n"

text \<open>\<^verbatim>\<open>snprintf(buffer, n, "%s", s)\<close> keeps at most \<open>n - 1\<close> bytes.\<close>

definition snprintf_s :: "nat \<Rightarrow> string \<Rightarrow> string" where
  "snprintf_s n s = take (n - 1) s"

text \<open>\<^verbatim>\<open>strcmp\<close> orders strings by their bytes, read as unsigned.\<close>

fun strcmp :: "string \<Rightarrow> string \<Rightarrow> int" where
  "strcmp [] [] = 0"
| "strcmp [] (d # ds) = - 1"
| "strcmp (c # cs) [] = 1"
| "strcmp (c # cs) (d # ds) =
     (if byte c < byte d then - 1 else if byte d < byte c then 1 else strcmp cs ds)"

lemma strcmp_0 [simp]: "strcmp s t = 0 \<longleftrightarrow> s = t"
  by (induction s t rule: strcmp.induct) (auto simp: neq_iff [of "byte _"])

section \<open>Character classes\<close>

definition isdigit :: "char \<Rightarrow> bool" where
  "isdigit c \<longleftrightarrow> 48 \<le> byte c \<and> byte c \<le> 57"

definition isupper :: "char \<Rightarrow> bool" where
  "isupper c \<longleftrightarrow> 65 \<le> byte c \<and> byte c \<le> 90"

definition islower :: "char \<Rightarrow> bool" where
  "islower c \<longleftrightarrow> 97 \<le> byte c \<and> byte c \<le> 122"

definition isalnum :: "char \<Rightarrow> bool" where
  "isalnum c \<longleftrightarrow> isdigit c \<or> isupper c \<or> islower c"

definition isxdigit :: "char \<Rightarrow> bool" where
  "isxdigit c \<longleftrightarrow> isdigit c \<or> (65 \<le> byte c \<and> byte c \<le> 70) \<or> (97 \<le> byte c \<and> byte c \<le> 102)"

definition isspace :: "char \<Rightarrow> bool" where
  "isspace c \<longleftrightarrow> byte c = 32 \<or> (9 \<le> byte c \<and> byte c \<le> 13)"

definition tolower :: "char \<Rightarrow> char" where
  "tolower c = (if isupper c then char_of (byte c + 32) else c)"

definition toupper :: "char \<Rightarrow> char" where
  "toupper c = (if islower c then char_of (byte c - 32) else c)"

lemmas [byte_simps] = isdigit_def isupper_def islower_def isalnum_def isxdigit_def isspace_def

lemma byte_toupper: "byte (toupper c) = (if islower c then byte c - 32 else byte c)"
  by (auto simp: toupper_def byte_simps)

lemma toupper_idem [simp]: "toupper (toupper c) = toupper c"
proof (cases "islower c")
  case True
  then have "\<not> islower (toupper c)"
    by (auto simp: byte_toupper byte_simps)
  then show ?thesis by (simp add: toupper_def [of "toupper c"])
qed (simp add: toupper_def)

lemma isxdigit_toupper [simp]: "isxdigit (toupper c) = isxdigit c"
  by (auto simp: byte_toupper byte_simps)

lemma toupper_not_lower [simp]: "\<not> islower (toupper c)"
  by (auto simp: byte_toupper byte_simps)

section \<open>Decimal numbers\<close>

definition digit_char :: "nat \<Rightarrow> char" where
  "digit_char d = char_of (48 + d)"

fun print_nat :: "nat \<Rightarrow> string" where
  "print_nat n = (if n < 10 then [digit_char n] else print_nat (n div 10) @ [digit_char (n mod 10)])"

declare print_nat.simps [simp del]

definition print_int :: "int \<Rightarrow> string" where
  "print_int i = (if i < 0 then CHR ''-'' # print_nat (nat (- i)) else print_nat (nat i))"

definition digits_value :: "string \<Rightarrow> nat" where
  "digits_value ds = foldl (\<lambda>acc c. 10 * acc + (byte c - 48)) 0 ds"

lemma byte_digit_char [simp]: "d < 10 \<Longrightarrow> byte (digit_char d) = 48 + d"
  by (simp add: digit_char_def)

lemma isdigit_digit_char [simp]: "d < 10 \<Longrightarrow> isdigit (digit_char d)"
  by (simp add: isdigit_def)

lemma print_nat_digits: "c \<in> set (print_nat n) \<Longrightarrow> isdigit c"
proof (induction n rule: print_nat.induct)
  case (1 n)
  then show ?case
    by (subst (asm) print_nat.simps) (auto split: if_splits)
qed

lemma print_nat_nonempty [simp]: "print_nat n \<noteq> []"
  by (subst print_nat.simps) simp

lemma digits_value_snoc: "digits_value (ds @ [c]) = 10 * digits_value ds + (byte c - 48)"
  by (simp add: digits_value_def)

lemma digits_value_print_nat [simp]: "digits_value (print_nat n) = n"
proof (induction n rule: print_nat.induct)
  case (1 n)
  show ?case
  proof (cases "n < 10")
    case True
    then show ?thesis by (subst print_nat.simps) (simp add: digits_value_def)
  next
    case False
    with 1 show ?thesis by (subst print_nat.simps) (simp add: digits_value_snoc)
  qed
qed

lemma length_print_nat: "n < 10 ^ Suc k \<Longrightarrow> length (print_nat n) \<le> Suc k"
proof (induction k arbitrary: n)
  case 0
  then show ?case by (subst print_nat.simps) simp
next
  case (Suc k)
  show ?case
  proof (cases "n < 10")
    case True
    then show ?thesis by (subst print_nat.simps) simp
  next
    case False
    from Suc.prems have "n div 10 < 10 ^ Suc k" by (auto simp: div_less_iff_less_mult)
    then have "length (print_nat (n div 10)) \<le> Suc k" by (rule Suc.IH)
    with False show ?thesis by (subst print_nat.simps) simp
  qed
qed

lemma takeWhile_isdigit_print_nat [simp]: "takeWhile isdigit (print_nat n) = print_nat n"
  by (simp add: takeWhile_eq_all_conv print_nat_digits)

lemma dropWhile_isdigit_print_nat [simp]: "dropWhile isdigit (print_nat n) = []"
  by (simp add: print_nat_digits)

text \<open>
  \<^verbatim>\<open>strtoul\<close>, \<^verbatim>\<open>strtoull\<close> and \<^verbatim>\<open>strtol\<close> in base ten on the
  64-bit target: white space and one sign are skipped, the value is clipped
  with \<open>ERANGE\<close> when the magnitude does not fit, a minus sign negates the
  unsigned value modulo \<open>2 ^ 64\<close>, and without a digit nothing is consumed.
  The result is the value, whether \<open>errno\<close> was set, and the rest of the text.
\<close>

definition split_sign :: "string \<Rightarrow> bool \<times> string" where
  "split_sign s = (case s of
      c # cs \<Rightarrow> if c = CHR ''-'' then (True, cs) else if c = CHR ''+'' then (False, cs) else (False, s)
    | [] \<Rightarrow> (False, s))"

definition strtoul :: "string \<Rightarrow> nat \<times> bool \<times> string" where
  "strtoul text = (let (neg, s) = split_sign (dropWhile isspace text);
       ds = takeWhile isdigit s; rest = dropWhile isdigit s; m = digits_value ds
     in if ds = [] then (0, False, text)
        else if 2 ^ 64 \<le> m then (2 ^ 64 - 1, True, rest)
        else if neg then ((2 ^ 64 - m) mod 2 ^ 64, False, rest)
        else (m, False, rest))"

definition strtol :: "string \<Rightarrow> int \<times> bool \<times> string" where
  "strtol text = (let (neg, s) = split_sign (dropWhile isspace text);
       ds = takeWhile isdigit s; rest = dropWhile isdigit s;
       v = (if neg then - int (digits_value ds) else int (digits_value ds))
     in if ds = [] then (0, False, text)
        else if v < - (2 ^ 63) then (- (2 ^ 63), True, rest)
        else if 2 ^ 63 \<le> v then (2 ^ 63 - 1, True, rest)
        else (v, False, rest))"

lemma print_nat_Cons: "\<exists>c cs. print_nat n = c # cs \<and> isdigit c"
proof (cases "print_nat n")
  case (Cons c cs)
  then have "isdigit c" using print_nat_digits [of c n] by simp
  with Cons show ?thesis by blast
qed simp

lemma isdigit_not_space: "isdigit c \<Longrightarrow> \<not> isspace c"
  by (auto simp: byte_simps)

lemma isdigit_not_sign: "isdigit c \<Longrightarrow> c \<noteq> CHR ''-'' \<and> c \<noteq> CHR ''+''"
  by (auto simp: byte_simps)

lemma dropWhile_isspace_print_nat [simp]: "dropWhile isspace (print_nat n) = print_nat n"
  using print_nat_Cons [of n] by (auto simp: isdigit_not_space)

lemma split_sign_print_nat [simp]: "split_sign (print_nat n) = (False, print_nat n)"
  using print_nat_Cons [of n] by (auto simp: split_sign_def isdigit_not_sign)

lemma strtoul_print_nat [simp]: "n < 2 ^ 64 \<Longrightarrow> strtoul (print_nat n) = (n, False, [])"
  by (simp add: strtoul_def)

lemma strtol_print_int [simp]:
  "- (2 ^ 63) \<le> i \<Longrightarrow> i < 2 ^ 63 \<Longrightarrow> strtol (print_int i) = (i, False, [])"
  by (simp add: strtol_def print_int_def split_sign_def [of "CHR ''-'' # _"] isspace_def)

lemma print_int_nonempty [simp]: "print_int i \<noteq> []"
  by (simp add: print_int_def)

lemma print_nat_bits: "print_nat 0 = ''0''" "print_nat 1 = ''1''"
proof -
  have "byte (digit_char 0) = byte (CHR ''0'')" "byte (digit_char 1) = byte (CHR ''1'')" by simp_all
  then have "digit_char 0 = CHR ''0''" "digit_char 1 = CHR ''1''" by (simp_all only: byte_inj)
  then show "print_nat 0 = ''0''" "print_nat 1 = ''1''" by (subst print_nat.simps, simp)+
qed

section \<open>Splitting at a separator\<close>

text \<open>The fields \<^verbatim>\<open>strsep\<close> returns one after another for a single delimiter.\<close>

fun split_on :: "char \<Rightarrow> string \<Rightarrow> string list" where
  "split_on d [] = [[]]"
| "split_on d (c # cs) = (if c = d then [] # split_on d cs
     else (case split_on d cs of [] \<Rightarrow> [[c]] | f # fs \<Rightarrow> (c # f) # fs))"

lemma split_on_nonempty [simp]: "split_on d s \<noteq> []"
  by (cases s) (auto split: list.splits)

lemma split_on_single [simp]: "d \<notin> set s \<Longrightarrow> split_on d s = [s]"
  by (induction s) auto

lemma split_on_append [simp]: "d \<notin> set xs \<Longrightarrow> split_on d (xs @ d # ys) = xs # split_on d ys"
  by (induction xs) auto

lemma split_on_fields_clean: "f \<in> set (split_on d s) \<Longrightarrow> d \<notin> set f"
  by (induction s arbitrary: f) (auto split: if_splits list.splits)

text \<open>The bytes up to the next line feed, and those after it.\<close>

definition next_line :: "string \<Rightarrow> string \<times> string" where
  "next_line s = (takeWhile (\<lambda>c. c \<noteq> LF) s, tl (dropWhile (\<lambda>c. c \<noteq> LF) s))"

lemma next_line_append [simp]: "LF \<notin> set l \<Longrightarrow> next_line (l @ LF # rest) = (l, rest)"
  unfolding next_line_def by (subst takeWhile_append2 dropWhile_append2, auto)+

lemma next_line_shorter: "s \<noteq> [] \<Longrightarrow> length (snd (next_line s)) < length s"
proof -
  assume "s \<noteq> []"
  have "length (dropWhile (\<lambda>c. c \<noteq> LF) s) \<le> length s" by (rule length_dropWhile_le)
  with \<open>s \<noteq> []\<close> show ?thesis by (cases s) (auto simp: next_line_def)
qed

section \<open>C integers\<close>

text \<open>Division truncates towards zero; a cast to \<open>int\<close> keeps the low 32 bits.\<close>

definition c_div :: "int \<Rightarrow> int \<Rightarrow> int" where
  "c_div a b = sgn a * sgn b * (\<bar>a\<bar> div \<bar>b\<bar>)"

lemma c_div_nonneg [simp]: "0 \<le> a \<Longrightarrow> 0 < b \<Longrightarrow> c_div a b = a div b"
  by (cases "a = 0") (auto simp: c_div_def)

definition to_int32 :: "int \<Rightarrow> int" where
  "to_int32 x = sint (word_of_int x :: 32 word)"

definition is_int32 :: "int \<Rightarrow> bool" where
  "is_int32 x \<longleftrightarrow> - (2 ^ 31) \<le> x \<and> x < 2 ^ 31"

lemma to_int32_id [simp]: "is_int32 x \<Longrightarrow> to_int32 x = x"
  unfolding to_int32_def is_int32_def by (simp add: int_word_sint)

definition INT_MAX :: int where "INT_MAX = 2 ^ 31 - 1"
definition SIZE_MAX :: nat where "SIZE_MAX = 2 ^ 64 - 1"
definition PATH_MAX :: nat where "PATH_MAX = 4096"

section \<open>Millisecond ticks\<close>

text \<open>
  A deadline is compared through the wrapped difference: it has passed when
  \<open>now - deadline\<close>, read as a signed number, is not negative. The power code
  writes the same test as an unsigned comparison with \<^verbatim>\<open>0x80000000\<close>.
\<close>

definition tick_passed :: "tick \<Rightarrow> tick \<Rightarrow> bool" where
  "tick_passed now deadline \<longleftrightarrow> now - deadline < 0x80000000"

lemma sint32_eq: "sint (w :: 32 word) = (if w < 0x80000000 then uint w else uint w - 2 ^ 32)"
proof -
  have s: "sint w = (uint w + 2 ^ 31) mod 2 ^ 32 - 2 ^ 31"
    using int_word_sint [of "uint w", where 'a = 32] by simp
  have b: "0 \<le> uint w" "uint w < 2 ^ 32"
    using uint_lt2p [of w] by simp_all
  show ?thesis
  proof (cases "w < 0x80000000")
    case True
    then have "uint w < 2 ^ 31" by (simp add: word_less_def)
    with b s True show ?thesis by simp
  next
    case False
    then have "2 ^ 31 \<le> uint w" by (simp add: word_less_def)
    with b have "(uint w + 2 ^ 31) mod 2 ^ 32 = uint w + 2 ^ 31 - 2 ^ 32"
      by (simp add: mod_pos_geq)
    with s False show ?thesis by simp
  qed
qed

lemma sint32_nonneg [tick_simps]: "0 \<le> sint (w :: 32 word) \<longleftrightarrow> w < 0x80000000"
proof -
  have "uint w < 2 ^ 32" using uint_lt2p [of w] by simp
  then show ?thesis by (auto simp: sint32_eq)
qed

text \<open>Elapsed time \<open>e\<close> below a limit \<open>L\<close>: the wait that is left, and what happens at its end.\<close>

lemma tick_left_sint:
  fixes e L :: tick
  assumes "e < L" "L < 0x80000000"
  shows "sint (L - e) = int (unat L - unat e)"
proof -
  from assms(1) have u: "unat (L - e) = unat L - unat e" by (simp add: unat_sub)
  from assms(2) have "unat L < 2 ^ 31" by (simp add: word_less_nat_alt)
  with u have "L - e < 0x80000000" by (simp add: word_less_nat_alt)
  with u show ?thesis by (simp add: sint32_eq uint_nat)
qed

lemma tick_not_yet:
  fixes e L :: tick
  assumes "e < L" "L < 0x80000000"
  shows "\<not> e - L < 0x80000000"
proof -
  have b: "0 \<le> uint e" "uint e < uint L" "uint L < 2147483648"
    using assms by (simp_all add: word_less_def)
  have "uint (e - L) = (uint e - uint L) mod 2 ^ 32"
    by (simp add: uint_word_ariths)
  also have "\<dots> = (uint e - uint L + 4294967296) mod 4294967296" by simp
  also have "\<dots> = uint e - uint L + 4294967296" using b by (intro mod_pos_pos_trivial) linarith+
  finally have "2147483648 \<le> uint (e - L)" using b by linarith
  then show ?thesis by (simp add: word_less_def)
qed

lemma tick_add_less:
  fixes e L :: tick
  assumes "e < L" "k < unat L - unat e"
  shows "e + of_nat k < L"
proof -
  have "unat L < 2 ^ 32" using unsigned_less [of L, where ?'a = nat] by simp
  with assms(2) have k: "unat (of_nat k :: tick) = k" by (simp add: unat_of_nat)
  with assms \<open>unat L < 2 ^ 32\<close> have "unat (e + of_nat k) = unat e + k"
    by (simp add: unat_word_ariths)
  with assms(2) show ?thesis by (simp add: word_less_nat_alt)
qed

lemma tick_add_eq:
  fixes e L :: tick
  assumes "e < L"
  shows "e + of_nat (unat L - unat e) = L"
proof -
  from assms have "unat e \<le> unat L" by (simp add: word_less_nat_alt)
  then have "of_nat (unat L - unat e) = L - e" by (simp add: of_nat_diff)
  then show ?thesis by simp
qed

end
