(* ===== verification/Machines.thy ===== *)
theory Machines
  imports Prelude
begin

text \<open>
  The interface every stateful component of the shell is used through: a step
  function from a state and an event to the next state and an output. A run
  feeds a list of events; \<open>machine_inv\<close> is the contract "every step keeps the
  invariant", \<open>machine_history\<close> the stronger one that relates a state to the
  events that led to it. Components interpret these on their own step
  functions and inherit the facts about whole runs.
\<close>

fun run :: "('s \<Rightarrow> 'e \<Rightarrow> 's \<times> 'o) \<Rightarrow> 's \<Rightarrow> 'e list \<Rightarrow> 's" where
  "run step s [] = s"
| "run step s (e # es) = run step (fst (step s e)) es"

lemma run_append [simp]: "run step s (xs @ ys) = run step (run step s xs) ys"
  by (induction xs arbitrary: s) auto

locale machine_inv =
  fixes step :: "'s \<Rightarrow> 'e \<Rightarrow> 's \<times> 'o"
    and invar :: "'s \<Rightarrow> bool"
  assumes step_invar: "invar s \<Longrightarrow> invar (fst (step s e))"
begin

lemma run_invar: "invar s \<Longrightarrow> invar (run step s es)"
  by (induction es arbitrary: s) (auto intro: step_invar)

end

text \<open>
  \<open>hist es s\<close> relates the events so far to the state they produced. It holds
  of the empty history in the initial state and is kept by appending an event.
\<close>

locale machine_history =
  fixes step :: "'s \<Rightarrow> 'e \<Rightarrow> 's \<times> 'o"
    and init :: "'s \<Rightarrow> bool"
    and hist :: "'e list \<Rightarrow> 's \<Rightarrow> bool"
  assumes init_hist: "init s \<Longrightarrow> hist [] s"
    and step_hist: "hist es s \<Longrightarrow> hist (es @ [e]) (fst (step s e))"
begin

lemma run_hist: "init s \<Longrightarrow> hist es (run step s es)"
proof (induction es rule: rev_induct)
  case Nil
  then show ?case by (simp add: init_hist)
next
  case (snoc e es)
  then show ?case using step_hist [of es "run step s es" e] by simp
qed

end

end
