(* ===== verification/Power_State.thy ===== *)
theory Power_State
  imports Machines
begin

text \<open>
  The power-button and lock-screen state machine of the shell,
  \<^verbatim>\<open>components/rg40xxv-shell/src/power.c\<close>: a short press turns the screen off
  and on, three presses of one key unlock it, a three-second hold opens a
  three-second shutdown countdown. All times are wrapping 32-bit ticks.
\<close>

section \<open>State and operations\<close>

datatype power_view_state = POWER_VIEW_ACTIVE | POWER_VIEW_SCREEN_OFF | POWER_VIEW_LOCKED
  | POWER_VIEW_SHUTDOWN_COUNTDOWN

definition POWER_ACTION_NONE :: u32 where "POWER_ACTION_NONE = 0"
definition POWER_ACTION_BACKLIGHT_OFF :: u32 where "POWER_ACTION_BACKLIGHT_OFF = push_bit 0 1"
definition POWER_ACTION_BACKLIGHT_ON :: u32 where "POWER_ACTION_BACKLIGHT_ON = push_bit 1 1"
definition POWER_ACTION_LOCK_PROGRESS :: u32 where "POWER_ACTION_LOCK_PROGRESS = push_bit 2 1"
definition POWER_ACTION_UNLOCKED :: u32 where "POWER_ACTION_UNLOCKED = push_bit 3 1"
definition POWER_ACTION_SHOW_SHUTDOWN :: u32 where "POWER_ACTION_SHOW_SHUTDOWN = push_bit 4 1"
definition POWER_ACTION_CANCEL_SHUTDOWN :: u32 where "POWER_ACTION_CANCEL_SHUTDOWN = push_bit 5 1"
definition POWER_ACTION_REQUEST_SHUTDOWN :: u32 where "POWER_ACTION_REQUEST_SHUTDOWN = push_bit 6 1"

lemmas power_action_defs = POWER_ACTION_NONE_def POWER_ACTION_BACKLIGHT_OFF_def
  POWER_ACTION_BACKLIGHT_ON_def POWER_ACTION_LOCK_PROGRESS_def POWER_ACTION_UNLOCKED_def
  POWER_ACTION_SHOW_SHUTDOWN_def POWER_ACTION_CANCEL_SHUTDOWN_def POWER_ACTION_REQUEST_SHUTDOWN_def

record power_state =
  view :: power_view_state
  before_shutdown :: power_view_state
  power_pressed_at :: tick
  shutdown_started_at :: tick
  unlock_deadline :: tick
  unlock_key :: int
  unlock_progress :: int
  lock_enabled :: bool
  locked :: bool
  power_held :: bool
  shutdown_requested :: bool

definition POWER_HOLD_MS :: tick where "POWER_HOLD_MS = 3000"
definition POWER_COUNTDOWN_MS :: tick where "POWER_COUNTDOWN_MS = 3000"
definition UNLOCK_SEQUENCE_MS :: tick where "UNLOCK_SEQUENCE_MS = 1200"

lemmas power_time_defs = POWER_HOLD_MS_def POWER_COUNTDOWN_MS_def UNLOCK_SEQUENCE_MS_def

definition power_state_init :: "bool \<Rightarrow> power_state" where
  "power_state_init enabled = \<lparr>view = POWER_VIEW_ACTIVE, before_shutdown = POWER_VIEW_ACTIVE,
     power_pressed_at = 0, shutdown_started_at = 0, unlock_deadline = 0, unlock_key = 0,
     unlock_progress = 0, lock_enabled = enabled, locked = False, power_held = False,
     shutdown_requested = False\<rparr>"

definition power_set_lock_enabled :: "power_state \<Rightarrow> bool \<Rightarrow> power_state \<times> u32" where
  "power_set_lock_enabled s enabled =
    (let s1 = s\<lparr>lock_enabled := enabled\<rparr> in
     if \<not> enabled \<and> locked s1 then
       let s2 = s1\<lparr>locked := False, unlock_progress := 0\<rparr> in
       if view s2 = POWER_VIEW_LOCKED
       then (s2\<lparr>view := POWER_VIEW_ACTIVE\<rparr>, POWER_ACTION_UNLOCKED)
       else (s2, POWER_ACTION_NONE)
     else (s1, POWER_ACTION_NONE))"

definition power_button_press :: "power_state \<Rightarrow> tick \<Rightarrow> power_state \<times> u32" where
  "power_button_press s now =
    (if power_held s then (s, POWER_ACTION_NONE)
     else (s\<lparr>power_held := True, power_pressed_at := now, shutdown_requested := False\<rparr>,
       POWER_ACTION_NONE))"

definition short_press :: "power_state \<Rightarrow> power_state \<times> u32" where
  "short_press s =
    (if view s = POWER_VIEW_SCREEN_OFF then
       if locked s
       then (s\<lparr>view := POWER_VIEW_LOCKED, unlock_progress := 0\<rparr>, POWER_ACTION_BACKLIGHT_ON)
       else (s\<lparr>view := POWER_VIEW_ACTIVE\<rparr>, POWER_ACTION_BACKLIGHT_ON)
     else if view s = POWER_VIEW_ACTIVE \<or> view s = POWER_VIEW_LOCKED then
       (s\<lparr>locked := lock_enabled s, view := POWER_VIEW_SCREEN_OFF, unlock_progress := 0\<rparr>,
        POWER_ACTION_BACKLIGHT_OFF)
     else (s, POWER_ACTION_NONE))"

definition power_cancel_shutdown :: "power_state \<Rightarrow> power_state \<times> u32" where
  "power_cancel_shutdown s =
    (if view s \<noteq> POWER_VIEW_SHUTDOWN_COUNTDOWN then (s, POWER_ACTION_NONE)
     else (s\<lparr>view := (if before_shutdown s = POWER_VIEW_SCREEN_OFF \<and> locked s
                       then POWER_VIEW_LOCKED else POWER_VIEW_ACTIVE),
             power_held := False, shutdown_requested := False\<rparr>,
           POWER_ACTION_CANCEL_SHUTDOWN))"

definition power_button_release :: "power_state \<Rightarrow> tick \<Rightarrow> power_state \<times> u32" where
  "power_button_release s now =
    (if \<not> power_held s then (s, POWER_ACTION_NONE)
     else
       let held = now - power_pressed_at s; s1 = s\<lparr>power_held := False\<rparr> in
       if view s1 = POWER_VIEW_SHUTDOWN_COUNTDOWN then power_cancel_shutdown s1
       else if held \<ge> POWER_HOLD_MS then (s1, POWER_ACTION_NONE)
       else short_press s1)"

definition power_auto_screen_off :: "power_state \<Rightarrow> power_state \<times> u32" where
  "power_auto_screen_off s =
    (if power_held s \<or> (view s \<noteq> POWER_VIEW_ACTIVE \<and> view s \<noteq> POWER_VIEW_LOCKED)
     then (s, POWER_ACTION_NONE)
     else (s\<lparr>locked := (view s = POWER_VIEW_LOCKED \<or> lock_enabled s),
             view := POWER_VIEW_SCREEN_OFF, unlock_progress := 0\<rparr>,
           POWER_ACTION_BACKLIGHT_OFF))"

definition power_update :: "power_state \<Rightarrow> tick \<Rightarrow> power_state \<times> u32" where
  "power_update s now =
    (if \<not> power_held s then (s, POWER_ACTION_NONE)
     else if view s \<noteq> POWER_VIEW_SHUTDOWN_COUNTDOWN \<and> now - power_pressed_at s \<ge> POWER_HOLD_MS then
       (s\<lparr>before_shutdown := view s, view := POWER_VIEW_SHUTDOWN_COUNTDOWN,
          shutdown_started_at := now\<rparr>,
        if view s = POWER_VIEW_SCREEN_OFF
        then POWER_ACTION_SHOW_SHUTDOWN OR POWER_ACTION_BACKLIGHT_ON
        else POWER_ACTION_SHOW_SHUTDOWN)
     else if view s = POWER_VIEW_SHUTDOWN_COUNTDOWN \<and> \<not> shutdown_requested s \<and>
             now - shutdown_started_at s \<ge> POWER_COUNTDOWN_MS then
       (s\<lparr>shutdown_requested := True\<rparr>, POWER_ACTION_REQUEST_SHUTDOWN)
     else (s, POWER_ACTION_NONE))"

definition power_lock_key :: "power_state \<Rightarrow> int \<Rightarrow> bool \<Rightarrow> tick \<Rightarrow> power_state \<times> u32" where
  "power_lock_key s key eligible now =
    (if view s \<noteq> POWER_VIEW_LOCKED \<or> \<not> eligible then (s, POWER_ACTION_NONE)
     else
       let s1 = (if unlock_progress s = 0 \<or> key \<noteq> unlock_key s \<or>
                    now - unlock_deadline s < 0x80000000
                 then s\<lparr>unlock_progress := 0, unlock_key := key\<rparr> else s);
           s2 = s1\<lparr>unlock_progress := unlock_progress s1 + 1,
                   unlock_deadline := now + UNLOCK_SEQUENCE_MS\<rparr> in
       if unlock_progress s2 < 3 then (s2, POWER_ACTION_LOCK_PROGRESS)
       else (s2\<lparr>unlock_progress := 0, locked := False, view := POWER_VIEW_ACTIVE\<rparr>,
             POWER_ACTION_LOCK_PROGRESS OR POWER_ACTION_UNLOCKED))"

definition power_should_render :: "power_state \<Rightarrow> bool" where
  "power_should_render s \<longleftrightarrow> view s \<noteq> POWER_VIEW_SCREEN_OFF"

definition power_next_timeout_ms :: "power_state \<Rightarrow> tick \<Rightarrow> int" where
  "power_next_timeout_ms s now =
    (if \<not> power_held s then - 1
     else
       let deadline = (if view s = POWER_VIEW_SHUTDOWN_COUNTDOWN
                       then shutdown_started_at s + POWER_COUNTDOWN_MS
                       else power_pressed_at s + POWER_HOLD_MS) in
       if now - deadline < 0x80000000 then 0 else sint (deadline - now))"

definition power_idle_timeout_ms :: "power_state \<Rightarrow> tick \<Rightarrow> tick \<Rightarrow> tick \<Rightarrow> int" where
  "power_idle_timeout_ms s last_activity idle_ms now =
    (if idle_ms = 0 \<or> power_held s \<or>
        (view s \<noteq> POWER_VIEW_ACTIVE \<and> view s \<noteq> POWER_VIEW_LOCKED) then - 1
     else
       let deadline = last_activity + idle_ms in
       if now - deadline < 0x80000000 then 0
       else let remaining = deadline - now in
         if uint remaining > INT_MAX then INT_MAX else sint remaining)"

section \<open>The machine\<close>

datatype power_event = SetLock bool | PowerPress tick | PowerRelease tick | AutoScreenOff
  | PowerUpdate tick | LockKey int bool tick | CancelShutdown

fun power_step :: "power_state \<Rightarrow> power_event \<Rightarrow> power_state \<times> u32" where
  "power_step s (SetLock b) = power_set_lock_enabled s b"
| "power_step s (PowerPress t) = power_button_press s t"
| "power_step s (PowerRelease t) = power_button_release s t"
| "power_step s AutoScreenOff = power_auto_screen_off s"
| "power_step s (PowerUpdate t) = power_update s t"
| "power_step s (LockKey k el t) = power_lock_key s k el t"
| "power_step s CancelShutdown = power_cancel_shutdown s"

lemmas power_op_defs = power_set_lock_enabled_def power_button_press_def power_button_release_def
  power_auto_screen_off_def power_update_def power_lock_key_def power_cancel_shutdown_def
  short_press_def

text \<open>
  What every operation keeps: the lock screen is shown only while locked, the
  screen is locked only while the lock is enabled, the unlock counter stays
  below three, and the countdown runs only while the button is held.
\<close>

definition power_inv :: "power_state \<Rightarrow> bool" where
  "power_inv s \<longleftrightarrow>
     (view s = POWER_VIEW_LOCKED \<longrightarrow> locked s) \<and>
     (locked s \<longrightarrow> lock_enabled s) \<and>
     0 \<le> unlock_progress s \<and> unlock_progress s < 3 \<and>
     (view s = POWER_VIEW_SHUTDOWN_COUNTDOWN \<longrightarrow>
        power_held s \<and> before_shutdown s \<noteq> POWER_VIEW_SHUTDOWN_COUNTDOWN)"

lemma power_inv_init: "power_inv (power_state_init b)"
  by (simp add: power_inv_def power_state_init_def)

lemma view_init: "view (power_state_init b) = POWER_VIEW_ACTIVE"
  by (simp add: power_state_init_def)

lemma power_step_inv: "power_inv s \<Longrightarrow> power_inv (fst (power_step s e))"
  by (cases e) (auto simp: power_inv_def power_op_defs Let_def)

interpretation pw: machine_inv power_step power_inv
  by unfold_locales (rule power_step_inv)

section \<open>What led to a state\<close>

definition is_release :: "power_event \<Rightarrow> bool" where
  "is_release e \<longleftrightarrow> (\<exists>t. e = PowerRelease t)"

text \<open>The button has been down since a press at \<open>t0\<close>.\<close>

definition held_since :: "power_event list \<Rightarrow> tick \<Rightarrow> bool" where
  "held_since es t0 \<longleftrightarrow>
     (\<exists>pre post. es = pre @ PowerPress t0 # post \<and> (\<forall>e \<in> set post. \<not> is_release e))"

text \<open>It was pressed at \<open>t0\<close>, the countdown began at \<open>t1\<close>, and nobody let go or cancelled.\<close>

definition counting_since :: "power_event list \<Rightarrow> tick \<Rightarrow> tick \<Rightarrow> bool" where
  "counting_since es t0 t1 \<longleftrightarrow>
     (\<exists>pre a c. es = pre @ PowerPress t0 # a @ PowerUpdate t1 # c \<and>
        (\<forall>e \<in> set (a @ c). \<not> is_release e) \<and> CancelShutdown \<notin> set c)"

lemma held_since_press: "held_since (es @ [PowerPress t]) t"
  unfolding held_since_def by (rule exI [of _ es], rule exI [of _ "[]"]) simp

lemma held_since_snoc: "held_since es t0 \<Longrightarrow> \<not> is_release e \<Longrightarrow> held_since (es @ [e]) t0"
  unfolding held_since_def by fastforce

lemma counting_since_start: "held_since es t0 \<Longrightarrow> counting_since (es @ [PowerUpdate t1]) t0 t1"
proof -
  assume "held_since es t0"
  then obtain pre post where "es = pre @ PowerPress t0 # post" "\<forall>e \<in> set post. \<not> is_release e"
    by (auto simp: held_since_def)
  then show ?thesis
    unfolding counting_since_def
    by (intro exI [of _ pre] exI [of _ post] exI [of _ "[]"]) simp
qed

lemma counting_since_snoc:
  assumes "counting_since es t0 t1" "\<not> is_release e" "e \<noteq> CancelShutdown"
  shows "counting_since (es @ [e]) t0 t1"
proof -
  from assms(1) obtain pre a c where "es = pre @ PowerPress t0 # a @ PowerUpdate t1 # c"
    "\<forall>e \<in> set (a @ c). \<not> is_release e" "CancelShutdown \<notin> set c"
    by (auto simp: counting_since_def)
  with assms(2,3) show ?thesis
    unfolding counting_since_def
    by (intro exI [of _ pre] exI [of _ a] exI [of _ "c @ [e]"]) auto
qed

definition shutdown_hist :: "power_event list \<Rightarrow> power_state \<Rightarrow> bool" where
  "shutdown_hist es s \<longleftrightarrow>
     (power_held s \<longrightarrow> held_since es (power_pressed_at s)) \<and>
     (view s = POWER_VIEW_SHUTDOWN_COUNTDOWN \<longrightarrow>
        power_held s \<and> POWER_HOLD_MS \<le> shutdown_started_at s - power_pressed_at s \<and>
        counting_since es (power_pressed_at s) (shutdown_started_at s))"

lemma is_release_simps [simp]:
  "is_release (PowerRelease t)" "\<not> is_release (SetLock b)" "\<not> is_release (PowerPress t)"
  "\<not> is_release AutoScreenOff" "\<not> is_release (PowerUpdate t)" "\<not> is_release (LockKey k el t)"
  "\<not> is_release CancelShutdown"
  by (simp_all add: is_release_def)

lemma shutdown_hist_init: "shutdown_hist [] (power_state_init b)"
  by (simp add: shutdown_hist_def power_state_init_def)

lemma shutdown_step_hist:
  "shutdown_hist es s \<Longrightarrow> shutdown_hist (es @ [e]) (fst (power_step s e))"
  by (cases e) (auto simp: shutdown_hist_def power_op_defs Let_def
      held_since_press held_since_snoc counting_since_start counting_since_snoc)

interpretation shutdown: machine_history power_step "\<lambda>s. \<exists>b. s = power_state_init b" shutdown_hist
  by unfold_locales (auto intro: shutdown_hist_init shutdown_step_hist)











section \<open>Properties\<close>

lemma request_only_from_update:
  "snd (power_step s e) AND POWER_ACTION_REQUEST_SHUTDOWN \<noteq> 0 \<Longrightarrow>
   \<exists>t. e = PowerUpdate t \<and> view s = POWER_VIEW_SHUTDOWN_COUNTDOWN \<and>
       POWER_COUNTDOWN_MS \<le> t - shutdown_started_at s"
  by (cases e) (auto simp: power_op_defs power_action_defs Let_def split: if_splits)


text \<open>
  C23: in every run of the power machine the lock screen is shown only while the
  device is locked, it is locked only while the lock is enabled, the unlock
  counter stays below three and the countdown only runs with the button held.
\<close>

theorem power_run_inv: "power_inv (run power_step (power_state_init b) es)"
  by (rule pw.run_invar) (rule power_inv_init)

text \<open>
  C7: a shutdown is requested only by a timer update, after a press that was
  held for three seconds until the countdown began and for three more seconds
  of countdown, without a release in between and without a cancel once the
  countdown was running.
\<close>

theorem shutdown_needs_long_hold:
  assumes "snd (power_step (run power_step (power_state_init b) es) e)
    AND POWER_ACTION_REQUEST_SHUTDOWN \<noteq> 0"
  shows "\<exists>pre t0 a t1 c t. es = pre @ PowerPress t0 # a @ PowerUpdate t1 # c \<and> e = PowerUpdate t \<and>
    POWER_HOLD_MS \<le> t1 - t0 \<and> POWER_COUNTDOWN_MS \<le> t - t1 \<and>
    (\<forall>x \<in> set (a @ c). \<not> is_release x) \<and> CancelShutdown \<notin> set c"
proof -
  let ?s = "run power_step (power_state_init b) es"
  have h: "shutdown_hist es ?s" by (rule shutdown.run_hist) blast
  from request_only_from_update [OF assms] obtain t where
    "e = PowerUpdate t" "view ?s = POWER_VIEW_SHUTDOWN_COUNTDOWN"
    "POWER_COUNTDOWN_MS \<le> t - shutdown_started_at ?s" by blast
  with h show ?thesis unfolding shutdown_hist_def counting_since_def by metis
qed

lemmas power_eval = power_state_init_def power_op_defs power_time_defs power_action_defs Let_def

theorem shutdown_needs_long_hold_witness:
  "\<exists>pre t0 a t1 c t. [PowerPress 0, PowerUpdate 3000] =
      pre @ PowerPress t0 # a @ PowerUpdate t1 # c \<and> PowerUpdate 6000 = PowerUpdate t \<and>
    POWER_HOLD_MS \<le> t1 - t0 \<and> POWER_COUNTDOWN_MS \<le> t - t1 \<and>
    (\<forall>x \<in> set (a @ c). \<not> is_release x) \<and> CancelShutdown \<notin> set c"
  by (rule shutdown_needs_long_hold [of True]) (simp add: power_eval)



text \<open>
  C26: holding the power button on the lock screen until the countdown appears
  and then letting go leaves the launcher unlocked: the view is active while
  the state still records the device as locked.
\<close>

theorem countdown_leaves_lock_screen:
  assumes "view s = POWER_VIEW_LOCKED" "\<not> power_held s" "locked s"
    and "POWER_HOLD_MS \<le> t1 - t0"
  shows "view (run power_step s [PowerPress t0, PowerUpdate t1, PowerRelease t2]) = POWER_VIEW_ACTIVE \<and>
    locked (run power_step s [PowerPress t0, PowerUpdate t1, PowerRelease t2])"
  using assms by (simp add: power_op_defs Let_def)

theorem countdown_leaves_lock_screen_witness:
  "view (run power_step ((power_state_init True)\<lparr>view := POWER_VIEW_LOCKED, locked := True\<rparr>)
     [PowerPress 0, PowerUpdate 3000, PowerRelease 3100]) = POWER_VIEW_ACTIVE \<and>
   locked (run power_step ((power_state_init True)\<lparr>view := POWER_VIEW_LOCKED, locked := True\<rparr>)
     [PowerPress 0, PowerUpdate 3000, PowerRelease 3100])"
  by (rule countdown_leaves_lock_screen) (simp_all add: power_eval)

text \<open>
  The timeout the main loop sleeps for is exact: nothing happens at any
  earlier update, and the update at its end opens the countdown.
\<close>

theorem power_timeout_exact:
  assumes "power_held s" "view s \<noteq> POWER_VIEW_SHUTDOWN_COUNTDOWN"
    and "now - power_pressed_at s < POWER_HOLD_MS"
  shows "0 < power_next_timeout_ms s now \<and>
    (\<forall>k. int k < power_next_timeout_ms s now \<longrightarrow>
       power_update s (now + of_nat k) = (s, POWER_ACTION_NONE)) \<and>
    view (fst (power_update s (now + of_nat (nat (power_next_timeout_ms s now))))) =
      POWER_VIEW_SHUTDOWN_COUNTDOWN"
proof -
  let ?e = "now - power_pressed_at s"
  have small: "POWER_HOLD_MS < 0x80000000" by (simp add: power_time_defs)
  have "\<not> now - (power_pressed_at s + POWER_HOLD_MS) < 0x80000000"
    using tick_not_yet [OF assms(3) small] by (simp add: algebra_simps)
  define n where "n = unat POWER_HOLD_MS - unat ?e"
  from \<open>\<not> now - _ < _\<close> have w: "power_next_timeout_ms s now = int n"
    using assms tick_left_sint [OF assms(3) small]
    by (simp add: power_next_timeout_ms_def algebra_simps n_def)
  have early: "power_update s (now + of_nat k) = (s, POWER_ACTION_NONE)" if "k < n" for k
    using tick_add_less [OF assms(3), of k] that assms(1,2)
    by (simp add: power_update_def algebra_simps linorder_not_le [symmetric] n_def)
  have "view (fst (power_update s (now + of_nat n))) = POWER_VIEW_SHUTDOWN_COUNTDOWN"
    using tick_add_eq [OF assms(3)] assms(1,2) by (simp add: power_update_def algebra_simps n_def)
  moreover have "0 < n" using assms(3) by (simp add: word_less_nat_alt n_def)
  ultimately show ?thesis using w early by simp
qed

theorem power_timeout_exact_witness:
  "power_update ((power_state_init True)\<lparr>power_held := True, power_pressed_at := 100\<rparr>) (150 + of_nat 10) =
     ((power_state_init True)\<lparr>power_held := True, power_pressed_at := 100\<rparr>, POWER_ACTION_NONE) \<and>
   view (fst (power_update ((power_state_init True)\<lparr>power_held := True, power_pressed_at := 100\<rparr>)
       (150 + of_nat (nat (power_next_timeout_ms
          ((power_state_init True)\<lparr>power_held := True, power_pressed_at := 100\<rparr>) 150))))) =
      POWER_VIEW_SHUTDOWN_COUNTDOWN"
proof -
  let ?s = "(power_state_init True)\<lparr>power_held := True, power_pressed_at := 100\<rparr>"
  have t: "power_next_timeout_ms ?s 150 = 2950"
    by (simp add: power_next_timeout_ms_def power_eval)
  show ?thesis using power_timeout_exact [of ?s 150] by (simp add: t) (simp add: power_eval)
qed

end
