(* ===== verification/Power_UI.thy ===== *)
theory Power_UI
  imports Power_State
begin

text \<open>
  The callers of the power machine: the filter in front of the dedicated
  power-key device (\<^verbatim>\<open>power_input_filter.c\<close>), the event loop that feeds it
  (\<^verbatim>\<open>input.c\<close>) and the code that carries actions out through the settings
  backend (\<^verbatim>\<open>power_ui.c\<close>). The backend callbacks are values of the model:
  \<open>None\<close> is a null pointer, a number is the error the callback returns.
\<close>

section \<open>The evdev filter\<close>

record power_input_filter =
  sync_lost :: bool
  suppress_until_up :: bool

datatype power_input_filter_action = POWER_INPUT_FILTER_NONE | POWER_INPUT_FILTER_PRESS
  | POWER_INPUT_FILTER_RELEASE | POWER_INPUT_FILTER_CANCEL | POWER_INPUT_FILTER_RESYNC

definition EV_SYN :: u16 where "EV_SYN = 0"
definition EV_KEY :: u16 where "EV_KEY = 1"
definition SYN_REPORT :: u16 where "SYN_REPORT = 0"
definition SYN_DROPPED :: u16 where "SYN_DROPPED = 3"
definition KEY_POWER :: u16 where "KEY_POWER = 116"

lemmas evdev_code_defs = EV_SYN_def EV_KEY_def SYN_REPORT_def SYN_DROPPED_def KEY_POWER_def

definition power_input_filter_init :: power_input_filter where
  "power_input_filter_init = \<lparr>sync_lost = False, suppress_until_up = False\<rparr>"

definition power_input_filter_event ::
    "power_input_filter \<Rightarrow> u16 \<Rightarrow> u16 \<Rightarrow> int \<Rightarrow> power_input_filter \<times> power_input_filter_action" where
  "power_input_filter_event f ty code val =
    (if ty = EV_SYN \<and> code = SYN_DROPPED then
       (f\<lparr>sync_lost := True, suppress_until_up := True\<rparr>, POWER_INPUT_FILTER_CANCEL)
     else if sync_lost f then
       (f, if ty = EV_SYN \<and> code = SYN_REPORT then POWER_INPUT_FILTER_RESYNC
           else POWER_INPUT_FILTER_NONE)
     else if ty \<noteq> EV_KEY \<or> code \<noteq> KEY_POWER then (f, POWER_INPUT_FILTER_NONE)
     else if suppress_until_up f then
       (if val = 0 then f\<lparr>suppress_until_up := False\<rparr> else f, POWER_INPUT_FILTER_NONE)
     else if val = 1 then (f, POWER_INPUT_FILTER_PRESS)
     else if val = 0 then (f, POWER_INPUT_FILTER_RELEASE)
     else (f, POWER_INPUT_FILTER_NONE))"

definition power_input_filter_resync :: "power_input_filter \<Rightarrow> bool \<Rightarrow> power_input_filter" where
  "power_input_filter_resync f pressed = f\<lparr>sync_lost := False, suppress_until_up := pressed\<rparr>"

definition power_input_filter_fault ::
    "power_input_filter \<Rightarrow> power_input_filter \<times> power_input_filter_action" where
  "power_input_filter_fault f = (power_input_filter_init, POWER_INPUT_FILTER_CANCEL)"

definition power_input_ignore_sdl :: "bool \<Rightarrow> bool \<Rightarrow> bool \<Rightarrow> bool" where
  "power_input_ignore_sdl dedicated raw_gamepad is_power_key =
    (if is_power_key then dedicated else raw_gamepad)"

section \<open>Carrying actions out\<close>

definition ENODEV :: int where "ENODEV = 19"

record power_backend =
  set_screen_off :: "(bool \<Rightarrow> int) option"
  request_shutdown :: "int option"

datatype ui_effect = RenderActivate string | BackendError string int | Chime int | PersistLocale

record power_ui =
  ui_power :: power_state
  screen_off :: bool
  screen_lock_enabled :: bool

definition backend_screen :: "power_backend \<Rightarrow> bool \<Rightarrow> int" where
  "backend_screen b off = (case set_screen_off b of None \<Rightarrow> ENODEV | Some f \<Rightarrow> f off)"

definition backend_shutdown :: "power_backend \<Rightarrow> int" where
  "backend_shutdown b = (case request_shutdown b of None \<Rightarrow> ENODEV | Some e \<Rightarrow> e)"

definition apply_backlight_off :: "power_backend \<Rightarrow> power_ui \<Rightarrow> power_ui \<times> ui_effect list" where
  "apply_backlight_off b ui =
    (let err = backend_screen b True in
     if err = 0 then (ui\<lparr>screen_off := True\<rparr>, [])
     else (ui\<lparr>screen_off := False, ui_power := (ui_power ui)\<lparr>view := POWER_VIEW_ACTIVE, locked := False\<rparr>\<rparr>,
           [BackendError ''screen_power'' err]))"

definition apply_backlight_on :: "power_backend \<Rightarrow> power_ui \<Rightarrow> power_ui \<times> ui_effect list" where
  "apply_backlight_on b ui =
    (let err = backend_screen b False in
     if err = 0 then (ui\<lparr>screen_off := False\<rparr>, [])
     else (ui\<lparr>screen_off := True, ui_power := (ui_power ui)\<lparr>view := POWER_VIEW_SCREEN_OFF\<rparr>\<rparr>,
           [BackendError ''screen_power'' err]))"

definition apply_shutdown :: "power_backend \<Rightarrow> power_ui \<Rightarrow> power_ui \<times> ui_effect list" where
  "apply_shutdown b ui =
    (let err = backend_shutdown b in
     if err = 0 then (ui, [])
     else (ui\<lparr>ui_power := fst (power_cancel_shutdown (ui_power ui))\<rparr>, [BackendError ''orderly_shutdown'' err]))"

text \<open>The five tests of \<open>power_ui_apply\<close>, in the order the code makes them.\<close>

definition power_ui_apply :: "power_backend \<Rightarrow> power_ui \<Rightarrow> u32 \<Rightarrow> power_ui \<times> ui_effect list" where
  "power_ui_apply b ui actions =
    (let (ui1, e1) = (if actions AND POWER_ACTION_BACKLIGHT_OFF \<noteq> 0
                      then apply_backlight_off b ui else (ui, []));
         (ui2, e2) = (if actions AND POWER_ACTION_BACKLIGHT_ON \<noteq> 0
                      then apply_backlight_on b ui1 else (ui1, []));
         e3 = (if actions AND POWER_ACTION_LOCK_PROGRESS \<noteq> 0
               then [Chime (1640 + unlock_progress (ui_power ui2) * 100)] else []);
         (ui4, e4) = (if actions AND POWER_ACTION_REQUEST_SHUTDOWN \<noteq> 0
                      then apply_shutdown b ui2 else (ui2, []));
         e5 = (if actions AND POWER_ACTION_CANCEL_SHUTDOWN \<noteq> 0 then [RenderActivate ''back''] else [])
     in (ui4, e1 @ e2 @ e3 @ e4 @ e5))"

text \<open>Every caller has this shape: one operation of the machine, then its actions.\<close>

definition power_ui_do ::
    "power_backend \<Rightarrow> power_ui \<Rightarrow> (power_state \<Rightarrow> power_state \<times> u32) \<Rightarrow> power_ui \<times> ui_effect list" where
  "power_ui_do b ui f = (let (p, a) = f (ui_power ui) in power_ui_apply b (ui\<lparr>ui_power := p\<rparr>) a)"

definition SDLK_ESCAPE :: int where "SDLK_ESCAPE = 27"
definition SDLK_POWER :: int where "SDLK_POWER = 0x40000066"
definition SDLK_VOLUMEUP :: int where "SDLK_VOLUMEUP = 0x40000080"
definition SDLK_VOLUMEDOWN :: int where "SDLK_VOLUMEDOWN = 0x40000081"
definition SDLK_AUDIOMUTE :: int where "SDLK_AUDIOMUTE = 0x40000106"

lemmas sdlk_defs = SDLK_ESCAPE_def SDLK_POWER_def SDLK_VOLUMEUP_def SDLK_VOLUMEDOWN_def
  SDLK_AUDIOMUTE_def

definition unlock_eligible :: "int \<Rightarrow> bool" where
  "unlock_eligible key \<longleftrightarrow> key \<noteq> SDLK_POWER \<and> key \<noteq> SDLK_VOLUMEUP \<and>
     key \<noteq> SDLK_VOLUMEDOWN \<and> key \<noteq> SDLK_AUDIOMUTE"

definition power_ui_handle_key ::
    "power_backend \<Rightarrow> power_ui \<Rightarrow> int \<Rightarrow> tick \<Rightarrow> (power_ui \<times> ui_effect list) \<times> bool" where
  "power_ui_handle_key b ui key now =
    (if key = SDLK_POWER then (power_ui_do b ui (\<lambda>p. power_button_press p now), True)
     else if view (ui_power ui) = POWER_VIEW_SHUTDOWN_COUNTDOWN then
       (if key = SDLK_ESCAPE then power_ui_do b ui power_cancel_shutdown else (ui, []), True)
     else if view (ui_power ui) = POWER_VIEW_LOCKED then
       (power_ui_do b ui (\<lambda>p. power_lock_key p key (unlock_eligible key) now), True)
     else ((ui, []), view (ui_power ui) = POWER_VIEW_SCREEN_OFF))"

definition power_ui_toggle_screen_lock ::
    "power_backend \<Rightarrow> power_ui \<Rightarrow> power_ui \<times> ui_effect list" where
  "power_ui_toggle_screen_lock b ui =
    (let enabled = (\<not> screen_lock_enabled ui);
         (ui1, e) = power_ui_do b (ui\<lparr>screen_lock_enabled := enabled\<rparr>)
                      (\<lambda>p. power_set_lock_enabled p enabled)
     in (ui1, e @ [PersistLocale, RenderActivate (if enabled then ''lock_on'' else ''lock_off''),
                   Chime (if enabled then 1870 else 1640)]))"

text \<open>The idle check of the main loop (\<^verbatim>\<open>main.c\<close>), once its timeout is zero.\<close>

definition idle_screen_off :: "power_backend \<Rightarrow> power_ui \<Rightarrow> power_ui \<times> ui_effect list" where
  "idle_screen_off b ui =
    (let (p, actions) = power_auto_screen_off (ui_power ui); ui1 = ui\<lparr>ui_power := p\<rparr> in
     if actions \<noteq> POWER_ACTION_NONE then power_ui_apply b ui1 actions else (ui1, []))"

section \<open>The power device\<close>

record power_input =
  pin_ui :: power_ui
  pin_filter :: power_input_filter
  pin_open :: bool
  pin_retry_at :: tick
  pin_activity_at :: tick

definition cancel_uncertain_power_press :: "power_backend \<Rightarrow> power_ui \<Rightarrow> power_ui" where
  "cancel_uncertain_power_press b ui =
    (let ui1 = (if view (ui_power ui) = POWER_VIEW_SHUTDOWN_COUNTDOWN
                then fst (power_ui_do b ui power_cancel_shutdown) else ui)
     in ui1\<lparr>ui_power := (ui_power ui1)\<lparr>power_held := False, shutdown_requested := False\<rparr>\<rparr>)"

definition power_input_fault :: "power_backend \<Rightarrow> power_input \<Rightarrow> tick \<Rightarrow> power_input" where
  "power_input_fault b d now =
     d\<lparr>pin_open := False, pin_filter := fst (power_input_filter_fault (pin_filter d)),
       pin_retry_at := now + 1000, pin_ui := cancel_uncertain_power_press b (pin_ui d)\<rparr>"

text \<open>
  One input event of \<open>handle_power_evdev\<close>. \<open>level\<close> is what \<open>power_key_pressed\<close>
  answers for a resynchronisation at that event: \<open>None\<close> is an ioctl failure,
  after which the loop returns.
\<close>

definition power_evdev_event ::
    "power_backend \<Rightarrow> tick \<Rightarrow> power_input \<Rightarrow> u16 \<times> u16 \<times> int \<Rightarrow> bool option \<Rightarrow> power_input" where
  "power_evdev_event b now d ev level =
    (case ev of (ty, code, val) \<Rightarrow>
      (let (f, action) = power_input_filter_event (pin_filter d) ty code val;
           d1 = d\<lparr>pin_filter := f\<rparr> in
       case action of
         POWER_INPUT_FILTER_CANCEL \<Rightarrow> d1\<lparr>pin_ui := cancel_uncertain_power_press b (pin_ui d1)\<rparr>
       | POWER_INPUT_FILTER_RESYNC \<Rightarrow>
           (case level of None \<Rightarrow> power_input_fault b d1 now
            | Some pressed \<Rightarrow> d1\<lparr>pin_filter := power_input_filter_resync (pin_filter d1) pressed\<rparr>)
       | POWER_INPUT_FILTER_PRESS \<Rightarrow>
           d1\<lparr>pin_activity_at := now,
             pin_ui := fst (power_ui_do b (pin_ui d1) (\<lambda>p. power_button_press p now))\<rparr>
       | POWER_INPUT_FILTER_RELEASE \<Rightarrow>
           d1\<lparr>pin_activity_at := now,
             pin_ui := fst (power_ui_do b (pin_ui d1) (\<lambda>p. power_button_release p now))\<rparr>
       | POWER_INPUT_FILTER_NONE \<Rightarrow> d1))"

text \<open>A batch of events; the loop stops at the first fault, which closes the device.\<close>

fun power_evdev_batch ::
    "power_backend \<Rightarrow> tick \<Rightarrow> power_input \<Rightarrow> ((u16 \<times> u16 \<times> int) \<times> bool option) list \<Rightarrow> power_input" where
  "power_evdev_batch b now d [] = d"
| "power_evdev_batch b now d ((ev, level) # evs) =
     (let d1 = power_evdev_event b now d ev level in
      if pin_open d1 then power_evdev_batch b now d1 evs else d1)"

text \<open>
  \<open>handle_power_evdev\<close>: \<open>reopened\<close> is whether \<open>open_evdev_power\<close> finds the
  device again, \<open>reads\<close> the events the device delivers before it would block
  and \<open>fault\<close> whether reading then ends with an error or end of file.
\<close>

definition handle_power_evdev ::
    "power_backend \<Rightarrow> bool \<Rightarrow> ((u16 \<times> u16 \<times> int) \<times> bool option) list \<Rightarrow> bool \<Rightarrow> power_input \<Rightarrow> tick \<Rightarrow>
     power_input \<times> bool" where
  "handle_power_evdev b reopened reads fault d now =
    (if \<not> pin_open d then
       (if 0 \<le> sint (now - pin_retry_at d) then
          if reopened then d\<lparr>pin_open := True\<rparr> else d\<lparr>pin_retry_at := now + 1000\<rparr>
        else d, False)
     else
       let d1 = power_evdev_batch b now d reads;
           d2 = (if pin_open d1 \<and> fault then power_input_fault b d1 now else d1)
       in (d2, reads \<noteq> []))"

definition input_handle_power_events ::
    "power_backend \<Rightarrow> bool \<Rightarrow> ((u16 \<times> u16 \<times> int) \<times> bool option) list \<Rightarrow> bool \<Rightarrow> power_input \<Rightarrow> tick \<Rightarrow>
     power_input \<times> bool" where
  "input_handle_power_events b reopened reads fault d now =
    (let (d1, activity) = handle_power_evdev b reopened reads fault d now;
         (p, actions) = power_update (ui_power (pin_ui d1)) now;
         ui1 = fst (power_ui_apply b ((pin_ui d1)\<lparr>ui_power := p\<rparr>) actions)
     in (d1\<lparr>pin_ui := ui1\<rparr>, activity \<or> actions \<noteq> POWER_ACTION_NONE))"

section \<open>The backlight follows the view\<close>

definition power_ui_inv :: "power_ui \<Rightarrow> bool" where
  "power_ui_inv ui \<longleftrightarrow> power_inv (ui_power ui) \<and>
     (screen_off ui \<longleftrightarrow> view (ui_power ui) = POWER_VIEW_SCREEN_OFF)"

lemmas power_ui_defs = power_ui_do_def power_ui_apply_def apply_backlight_off_def
  apply_backlight_on_def apply_shutdown_def

lemma power_inv_screen_off: "power_inv p \<Longrightarrow> power_inv (p\<lparr>view := POWER_VIEW_SCREEN_OFF\<rparr>)"
  by (simp add: power_inv_def)

lemma power_inv_active: "power_inv p \<Longrightarrow> power_inv (p\<lparr>view := POWER_VIEW_ACTIVE, locked := False\<rparr>)"
  by (simp add: power_inv_def)

lemma power_inv_cancel: "power_inv p \<Longrightarrow> power_inv (fst (power_cancel_shutdown p))"
  using power_step_inv [of p CancelShutdown] by simp

lemma cancel_view: "view (fst (power_cancel_shutdown p)) = POWER_VIEW_SCREEN_OFF \<longleftrightarrow>
    view p = POWER_VIEW_SCREEN_OFF"
  by (simp add: power_cancel_shutdown_def)

text \<open>What a machine step asks of the backlight, for the state it starts in.\<close>

lemma step_backlight_off:
  "snd (power_step p e) AND POWER_ACTION_BACKLIGHT_OFF \<noteq> 0 \<longleftrightarrow>
   view p \<noteq> POWER_VIEW_SCREEN_OFF \<and> view (fst (power_step p e)) = POWER_VIEW_SCREEN_OFF"
  by (cases e) (auto simp: power_op_defs power_action_defs Let_def)

lemma step_backlight_on:
  "snd (power_step p e) AND POWER_ACTION_BACKLIGHT_ON \<noteq> 0 \<longleftrightarrow>
   view p = POWER_VIEW_SCREEN_OFF \<and> view (fst (power_step p e)) \<noteq> POWER_VIEW_SCREEN_OFF"
  by (cases e) (auto simp: power_op_defs power_action_defs Let_def)

lemma power_ui_do_inv:
  assumes "power_ui_inv ui"
  shows "power_ui_inv (fst (power_ui_do b ui (\<lambda>p. power_step p e)))"
proof -
  obtain p a where pa: "power_step (ui_power ui) e = (p, a)" by fastforce
  have p: "power_inv p" using assms power_step_inv [of "ui_power ui" e] pa by (simp add: power_ui_inv_def)
  note bl = step_backlight_off [of "ui_power ui" e] step_backlight_on [of "ui_power ui" e]
  show ?thesis
    using assms p bl pa
    by (auto simp: power_ui_inv_def power_ui_defs Let_def power_inv_screen_off power_inv_active
        power_inv_cancel cancel_view)
qed

lemmas power_ui_op_inv =
  power_ui_do_inv [where e = "PowerPress t" for t, simplified]
  power_ui_do_inv [where e = "PowerRelease t" for t, simplified]
  power_ui_do_inv [where e = "PowerUpdate t" for t, simplified]
  power_ui_do_inv [where e = "LockKey k el t" for k el t, simplified]
  power_ui_do_inv [where e = CancelShutdown, simplified]
  power_ui_do_inv [where e = AutoScreenOff, simplified]
  power_ui_do_inv [where e = "SetLock l" for l, simplified]

lemma power_ui_handle_key_inv:
  "power_ui_inv ui \<Longrightarrow> power_ui_inv (fst (fst (power_ui_handle_key b ui key now)))"
  by (simp add: power_ui_handle_key_def power_ui_op_inv)

lemma power_ui_toggle_inv: "power_ui_inv ui \<Longrightarrow> power_ui_inv (fst (power_ui_toggle_screen_lock b ui))"
  by (auto simp: power_ui_toggle_screen_lock_def Let_def split_beta
      intro!: power_ui_op_inv) (simp add: power_ui_inv_def)

lemma power_ui_apply_none [simp]: "power_ui_apply b ui POWER_ACTION_NONE = (ui, [])"
  by (simp add: power_ui_apply_def power_action_defs)

lemma idle_screen_off_eq: "fst (idle_screen_off b ui) = fst (power_ui_do b ui power_auto_screen_off)"
  by (simp add: idle_screen_off_def power_ui_do_def Let_def split_beta)

lemma cancel_uncertain_inv: "power_ui_inv ui \<Longrightarrow> power_ui_inv (cancel_uncertain_power_press b ui)"
  by (auto simp: cancel_uncertain_power_press_def Let_def power_ui_inv_def power_inv_def power_ui_defs
      power_cancel_shutdown_def power_action_defs)

lemma power_evdev_event_inv:
  "power_ui_inv (pin_ui d) \<Longrightarrow> power_ui_inv (pin_ui (power_evdev_event b now d ev level))"
  by (auto simp: power_evdev_event_def Let_def split_beta power_input_fault_def cancel_uncertain_inv
      power_ui_op_inv split: power_input_filter_action.split option.split prod.split)

lemma power_evdev_batch_inv:
  "power_ui_inv (pin_ui d) \<Longrightarrow> power_ui_inv (pin_ui (power_evdev_batch b now d evs))"
  by (induction b now d evs rule: power_evdev_batch.induct) (auto simp: Let_def power_evdev_event_inv)

lemma input_handle_power_events_inv:
  "power_ui_inv (pin_ui d) \<Longrightarrow>
   power_ui_inv (pin_ui (fst (input_handle_power_events b reopened reads fault d now)))"
proof -
  assume inv: "power_ui_inv (pin_ui d)"
  let ?d = "fst (handle_power_evdev b reopened reads fault d now)"
  have "power_ui_inv (pin_ui ?d)"
    using inv by (auto simp: handle_power_evdev_def Let_def power_input_fault_def
        power_evdev_batch_inv cancel_uncertain_inv)
  from power_ui_op_inv(3) [OF this, of b now] show ?thesis
    by (simp add: input_handle_power_events_def power_ui_do_def Let_def split_beta)
qed

text \<open>
  The shell as one machine: keys, the SDL power-key release, the lock switch of
  the settings page, the idle check and the polling of the power device, each
  with the results the backend happens to give.
\<close>

datatype power_ui_event = UiKey int tick | UiPowerUp tick | UiToggleLock | UiIdle
  | UiPoll bool "((u16 \<times> u16 \<times> int) \<times> bool option) list" bool tick

fun power_ui_step ::
    "power_input \<Rightarrow> power_backend \<times> power_ui_event \<Rightarrow> power_input \<times> ui_effect list" where
  "power_ui_step d (b, UiKey key now) =
     (let ((ui, e), _) = power_ui_handle_key b (pin_ui d) key now in (d\<lparr>pin_ui := ui\<rparr>, e))"
| "power_ui_step d (b, UiPowerUp now) =
     (let (ui, e) = power_ui_do b (pin_ui d) (\<lambda>p. power_button_release p now) in (d\<lparr>pin_ui := ui\<rparr>, e))"
| "power_ui_step d (b, UiToggleLock) =
     (let (ui, e) = power_ui_toggle_screen_lock b (pin_ui d) in (d\<lparr>pin_ui := ui\<rparr>, e))"
| "power_ui_step d (b, UiIdle) =
     (let (ui, e) = idle_screen_off b (pin_ui d) in (d\<lparr>pin_ui := ui\<rparr>, e))"
| "power_ui_step d (b, UiPoll reopened reads fault now) =
     (fst (input_handle_power_events b reopened reads fault d now), [])"

lemma power_ui_step_inv:
  "power_ui_inv (pin_ui d) \<Longrightarrow> power_ui_inv (pin_ui (fst (power_ui_step d e)))"
  by (cases "(d, e)" rule: power_ui_step.cases)
    (simp_all add: Let_def split_beta power_ui_handle_key_inv power_ui_op_inv power_ui_toggle_inv
      idle_screen_off_eq input_handle_power_events_inv)

interpretation pui: machine_inv power_ui_step "\<lambda>d. power_ui_inv (pin_ui d)"
  by unfold_locales (rule power_ui_step_inv)

definition power_input_init :: "bool \<Rightarrow> power_input" where
  "power_input_init enabled = \<lparr>pin_ui = \<lparr>ui_power = power_state_init enabled, screen_off = False,
     screen_lock_enabled = enabled\<rparr>, pin_filter = power_input_filter_init, pin_open = True,
     pin_retry_at = 0, pin_activity_at = 0\<rparr>"

text \<open>
  C25: whatever keys arrive and whatever the backlight and shutdown backends
  answer, the recorded backlight state is off exactly when the view is the
  dark screen, and the machine's own invariant holds.
\<close>

theorem backlight_follows_view:
  "power_ui_inv (pin_ui (run power_ui_step (power_input_init enabled) es))"
  by (rule pui.run_invar) (simp add: power_ui_inv_def power_input_init_def power_inv_init view_init)

section \<open>Lost synchronisation\<close>

definition power_idle :: "power_input \<Rightarrow> bool" where
  "power_idle d \<longleftrightarrow> sync_lost (pin_filter d) \<and> \<not> power_held (ui_power (pin_ui d)) \<and>
     view (ui_power (pin_ui d)) \<noteq> POWER_VIEW_SHUTDOWN_COUNTDOWN"

lemma cancel_uncertain_idle:
  "\<not> power_held (ui_power (cancel_uncertain_power_press b ui)) \<and>
   view (ui_power (cancel_uncertain_power_press b ui)) \<noteq> POWER_VIEW_SHUTDOWN_COUNTDOWN"
  by (auto simp: cancel_uncertain_power_press_def Let_def power_ui_defs power_cancel_shutdown_def
      power_action_defs)

lemma power_evdev_dropped_idle:
  "power_idle (power_evdev_event b now d (EV_SYN, SYN_DROPPED, v) level)"
  by (simp add: power_evdev_event_def power_idle_def power_input_filter_event_def Let_def
      cancel_uncertain_idle)

lemma power_evdev_event_idle:
  assumes "power_idle d" "fst ev \<noteq> EV_SYN \<or> fst (snd ev) \<noteq> SYN_REPORT"
  shows "power_idle (power_evdev_event b now d ev level) \<and>
    pin_open (power_evdev_event b now d ev level) = pin_open d"
  using assms by (cases ev) (auto simp: power_evdev_event_def power_idle_def
      power_input_filter_event_def Let_def cancel_uncertain_idle)

lemma power_evdev_batch_idle:
  assumes "power_idle d" "\<forall>ev \<in> set evs. fst (fst ev) \<noteq> EV_SYN \<or> fst (snd (fst ev)) \<noteq> SYN_REPORT"
  shows "power_idle (power_evdev_batch b now d evs)"
  using assms
proof (induction evs arbitrary: d)
  case (Cons x evs)
  obtain ev level where x: "x = (ev, level)" by fastforce
  have "power_idle (power_evdev_event b now d ev level)"
    using power_evdev_event_idle [OF Cons.prems(1)] Cons.prems(2) x by simp
  with Cons x show ?case by (simp add: Let_def)
qed simp

text \<open>
  When the kernel reports dropped events, the shutdown countdown is
  abandoned and no later event of the batch counts as a press until the report
  that ends the gap: the button is not held and no countdown runs.
\<close>

theorem dropped_events_cancel_power:
  assumes "pin_open d"
    and "\<forall>ev \<in> set evs. fst (fst ev) \<noteq> EV_SYN \<or> fst (snd (fst ev)) \<noteq> SYN_REPORT"
  shows "\<not> power_held (ui_power (pin_ui (power_evdev_batch b now d (((EV_SYN, SYN_DROPPED, v), level) # evs))))
    \<and> view (ui_power (pin_ui (power_evdev_batch b now d (((EV_SYN, SYN_DROPPED, v), level) # evs))))
      \<noteq> POWER_VIEW_SHUTDOWN_COUNTDOWN"
proof -
  let ?d = "power_evdev_event b now d (EV_SYN, SYN_DROPPED, v) level"
  have "power_idle (power_evdev_batch b now ?d evs)"
    by (rule power_evdev_batch_idle [OF power_evdev_dropped_idle assms(2)])
  moreover have "power_idle ?d" by (rule power_evdev_dropped_idle)
  ultimately show ?thesis by (auto simp: Let_def power_idle_def)
qed

theorem dropped_events_cancel_power_witness:
  "\<not> power_held (ui_power (pin_ui (power_evdev_batch \<lparr>set_screen_off = None, request_shutdown = None\<rparr> 5000
        (power_input_init True) (((EV_SYN, SYN_DROPPED, 0), None) # [((EV_KEY, KEY_POWER, 1), None)])))) \<and>
   view (ui_power (pin_ui (power_evdev_batch \<lparr>set_screen_off = None, request_shutdown = None\<rparr> 5000
        (power_input_init True) (((EV_SYN, SYN_DROPPED, 0), None) # [((EV_KEY, KEY_POWER, 1), None)]))))
     \<noteq> POWER_VIEW_SHUTDOWN_COUNTDOWN"
  by (rule dropped_events_cancel_power) (simp_all add: power_input_init_def evdev_code_defs)

end
