(* ===== verification/Utf8.thy ===== *)
theory Utf8
  imports Prelude
begin

text \<open>
  UTF-8 as the code decodes it (\<open>utf8_next\<close> and \<open>ns_validate_utf8_text\<close> of
  \<^verbatim>\<open>components/netstream/src/netstream.c\<close>) against the encoding it stands
  for: \<open>utf8_encode\<close> is the standard's shortest form of a Unicode scalar
  value, and the decoder accepts exactly its images.
\<close>

section \<open>Bits of bytes\<close>

definition utf8_cont :: "char \<Rightarrow> bool" where
  "utf8_cont c \<longleftrightarrow> byte c AND 0xC0 = 0x80"

lemma and_push_bit: "(n :: nat) AND push_bit k m = push_bit k (drop_bit k n AND m)"
  by (rule bit_eqI) (auto simp: bit_and_iff bit_push_bit_iff bit_drop_bit_eq)

lemma and_C0_range: "n < 256 \<Longrightarrow> ((n :: nat) AND 0xC0 = 0x80) = (0x80 \<le> n \<and> n < 0xC0)"
proof -
  assume "n < 256"
  have "drop_bit 6 n AND 3 = n div 64 mod 4"
    using take_bit_eq_mask [of 2 "drop_bit 6 n"] by (simp add: take_bit_eq_mod mask_eq_exp_minus_1 drop_bit_eq_div)
  with and_push_bit [of n 6 3] have "n AND 0xC0 = n div 64 mod 4 * 64" by (simp add: push_bit_eq_mult)
  moreover from \<open>n < 256\<close> have "n div 64 < 4" by linarith
  ultimately have "n AND 0xC0 = n div 64 * 64" by simp
  moreover have "n div 64 * 64 = 0x80 \<longleftrightarrow> n div 64 = 2" by simp
  moreover have "n div 64 = 2 \<longleftrightarrow> 0x80 \<le> n \<and> n < 0xC0" by (auto simp: div_nat_eqI)
  ultimately show ?thesis by simp
qed

lemma utf8_cont_iff: "utf8_cont c \<longleftrightarrow> 0x80 \<le> byte c \<and> byte c < 0xC0"
  by (simp add: utf8_cont_def and_C0_range)

lemma and_masks:
  "(n :: nat) AND 0x3F = n mod 64" "(n :: nat) AND 0x1F = n mod 32"
  "(n :: nat) AND 0x0F = n mod 16" "(n :: nat) AND 0x07 = n mod 8"
  using take_bit_eq_mask [of 6 n] take_bit_eq_mask [of 5 n]
    take_bit_eq_mask [of 4 n] take_bit_eq_mask [of 3 n]
  by (simp_all add: take_bit_eq_mod mask_eq_exp_minus_1)

lemma push6_or: "push_bit 6 (x :: nat) OR y mod 64 = x * 64 + y mod 64"
  using push_bit_or_add [of "y mod 64" 6 x] by simp

lemma push6_or_less: "y < 64 \<Longrightarrow> push_bit 6 (x :: nat) OR y = x * 64 + y"
  using push_bit_or_add [of y 6 x] by simp

lemma base64_digits:
  fixes q :: nat
  shows "z < 64 \<Longrightarrow> (q * 64 + z) mod 64 = z" "z < 64 \<Longrightarrow> (q * 64 + z) div 64 = q"
    "n div 4096 = n div 64 div (64 :: nat)" "n div 262144 = n div 64 div 64 div (64 :: nat)"
  by (simp_all add: div_mult2_eq [symmetric])

lemma lead_mods:
  "(0xC0 + a) mod 32 = (a :: nat) mod 32" "(0xE0 + a) mod 16 = (a :: nat) mod 16"
  "(0xF0 + a) mod 8 = (a :: nat) mod 8" "(0x80 + a) mod 64 = (a :: nat) mod 64"
  using mod_mult_self2 [of a 32 6] mod_mult_self2 [of a 16 14] mod_mult_self2 [of a 8 30]
    mod_mult_self2 [of a 64 2]
  by (simp_all add: add.commute)

lemmas utf8_arith = and_masks push6_or lead_mods utf8_cont_iff

section \<open>The decoder\<close>

definition utf8_next :: "string \<Rightarrow> (nat \<times> string) option" where
  "utf8_next s = (case s of [] \<Rightarrow> None
    | c # p \<Rightarrow>
      if byte c < 0x80 then Some (byte c, p)
      else if 0xC2 \<le> byte c \<and> byte c \<le> 0xDF then
        (case p of c1 # r \<Rightarrow>
            if utf8_cont c1 then Some (push_bit 6 (byte c AND 0x1F) OR (byte c1 AND 0x3F), r) else None
          | _ \<Rightarrow> None)
      else if 0xE0 \<le> byte c \<and> byte c \<le> 0xEF then
        (case p of c1 # c2 # r \<Rightarrow>
            if \<not> utf8_cont c1 \<or> \<not> utf8_cont c2 then None
            else if (byte c = 0xE0 \<and> byte c1 < 0xA0) \<or> (byte c = 0xED \<and> 0xA0 \<le> byte c1) then None
            else Some (push_bit 6 (push_bit 6 (byte c AND 0x0F) OR (byte c1 AND 0x3F))
                         OR (byte c2 AND 0x3F), r)
          | _ \<Rightarrow> None)
      else if 0xF0 \<le> byte c \<and> byte c \<le> 0xF4 then
        (case p of c1 # c2 # c3 # r \<Rightarrow>
            if \<not> utf8_cont c1 \<or> \<not> utf8_cont c2 \<or> \<not> utf8_cont c3 then None
            else if (byte c = 0xF0 \<and> byte c1 < 0x90) \<or> (byte c = 0xF4 \<and> 0x90 \<le> byte c1) then None
            else Some (push_bit 6 (push_bit 6 (push_bit 6 (byte c AND 0x07) OR (byte c1 AND 0x3F))
                         OR (byte c2 AND 0x3F)) OR (byte c3 AND 0x3F), r)
          | _ \<Rightarrow> None)
      else None)"

lemma utf8_next_shorter: "utf8_next s = Some (cp, r) \<Longrightarrow> length r < length s"
  by (auto simp: utf8_next_def split: list.splits if_splits)

definition text_codepoint_ok :: "nat \<Rightarrow> bool" where
  "text_codepoint_ok cp \<longleftrightarrow> \<not> (cp \<le> 0x1F \<or> (0x7F \<le> cp \<and> cp \<le> 0x9F) \<or> cp = 0x2028 \<or>
     cp = 0x2029 \<or> (0x202A \<le> cp \<and> cp \<le> 0x202E) \<or> (0x2066 \<le> cp \<and> cp \<le> 0x2069) \<or>
     (0xFDD0 \<le> cp \<and> cp \<le> 0xFDEF) \<or> cp AND 0xFFFF = 0xFFFE \<or> cp AND 0xFFFF = 0xFFFF)"

function utf8_text_loop :: "string \<Rightarrow> bool" where
  "utf8_text_loop p = (if p = [] then True
     else case utf8_next p of None \<Rightarrow> False
       | Some (cp, r) \<Rightarrow> if text_codepoint_ok cp then utf8_text_loop r else False)"
  by pat_completeness auto
termination
  by (relation "measure length") (auto dest: utf8_next_shorter)

declare utf8_text_loop.simps [simp del]

definition ns_validate_utf8_text :: "string option \<Rightarrow> nat \<Rightarrow> nat \<Rightarrow> bool" where
  "ns_validate_utf8_text text min_bytes max_bytes = (case text of None \<Rightarrow> False
    | Some t \<Rightarrow>
      let len = strnlen t (max_bytes + 1) in
      if len < min_bytes \<or> max_bytes < len then False else utf8_text_loop (take len t))"

section \<open>The encoding it stands for\<close>

definition utf8_scalar :: "nat \<Rightarrow> bool" where
  "utf8_scalar cp \<longleftrightarrow> cp < 0xD800 \<or> (0xE000 \<le> cp \<and> cp < 0x110000)"

definition utf8_encode :: "nat \<Rightarrow> string" where
  "utf8_encode cp =
    (if cp < 0x80 then [char_of cp]
     else if cp < 0x800 then [char_of (0xC0 + cp div 64), char_of (0x80 + cp mod 64)]
     else if cp < 0x10000 then
       [char_of (0xE0 + cp div 4096), char_of (0x80 + cp div 64 mod 64), char_of (0x80 + cp mod 64)]
     else [char_of (0xF0 + cp div 262144), char_of (0x80 + cp div 4096 mod 64),
           char_of (0x80 + cp div 64 mod 64), char_of (0x80 + cp mod 64)])"

definition utf8_encodes :: "nat list \<Rightarrow> string" where
  "utf8_encodes cps = concat (map utf8_encode cps)"

lemma utf8_encodes_simps [simp]:
  "utf8_encodes [] = []" "utf8_encodes (cp # cps) = utf8_encode cp @ utf8_encodes cps"
  "utf8_encodes (xs @ ys) = utf8_encodes xs @ utf8_encodes ys"
  by (simp_all add: utf8_encodes_def)

lemma utf8_encode_nonempty [simp]: "utf8_encode cp \<noteq> []"
  by (simp add: utf8_encode_def)

section \<open>Decoding inverts encoding\<close>

lemma utf8_next_encode:
  assumes "utf8_scalar cp"
  shows "utf8_next (utf8_encode cp @ r) = Some (cp, r)"
proof -
  consider "cp < 0x80" | "0x80 \<le> cp" "cp < 0x800" | "0x800 \<le> cp" "cp < 0x10000"
    | "0x10000 \<le> cp" "cp < 0x110000"
    using assms unfolding utf8_scalar_def by linarith
  then show ?thesis
  proof cases
    case 1
    then show ?thesis by (simp add: utf8_encode_def utf8_next_def)
  next
    case 2
    then have "cp div 64 < 32" "2 \<le> cp div 64" by linarith+
    with 2 show ?thesis by (simp add: utf8_encode_def utf8_next_def utf8_arith)
  next
    case 3
    define a b c where "a = cp div 4096" and "b = cp div 64 mod 64" and "c = cp mod 64"
    have bc: "b < 64" "c < 64" unfolding b_def c_def by simp_all
    have cp: "cp = a * 4096 + b * 64 + c"
      using div_mult_mod_eq [of "cp div 64" 64] div_mult_mod_eq [of cp 64]
      unfolding a_def b_def c_def base64_digits(3) by linarith
    from 3 have a: "a < 16" unfolding a_def by linarith
    have "a = 0 \<Longrightarrow> 32 \<le> b" using 3 cp bc by linarith
    moreover have "a = 13 \<Longrightarrow> b < 32" using assms cp bc unfolding utf8_scalar_def by linarith
    ultimately show ?thesis using 3 a bc
      unfolding utf8_encode_def a_def [symmetric] b_def [symmetric] c_def [symmetric]
      by (auto simp: utf8_next_def utf8_arith push6_or_less cp simp del: push_bit_or)
  next
    case 4
    define a b c d where "a = cp div 262144" and "b = cp div 4096 mod 64" and "c = cp div 64 mod 64"
      and "d = cp mod 64"
    have bcd: "b < 64" "c < 64" "d < 64" unfolding b_def c_def d_def by simp_all
    have cp: "cp = a * 262144 + b * 4096 + c * 64 + d"
      using div_mult_mod_eq [of "cp div 64 div 64" 64] div_mult_mod_eq [of "cp div 64" 64]
        div_mult_mod_eq [of cp 64]
      unfolding a_def b_def c_def d_def base64_digits(3,4) by linarith
    from 4 have a: "a < 5" unfolding a_def by linarith
    have "a = 0 \<Longrightarrow> 16 \<le> b" using 4 cp bcd by linarith
    moreover have "a = 4 \<Longrightarrow> b < 16" using 4 cp bcd by linarith
    ultimately show ?thesis using 4 a bcd
      unfolding utf8_encode_def a_def [symmetric] b_def [symmetric] c_def [symmetric] d_def [symmetric]
      by (auto simp: utf8_next_def utf8_arith push6_or_less cp simp del: push_bit_or)
  qed
qed


lemma byte_offset:
  assumes "k \<le> byte c" "byte c < k + n"
  obtains x where "x < n" "byte c = k + x" "c = char_of (k + x)"
  using assms by (metis char_of_byte le_Suc_ex nat_add_left_cancel_less)

lemma utf8_cont_offset:
  assumes "utf8_cont c"
  obtains y where "y < 64" "byte c = 0x80 + y" "c = char_of (0x80 + y)"
proof -
  from assms have "0x80 \<le> byte c" "byte c < 0x80 + 64" by (simp_all add: utf8_cont_iff)
  then show thesis using that by (rule byte_offset)
qed

lemma utf8_next_sound2:
  assumes "utf8_next (c # p) = Some (cp, r)" "0xC2 \<le> byte c" "byte c \<le> 0xDF"
  shows "utf8_scalar cp \<and> c # p = utf8_encode cp @ r"
proof -
  from assms obtain c1 where p: "p = c1 # r" "utf8_cont c1" "cp = byte c mod 32 * 64 + byte c1 mod 64"
    by (auto simp: utf8_next_def and_masks push6_or split: list.splits if_splits)
  from assms(2,3) obtain x where x: "x < 32" "byte c = 0xC0 + x" "c = char_of (0xC0 + x)"
    using byte_offset [of "0xC0" c 32] by auto
  from p(2) obtain y where y: "y < 64" "byte c1 = 0x80 + y" "c1 = char_of (0x80 + y)"
    by (rule utf8_cont_offset)
  have cp: "cp = x * 64 + y" using p x y by (simp add: lead_mods)
  have "2 \<le> x" using assms(2) x by simp
  then show ?thesis using x(1,3) y(1,3) cp p by (simp add: utf8_encode_def utf8_scalar_def)
qed

lemma utf8_next_sound3:
  assumes "utf8_next (c # p) = Some (cp, r)" "0xE0 \<le> byte c" "byte c \<le> 0xEF"
  shows "utf8_scalar cp \<and> c # p = utf8_encode cp @ r"
proof -
  from assms obtain c1 c2 where p: "p = c1 # c2 # r" "utf8_cont c1" "utf8_cont c2"
    "byte c = 0xE0 \<longrightarrow> 0xA0 \<le> byte c1" "byte c = 0xED \<longrightarrow> byte c1 < 0xA0"
    "cp = (byte c mod 16 * 64 + byte c1 mod 64) * 64 + byte c2 mod 64"
    by (auto simp: utf8_next_def and_masks push6_or split: list.splits if_splits)
  from assms(2,3) obtain x where x: "x < 16" "byte c = 0xE0 + x" "c = char_of (0xE0 + x)"
    using byte_offset [of "0xE0" c 16] by auto
  from p(2) obtain y where y: "y < 64" "byte c1 = 0x80 + y" "c1 = char_of (0x80 + y)"
    by (rule utf8_cont_offset)
  from p(3) obtain z where z: "z < 64" "byte c2 = 0x80 + z" "c2 = char_of (0x80 + z)"
    by (rule utf8_cont_offset)
  have cq: "cp = (x * 64 + y) * 64 + z" using p x y z by (simp add: lead_mods)
  then have cp: "cp = x * 4096 + y * 64 + z" by simp
  have e0: "x = 0 \<Longrightarrow> 32 \<le> y" and ed: "x = 13 \<Longrightarrow> y < 32" using p(4,5) x(2) y(2) by simp_all
  have lo: "0x800 \<le> cp" using e0 unfolding cp by (cases "x = 0") simp_all
  have hi: "cp < 0x10000" using x(1) y(1) z(1) unfolding cp by linarith
  consider "x \<le> 12" | "x = 13" | "14 \<le> x" by linarith
  then have sc: "utf8_scalar cp"
    using ed y(1) z(1) hi unfolding cp utf8_scalar_def by cases (linarith | simp)+
  have "cp div 4096 = x" "cp div 64 mod 64 = y" "cp mod 64 = z"
    unfolding base64_digits(3,4) cq using y(1) z(1) by (simp_all only: base64_digits(1,2))
  with lo hi sc show ?thesis using x(3) y(3) z(3) p(1) by (simp add: utf8_encode_def)
qed

lemma utf8_next_sound4:
  assumes "utf8_next (c # p) = Some (cp, r)" "0xF0 \<le> byte c" "byte c \<le> 0xF4"
  shows "utf8_scalar cp \<and> c # p = utf8_encode cp @ r"
proof -
  from assms obtain c1 c2 c3 where p: "p = c1 # c2 # c3 # r" "utf8_cont c1" "utf8_cont c2" "utf8_cont c3"
    "byte c = 0xF0 \<longrightarrow> 0x90 \<le> byte c1" "byte c = 0xF4 \<longrightarrow> byte c1 < 0x90"
    "cp = ((byte c mod 8 * 64 + byte c1 mod 64) * 64 + byte c2 mod 64) * 64 + byte c3 mod 64"
    by (auto simp: utf8_next_def and_masks push6_or split: list.splits if_splits)
  from assms(2,3) obtain x where x: "x < 5" "byte c = 0xF0 + x" "c = char_of (0xF0 + x)"
    using byte_offset [of "0xF0" c 5] by auto
  from p(2) obtain y where y: "y < 64" "byte c1 = 0x80 + y" "c1 = char_of (0x80 + y)"
    by (rule utf8_cont_offset)
  from p(3) obtain z where z: "z < 64" "byte c2 = 0x80 + z" "c2 = char_of (0x80 + z)"
    by (rule utf8_cont_offset)
  from p(4) obtain w where w: "w < 64" "byte c3 = 0x80 + w" "c3 = char_of (0x80 + w)"
    by (rule utf8_cont_offset)
  have cq: "cp = ((x * 64 + y) * 64 + z) * 64 + w" using p x y z w by (simp add: lead_mods)
  then have cp: "cp = x * 262144 + y * 4096 + z * 64 + w" by simp
  have f0: "x = 0 \<Longrightarrow> 16 \<le> y" and f4: "x = 4 \<Longrightarrow> y < 16" using p(5,6) x(2) y(2) by simp_all
  have lo: "0x10000 \<le> cp" using f0 unfolding cp by (cases "x = 0") simp_all
  consider "x \<le> 3" | "x = 4" using x(1) by linarith
  then have hi: "cp < 0x110000" using f4 y(1) z(1) w(1) unfolding cp by cases (linarith | simp)+
  have "cp div 262144 = x" "cp div 4096 mod 64 = y" "cp div 64 mod 64 = z" "cp mod 64 = w"
    unfolding base64_digits(3,4) cq using y(1) z(1) w(1) by (simp_all only: base64_digits(1,2))
  with lo hi show ?thesis using x(3) y(3) z(3) w(3) p(1) by (simp add: utf8_encode_def utf8_scalar_def)
qed

lemma utf8_next_sound:
  assumes "utf8_next s = Some (cp, r)"
  shows "utf8_scalar cp \<and> s = utf8_encode cp @ r"
proof -
  from assms obtain c p where s: "s = c # p" by (cases s) (auto simp: utf8_next_def)
  consider "byte c < 0x80" | "0xC2 \<le> byte c" "byte c \<le> 0xDF" | "0xE0 \<le> byte c" "byte c \<le> 0xEF"
    | "0xF0 \<le> byte c" "byte c \<le> 0xF4"
    using assms s by (auto simp: utf8_next_def split: if_splits)
  then show ?thesis
  proof cases
    case 1
    with assms s show ?thesis by (auto simp: utf8_next_def utf8_encode_def utf8_scalar_def)
  qed (use assms s utf8_next_sound2 utf8_next_sound3 utf8_next_sound4 in blast)+
qed

section \<open>Validated text\<close>

lemma utf8_text_loop_step:
  "utf8_scalar cp \<Longrightarrow> utf8_text_loop (utf8_encode cp @ r) \<longleftrightarrow> text_codepoint_ok cp \<and> utf8_text_loop r"
  by (subst utf8_text_loop.simps) (simp add: utf8_next_encode)

lemma utf8_text_loop_nil [simp]: "utf8_text_loop []"
  by (simp add: utf8_text_loop.simps)

lemma utf8_text_loop_ascii:
  assumes "0x20 \<le> byte c" "byte c < 0x7F"
  shows "utf8_text_loop (c # r) \<longleftrightarrow> utf8_text_loop r"
proof -
  have "byte c AND 0xFFFF = byte c mod 65536"
    using take_bit_eq_mask [of 16 "byte c"] by (simp add: take_bit_eq_mod mask_eq_exp_minus_1)
  then have "text_codepoint_ok (byte c)" using assms by (auto simp: text_codepoint_ok_def)
  with assms show ?thesis by (subst utf8_text_loop.simps) (simp add: utf8_next_def)
qed

lemma utf8_text_loop_decodes:
  "utf8_text_loop p \<Longrightarrow>
   \<exists>cps. p = utf8_encodes cps \<and> list_all (\<lambda>cp. utf8_scalar cp \<and> text_codepoint_ok cp) cps"
proof (induction p rule: utf8_text_loop.induct)
  case (1 p)
  show ?case
  proof (cases "p = []")
    case True
    then show ?thesis by (intro exI [of _ "[]"]) simp
  next
    case False
    with "1.prems" obtain cp r where n: "utf8_next p = Some (cp, r)" "text_codepoint_ok cp"
      "utf8_text_loop r"
      by (subst (asm) utf8_text_loop.simps) (auto split: option.splits if_splits)
    from "1.IH" [OF False n(1) refl n(2,3)] obtain cps where
      "r = utf8_encodes cps" "list_all (\<lambda>cp. utf8_scalar cp \<and> text_codepoint_ok cp) cps" by blast
    with utf8_next_sound [OF n(1)] n(2) show ?thesis by (intro exI [of _ "cp # cps"]) simp
  qed
qed

lemma utf8_text_loop_iff: "utf8_text_loop p \<longleftrightarrow>
   (\<exists>cps. p = utf8_encodes cps \<and> list_all (\<lambda>cp. utf8_scalar cp \<and> text_codepoint_ok cp) cps)"
proof
  assume "\<exists>cps. p = utf8_encodes cps \<and> list_all (\<lambda>cp. utf8_scalar cp \<and> text_codepoint_ok cp) cps"
  then obtain cps where "p = utf8_encodes cps" "list_all (\<lambda>cp. utf8_scalar cp \<and> text_codepoint_ok cp) cps"
    by blast
  then show "utf8_text_loop p"
    by (induction cps arbitrary: p) (auto simp: utf8_text_loop_step)
qed (rule utf8_text_loop_decodes)

lemma ns_validate_utf8_text_Some:
  "ns_validate_utf8_text (Some t) lo hi \<longleftrightarrow> lo \<le> length t \<and> length t \<le> hi \<and> utf8_text_loop t"
  by (auto simp: ns_validate_utf8_text_def strnlen_def Let_def min_def)

lemma utf8_encode_bytes:
  assumes "c \<in> set (utf8_encode cp)" "utf8_scalar cp" "text_codepoint_ok cp"
  shows "0x20 \<le> byte c"
proof (rule ccontr)
  assume "\<not> 0x20 \<le> byte c"
  with assms(1) have "cp = byte c"
    by (auto simp: utf8_encode_def split: if_splits) (use assms(2) in \<open>auto simp: utf8_scalar_def\<close>)
  with \<open>\<not> 0x20 \<le> byte c\<close> assms(3) show False by (simp add: text_codepoint_ok_def)
qed

lemma utf8_text_bytes: "utf8_text_loop t \<Longrightarrow> c \<in> set t \<Longrightarrow> 0x20 \<le> byte c"
proof -
  assume "utf8_text_loop t" "c \<in> set t"
  then obtain cps where "t = concat (map utf8_encode cps)"
    and ok: "\<And>cp. cp \<in> set cps \<Longrightarrow> utf8_scalar cp \<and> text_codepoint_ok cp"
    by (auto simp: utf8_text_loop_iff utf8_encodes_def list_all_iff)
  with \<open>c \<in> set t\<close> obtain cp where "cp \<in> set cps" "c \<in> set (utf8_encode cp)" by auto
  with ok show ?thesis by (blast intro: utf8_encode_bytes)
qed

lemma utf8_text_clean:
  assumes "utf8_text_loop t"
  shows "NUL \<notin> set t" "TAB \<notin> set t" "LF \<notin> set t" "CR \<notin> set t"
  using utf8_text_bytes [OF assms] by fastforce+

text \<open>
  C19: text validation accepts a string exactly when its length is in range and
  it is the shortest-form UTF-8 encoding of Unicode scalar values none of which
  is a control, a bidirectional override, a line separator or a noncharacter.
\<close>

theorem validate_utf8_text_exact:
  "ns_validate_utf8_text (Some t) lo hi \<longleftrightarrow> lo \<le> length t \<and> length t \<le> hi \<and>
     (\<exists>cps. t = utf8_encodes cps \<and> list_all (\<lambda>cp. utf8_scalar cp \<and> text_codepoint_ok cp) cps)"
  by (simp add: ns_validate_utf8_text_Some utf8_text_loop_iff)

end
