(* ===== verification/Netstream_Validate.thy ===== *)
theory Netstream_Validate
  imports Utf8
begin

text \<open>
  Data model and validators of the streaming settings store
  (\<^verbatim>\<open>components/netstream\<close>): Wi-Fi profiles, streaming hosts, the names of
  their enumerations and what \<open>ns_validate_wifi\<close> and \<open>ns_validate_host\<close> accept.

  A C enumeration object can hold any integer, so each enumeration has an
  extra constructor for the values outside it. The text of an error message is
  the error; \<open>NoMessage\<close> is a failure that leaves the caller's buffer
  untouched. \<^verbatim>\<open>inet_pton\<close> is a parameter: nothing here depends on which
  numeric addresses it accepts.
\<close>

section \<open>Data\<close>

datatype ns_error = NoMessage | Message string

datatype ns_wifi_security = NS_WIFI_OPEN | NS_WIFI_WPA2_PSK | NS_WIFI_WPA3_SAE | NS_WIFI_INVALID int
datatype ns_codec = NS_CODEC_H264 | NS_CODEC_H265 | NS_CODEC_AV1 | NS_CODEC_INVALID int
datatype ns_aspect = NS_ASPECT_FIT | NS_ASPECT_FILL | NS_ASPECT_STRETCH | NS_ASPECT_INVALID int
datatype addr_family = AF_INET | AF_INET6

type_synonym inet_pton = "addr_family \<Rightarrow> string \<Rightarrow> bool"

definition NS_MAX_WIFI_PROFILES :: nat where "NS_MAX_WIFI_PROFILES = 64"
definition NS_MAX_HOSTS :: nat where "NS_MAX_HOSTS = 128"
definition NS_SSID_MAX_BYTES :: nat where "NS_SSID_MAX_BYTES = 32"
definition NS_WIFI_SECRET_MAX_BYTES :: nat where "NS_WIFI_SECRET_MAX_BYTES = 64"
definition NS_HOST_NAME_MAX_BYTES :: nat where "NS_HOST_NAME_MAX_BYTES = 96"
definition NS_HOST_ADDRESS_MAX_BYTES :: nat where "NS_HOST_ADDRESS_MAX_BYTES = 253"

lemmas ns_limits = NS_MAX_WIFI_PROFILES_def NS_MAX_HOSTS_def NS_SSID_MAX_BYTES_def
  NS_WIFI_SECRET_MAX_BYTES_def NS_HOST_NAME_MAX_BYTES_def NS_HOST_ADDRESS_MAX_BYTES_def

record ns_wifi_profile =
  ssid :: string
  security :: ns_wifi_security
  hidden :: int
  priority :: int
  secret :: string

record ns_resolution =
  width :: nat
  height :: nat
  custom :: int

record ns_host =
  h_name :: string
  h_address :: string
  paired :: int
  last_used :: nat
  resolution :: ns_resolution
  fps :: nat
  bitrate_kbps :: nat
  packet_size :: nat
  codec :: ns_codec
  aspect :: ns_aspect

section \<open>Names of enumerations\<close>

fun ns_wifi_security_name :: "ns_wifi_security \<Rightarrow> string option" where
  "ns_wifi_security_name NS_WIFI_OPEN = Some ''open''"
| "ns_wifi_security_name NS_WIFI_WPA2_PSK = Some ''wpa2-psk''"
| "ns_wifi_security_name NS_WIFI_WPA3_SAE = Some ''wpa3-sae''"
| "ns_wifi_security_name (NS_WIFI_INVALID v) = None"

fun ns_codec_name :: "ns_codec \<Rightarrow> string option" where
  "ns_codec_name NS_CODEC_H264 = Some ''H264''"
| "ns_codec_name NS_CODEC_H265 = Some ''H265''"
| "ns_codec_name NS_CODEC_AV1 = Some ''AV1''"
| "ns_codec_name (NS_CODEC_INVALID v) = None"

fun ns_aspect_name :: "ns_aspect \<Rightarrow> string option" where
  "ns_aspect_name NS_ASPECT_FIT = Some ''fit''"
| "ns_aspect_name NS_ASPECT_FILL = Some ''fill''"
| "ns_aspect_name NS_ASPECT_STRETCH = Some ''stretch''"
| "ns_aspect_name (NS_ASPECT_INVALID v) = None"

definition ns_parse_wifi_security :: "string \<Rightarrow> ns_wifi_security option" where
  "ns_parse_wifi_security t = (if t = ''open'' then Some NS_WIFI_OPEN
     else if t = ''wpa2-psk'' then Some NS_WIFI_WPA2_PSK
     else if t = ''wpa3-sae'' then Some NS_WIFI_WPA3_SAE else None)"

definition ns_parse_codec :: "string \<Rightarrow> ns_codec option" where
  "ns_parse_codec t = (if t = ''H264'' then Some NS_CODEC_H264
     else if t = ''H265'' then Some NS_CODEC_H265
     else if t = ''AV1'' then Some NS_CODEC_AV1 else None)"

definition ns_parse_aspect :: "string \<Rightarrow> ns_aspect option" where
  "ns_parse_aspect t = (if t = ''fit'' then Some NS_ASPECT_FIT
     else if t = ''fill'' then Some NS_ASPECT_FILL
     else if t = ''stretch'' then Some NS_ASPECT_STRETCH else None)"

definition ns_parse_bool :: "string \<Rightarrow> int option" where
  "ns_parse_bool t = (if t = ''true'' \<or> t = ''1'' then Some 1
     else if t = ''false'' \<or> t = ''0'' then Some 0 else None)"

text \<open>
  What a store needs of a named enumeration: parsing inverts naming, and a name
  is a clean field of a record (no tab, line feed or NUL).
\<close>

locale named_enum =
  fixes name_of :: "'a \<Rightarrow> string option"
    and parse :: "string \<Rightarrow> 'a option"
  assumes parse_name: "name_of v = Some t \<Longrightarrow> parse t = Some v"
    and name_parse: "parse t = Some v \<Longrightarrow> name_of v = Some t"
    and name_clean: "name_of v = Some t \<Longrightarrow> c \<in> set t \<Longrightarrow> 0x20 \<le> byte c"
    and name_short: "name_of v = Some t \<Longrightarrow> length t \<le> 8"
begin

lemma name_inj: "name_of v = Some t \<Longrightarrow> name_of w = Some t \<Longrightarrow> v = w"
  by (metis option.inject parse_name)

lemma name_no_separator: "name_of v = Some t \<Longrightarrow> TAB \<notin> set t \<and> LF \<notin> set t \<and> NUL \<notin> set t"
  using name_clean by fastforce

end

interpretation sec: named_enum ns_wifi_security_name ns_parse_wifi_security
proof
  fix v t c
  show "ns_wifi_security_name v = Some t \<Longrightarrow> ns_parse_wifi_security t = Some v"
    by (cases v) (auto simp: ns_parse_wifi_security_def)
  show "ns_parse_wifi_security t = Some v \<Longrightarrow> ns_wifi_security_name v = Some t"
    by (auto simp: ns_parse_wifi_security_def split: if_splits)
  show "ns_wifi_security_name v = Some t \<Longrightarrow> c \<in> set t \<Longrightarrow> 0x20 \<le> byte c"
    by (cases v) auto
  show "ns_wifi_security_name v = Some t \<Longrightarrow> length t \<le> 8"
    by (cases v) auto
qed

interpretation cod: named_enum ns_codec_name ns_parse_codec
proof
  fix v t c
  show "ns_codec_name v = Some t \<Longrightarrow> ns_parse_codec t = Some v"
    by (cases v) (auto simp: ns_parse_codec_def)
  show "ns_parse_codec t = Some v \<Longrightarrow> ns_codec_name v = Some t"
    by (auto simp: ns_parse_codec_def split: if_splits)
  show "ns_codec_name v = Some t \<Longrightarrow> c \<in> set t \<Longrightarrow> 0x20 \<le> byte c"
    by (cases v) auto
  show "ns_codec_name v = Some t \<Longrightarrow> length t \<le> 8"
    by (cases v) auto
qed

interpretation asp: named_enum ns_aspect_name ns_parse_aspect
proof
  fix v t c
  show "ns_aspect_name v = Some t \<Longrightarrow> ns_parse_aspect t = Some v"
    by (cases v) (auto simp: ns_parse_aspect_def)
  show "ns_parse_aspect t = Some v \<Longrightarrow> ns_aspect_name v = Some t"
    by (auto simp: ns_parse_aspect_def split: if_splits)
  show "ns_aspect_name v = Some t \<Longrightarrow> c \<in> set t \<Longrightarrow> 0x20 \<le> byte c"
    by (cases v) auto
  show "ns_aspect_name v = Some t \<Longrightarrow> length t \<le> 8"
    by (cases v) auto
qed

section \<open>Wi-Fi profiles\<close>

definition is_hex_string :: "string \<Rightarrow> nat \<Rightarrow> bool" where
  "is_hex_string t n = list_all (\<lambda>c. (48 \<le> byte c \<and> byte c \<le> 57) \<or> (97 \<le> byte c \<and> byte c \<le> 102) \<or>
     (65 \<le> byte c \<and> byte c \<le> 70)) (take n t)"

definition ns_validate_wifi :: "ns_wifi_profile \<Rightarrow> ns_error + unit" where
  "ns_validate_wifi p =
    (if \<not> ns_validate_utf8_text (Some (ssid p)) 1 NS_SSID_MAX_BYTES then
       Inl (Message ''SSID must be valid control-free UTF-8 (1..32 bytes)'')
     else if hd (ssid p) = CHR '' '' \<or> last (ssid p) = CHR '' '' then
       Inl (Message ''SSID must not start or end with a space'')
     else if ns_wifi_security_name (security p) = None then
       Inl (Message ''invalid Wi-Fi security mode'')
     else if hidden p \<noteq> 0 \<and> hidden p \<noteq> 1 then
       Inl (Message ''hidden must be true or false'')
     else if priority p < - 999 \<or> 999 < priority p then
       Inl (Message ''Wi-Fi priority must be between -999 and 999'')
     else
       let secret_length = strnlen (secret p) (NS_WIFI_SECRET_MAX_BYTES + 1) in
       if NS_WIFI_SECRET_MAX_BYTES < secret_length then
         Inl (Message ''Wi-Fi secret is too long'')
       else if security p = NS_WIFI_OPEN then
         (if secret_length \<noteq> 0 then Inl (Message ''open Wi-Fi must not contain a secret'') else Inr ())
       else if security p = NS_WIFI_WPA2_PSK \<and> secret_length = 64 \<and>
               is_hex_string (secret p) secret_length then Inr ()
       else if secret_length < 8 \<or> 63 < secret_length \<or>
               \<not> ns_validate_utf8_text (Some (secret p)) 8 63 then
         Inl (Message ''Wi-Fi passphrase must be 8..63 control-free UTF-8 bytes (or 64 hex bytes for WPA2)'')
       else Inr ())"

section \<open>Host addresses\<close>

definition ldh_char :: "char \<Rightarrow> bool" where
  "ldh_char c \<longleftrightarrow> (97 \<le> byte c \<and> byte c \<le> 122) \<or> (65 \<le> byte c \<and> byte c \<le> 90) \<or>
     (48 \<le> byte c \<and> byte c \<le> 57) \<or> c = CHR ''-''"

text \<open>
  The loop of \<open>valid_dns_name\<close>: the current label length, the previous
  character and the rest of the name; the final label length, or a rejection.
\<close>

fun dns_loop :: "nat \<Rightarrow> char \<Rightarrow> string \<Rightarrow> nat option" where
  "dns_loop n prev [] = Some n"
| "dns_loop n prev (c # cs) =
    (if c = CHR ''.'' then
       (if n = 0 \<or> 63 < n \<or> prev = CHR ''-'' then None else dns_loop 0 c cs)
     else if \<not> ldh_char c then None
     else if n = 0 \<and> c = CHR ''-'' then None
     else dns_loop (n + 1) c cs)"

definition valid_dns_name :: "string \<Rightarrow> bool" where
  "valid_dns_name a =
    (if length a = 0 \<or> NS_HOST_ADDRESS_MAX_BYTES < length a \<or> hd a = CHR ''.'' \<or> last a = CHR ''.''
     then False
     else case dns_loop 0 NUL a of None \<Rightarrow> False
       | Some n \<Rightarrow> 0 < n \<and> n \<le> 63 \<and> last a \<noteq> CHR ''-'')"

definition valid_address :: "inet_pton \<Rightarrow> string \<Rightarrow> bool" where
  "valid_address pton a =
    (if NS_HOST_ADDRESS_MAX_BYTES < strnlen a (NS_HOST_ADDRESS_MAX_BYTES + 1) then False
     else if pton AF_INET a \<or> pton AF_INET6 a then True
     else if list_all (\<lambda>c. (48 \<le> byte c \<and> byte c \<le> 57) \<or> c = CHR ''.'') a then False
     else valid_dns_name a)"

section \<open>Hosts\<close>

definition ns_host_defaults :: ns_host where
  "ns_host_defaults = \<lparr>h_name = [], h_address = [], paired = 0, last_used = 0,
     resolution = \<lparr>width = 640, height = 480, custom = 0\<rparr>, fps = 60, bitrate_kbps = 5000,
     packet_size = 1392, codec = NS_CODEC_H264, aspect = NS_ASPECT_FIT\<rparr>"

definition standard_resolution :: "nat \<Rightarrow> nat \<Rightarrow> bool" where
  "standard_resolution w h = ((w, h) \<in> set [(640, 480), (1280, 720), (1920, 1080), (2560, 1440), (3840, 2160)])"

definition ns_validate_host :: "inet_pton \<Rightarrow> ns_host \<Rightarrow> ns_error + unit" where
  "ns_validate_host pton h =
    (if \<not> ns_validate_utf8_text (Some (h_name h)) 1 NS_HOST_NAME_MAX_BYTES then
       Inl (Message ''host name must be valid control-free UTF-8 (1..96 bytes)'')
     else if hd (h_name h) = CHR '' '' \<or> last (h_name h) = CHR '' '' then
       Inl (Message ''host name must not start or end with a space'')
     else if \<not> valid_address pton (h_address h) then
       Inl (Message ''address must be an IPv4, IPv6, or ASCII DNS name'')
     else if paired h \<noteq> 0 \<and> paired h \<noteq> 1 then Inl (Message ''paired must be true or false'')
     else if 4102444800 < last_used h then
       Inl (Message ''last_used must be a Unix timestamp no later than 2100'')
     else if custom (resolution h) \<noteq> 0 \<and> custom (resolution h) \<noteq> 1 then
       Inl (Message ''resolution.custom must be true or false'')
     else if width (resolution h) < 160 \<or> 7680 < width (resolution h) \<or>
             height (resolution h) < 120 \<or> 4320 < height (resolution h) then
       Inl (Message ''resolution must be within 160x120 and 7680x4320'')
     else if custom (resolution h) = 0 \<and>
             \<not> standard_resolution (width (resolution h)) (height (resolution h)) then
       Inl (Message ''non-preset resolution requires custom=true'')
     else if fps h < 1 \<or> 240 < fps h then Inl (Message ''fps must be between 1 and 240'')
     else if bitrate_kbps h < 500 \<or> 200000 < bitrate_kbps h then
       Inl (Message ''bitrate must be between 500 and 200000 kbps'')
     else if packet_size h < 256 \<or> 1500 < packet_size h then
       Inl (Message ''packet_size must be between 256 and 1500 bytes'')
     else if ns_codec_name (codec h) = None then Inl (Message ''codec must be H264, H265, or AV1'')
     else if ns_aspect_name (aspect h) = None then Inl (Message ''aspect must be fit, fill, or stretch'')
     else Inr ())"

section \<open>What the validators guarantee\<close>

abbreviation wifi_ok :: "ns_wifi_profile \<Rightarrow> bool" where
  "wifi_ok p \<equiv> ns_validate_wifi p = Inr ()"

abbreviation host_ok :: "inet_pton \<Rightarrow> ns_host \<Rightarrow> bool" where
  "host_ok pton h \<equiv> ns_validate_host pton h = Inr ()"

lemma validate_wifi_cases: "wifi_ok p \<or> (\<exists>m. ns_validate_wifi p = Inl (Message m))"
  by (simp add: ns_validate_wifi_def Let_def)

lemma validate_host_cases: "host_ok pton h \<or> (\<exists>m. ns_validate_host pton h = Inl (Message m))"
  by (simp add: ns_validate_host_def)

lemma is_hex_clean: "is_hex_string t (length t) \<Longrightarrow> c \<in> set t \<Longrightarrow> 0x20 \<le> byte c"
  by (auto simp: is_hex_string_def list_all_iff)

lemma wifi_ok_ssid:
  "wifi_ok p \<Longrightarrow> utf8_text_loop (ssid p) \<and> 1 \<le> length (ssid p) \<and> length (ssid p) \<le> 32"
  by (auto simp: ns_validate_wifi_def ns_validate_utf8_text_Some ns_limits split: if_splits)

lemma wifi_ok_fields:
  "wifi_ok p \<Longrightarrow> (\<exists>t. ns_wifi_security_name (security p) = Some t) \<and>
     (hidden p = 0 \<or> hidden p = 1) \<and> - 999 \<le> priority p \<and> priority p \<le> 999"
  by (auto simp: ns_validate_wifi_def Let_def split: if_splits)

lemma wifi_ok_secret_length: "wifi_ok p \<Longrightarrow> length (secret p) \<le> 64"
  by (auto simp: ns_validate_wifi_def Let_def ns_limits strnlen_def split: if_splits)

lemma wifi_ok_secret_clean:
  assumes "wifi_ok p" "c \<in> set (secret p)"
  shows "0x20 \<le> byte c"
proof -
  have len: "length (secret p) \<le> 64" by (rule wifi_ok_secret_length [OF assms(1)])
  then have n: "strnlen (secret p) (Suc NS_WIFI_SECRET_MAX_BYTES) = length (secret p)"
    by (simp add: strnlen_def ns_limits)
  consider "secret p = []" | "is_hex_string (secret p) (length (secret p))" | "utf8_text_loop (secret p)"
    using assms(1) n
    by (auto simp: ns_validate_wifi_def Let_def ns_validate_utf8_text_Some split: if_splits)
  then show ?thesis using assms(2) by cases (auto dest: is_hex_clean utf8_text_bytes)
qed

lemma host_ok_name:
  "host_ok pton h \<Longrightarrow> utf8_text_loop (h_name h) \<and> 1 \<le> length (h_name h) \<and> length (h_name h) \<le> 96"
  by (auto simp: ns_validate_host_def ns_validate_utf8_text_Some ns_limits split: if_splits)

lemma host_ok_address: "host_ok pton h \<Longrightarrow> length (h_address h) \<le> 253"
  by (auto simp: ns_validate_host_def valid_address_def strnlen_def ns_limits split: if_splits)

lemma host_ok_fields:
  assumes "host_ok pton h"
  shows "paired h = 0 \<or> paired h = 1" "last_used h \<le> 4102444800"
    "custom (resolution h) = 0 \<or> custom (resolution h) = 1"
    "width (resolution h) \<le> 7680" "height (resolution h) \<le> 4320" "fps h \<le> 240"
    "bitrate_kbps h \<le> 200000" "packet_size h \<le> 1500"
    "\<exists>t. ns_codec_name (codec h) = Some t" "\<exists>t. ns_aspect_name (aspect h) = Some t"
  using assms by (auto simp: ns_validate_host_def split: if_splits)

section \<open>DNS names\<close>

text \<open>A label of letters, digits and hyphens, with no hyphen at either end.\<close>

definition dns_label :: "string \<Rightarrow> bool" where
  "dns_label l \<longleftrightarrow> l \<noteq> [] \<and> length l \<le> 63 \<and> list_all ldh_char l \<and>
     hd l \<noteq> CHR ''-'' \<and> last l \<noteq> CHR ''-''"

lemma ldh_not_dot: "ldh_char c \<Longrightarrow> c \<noteq> CHR ''.''"
  by (auto simp: ldh_char_def)

text \<open>The loop invariant: \<open>pre\<close> is the part of the current label already read.\<close>

definition label_prefix :: "string \<Rightarrow> bool" where
  "label_prefix pre \<longleftrightarrow> list_all ldh_char pre \<and> (pre \<noteq> [] \<longrightarrow> hd pre \<noteq> CHR ''-'')"

lemma label_prefix_no_dot: "label_prefix pre \<Longrightarrow> CHR ''.'' \<notin> set pre"
  by (auto simp: label_prefix_def list_all_iff dest: ldh_not_dot)

lemma split_head_label:
  "\<exists>l rest. split_on (CHR ''.'') (pre @ c # cs) = l # rest \<and> (CHR ''.'' \<notin> set pre \<longrightarrow> c \<noteq> CHR ''.'' \<longrightarrow>
     (\<exists>more. l = pre @ c # more))"
proof (induction pre)
  case Nil
  then show ?case by (cases "split_on (CHR ''.'') cs") auto
next
  case (Cons a pre)
  then show ?case by (cases "split_on (CHR ''.'') (pre @ c # cs)") auto
qed

lemma split_on_trailing: "[] \<in> set (split_on d (xs @ [d]))"
proof -
  have "\<exists>f fs. split_on d (xs @ [d]) = f # fs @ [[]]"
  proof (induction xs)
    case Nil
    then show ?case by simp
  next
    case (Cons a xs)
    then obtain f fs where "split_on d (xs @ [d]) = f # fs @ [[]]" by blast
    then show ?case
      by (intro exI [of _ "if a = d then [] else a # f"] exI [of _ "if a = d then f # fs else fs"]) simp
  qed
  then show ?thesis by auto
qed

lemma dns_loop_labels:
  assumes "label_prefix pre" "pre \<noteq> [] \<longrightarrow> prev = last pre"
  shows "(case dns_loop (length pre) prev cs of None \<Rightarrow> False
      | Some n \<Rightarrow> 0 < n \<and> n \<le> 63 \<and> last (pre @ cs) \<noteq> CHR ''-'') \<longleftrightarrow>
    list_all dns_label (split_on (CHR ''.'') (pre @ cs))"
  using assms
proof (induction cs arbitrary: pre prev)
  case Nil
  then show ?case
    using label_prefix_no_dot [of pre] by (auto simp: dns_label_def label_prefix_def)
next
  case (Cons c cs)
  note dot = label_prefix_no_dot [OF Cons.prems(1)]
  obtain l rest where l: "split_on (CHR ''.'') (pre @ c # cs) = l # rest"
    and more: "c \<noteq> CHR ''.'' \<Longrightarrow> \<exists>more. l = pre @ c # more"
    using split_head_label [of pre c cs] dot by blast
  consider (dot) "c = CHR ''.''" | (bad) "c \<noteq> CHR ''.''" "\<not> ldh_char c \<or> (pre = [] \<and> c = CHR ''-'')"
    | (ok) "c \<noteq> CHR ''.''" "ldh_char c" "\<not> (pre = [] \<and> c = CHR ''-'')" by blast
  then show ?case
  proof cases
    case dot
    have "label_prefix []" by (simp add: label_prefix_def)
    from Cons.IH [OF this, of c] have IH:
      "(case dns_loop 0 c cs of None \<Rightarrow> False | Some n \<Rightarrow> 0 < n \<and> n \<le> 63 \<and> last cs \<noteq> CHR ''-'')
       \<longleftrightarrow> list_all dns_label (split_on (CHR ''.'') cs)"
      unfolding append_Nil list.size by blast
    have nil: "cs = [] \<Longrightarrow> \<not> list_all dns_label (split_on (CHR ''.'') cs)" by (simp add: dns_label_def)
    show ?thesis
      using dot Cons.prems IH nil label_prefix_no_dot [OF Cons.prems(1)]
      by (cases "cs = []") (auto simp: dns_label_def [of pre] label_prefix_def split: option.splits)
  next
    case bad
    then have "\<not> dns_label l"
      using more by (auto simp: dns_label_def)
    with bad l show ?thesis by auto
  next
    case ok
    then have "label_prefix (pre @ [c])"
      using Cons.prems by (cases pre) (auto simp: label_prefix_def)
    from Cons.IH [OF this, of c] ok show ?thesis by (auto split: option.splits)
  qed
qed

text \<open>
  A DNS name is accepted exactly when it has at most 253 bytes and every
  dot-separated label has 1 to 63 letters, digits or hyphens with no hyphen at
  either end.
\<close>

theorem valid_dns_name_labels:
  "valid_dns_name a \<longleftrightarrow> length a \<le> 253 \<and> list_all dns_label (split_on (CHR ''.'') a)"
proof (cases "a = [] \<or> hd a = CHR ''.'' \<or> last a = CHR ''.''")
  case True
  have "\<not> list_all dns_label (split_on (CHR ''.'') a)"
  proof (cases "a = [] \<or> hd a = CHR ''.''")
    case True
    then show ?thesis by (cases a) (auto simp: dns_label_def)
  next
    case False
    with True have "a = butlast a @ [CHR ''.'']" by (metis append_butlast_last_id)
    then have "[] \<in> set (split_on (CHR ''.'') a)" by (metis split_on_trailing)
    then show ?thesis by (auto simp: dns_label_def list_all_iff)
  qed
  with True show ?thesis by (auto simp: valid_dns_name_def)
next
  case False
  have "label_prefix []" by (simp add: label_prefix_def)
  from dns_loop_labels [OF this, of NUL a, unfolded append_Nil list.size] False show ?thesis
    by (auto simp: valid_dns_name_def ns_limits)
qed

end
