(* ===== verification/Percent.thy ===== *)
theory Percent
  imports Utf8
begin

text \<open>
  Percent encoding as the settings store and the Bluetooth helper write it:
  letters, digits and four marks stand for themselves, every other byte is
  \<^verbatim>\<open>%\<close> and two upper-case hexadecimal digits.
\<close>

definition unreserved :: "char \<Rightarrow> bool" where
  "unreserved c \<longleftrightarrow> (65 \<le> byte c \<and> byte c \<le> 90) \<or> (97 \<le> byte c \<and> byte c \<le> 122) \<or>
     (48 \<le> byte c \<and> byte c \<le> 57) \<or> c = CHR ''-'' \<or> c = CHR ''.'' \<or> c = CHR ''_'' \<or> c = CHR ''~''"

definition hex_digits :: string where
  "hex_digits = ''0123456789ABCDEF''"

definition escape_byte :: "char \<Rightarrow> string" where
  "escape_byte c = [CHR ''%'', hex_digits ! drop_bit 4 (byte c), hex_digits ! (byte c AND 0x0F)]"

definition encode_text :: "string \<Rightarrow> string" where
  "encode_text t = concat (map (\<lambda>c. if unreserved c then [c] else escape_byte c) t)"

lemma encode_text_simps [simp]:
  "encode_text [] = []"
  "encode_text (c # cs) = (if unreserved c then [c] else escape_byte c) @ encode_text cs"
  by (simp_all add: encode_text_def)

lemma length_encode_text: "length (encode_text t) \<le> 3 * length t"
  by (induction t) (auto simp: escape_byte_def)

lemma hex_digits_printable: "n < 16 \<Longrightarrow> 0x20 \<le> byte (hex_digits ! n)"
proof -
  have "\<forall>n \<in> set [0..<16]. 0x20 \<le> byte (hex_digits ! n)"
    by (simp add: upt_rec hex_digits_def)
  then show "n < 16 \<Longrightarrow> ?thesis" by simp
qed

lemma high_low_nibble:
  "drop_bit 4 (byte c) < 16" "byte c AND 0x0F < 16"
  "push_bit 4 (drop_bit 4 (byte c)) OR (byte c AND 0x0F) = byte c"
proof -
  have q: "byte c div 16 < 16" using byte_less [of c] by linarith
  then show "drop_bit 4 (byte c) < 16" "byte c AND 0x0F < 16"
    by (simp_all add: drop_bit_eq_div and_masks)
  have "byte c = byte c div 16 * 16 + byte c mod 16" by simp
  then show "push_bit 4 (drop_bit 4 (byte c)) OR (byte c AND 0x0F) = byte c"
    using push_bit_or_add [of "byte c mod 16" 4 "byte c div 16"] by (simp add: and_masks drop_bit_eq_div)
qed

lemma percent_not_unreserved [simp]: "\<not> unreserved (CHR ''%'')"
  by (simp add: unreserved_def)

lemma unreserved_clean: "unreserved c \<Longrightarrow> 0x20 \<le> byte c"
  by (auto simp: unreserved_def)

lemma encode_text_clean: "c \<in> set (encode_text t) \<Longrightarrow> 0x20 \<le> byte c"
proof (induction t)
  case (Cons d t)
  then show ?case
    using hex_digits_printable high_low_nibble [of d] by (auto simp: escape_byte_def dest: unreserved_clean split: if_splits)
qed simp

lemma unreserved_not_nul: "unreserved c \<Longrightarrow> c \<noteq> NUL"
  by (auto simp: unreserved_def)

lemma char_of_not_nul: "v < 256 \<Longrightarrow> v \<noteq> 0 \<Longrightarrow> char_of v \<noteq> NUL" for v :: nat
  by (metis byte_char_of byte_Char mult_0_right of_bool_eq(1) add_0)

lemma nibbles_less: "high < 16 \<Longrightarrow> low < 16 \<Longrightarrow> push_bit 4 high OR low < (256 :: nat)"
  using push_bit_or_add [of low 4 high] by simp

end
