(* ===== verification/Netstream_Codec.thy ===== *)
theory Netstream_Codec
  imports Netstream_Validate Percent "HOL-Library.Monad_Syntax"
begin

text \<open>
  The text format of the settings store (\<^verbatim>\<open>components/netstream/src/netstream.c\<close>):
  the growing output buffer, percent encoding, tab-separated fields and
  decimal numbers. A buffer operation that fails is \<open>None\<close>; whether
  \<^verbatim>\<open>realloc\<close> can provide a capacity is the parameter \<open>ra\<close>.
\<close>

section \<open>The output buffer\<close>

definition NS_DB_MAX_BYTES :: nat where "NS_DB_MAX_BYTES = 256 * 1024"

record ns_buffer =
  bdata :: string
  bcapacity :: nat

definition empty_buffer :: ns_buffer where
  "empty_buffer = \<lparr>bdata = [], bcapacity = 0\<rparr>"

text \<open>The doubling loop of \<open>buffer_reserve\<close>; it does not end from capacity zero.\<close>

partial_function (option) buffer_grow :: "nat \<Rightarrow> nat \<Rightarrow> nat option" where
  "buffer_grow capacity wanted =
    (if capacity < wanted then
       (if NS_DB_MAX_BYTES div 2 < capacity then Some (NS_DB_MAX_BYTES + 1)
        else buffer_grow (capacity * 2) wanted)
     else Some capacity)"

definition buffer_reserve :: "(nat \<Rightarrow> bool) \<Rightarrow> ns_buffer \<Rightarrow> nat \<Rightarrow> ns_buffer option" where
  "buffer_reserve ra b extra =
    (if NS_DB_MAX_BYTES < extra \<or> NS_DB_MAX_BYTES - extra < length (bdata b) then None
     else
       let wanted = length (bdata b) + extra + 1 in
       if wanted \<le> bcapacity b then Some b
       else case buffer_grow (if bcapacity b = 0 then 1024 else bcapacity b) wanted of
           None \<Rightarrow> None
         | Some capacity \<Rightarrow> if ra capacity then Some (b\<lparr>bcapacity := capacity\<rparr>) else None)"

definition buffer_append :: "(nat \<Rightarrow> bool) \<Rightarrow> ns_buffer \<Rightarrow> string \<Rightarrow> ns_buffer option" where
  "buffer_append ra b text =
    (case buffer_reserve ra b (length text) of None \<Rightarrow> None
     | Some b1 \<Rightarrow> Some (b1\<lparr>bdata := bdata b1 @ text\<rparr>))"

text \<open>\<open>buffer_printf\<close> with its formatted text as the argument.\<close>

definition buffer_printf :: "(nat \<Rightarrow> bool) \<Rightarrow> ns_buffer \<Rightarrow> string \<Rightarrow> ns_buffer option" where
  "buffer_printf ra b rendered =
    (case buffer_reserve ra b (length rendered) of None \<Rightarrow> None
     | Some b1 \<Rightarrow> Some (b1\<lparr>bdata := bdata b1 @ rendered\<rparr>))"

section \<open>Percent encoding\<close>

fun buffer_encoded :: "(nat \<Rightarrow> bool) \<Rightarrow> ns_buffer \<Rightarrow> string \<Rightarrow> ns_buffer option" where
  "buffer_encoded ra b [] = Some b"
| "buffer_encoded ra b (c # cs) =
    (case buffer_append ra b (if unreserved c then [c] else escape_byte c) of
       None \<Rightarrow> None | Some b1 \<Rightarrow> buffer_encoded ra b1 cs)"

definition hex_value :: "char \<Rightarrow> nat option" where
  "hex_value c = (if 48 \<le> byte c \<and> byte c \<le> 57 then Some (byte c - 48)
     else if 65 \<le> byte c \<and> byte c \<le> 70 then Some (byte c - 65 + 10) else None)"

text \<open>The loop of \<open>percent_decode\<close>, with the number of bytes written so far.\<close>

fun percent_decode_loop :: "nat \<Rightarrow> nat \<Rightarrow> string \<Rightarrow> string option" where
  "percent_decode_loop capacity out [] = Some []"
| "percent_decode_loop capacity out (c # cs) =
    (if unreserved c then
       (if capacity \<le> out + 1 then None
        else map_option (Cons c) (percent_decode_loop capacity (out + 1) cs))
     else if c = CHR ''%'' then
       (case cs of h # l # rest \<Rightarrow>
          (case (hex_value h, hex_value l) of
             (Some high, Some low) \<Rightarrow>
               let v = push_bit 4 high OR low in
               if v = 0 then None
               else if capacity \<le> out + 1 then None
               else map_option (Cons (char_of v)) (percent_decode_loop capacity (out + 1) rest)
           | _ \<Rightarrow> None)
        | _ \<Rightarrow> None)
     else None)"

definition percent_decode :: "string \<Rightarrow> nat \<Rightarrow> string option" where
  "percent_decode encoded capacity = percent_decode_loop capacity 0 encoded"

section \<open>Fields and numbers\<close>

definition split_fields :: "string \<Rightarrow> nat \<Rightarrow> string list option" where
  "split_fields line expected =
    (let fields = split_on TAB line in if length fields = expected then Some fields else None)"

definition parse_u32 :: "string \<Rightarrow> nat \<Rightarrow> nat \<Rightarrow> nat option" where
  "parse_u32 text lo hi =
    (if text = [] \<or> hd text = CHR ''+'' \<or> hd text = CHR ''-'' then None
     else let (parsed, err, rest) = strtoul text in
       if err \<or> rest \<noteq> [] \<or> parsed < lo \<or> hi < parsed then None else Some parsed)"

definition parse_u64 :: "string \<Rightarrow> nat \<Rightarrow> nat \<Rightarrow> nat option" where
  "parse_u64 text lo hi =
    (if text = [] \<or> hd text = CHR ''+'' \<or> hd text = CHR ''-'' then None
     else let (parsed, err, rest) = strtoul text in
       if err \<or> rest \<noteq> [] \<or> parsed < lo \<or> hi < parsed then None else Some parsed)"

definition parse_priority :: "string \<Rightarrow> int option" where
  "parse_priority text =
    (if text = [] \<or> hd text = CHR ''+'' then None
     else let (parsed, err, rest) = strtol text in
       if err \<or> rest \<noteq> [] \<or> parsed < - 999 \<or> 999 < parsed then None else Some parsed)"

section \<open>Lemmas on the buffer\<close>

lemma buffer_grow_spec:
  assumes "0 < capacity" "wanted \<le> NS_DB_MAX_BYTES + 1" "capacity \<le> NS_DB_MAX_BYTES + 1"
  shows "\<exists>c. buffer_grow capacity wanted = Some c \<and> wanted \<le> c \<and> c \<le> NS_DB_MAX_BYTES + 1"
  using assms
proof (induction "wanted - capacity" arbitrary: capacity rule: less_induct)
  case less
  consider "wanted \<le> capacity" | "capacity < wanted" "NS_DB_MAX_BYTES div 2 < capacity"
    | "capacity < wanted" "capacity \<le> NS_DB_MAX_BYTES div 2" by linarith
  then show ?case
  proof cases
    case 3
    have "capacity * 2 \<le> NS_DB_MAX_BYTES + 1" using 3(2) by linarith
    moreover have "wanted - capacity * 2 < wanted - capacity" using 3(1) less.prems(1) by linarith
    ultimately obtain c where "buffer_grow (capacity * 2) wanted = Some c" "wanted \<le> c" "c \<le> NS_DB_MAX_BYTES + 1"
      using less.hyps [of "capacity * 2"] less.prems 3 by auto
    with 3 show ?thesis by (subst buffer_grow.simps) simp
  qed (use less.prems in \<open>subst buffer_grow.simps, simp\<close>)+
qed

text \<open>A buffer is empty and unallocated, or has room for its terminator within the limit.\<close>

definition buffer_ok :: "ns_buffer \<Rightarrow> bool" where
  "buffer_ok b \<longleftrightarrow> (bcapacity b = 0 \<and> bdata b = []) \<or>
     (length (bdata b) < bcapacity b \<and> bcapacity b \<le> NS_DB_MAX_BYTES + 1)"

lemma buffer_ok_empty [simp]: "buffer_ok empty_buffer"
  by (simp add: buffer_ok_def empty_buffer_def)

lemma buffer_reserve_spec:
  assumes "buffer_ok b" "buffer_reserve ra b extra = Some b1"
  shows "bdata b1 = bdata b \<and> length (bdata b) + extra < bcapacity b1 \<and> bcapacity b1 \<le> NS_DB_MAX_BYTES + 1"
proof (cases "length (bdata b) + extra + 1 \<le> bcapacity b")
  case True
  with assms show ?thesis by (auto simp: buffer_reserve_def buffer_ok_def Let_def split: if_splits)
next
  case False
  let ?c = "if bcapacity b = 0 then 1024 else bcapacity b"
  have fits: "length (bdata b) + extra + 1 \<le> NS_DB_MAX_BYTES + 1"
    using assms(2) by (auto simp: buffer_reserve_def split: if_splits)
  have c: "0 < ?c" "?c \<le> NS_DB_MAX_BYTES + 1"
    using assms(1) by (auto simp: buffer_ok_def NS_DB_MAX_BYTES_def)
  from buffer_grow_spec [OF c(1) fits c(2)] obtain c where
    "buffer_grow ?c (length (bdata b) + extra + 1) = Some c" "length (bdata b) + extra + 1 \<le> c"
    "c \<le> NS_DB_MAX_BYTES + 1" by blast
  with assms(2) False show ?thesis
    by (auto simp: buffer_reserve_def Let_def split: if_splits)
qed

lemma buffer_reserve_ok:
  assumes "buffer_ok b" "\<forall>n. ra n" "length (bdata b) + extra \<le> NS_DB_MAX_BYTES"
  shows "\<exists>b1. buffer_reserve ra b extra = Some b1"
proof -
  let ?c = "if bcapacity b = 0 then 1024 else bcapacity b"
  have c: "0 < ?c" "?c \<le> NS_DB_MAX_BYTES + 1"
    using assms(1) by (auto simp: buffer_ok_def NS_DB_MAX_BYTES_def)
  have "length (bdata b) + extra + 1 \<le> NS_DB_MAX_BYTES + 1" using assms(3) by simp
  from buffer_grow_spec [OF c(1) this c(2)] obtain c where
    "buffer_grow ?c (length (bdata b) + extra + 1) = Some c" by blast
  with assms(2,3) show ?thesis by (auto simp: buffer_reserve_def Let_def)
qed

lemma buffer_append_spec:
  assumes "buffer_ok b" "buffer_append ra b t = Some b1"
  shows "buffer_ok b1 \<and> bdata b1 = bdata b @ t"
  using assms buffer_reserve_spec [OF assms(1), of ra "length t"]
  by (auto simp: buffer_append_def buffer_ok_def split: option.splits)

lemma buffer_append_ok:
  assumes "buffer_ok b" "\<forall>n. ra n" "length (bdata b) + length t \<le> NS_DB_MAX_BYTES"
  shows "\<exists>b1. buffer_append ra b t = Some b1 \<and> buffer_ok b1 \<and> bdata b1 = bdata b @ t"
proof -
  obtain b0 where "buffer_reserve ra b (length t) = Some b0"
    using buffer_reserve_ok [OF assms] by blast
  then have "buffer_append ra b t = Some (b0\<lparr>bdata := bdata b0 @ t\<rparr>)" by (simp add: buffer_append_def)
  with buffer_append_spec [OF assms(1)] show ?thesis by blast
qed

lemma buffer_printf_append: "buffer_printf = buffer_append"
  by (intro ext) (simp add: buffer_printf_def buffer_append_def)

text \<open>
  Every append to the output buffer leaves room for the terminator inside
  the allocated capacity and never exceeds the size limit of the store, and
  without an allocation failure it fails only at that limit.
\<close>

theorem buffer_append_safe:
  assumes "buffer_ok b"
  shows "(\<forall>b1. buffer_append ra b t = Some b1 \<longrightarrow> bdata b1 = bdata b @ t \<and>
      length (bdata b1) < bcapacity b1 \<and> bcapacity b1 \<le> NS_DB_MAX_BYTES + 1) \<and>
    ((\<forall>n. ra n) \<longrightarrow> (buffer_append ra b t = None \<longleftrightarrow> NS_DB_MAX_BYTES < length (bdata b) + length t))"
proof (intro conjI allI impI)
  fix b1
  assume "buffer_append ra b t = Some b1"
  then obtain b0 where r: "buffer_reserve ra b (length t) = Some b0" "b1 = b0\<lparr>bdata := bdata b0 @ t\<rparr>"
    by (auto simp: buffer_append_def split: option.splits)
  from buffer_reserve_spec [OF assms r(1)] r(2)
  show "bdata b1 = bdata b @ t" "length (bdata b1) < bcapacity b1" "bcapacity b1 \<le> NS_DB_MAX_BYTES + 1"
    by simp_all
next
  assume "\<forall>n. ra n"
  with buffer_append_ok [OF assms, of ra t] show "buffer_append ra b t = None \<longleftrightarrow> NS_DB_MAX_BYTES < length (bdata b) + length t"
    by (cases "length (bdata b) + length t \<le> NS_DB_MAX_BYTES")
      (auto simp: buffer_append_def buffer_reserve_def)
qed

theorem buffer_append_safe_witness:
  "bdata \<lparr>bdata = ''D'', bcapacity = 1024\<rparr> = bdata empty_buffer @ ''D'' \<and>
   length (bdata \<lparr>bdata = ''D'', bcapacity = 1024\<rparr>) < 1024"
proof -
  have "buffer_append (\<lambda>n. True) empty_buffer ''D'' = Some \<lparr>bdata = ''D'', bcapacity = 1024\<rparr>"
    by (simp add: buffer_append_def buffer_reserve_def empty_buffer_def buffer_grow.simps NS_DB_MAX_BYTES_def)
  with buffer_append_safe [OF buffer_ok_empty, of "\<lambda>n. True" "''D''"] show ?thesis by simp
qed

section \<open>Lemmas on the encoding\<close>

lemma buffer_encoded_spec:
  "buffer_ok b \<Longrightarrow> buffer_encoded ra b t = Some b1 \<Longrightarrow> buffer_ok b1 \<and> bdata b1 = bdata b @ encode_text t"
proof (induction t arbitrary: b)
  case (Cons c t)
  then obtain b0 where b0: "buffer_append ra b (if unreserved c then [c] else escape_byte c) = Some b0"
    "buffer_encoded ra b0 t = Some b1" by (auto split: option.splits)
  from buffer_append_spec [OF Cons.prems(1) b0(1)] Cons.IH [OF _ b0(2)] show ?case by simp
qed simp

lemma buffer_encoded_ok:
  assumes "\<forall>n. ra n"
  shows "buffer_ok b \<Longrightarrow> length (bdata b) + length (encode_text t) \<le> NS_DB_MAX_BYTES \<Longrightarrow>
    \<exists>b1. buffer_encoded ra b t = Some b1 \<and> buffer_ok b1 \<and> bdata b1 = bdata b @ encode_text t"
proof (induction t arbitrary: b)
  case (Cons c t)
  let ?e = "if unreserved c then [c] else escape_byte c"
  from buffer_append_ok [OF Cons.prems(1) assms, of ?e] Cons.prems(2) obtain b0 where
    b0: "buffer_append ra b ?e = Some b0" "buffer_ok b0" "bdata b0 = bdata b @ ?e" by auto
  from Cons.IH [OF b0(2)] b0(3) Cons.prems(2) obtain b1 where
    "buffer_encoded ra b0 t = Some b1" "buffer_ok b1" "bdata b1 = bdata b0 @ encode_text t" by auto
  with b0 show ?case by simp
qed simp

lemma nibbles: "n < 16 \<Longrightarrow> hex_value (hex_digits ! n) = Some n"
proof -
  have "\<forall>n \<in> set [0..<16]. hex_value (hex_digits ! n) = Some n"
    by (simp add: upt_rec hex_digits_def hex_value_def)
  then show "n < 16 \<Longrightarrow> ?thesis" by simp
qed

lemma percent_decode_loop_escape:
  assumes "c \<noteq> NUL"
  shows "percent_decode_loop capacity out (escape_byte c @ r) =
    (if capacity \<le> out + 1 then None else map_option (Cons c) (percent_decode_loop capacity (out + 1) r))"
proof -
  have "byte c \<noteq> 0" using assms by (metis byte_Char byte_inj mult_0_right of_bool_eq(1) add_0)
  then show ?thesis
    by (simp add: escape_byte_def nibbles high_low_nibble)
qed

lemma percent_decode_loop_encode:
  "NUL \<notin> set t \<Longrightarrow> out + length t < capacity \<Longrightarrow>
   percent_decode_loop capacity out (encode_text t) = Some t"
  by (induction t arbitrary: out) (auto simp: percent_decode_loop_escape)

lemma percent_decode_encode:
  "NUL \<notin> set t \<Longrightarrow> length t < capacity \<Longrightarrow> percent_decode (encode_text t) capacity = Some t"
  by (simp add: percent_decode_def percent_decode_loop_encode)

lemma hex_value_less: "hex_value c = Some n \<Longrightarrow> n < 16"
  by (auto simp: hex_value_def split: if_splits)

text \<open>One step of the decoder: a byte of the result and what it was read from.\<close>

lemma percent_decode_loop_Cons:
  assumes "percent_decode_loop capacity out (c # cs) = Some t"
  obtains d u rest where "t = d # u" "d \<noteq> NUL" "out + 1 < capacity"
    "percent_decode_loop capacity (out + 1) rest = Some u" "length rest < length (c # cs)"
proof (cases "unreserved c")
  case True
  with assms that [of c _ cs] show ?thesis
    by (auto dest: unreserved_not_nul split: if_splits)
next
  case False
  with assms obtain h l rest high low where "cs = h # l # rest" "hex_value h = Some high" "hex_value l = Some low"
    and r: "push_bit 4 high OR low \<noteq> 0" "out + 1 < capacity"
      "map_option (Cons (char_of (push_bit 4 high OR low))) (percent_decode_loop capacity (out + 1) rest) = Some t"
    by (auto simp: Let_def split: if_splits list.splits option.splits)
  moreover from this have "push_bit 4 high OR low < 256"
    by (intro nibbles_less hex_value_less)
  ultimately show ?thesis
    using that [of "char_of (push_bit 4 high OR low)" _ rest] char_of_not_nul by auto
qed

lemma percent_decode_loop_result:
  "percent_decode_loop capacity out e = Some t \<Longrightarrow> NUL \<notin> set t \<and> (t \<noteq> [] \<longrightarrow> out + length t < capacity)"
proof (induction "length e" arbitrary: e out t rule: less_induct)
  case less
  show ?case
  proof (cases e)
    case (Cons c cs)
    with less.prems obtain d u rest where d: "t = d # u" "d \<noteq> NUL" "out + 1 < capacity"
      "percent_decode_loop capacity (out + 1) rest = Some u" "length rest < length e"
      by (metis percent_decode_loop_Cons)
    from less.hyps [OF d(5,4)] d show ?thesis by auto
  qed (use less.prems in simp)
qed

section \<open>Properties of the codec\<close>

text \<open>
  C20: percent decoding inverts percent encoding on every text without a NUL
  that fits the destination, the encoded form contains neither a separator
  nor a control byte, and whatever the decoder accepts has no embedded NUL
  and leaves room for the terminator.
\<close>

theorem percent_roundtrip:
  "(NUL \<notin> set t \<and> length t < capacity \<longrightarrow> percent_decode (encode_text t) capacity = Some t) \<and>
   list_all (\<lambda>c. 0x20 \<le> byte c) (encode_text t) \<and>
   (percent_decode e capacity = Some d \<longrightarrow> NUL \<notin> set d \<and> (d = [] \<or> length d < capacity))"
proof (intro conjI impI)
  show "NUL \<notin> set d" "d = [] \<or> length d < capacity" if "percent_decode e capacity = Some d"
    using percent_decode_loop_result [of capacity 0 e d] that by (auto simp: percent_decode_def)
qed (auto simp: percent_decode_encode list_all_iff intro: encode_text_clean)

theorem percent_roundtrip_witness:
  "encode_text ''a b'' = ''a%20b'' \<and> percent_decode ''a%20b'' 4 = Some ''a b''"
proof -
  have e: "encode_text ''a b'' = ''a%20b''"
    by (simp add: unreserved_def escape_byte_def hex_digits_def drop_bit_eq_div and_masks)
  with percent_roundtrip [of "''a b''" 4 "[]" "[]"] show ?thesis by simp
qed

lemma print_int_head: "print_int i \<noteq> [] \<and> hd (print_int i) \<noteq> CHR ''+''"
  using print_nat_Cons [of "nat i"] by (auto simp: print_int_def isdigit_not_sign)

lemma print_nat_head: "hd (print_nat n) \<noteq> CHR ''+'' \<and> hd (print_nat n) \<noteq> CHR ''-''"
  using print_nat_Cons [of n] by (auto simp: isdigit_not_sign)

lemma parse_u64_print: "n < 2 ^ 64 \<Longrightarrow> lo \<le> n \<Longrightarrow> n \<le> hi \<Longrightarrow> parse_u64 (print_nat n) lo hi = Some n"
  using print_nat_head [of n] by (simp add: parse_u64_def)

lemma parse_u32_print: "n < 2 ^ 64 \<Longrightarrow> lo \<le> n \<Longrightarrow> n \<le> hi \<Longrightarrow> parse_u32 (print_nat n) lo hi = Some n"
  using print_nat_head [of n] by (simp add: parse_u32_def)

lemma parse_priority_print: "- 999 \<le> i \<Longrightarrow> i \<le> 999 \<Longrightarrow> parse_priority (print_int i) = Some i"
  using print_int_head [of i] by (simp add: parse_priority_def)

text \<open>
  The sign check of \<open>parse_u32\<close> looks at the first byte only, and
  \<^verbatim>\<open>strtoul\<close> skips white space before it reads a sign: a space followed by
  a negative number is accepted, as that number modulo \<open>2 ^ 64\<close>.
\<close>

lemma parse_u32_negative:
  "parse_u32 '' -18446744073709551556'' 0 4294967295 = Some 60"
  by (simp add: parse_u32_def strtoul_def split_sign_def digits_value_def isspace_def isdigit_def)

end
