(* ===== verification/Netstream_Db.thy ===== *)
theory Netstream_Db
  imports Netstream_Codec Machines
begin

text \<open>
  The in-memory databases of Wi-Fi profiles and streaming hosts
  (\<^verbatim>\<open>components/netstream/src/netstream.c\<close>): fixed arrays with a count and the
  key of the default entry. Lookup, insertion, removal and selection are
  modelled on the arrays, with the slots beyond the count kept, since clearing
  them is what erases a forgotten secret.

  Database and record arguments are existing objects, so their null checks
  have no counterpart; a key argument is \<open>None\<close> when the pointer is null. An
  operation that fails returns its message and leaves the database as it was.

  \<open>keyed_db\<close> is the contract of such a database; both databases interpret it
  and refine the same abstract map with a default key.
\<close>

section \<open>Data\<close>

record ns_wifi_db =
  profiles :: "ns_wifi_profile list"
  wcount :: nat
  default_ssid :: string

record ns_host_db =
  hosts :: "ns_host list"
  hcount :: nat
  default_name :: string

text \<open>All bytes zero, as \<open>ns_secure_zero\<close> and \<^verbatim>\<open>memset\<close> leave an object.\<close>

definition zero_wifi :: ns_wifi_profile where
  "zero_wifi = \<lparr>ssid = [], security = NS_WIFI_OPEN, hidden = 0, priority = 0, secret = []\<rparr>"

definition zero_host :: ns_host where
  "zero_host = \<lparr>h_name = [], h_address = [], paired = 0, last_used = 0,
     resolution = \<lparr>width = 0, height = 0, custom = 0\<rparr>, fps = 0, bitrate_kbps = 0,
     packet_size = 0, codec = NS_CODEC_H264, aspect = NS_ASPECT_FIT\<rparr>"

definition zero_wifi_db :: ns_wifi_db where
  "zero_wifi_db = \<lparr>profiles = replicate NS_MAX_WIFI_PROFILES zero_wifi, wcount = 0, default_ssid = []\<rparr>"

definition zero_host_db :: ns_host_db where
  "zero_host_db = \<lparr>hosts = replicate NS_MAX_HOSTS zero_host, hcount = 0, default_name = []\<rparr>"

section \<open>Loops over the arrays\<close>

fun find_key :: "('e \<Rightarrow> string) \<Rightarrow> 'e list \<Rightarrow> string \<Rightarrow> nat option" where
  "find_key key [] k = None"
| "find_key key (e # es) k = (if strcmp (key e) k = 0 then Some 0 else map_option Suc (find_key key es k))"

function shift_down :: "nat \<Rightarrow> nat \<Rightarrow> 'e list \<Rightarrow> 'e list" where
  "shift_down i n xs = (if i + 1 < n then shift_down (i + 1) n (xs[i := xs ! (i + 1)]) else xs)"
  by auto
termination by (relation "measure (\<lambda>(i, n, xs). n - i)") auto

declare shift_down.simps [simp del]

section \<open>Wi-Fi operations\<close>

definition ns_wifi_find :: "ns_wifi_db \<Rightarrow> string option \<Rightarrow> nat option" where
  "ns_wifi_find db key =
    (case key of None \<Rightarrow> None
     | Some k \<Rightarrow>
       if NS_MAX_WIFI_PROFILES < wcount db \<or> NS_SSID_MAX_BYTES < strnlen k (NS_SSID_MAX_BYTES + 1) then None
       else find_key ssid (take (wcount db) (profiles db)) k)"

definition ns_wifi_upsert :: "ns_wifi_db \<Rightarrow> ns_wifi_profile \<Rightarrow> ns_error + ns_wifi_db" where
  "ns_wifi_upsert db p =
    (if NS_MAX_WIFI_PROFILES < wcount db then Inl (Message ''invalid Wi-Fi database'')
     else case ns_validate_wifi p of
         Inl e \<Rightarrow> Inl e
       | Inr _ \<Rightarrow>
         (case ns_wifi_find db (Some (ssid p)) of
            Some index \<Rightarrow> Inr (db\<lparr>profiles := (profiles db)[index := p]\<rparr>)
          | None \<Rightarrow>
            if NS_MAX_WIFI_PROFILES \<le> wcount db then Inl (Message ''too many Wi-Fi profiles'')
            else Inr (db\<lparr>profiles := (profiles db)[wcount db := p], wcount := wcount db + 1\<rparr>)))"

definition ns_wifi_forget :: "ns_wifi_db \<Rightarrow> string option \<Rightarrow> ns_error + ns_wifi_db" where
  "ns_wifi_forget db key =
    (if \<not> ns_validate_utf8_text key 1 NS_SSID_MAX_BYTES then Inl (Message ''invalid SSID'')
     else case ns_wifi_find db key of
         None \<Rightarrow> Inl (Message ''Wi-Fi profile was not found'')
       | Some index \<Rightarrow>
         let db1 = (if strcmp (default_ssid db) (the key) = 0 then db\<lparr>default_ssid := []\<rparr> else db);
             zeroed = (profiles db1)[index := zero_wifi];
             shifted = shift_down index (wcount db1) zeroed;
             n = wcount db1 - 1
         in Inr (db1\<lparr>profiles := shifted[n := zero_wifi], wcount := n\<rparr>))"

definition ns_wifi_select :: "ns_wifi_db \<Rightarrow> string option \<Rightarrow> ns_error + ns_wifi_db" where
  "ns_wifi_select db key =
    (case (key, ns_wifi_find db key) of
       (Some k, Some _) \<Rightarrow> Inr (db\<lparr>default_ssid := k\<rparr>)
     | _ \<Rightarrow> Inl (Message ''Wi-Fi profile was not found''))"

section \<open>Host operations\<close>

definition ns_host_find :: "ns_host_db \<Rightarrow> string option \<Rightarrow> nat option" where
  "ns_host_find db key =
    (case key of None \<Rightarrow> None
     | Some k \<Rightarrow>
       if NS_MAX_HOSTS < hcount db \<or> NS_HOST_NAME_MAX_BYTES < strnlen k (NS_HOST_NAME_MAX_BYTES + 1) then None
       else find_key h_name (take (hcount db) (hosts db)) k)"

definition ns_host_upsert :: "inet_pton \<Rightarrow> ns_host_db \<Rightarrow> ns_host \<Rightarrow> ns_error + ns_host_db" where
  "ns_host_upsert pton db h =
    (if NS_MAX_HOSTS < hcount db then Inl (Message ''invalid host database'')
     else case ns_validate_host pton h of
         Inl e \<Rightarrow> Inl e
       | Inr _ \<Rightarrow>
         (case ns_host_find db (Some (h_name h)) of
            Some index \<Rightarrow> Inr (db\<lparr>hosts := (hosts db)[index := h]\<rparr>)
          | None \<Rightarrow>
            if NS_MAX_HOSTS \<le> hcount db then Inl (Message ''too many streaming hosts'')
            else Inr (db\<lparr>hosts := (hosts db)[hcount db := h], hcount := hcount db + 1\<rparr>)))"

definition ns_host_delete :: "ns_host_db \<Rightarrow> string option \<Rightarrow> ns_error + ns_host_db" where
  "ns_host_delete db key =
    (if \<not> ns_validate_utf8_text key 1 NS_HOST_NAME_MAX_BYTES then Inl (Message ''invalid host name'')
     else case ns_host_find db key of
         None \<Rightarrow> Inl (Message ''streaming host was not found'')
       | Some index \<Rightarrow>
         let db1 = (if strcmp (default_name db) (the key) = 0 then db\<lparr>default_name := []\<rparr> else db);
             shifted = shift_down index (hcount db1) (hosts db1);
             n = hcount db1 - 1
         in Inr (db1\<lparr>hosts := shifted[n := zero_host], hcount := n\<rparr>))"

definition ns_host_select :: "ns_host_db \<Rightarrow> string option \<Rightarrow> ns_error + ns_host_db" where
  "ns_host_select db key =
    (case (key, ns_host_find db key) of
       (Some k, Some _) \<Rightarrow> Inr (db\<lparr>default_name := k\<rparr>)
     | _ \<Rightarrow> Inl (Message ''streaming host was not found''))"

section \<open>Validation of a whole database\<close>

text \<open>The nested loops: each entry is validated, then compared with those before it.\<close>

fun check_entries :: "('e \<Rightarrow> ns_error + unit) \<Rightarrow> ('e \<Rightarrow> string) \<Rightarrow> string \<Rightarrow> 'e list \<Rightarrow> 'e list \<Rightarrow> ns_error + unit" where
  "check_entries validate key duplicate seen [] = Inr ()"
| "check_entries validate key duplicate seen (e # es) =
    (case validate e of Inl m \<Rightarrow> Inl m
     | Inr _ \<Rightarrow>
       if \<exists>d \<in> set seen. strcmp (key e) (key d) = 0 then Inl (Message duplicate)
       else check_entries validate key duplicate (seen @ [e]) es)"

definition validate_wifi_db :: "ns_wifi_db \<Rightarrow> ns_error + unit" where
  "validate_wifi_db db =
    (if NS_MAX_WIFI_PROFILES < wcount db then Inl (Message ''too many Wi-Fi profiles'')
     else if strnlen (default_ssid db) (NS_SSID_MAX_BYTES + 1) = NS_SSID_MAX_BYTES + 1 then
       Inl (Message ''default Wi-Fi profile is not terminated'')
     else case check_entries ns_validate_wifi ssid ''duplicate SSID in Wi-Fi database'' []
            (take (wcount db) (profiles db)) of
         Inl e \<Rightarrow> Inl e
       | Inr _ \<Rightarrow>
         if default_ssid db \<noteq> [] \<and> ns_wifi_find db (Some (default_ssid db)) = None then
           Inl (Message ''default Wi-Fi profile does not exist'')
         else Inr ())"

definition validate_host_db :: "inet_pton \<Rightarrow> ns_host_db \<Rightarrow> ns_error + unit" where
  "validate_host_db pton db =
    (if NS_MAX_HOSTS < hcount db then Inl (Message ''too many streaming hosts'')
     else if strnlen (default_name db) (NS_HOST_NAME_MAX_BYTES + 1) = NS_HOST_NAME_MAX_BYTES + 1 then
       Inl (Message ''default streaming host is not terminated'')
     else case check_entries (ns_validate_host pton) h_name ''duplicate name in host database'' []
            (take (hcount db) (hosts db)) of
         Inl e \<Rightarrow> Inl e
       | Inr _ \<Rightarrow>
         if default_name db \<noteq> [] \<and> ns_host_find db (Some (default_name db)) = None then
           Inl (Message ''default streaming host does not exist'')
         else Inr ())"

section \<open>Lemmas on the loops\<close>

lemma find_key_Some: "find_key key es k = Some i \<Longrightarrow> i < length es \<and> key (es ! i) = k"
  by (induction es arbitrary: i) (auto split: if_splits)

lemma find_key_None: "find_key key es k = None \<longleftrightarrow> k \<notin> key ` set es"
  by (induction es) auto

lemma find_key_replace:
  "find_key key es k = Some i \<Longrightarrow> distinct (map key es) \<Longrightarrow>
   es[i := e] = map (\<lambda>x. if key x = k then e else x) es"
proof (induction es arbitrary: i)
  case (Cons a es)
  then show ?case by (cases "key a = k") (auto simp: image_iff intro!: map_idI [symmetric])
qed simp

lemma find_key_remove:
  "find_key key es k = Some i \<Longrightarrow> distinct (map key es) \<Longrightarrow>
   take i es @ drop (Suc i) es = filter (\<lambda>x. key x \<noteq> k) es"
proof (induction es arbitrary: i)
  case (Cons a es)
  then show ?case by (cases "key a = k") (auto simp: image_iff intro!: filter_True [symmetric])
qed simp

lemma length_shift_down [simp]: "length (shift_down i n xs) = length xs"
  by (induction i n xs rule: shift_down.induct) (subst shift_down.simps, simp)

lemma shift_down_eq:
  "i < n \<Longrightarrow> n \<le> length xs \<Longrightarrow>
   shift_down i n xs = take i xs @ drop (Suc i) (take n xs) @ drop (n - 1) xs"
proof (induction i n xs rule: shift_down.induct)
  case (1 i n xs)
  show ?case
  proof (cases "i + 1 < n")
    case True
    let ?ys = "xs[i := xs ! (i + 1)]"
    have "take (i + 1) ?ys = take i xs @ [xs ! (i + 1)]"
      using True 1 by (simp add: take_Suc_conv_app_nth take_update_cancel)
    moreover have "drop (i + 2) (take n ?ys) = drop (i + 2) (take n xs)" "drop (n - 1) ?ys = drop (n - 1) xs"
      using True by (simp_all add: drop_take)
    moreover have "drop (Suc i) (take n xs) = xs ! (i + 1) # drop (i + 2) (take n xs)"
      using True 1 by (simp add: Cons_nth_drop_Suc [symmetric])
    ultimately show ?thesis
      using 1 True by (subst shift_down.simps) simp
  next
    case False
    with 1 have "n = Suc i" by simp
    with 1 show ?thesis
      by (subst shift_down.simps) (simp add: False)
  qed
qed

text \<open>Removing slot \<open>i\<close> of \<open>n\<close>: the entries close up and the last slot is cleared.\<close>

lemma shift_down_entries:
  assumes "i < n" "n \<le> length xs"
  shows "take (n - 1) ((shift_down i n xs)[n - 1 := z]) = take i (take n xs) @ drop (Suc i) (take n xs)"
    and "drop (n - 1) ((shift_down i n xs)[n - 1 := z]) = z # drop n xs"
proof -
  have len: "length (take i xs @ drop (Suc i) (take n xs)) = n - 1" using assms by simp
  have tl: "drop (n - 1) xs = xs ! (n - 1) # drop n xs"
    using assms by (metis Cons_nth_drop_Suc One_nat_def Suc_pred diff_less less_le_trans less_nat_zero_code neq0_conv zero_less_one)
  have "shift_down i n xs = (take i xs @ drop (Suc i) (take n xs)) @ xs ! (n - 1) # drop n xs"
    using shift_down_eq [OF assms] tl by simp
  then have "(shift_down i n xs)[n - 1 := z] = (take i xs @ drop (Suc i) (take n xs)) @ z # drop n xs"
    using len by (metis list_update_length)
  with len assms show "take (n - 1) ((shift_down i n xs)[n - 1 := z]) = take i (take n xs) @ drop (Suc i) (take n xs)"
    "drop (n - 1) ((shift_down i n xs)[n - 1 := z]) = z # drop n xs" by simp_all
qed

lemma check_entries_iff:
  "check_entries validate key dup seen es = Inr () \<longleftrightarrow>
   list_all (\<lambda>e. validate e = Inr ()) es \<and> distinct (map key es) \<and> key ` set es \<inter> key ` set seen = {}"
proof (induction es arbitrary: seen)
  case (Cons e es)
  show ?case by (cases "validate e") (auto simp: Cons.IH)
qed simp

section \<open>Well-formed slots\<close>

text \<open>
  The invariant of either array: the entries in use are valid with distinct
  keys, the default key is empty or the key of an entry, and every slot beyond
  the count is zero.
\<close>

definition slots_ok :: "('e \<Rightarrow> bool) \<Rightarrow> ('e \<Rightarrow> string) \<Rightarrow> 'e \<Rightarrow> nat \<Rightarrow> 'e list \<Rightarrow> nat \<Rightarrow> string \<Rightarrow> bool" where
  "slots_ok valid key z cap xs n d \<longleftrightarrow> length xs = cap \<and> n \<le> cap \<and>
     list_all valid (take n xs) \<and> distinct (map key (take n xs)) \<and>
     (d = [] \<or> d \<in> key ` set (take n xs)) \<and> drop n xs = replicate (cap - n) z"

lemma slots_replace:
  assumes "slots_ok valid key z cap xs n d" "find_key key (take n xs) (key e) = Some i" "valid e"
  shows "take n (xs[i := e]) = map (\<lambda>x. if key x = key e then e else x) (take n xs)"
    and "slots_ok valid key z cap (xs[i := e]) n d"
proof -
  from assms(2) have i: "i < n" "i < length xs" using find_key_Some [of key "take n xs"] by auto
  have "take n (xs[i := e]) = (take n xs)[i := e]" by (simp add: take_update_swap)
  also have "\<dots> = map (\<lambda>x. if key x = key e then e else x) (take n xs)"
    using assms(1,2) by (intro find_key_replace) (auto simp: slots_ok_def)
  finally show t: "take n (xs[i := e]) = map (\<lambda>x. if key x = key e then e else x) (take n xs)" .
  have k: "map key (take n (xs[i := e])) = map key (take n xs)" unfolding t by simp
  then have "key ` set (take n (xs[i := e])) = key ` set (take n xs)" by (metis set_map)
  moreover have "list_all valid (take n (xs[i := e]))"
    using assms unfolding t by (auto simp: slots_ok_def list_all_iff)
  ultimately show "slots_ok valid key z cap (xs[i := e]) n d"
    using assms(1) i k unfolding slots_ok_def by simp
qed

lemma slots_append:
  assumes "slots_ok valid key z cap xs n d" "find_key key (take n xs) (key e) = None" "valid e" "n < cap"
  shows "take (n + 1) (xs[n := e]) = take n xs @ [e]"
    and "slots_ok valid key z cap (xs[n := e]) (n + 1) d"
proof -
  have len: "n < length xs" using assms by (simp add: slots_ok_def)
  then show t: "take (n + 1) (xs[n := e]) = take n xs @ [e]"
    by (simp add: take_Suc_conv_app_nth)
  have "drop (n + 1) (xs[n := e]) = drop (n + 1) xs" by simp
  also have "\<dots> = tl (drop n xs)" by (metis Suc_eq_plus1 drop_Suc tl_drop)
  finally have "drop (n + 1) (xs[n := e]) = tl (drop n xs)" .
  with assms len show "slots_ok valid key z cap (xs[n := e]) (n + 1) d"
    unfolding slots_ok_def t by (auto simp: find_key_None list_all_iff tl_replicate)
qed

lemma slots_remove:
  assumes "slots_ok valid key z cap xs n d" "find_key key (take n xs) k = Some i"
    and ys: "length ys = length xs" "take i ys = take i xs" "drop (Suc i) ys = drop (Suc i) xs"
  shows "take (n - 1) ((shift_down i n ys)[n - 1 := z]) = filter (\<lambda>x. key x \<noteq> k) (take n xs)"
    and "slots_ok valid key z cap ((shift_down i n ys)[n - 1 := z]) (n - 1) (if d = k then [] else d)"
proof -
  have i: "i < n" "n \<le> length xs" "length xs = cap"
    using assms(1,2) find_key_Some [of key "take n xs" k i] by (auto simp: slots_ok_def)
  have dist: "distinct (map key (take n xs))" using assms(1) by (simp add: slots_ok_def)
  have "take i (take n ys) @ drop (Suc i) (take n ys) = take i (take n xs) @ drop (Suc i) (take n xs)"
    using i ys by (simp add: drop_take)
  with shift_down_entries(1) [of i n ys z] i ys find_key_remove [OF assms(2) dist]
  show t: "take (n - 1) ((shift_down i n ys)[n - 1 := z]) = filter (\<lambda>x. key x \<noteq> k) (take n xs)" by simp
  have "drop n ys = drop (n - Suc i) (drop (Suc i) ys)" using i by simp
  also have "\<dots> = drop n xs" using i ys by simp
  finally have "drop (n - 1) ((shift_down i n ys)[n - 1 := z]) = z # replicate (cap - n) z"
    using shift_down_entries(2) [of i n ys z] i ys assms(1) by (simp add: slots_ok_def)
  also have "\<dots> = replicate (cap - (n - 1)) z" using i by (simp add: Suc_diff_le flip: replicate_Suc)
  finally show "slots_ok valid key z cap ((shift_down i n ys)[n - 1 := z]) (n - 1) (if d = k then [] else d)"
    unfolding slots_ok_def t using assms(1) i ys dist
    by (auto simp: slots_ok_def list_all_iff distinct_map_filter)
qed

section \<open>The abstract database and its contract\<close>

text \<open>A finite map from keys to entries, and the default key (empty for none).\<close>

type_synonym 'e spec_db = "(string \<rightharpoonup> 'e) \<times> string"

datatype 'e db_cmd = Upsert 'e | Remove string | Select string

fun spec_step :: "('e \<Rightarrow> bool) \<Rightarrow> ('e \<Rightarrow> string) \<Rightarrow> nat \<Rightarrow> 'e spec_db \<Rightarrow> 'e db_cmd \<Rightarrow> 'e spec_db \<times> bool" where
  "spec_step valid key cap (m, d) (Upsert e) =
    (if valid e \<and> (key e \<in> dom m \<or> card (dom m) < cap) then ((m(key e \<mapsto> e), d), True) else ((m, d), False))"
| "spec_step valid key cap (m, d) (Remove k) =
    (if k \<in> dom m then ((m(k := None), if d = k then [] else d), True) else ((m, d), False))"
| "spec_step valid key cap (m, d) (Select k) =
    (if k \<in> dom m then ((m, k), True) else ((m, d), False))"

text \<open>One command against a database: a failing operation leaves it unchanged.\<close>

definition commit :: "'db \<Rightarrow> ns_error + 'db \<Rightarrow> 'db \<times> bool" where
  "commit db r = (case r of Inl _ \<Rightarrow> (db, False) | Inr db1 \<Rightarrow> (db1, True))"

fun db_step :: "('db \<Rightarrow> 'e \<Rightarrow> ns_error + 'db) \<Rightarrow> ('db \<Rightarrow> string option \<Rightarrow> ns_error + 'db) \<Rightarrow>
    ('db \<Rightarrow> string option \<Rightarrow> ns_error + 'db) \<Rightarrow> 'db \<Rightarrow> 'e db_cmd \<Rightarrow> 'db \<times> bool" where
  "db_step upsert remove select db (Upsert e) = commit db (upsert db e)"
| "db_step upsert remove select db (Remove k) = commit db (remove db (Some k))"
| "db_step upsert remove select db (Select k) = commit db (select db (Some k))"

lemma commit_simps [simp]: "commit db (Inl e) = (db, False)" "commit db (Inr db1) = (db1, True)"
  by (simp_all add: commit_def)

lemma isl_commit: "isl r \<Longrightarrow> commit db r = (db, False)"
  by (cases r) auto

definition entry_map :: "('e \<Rightarrow> string) \<Rightarrow> 'e list \<Rightarrow> string \<rightharpoonup> 'e" where
  "entry_map key es = map_of (map (\<lambda>e. (key e, e)) es)"

lemma entry_map_simps [simp]:
  "entry_map key [] = (\<lambda>k. None)" "entry_map key (e # es) = (entry_map key es)(key e \<mapsto> e)"
  by (simp_all add: entry_map_def)

lemma dom_entry_map [simp]: "dom (entry_map key es) = key ` set es"
  by (simp add: entry_map_def dom_map_of_conv_image_fst image_image)

lemma entry_map_replaced:
  "entry_map key (map (\<lambda>x. if key x = key e then e else x) es) k =
    (if k = key e then (if k \<in> key ` set es then Some e else None) else entry_map key es k)"
  by (induction es) auto

lemma entry_map_replace:
  "key e \<in> key ` set es \<Longrightarrow>
   entry_map key (map (\<lambda>x. if key x = key e then e else x) es) = (entry_map key es)(key e \<mapsto> e)"
  by (simp add: fun_eq_iff entry_map_replaced)

lemma entry_map_append:
  "key e \<notin> key ` set es \<Longrightarrow> entry_map key (es @ [e]) = (entry_map key es)(key e \<mapsto> e)"
  by (induction es) (auto simp: entry_map_def fun_eq_iff)

lemma entry_map_remove:
  "entry_map key (filter (\<lambda>x. key x \<noteq> k) es) = (entry_map key es)(k := None)"
  by (induction es) (auto simp: entry_map_def fun_eq_iff)

locale keyed_db =
  fixes entries :: "'db \<Rightarrow> 'e list"
    and dflt :: "'db \<Rightarrow> string"
    and key :: "'e \<Rightarrow> string"
    and valid :: "'e \<Rightarrow> bool"
    and cap :: nat
    and invar :: "'db \<Rightarrow> bool"
    and upsert :: "'db \<Rightarrow> 'e \<Rightarrow> ns_error + 'db"
    and remove :: "'db \<Rightarrow> string option \<Rightarrow> ns_error + 'db"
    and sel :: "'db \<Rightarrow> string option \<Rightarrow> ns_error + 'db"
  assumes distinct_keys: "invar db \<Longrightarrow> distinct (map key (entries db))"
    and upsert_rejects: "invar db \<Longrightarrow> \<not> valid e \<or> (key e \<notin> key ` set (entries db) \<and> cap \<le> length (entries db)) \<Longrightarrow>
      isl (upsert db e)"
    and upsert_replaces: "invar db \<Longrightarrow> valid e \<Longrightarrow> key e \<in> key ` set (entries db) \<Longrightarrow>
      \<exists>db1. upsert db e = Inr db1 \<and> invar db1 \<and> dflt db1 = dflt db \<and>
        entries db1 = map (\<lambda>x. if key x = key e then e else x) (entries db)"
    and upsert_appends: "invar db \<Longrightarrow> valid e \<Longrightarrow> key e \<notin> key ` set (entries db) \<Longrightarrow> length (entries db) < cap \<Longrightarrow>
      \<exists>db1. upsert db e = Inr db1 \<and> invar db1 \<and> dflt db1 = dflt db \<and> entries db1 = entries db @ [e]"
    and remove_rejects: "invar db \<Longrightarrow> k \<notin> key ` set (entries db) \<Longrightarrow> isl (remove db (Some k))"
    and remove_removes: "invar db \<Longrightarrow> k \<in> key ` set (entries db) \<Longrightarrow>
      \<exists>db1. remove db (Some k) = Inr db1 \<and> invar db1 \<and> dflt db1 = (if dflt db = k then [] else dflt db) \<and>
        entries db1 = filter (\<lambda>x. key x \<noteq> k) (entries db)"
    and select_rejects: "invar db \<Longrightarrow> k \<notin> key ` set (entries db) \<Longrightarrow> isl (sel db (Some k))"
    and select_selects: "invar db \<Longrightarrow> k \<in> key ` set (entries db) \<Longrightarrow>
      \<exists>db1. sel db (Some k) = Inr db1 \<and> invar db1 \<and> dflt db1 = k \<and> entries db1 = entries db"
begin

definition abs_db :: "'db \<Rightarrow> 'e spec_db" where
  "abs_db db = (entry_map key (entries db), dflt db)"

lemma card_keys: "invar db \<Longrightarrow> card (key ` set (entries db)) = length (entries db)"
  using distinct_card [OF distinct_keys] by simp

lemma upsert_step:
  assumes "invar db"
  shows "invar (fst (db_step upsert remove sel db (Upsert e))) \<and>
    (abs_db (fst (db_step upsert remove sel db (Upsert e))), snd (db_step upsert remove sel db (Upsert e))) =
      spec_step valid key cap (abs_db db) (Upsert e)"
proof -
  consider "\<not> valid e \<or> (key e \<notin> key ` set (entries db) \<and> cap \<le> length (entries db))"
    | "valid e" "key e \<in> key ` set (entries db)"
    | "valid e" "key e \<notin> key ` set (entries db)" "length (entries db) < cap" by linarith
  then show ?thesis
  proof cases
    case 1
    with upsert_rejects [OF assms 1] assms show ?thesis
      by (auto simp: isl_commit abs_db_def card_keys)
  next
    case 2
    from upsert_replaces [OF assms 2] obtain db1 where "upsert db e = Inr db1" "invar db1" "dflt db1 = dflt db"
      "entries db1 = map (\<lambda>x. if key x = key e then e else x) (entries db)" by blast
    with 2 show ?thesis by (simp add: abs_db_def entry_map_replace)
  next
    case 3
    with upsert_appends [OF assms 3] assms show ?thesis
      by (auto simp: abs_db_def entry_map_append card_keys)
  qed
qed

lemma remove_step:
  assumes "invar db"
  shows "invar (fst (db_step upsert remove sel db (Remove k))) \<and>
    (abs_db (fst (db_step upsert remove sel db (Remove k))), snd (db_step upsert remove sel db (Remove k))) =
      spec_step valid key cap (abs_db db) (Remove k)"
proof (cases "k \<in> key ` set (entries db)")
  case True
  with remove_removes [OF assms True] show ?thesis
    by (auto simp: abs_db_def entry_map_remove)
next
  case False
  with remove_rejects [OF assms False] assms show ?thesis by (simp add: isl_commit abs_db_def)
qed

lemma select_step:
  assumes "invar db"
  shows "invar (fst (db_step upsert remove sel db (Select k))) \<and>
    (abs_db (fst (db_step upsert remove sel db (Select k))), snd (db_step upsert remove sel db (Select k))) =
      spec_step valid key cap (abs_db db) (Select k)"
proof (cases "k \<in> key ` set (entries db)")
  case True
  with select_selects [OF assms True] show ?thesis by (auto simp: abs_db_def)
next
  case False
  with select_rejects [OF assms False] assms show ?thesis by (simp add: isl_commit abs_db_def)
qed

lemma step_refines:
  assumes "invar db"
  shows "invar (fst (db_step upsert remove sel db c)) \<and>
    (abs_db (fst (db_step upsert remove sel db c)), snd (db_step upsert remove sel db c)) =
      spec_step valid key cap (abs_db db) c"
  using assms upsert_step remove_step select_step by (cases c) auto

lemma run_refines:
  "invar db \<Longrightarrow> invar (run (db_step upsert remove sel) db cs) \<and>
   abs_db (run (db_step upsert remove sel) db cs) = run (spec_step valid key cap) (abs_db db) cs"
proof (induction cs arbitrary: db)
  case (Cons c cs)
  from step_refines [OF Cons.prems, of c] have
    "invar (fst (db_step upsert remove sel db c))"
    "abs_db (fst (db_step upsert remove sel db c)) = fst (spec_step valid key cap (abs_db db) c)"
    by (simp_all add: prod_eq_iff)
  with Cons.IH show ?case by simp
qed simp

end

section \<open>Both databases meet the contract\<close>

abbreviation wifi_entries :: "ns_wifi_db \<Rightarrow> ns_wifi_profile list" where
  "wifi_entries db \<equiv> take (wcount db) (profiles db)"

abbreviation host_entries :: "ns_host_db \<Rightarrow> ns_host list" where
  "host_entries db \<equiv> take (hcount db) (hosts db)"

definition wifi_db_inv :: "ns_wifi_db \<Rightarrow> bool" where
  "wifi_db_inv db = slots_ok (\<lambda>p. wifi_ok p) ssid zero_wifi NS_MAX_WIFI_PROFILES (profiles db) (wcount db) (default_ssid db)"

definition host_db_inv :: "inet_pton \<Rightarrow> ns_host_db \<Rightarrow> bool" where
  "host_db_inv pton db = slots_ok (\<lambda>h. host_ok pton h) h_name zero_host NS_MAX_HOSTS (hosts db) (hcount db) (default_name db)"

lemma zero_wifi_db_inv [simp]: "wifi_db_inv zero_wifi_db"
  by (simp add: wifi_db_inv_def zero_wifi_db_def slots_ok_def)

lemma zero_host_db_inv [simp]: "host_db_inv pton zero_host_db"
  by (simp add: host_db_inv_def zero_host_db_def slots_ok_def)

lemma wifi_db_inv_entries:
  assumes "wifi_db_inv db"
  shows "wcount db \<le> NS_MAX_WIFI_PROFILES" "length (wifi_entries db) = wcount db"
    "distinct (map ssid (wifi_entries db))" "list_all (\<lambda>p. wifi_ok p) (wifi_entries db)"
  using assms by (auto simp: wifi_db_inv_def slots_ok_def)

lemma host_db_inv_entries:
  assumes "host_db_inv pton db"
  shows "hcount db \<le> NS_MAX_HOSTS" "length (host_entries db) = hcount db"
    "distinct (map h_name (host_entries db))" "list_all (\<lambda>h. host_ok pton h) (host_entries db)"
  using assms by (auto simp: host_db_inv_def slots_ok_def)

text \<open>A key of an entry is short enough to be looked up, so lookup is the loop.\<close>

lemma wifi_find_iff:
  assumes "wifi_db_inv db"
  shows "ns_wifi_find db (Some k) = find_key ssid (wifi_entries db) k"
proof (cases "length k \<le> 32")
  case True
  then show ?thesis using wifi_db_inv_entries(1) [OF assms]
    by (simp add: ns_wifi_find_def strnlen_def ns_limits)
next
  case False
  then have "k \<notin> ssid ` set (wifi_entries db)"
    using wifi_db_inv_entries(4) [OF assms] wifi_ok_ssid by (auto simp: list_all_iff)
  then have "find_key ssid (wifi_entries db) k = None" by (simp add: find_key_None)
  with False show ?thesis by (simp add: ns_wifi_find_def strnlen_def ns_limits)
qed

lemma host_find_iff:
  assumes "host_db_inv pton db"
  shows "ns_host_find db (Some k) = find_key h_name (host_entries db) k"
proof (cases "length k \<le> 96")
  case True
  then show ?thesis using host_db_inv_entries(1) [OF assms]
    by (simp add: ns_host_find_def strnlen_def ns_limits)
next
  case False
  then have "k \<notin> h_name ` set (host_entries db)"
    using host_db_inv_entries(4) [OF assms] host_ok_name by (auto simp: list_all_iff)
  then have "find_key h_name (host_entries db) k = None" by (simp add: find_key_None)
  with False show ?thesis by (simp add: ns_host_find_def strnlen_def ns_limits)
qed

lemma find_key_member: "k \<in> key ` set es \<Longrightarrow> \<exists>i. find_key key es k = Some i"
  using find_key_None [of key es k] by (cases "find_key key es k") auto

lemma wifi_forget_found:
  assumes "wifi_db_inv db" "k \<in> ssid ` set (wifi_entries db)"
  shows "\<exists>db1. ns_wifi_forget db (Some k) = Inr db1 \<and> wifi_db_inv db1 \<and>
    default_ssid db1 = (if default_ssid db = k then [] else default_ssid db) \<and>
    wifi_entries db1 = filter (\<lambda>x. ssid x \<noteq> k) (wifi_entries db)"
proof -
  obtain i where i: "find_key ssid (wifi_entries db) k = Some i" using find_key_member [OF assms(2)] by blast
  from assms have "ns_validate_utf8_text (Some k) 1 NS_SSID_MAX_BYTES"
    using wifi_db_inv_entries(4) [OF assms(1)] wifi_ok_ssid
    by (auto simp: ns_validate_utf8_text_Some list_all_iff ns_limits)
  moreover note r = slots_remove [OF assms(1) [unfolded wifi_db_inv_def] i, of "(profiles db)[i := zero_wifi]"]
  ultimately show ?thesis
    using r i by (auto simp: ns_wifi_forget_def wifi_find_iff [OF assms(1)] Let_def wifi_db_inv_def)
qed

lemma host_delete_found:
  assumes "host_db_inv pton db" "k \<in> h_name ` set (host_entries db)"
  shows "\<exists>db1. ns_host_delete db (Some k) = Inr db1 \<and> host_db_inv pton db1 \<and>
    default_name db1 = (if default_name db = k then [] else default_name db) \<and>
    host_entries db1 = filter (\<lambda>x. h_name x \<noteq> k) (host_entries db)"
proof -
  obtain i where i: "find_key h_name (host_entries db) k = Some i" using find_key_member [OF assms(2)] by blast
  from assms have "ns_validate_utf8_text (Some k) 1 NS_HOST_NAME_MAX_BYTES"
    using host_db_inv_entries(4) [OF assms(1)] host_ok_name
    by (auto simp: ns_validate_utf8_text_Some list_all_iff ns_limits)
  moreover note r = slots_remove [OF assms(1) [unfolded host_db_inv_def] i, of "hosts db"]
  ultimately show ?thesis
    using r i by (auto simp: ns_host_delete_def host_find_iff [OF assms(1)] Let_def host_db_inv_def)
qed

interpretation wdb: keyed_db wifi_entries default_ssid ssid "\<lambda>p. wifi_ok p" NS_MAX_WIFI_PROFILES wifi_db_inv
  ns_wifi_upsert ns_wifi_forget ns_wifi_select
proof
  fix db :: ns_wifi_db and e :: ns_wifi_profile and k :: string
  assume inv: "wifi_db_inv db"
  note find = wifi_find_iff [OF inv] and ents = wifi_db_inv_entries [OF inv]
  show "distinct (map ssid (wifi_entries db))" by (rule ents)
  show "isl (ns_wifi_upsert db e)"
    if "\<not> wifi_ok e \<or> (ssid e \<notin> ssid ` set (wifi_entries db) \<and> NS_MAX_WIFI_PROFILES \<le> length (wifi_entries db))"
    using that [folded find_key_None] ents by (auto simp: ns_wifi_upsert_def find split: sum.splits option.splits)
  show "\<exists>db1. ns_wifi_upsert db e = Inr db1 \<and> wifi_db_inv db1 \<and> default_ssid db1 = default_ssid db \<and>
      wifi_entries db1 = map (\<lambda>x. if ssid x = ssid e then e else x) (wifi_entries db)"
    if "wifi_ok e" "ssid e \<in> ssid ` set (wifi_entries db)"
    using find_key_member [OF that(2)] slots_replace [OF inv [unfolded wifi_db_inv_def], of e] that(1) ents
    by (auto simp: ns_wifi_upsert_def find wifi_db_inv_def)
  show "\<exists>db1. ns_wifi_upsert db e = Inr db1 \<and> wifi_db_inv db1 \<and> default_ssid db1 = default_ssid db \<and>
      wifi_entries db1 = wifi_entries db @ [e]"
    if "wifi_ok e" "ssid e \<notin> ssid ` set (wifi_entries db)" "length (wifi_entries db) < NS_MAX_WIFI_PROFILES"
    using that(2) [folded find_key_None] slots_append [OF inv [unfolded wifi_db_inv_def], of e] that(1,3) ents
    by (auto simp: ns_wifi_upsert_def find wifi_db_inv_def)
  show "isl (ns_wifi_forget db (Some k))" if "k \<notin> ssid ` set (wifi_entries db)"
    using that [folded find_key_None] by (simp add: ns_wifi_forget_def find)
  show "\<exists>db1. ns_wifi_forget db (Some k) = Inr db1 \<and> wifi_db_inv db1 \<and>
      default_ssid db1 = (if default_ssid db = k then [] else default_ssid db) \<and>
      wifi_entries db1 = filter (\<lambda>x. ssid x \<noteq> k) (wifi_entries db)" if "k \<in> ssid ` set (wifi_entries db)"
    by (rule wifi_forget_found [OF inv that])
  show "isl (ns_wifi_select db (Some k))" if "k \<notin> ssid ` set (wifi_entries db)"
    using that [folded find_key_None] by (simp add: ns_wifi_select_def find)
  show "\<exists>db1. ns_wifi_select db (Some k) = Inr db1 \<and> wifi_db_inv db1 \<and> default_ssid db1 = k \<and>
      wifi_entries db1 = wifi_entries db" if "k \<in> ssid ` set (wifi_entries db)"
    using find_key_member [OF that] that inv by (auto simp: ns_wifi_select_def find wifi_db_inv_def slots_ok_def)
qed

interpretation hdb: keyed_db host_entries default_name h_name "\<lambda>h. host_ok pton h" NS_MAX_HOSTS "host_db_inv pton"
  "ns_host_upsert pton" ns_host_delete ns_host_select
  for pton :: inet_pton
proof
  fix db :: ns_host_db and e :: ns_host and k :: string
  assume inv: "host_db_inv pton db"
  note find = host_find_iff [OF inv] and ents = host_db_inv_entries [OF inv]
  show "distinct (map h_name (host_entries db))" by (rule ents)
  show "isl (ns_host_upsert pton db e)"
    if "\<not> host_ok pton e \<or> (h_name e \<notin> h_name ` set (host_entries db) \<and> NS_MAX_HOSTS \<le> length (host_entries db))"
    using that [folded find_key_None] ents by (auto simp: ns_host_upsert_def find split: sum.splits option.splits)
  show "\<exists>db1. ns_host_upsert pton db e = Inr db1 \<and> host_db_inv pton db1 \<and> default_name db1 = default_name db \<and>
      host_entries db1 = map (\<lambda>x. if h_name x = h_name e then e else x) (host_entries db)"
    if "host_ok pton e" "h_name e \<in> h_name ` set (host_entries db)"
    using find_key_member [OF that(2)] slots_replace [OF inv [unfolded host_db_inv_def], of e] that(1) ents
    by (auto simp: ns_host_upsert_def find host_db_inv_def)
  show "\<exists>db1. ns_host_upsert pton db e = Inr db1 \<and> host_db_inv pton db1 \<and> default_name db1 = default_name db \<and>
      host_entries db1 = host_entries db @ [e]"
    if "host_ok pton e" "h_name e \<notin> h_name ` set (host_entries db)" "length (host_entries db) < NS_MAX_HOSTS"
    using that(2) [folded find_key_None] slots_append [OF inv [unfolded host_db_inv_def], of e] that(1,3) ents
    by (auto simp: ns_host_upsert_def find host_db_inv_def)
  show "isl (ns_host_delete db (Some k))" if "k \<notin> h_name ` set (host_entries db)"
    using that [folded find_key_None] by (simp add: ns_host_delete_def find)
  show "\<exists>db1. ns_host_delete db (Some k) = Inr db1 \<and> host_db_inv pton db1 \<and>
      default_name db1 = (if default_name db = k then [] else default_name db) \<and>
      host_entries db1 = filter (\<lambda>x. h_name x \<noteq> k) (host_entries db)" if "k \<in> h_name ` set (host_entries db)"
    by (rule host_delete_found [OF inv that])
  show "isl (ns_host_select db (Some k))" if "k \<notin> h_name ` set (host_entries db)"
    using that [folded find_key_None] by (simp add: ns_host_select_def find)
  show "\<exists>db1. ns_host_select db (Some k) = Inr db1 \<and> host_db_inv pton db1 \<and> default_name db1 = k \<and>
      host_entries db1 = host_entries db" if "k \<in> h_name ` set (host_entries db)"
    using find_key_member [OF that] that inv by (auto simp: ns_host_select_def find host_db_inv_def slots_ok_def)
qed

section \<open>Properties of the databases\<close>

definition wifi_abs :: "ns_wifi_db \<Rightarrow> ns_wifi_profile spec_db" where
  "wifi_abs db = (entry_map ssid (wifi_entries db), default_ssid db)"

definition host_abs :: "ns_host_db \<Rightarrow> ns_host spec_db" where
  "host_abs db = (entry_map h_name (host_entries db), default_name db)"

abbreviation wifi_step :: "ns_wifi_db \<Rightarrow> ns_wifi_profile db_cmd \<Rightarrow> ns_wifi_db \<times> bool" where
  "wifi_step \<equiv> db_step ns_wifi_upsert ns_wifi_forget ns_wifi_select"

abbreviation host_step :: "inet_pton \<Rightarrow> ns_host_db \<Rightarrow> ns_host db_cmd \<Rightarrow> ns_host_db \<times> bool" where
  "host_step pton \<equiv> db_step (ns_host_upsert pton) ns_host_delete ns_host_select"

text \<open>
  C8: any sequence of insertions, removals and selections on the Wi-Fi array
  keeps it well formed (valid entries, distinct SSIDs, an existing default,
  zero bytes beyond the count) and acts as the same sequence on a finite map
  of at most 64 profiles with a default key.
\<close>

theorem wifi_db_refines:
  assumes "wifi_db_inv db"
  shows "wifi_db_inv (run wifi_step db cs) \<and>
    wifi_abs (run wifi_step db cs) = run (spec_step (\<lambda>p. wifi_ok p) ssid NS_MAX_WIFI_PROFILES) (wifi_abs db) cs"
  using wdb.run_refines [OF assms, of cs] by (simp add: wdb.abs_db_def wifi_abs_def)

definition sample_wifi :: ns_wifi_profile where
  "sample_wifi = \<lparr>ssid = ''lab'', security = NS_WIFI_OPEN, hidden = 0, priority = 5, secret = []\<rparr>"

lemma sample_texts [simp]: "utf8_text_loop ''lab''" "utf8_text_loop ''pc''"
  by (simp_all add: utf8_text_loop_ascii)

lemma sample_wifi_ok [simp]: "wifi_ok sample_wifi"
  by (simp add: ns_validate_wifi_def sample_wifi_def ns_validate_utf8_text_def utf8_next_def
      text_codepoint_ok_def ns_limits strnlen_def Let_def)

theorem wifi_db_refines_witness:
  "wifi_abs (run wifi_step zero_wifi_db [Upsert sample_wifi, Select ''lab'', Remove ''lan'']) =
    ([''lab'' \<mapsto> sample_wifi], ''lab'')"
proof -
  have "ssid sample_wifi = ''lab''" by (simp add: sample_wifi_def)
  moreover have "wifi_abs zero_wifi_db = (\<lambda>k. None, [])" by (simp add: wifi_abs_def zero_wifi_db_def)
  ultimately show ?thesis
    using wifi_db_refines [OF zero_wifi_db_inv, of "[Upsert sample_wifi, Select ''lab'', Remove ''lan'']"]
    by (simp add: NS_MAX_WIFI_PROFILES_def)
qed

text \<open>
  The same for the array of streaming hosts, whatever numeric addresses the
  system accepts: at most 128 valid hosts with distinct names and an existing
  default, acting as a finite map.
\<close>

theorem host_db_refines:
  assumes "host_db_inv pton db"
  shows "host_db_inv pton (run (host_step pton) db cs) \<and>
    host_abs (run (host_step pton) db cs) = run (spec_step (\<lambda>h. host_ok pton h) h_name NS_MAX_HOSTS) (host_abs db) cs"
  using hdb.run_refines [OF assms, of cs] by (simp add: hdb.abs_db_def host_abs_def)

definition sample_host :: ns_host where
  "sample_host = ns_host_defaults\<lparr>h_name := ''pc'', h_address := ''pc.lan''\<rparr>"

lemma sample_host_ok [simp]: "host_ok (\<lambda>f a. False) sample_host"
  by (simp add: ns_validate_host_def sample_host_def ns_host_defaults_def ns_validate_utf8_text_def utf8_next_def
      text_codepoint_ok_def ns_limits strnlen_def Let_def valid_address_def valid_dns_name_def ldh_char_def
      standard_resolution_def)

theorem host_db_refines_witness:
  "host_abs (run (host_step (\<lambda>f a. False)) zero_host_db [Upsert sample_host, Select ''pc'']) =
    ([''pc'' \<mapsto> sample_host], ''pc'')"
proof -
  have "h_name sample_host = ''pc''" by (simp add: sample_host_def)
  moreover have "host_abs zero_host_db = (\<lambda>k. None, [])" by (simp add: host_abs_def zero_host_db_def)
  ultimately show ?thesis
    using host_db_refines [OF zero_host_db_inv, of "\<lambda>f a. False" "[Upsert sample_host, Select ''pc'']"]
    by (simp add: NS_MAX_HOSTS_def)
qed

text \<open>
  C21: forgetting a network leaves no copy of its record anywhere in the array,
  not even in the slots beyond the count, and clears it as the default.
\<close>

theorem wifi_forget_erases:
  assumes "wifi_db_inv db" "ns_wifi_forget db (Some k) = Inr db1"
  shows "k \<notin> ssid ` set (profiles db1) \<and> default_ssid db1 \<noteq> k \<and> wcount db1 + 1 = wcount db"
proof -
  have k: "k \<in> ssid ` set (wifi_entries db)"
    using wdb.remove_rejects [OF assms(1), of k] assms(2) by auto
  from wifi_forget_found [OF assms(1) k] assms(2) have d: "wifi_db_inv db1"
    "default_ssid db1 = (if default_ssid db = k then [] else default_ssid db)"
    "wifi_entries db1 = filter (\<lambda>x. ssid x \<noteq> k) (wifi_entries db)" by auto
  have ne: "k \<noteq> []" using assms(2) by (auto simp: ns_wifi_forget_def ns_validate_utf8_text_Some split: if_splits)
  have z: "set (profiles db1) \<subseteq> set (wifi_entries db1) \<union> {zero_wifi}"
  proof -
    have "set (profiles db1) = set (wifi_entries db1) \<union> set (drop (wcount db1) (profiles db1))"
      by (metis append_take_drop_id set_append)
    with d(1) show ?thesis by (auto simp: wifi_db_inv_def slots_ok_def)
  qed
  have "wcount db1 = wcount db - 1" using assms(2)
    by (auto simp: ns_wifi_forget_def Let_def split: if_splits option.splits)
  moreover have "0 < wcount db" using k by (cases "wcount db") auto
  ultimately show ?thesis using d(2) z ne unfolding d(3) by (auto simp: zero_wifi_def)
qed

theorem wifi_forget_erases_witness:
  "\<exists>db db1. wifi_db_inv db \<and> ns_wifi_forget db (Some ''lab'') = Inr db1 \<and> ''lab'' \<notin> ssid ` set (profiles db1)"
proof -
  obtain db where db: "ns_wifi_upsert zero_wifi_db sample_wifi = Inr db" "wifi_db_inv db" "wifi_entries db = [sample_wifi]"
    using wdb.upsert_appends [OF zero_wifi_db_inv sample_wifi_ok] by (auto simp: zero_wifi_db_def ns_limits)
  then have "''lab'' \<in> ssid ` set (wifi_entries db)" by (simp add: sample_wifi_def)
  from wifi_forget_found [OF db(2) this] obtain db1 where "ns_wifi_forget db (Some ''lab'') = Inr db1" by blast
  with wifi_forget_erases [OF db(2) this] db(2) show ?thesis by blast
qed

text \<open>What whole-database validation checks: everything of the invariant but the unused slots.\<close>

lemma validate_wifi_db_iff:
  "validate_wifi_db db = Inr () \<longleftrightarrow> wcount db \<le> NS_MAX_WIFI_PROFILES \<and>
     list_all (\<lambda>p. wifi_ok p) (wifi_entries db) \<and> distinct (map ssid (wifi_entries db)) \<and>
     (default_ssid db = [] \<or> default_ssid db \<in> ssid ` set (wifi_entries db))"
proof -
  have "list_all (\<lambda>p. wifi_ok p) (wifi_entries db) \<Longrightarrow> default_ssid db \<in> ssid ` set (wifi_entries db) \<Longrightarrow>
      length (default_ssid db) \<le> 32"
    using wifi_ok_ssid by (auto simp: list_all_iff)
  then show ?thesis
    using check_entries_iff [of ns_validate_wifi ssid "''duplicate SSID in Wi-Fi database''" "[]" "wifi_entries db"]
      find_key_None [of ssid "wifi_entries db" "default_ssid db"]
    by (auto simp: validate_wifi_db_def ns_wifi_find_def strnlen_def ns_limits split: sum.splits if_splits)
qed

lemma validate_host_db_iff:
  "validate_host_db pton db = Inr () \<longleftrightarrow> hcount db \<le> NS_MAX_HOSTS \<and>
     list_all (\<lambda>h. host_ok pton h) (host_entries db) \<and> distinct (map h_name (host_entries db)) \<and>
     (default_name db = [] \<or> default_name db \<in> h_name ` set (host_entries db))"
proof -
  have "list_all (\<lambda>h. host_ok pton h) (host_entries db) \<Longrightarrow> default_name db \<in> h_name ` set (host_entries db) \<Longrightarrow>
      length (default_name db) \<le> 96"
    using host_ok_name by (auto simp: list_all_iff)
  then show ?thesis
    using check_entries_iff [of "ns_validate_host pton" h_name "''duplicate name in host database''" "[]" "host_entries db"]
      find_key_None [of h_name "host_entries db" "default_name db"]
    by (auto simp: validate_host_db_def ns_host_find_def strnlen_def ns_limits split: sum.splits if_splits)
qed

lemma wifi_db_inv_valid: "wifi_db_inv db \<Longrightarrow> validate_wifi_db db = Inr ()"
  by (auto simp: validate_wifi_db_iff wifi_db_inv_def slots_ok_def)

lemma host_db_inv_valid: "host_db_inv pton db \<Longrightarrow> validate_host_db pton db = Inr ()"
  by (auto simp: validate_host_db_iff host_db_inv_def slots_ok_def)

end
