(* ===== verification/Netstream_Files.thy ===== *)
theory Netstream_Files
  imports Netstream_Codec
begin

text \<open>
  The file layer of the settings store (\<^verbatim>\<open>components/netstream/src/netstream.c\<close>):
  reading a whole database file and replacing one atomically. The state
  directory is a map from names to inodes. The operating system is an
  environment record: which call fails and with which error, and how many bytes
  each \<^verbatim>\<open>read\<close> or \<^verbatim>\<open>write\<close> transfers. A loop that is still retrying when
  the given transfers are used up has the value \<open>None\<close>.

  \<open>atomic_write\<close> also returns the directory after every system call that
  changes it, so that a crash at any point can be reasoned about.
\<close>

section \<open>Errors and inodes\<close>

datatype errno = EINTR | EEXIST | ENOENT | EOTHER string

fun strerror :: "errno \<Rightarrow> string" where
  "strerror EINTR = ''Interrupted system call''"
| "strerror EEXIST = ''File exists''"
| "strerror ENOENT = ''No such file or directory''"
| "strerror (EOTHER text) = text"

datatype file_kind = Regular | Directory | Symlink | Special

record inode =
  fdata :: string
  kind :: file_kind
  st_uid :: nat
  st_nlink :: nat
  st_mode :: nat

type_synonym dir = "string \<rightharpoonup> inode"

text \<open>The outcome of one \<^verbatim>\<open>read\<close> or \<^verbatim>\<open>write\<close>: an error, or a limit on the bytes moved.\<close>

datatype io = IoErr errno | Io nat

definition NS_WIFI_FILE :: string where "NS_WIFI_FILE = ''wifi.v1''"
definition NS_HOSTS_FILE :: string where "NS_HOSTS_FILE = ''hosts.v1''"
definition MODE_0600 :: nat where "MODE_0600 = 6 * 64"

section \<open>Reading\<close>

text \<open>
  \<open>read_all_fd\<close>: the current \<open>errno\<close>, the transfers to come, the bytes of the
  file from the offset on, and the bytes still wanted. An early end of file
  fails with whatever \<open>errno\<close> was there.
\<close>

fun read_all_fd :: "errno \<Rightarrow> io list \<Rightarrow> string \<Rightarrow> nat \<Rightarrow> (errno + string) option" where
  "read_all_fd e ios bs 0 = Some (Inr [])"
| "read_all_fd e [] bs (Suc w) = None"
| "read_all_fd e (IoErr x # ios) bs (Suc w) =
    (if x = EINTR then read_all_fd x ios bs (Suc w) else Some (Inl x))"
| "read_all_fd e (Io n # ios) bs (Suc w) =
    (let got = min n (min (Suc w) (length bs)) in
     if got = 0 then Some (Inl e)
     else case read_all_fd e ios (drop got bs) (Suc w - got) of
         None \<Rightarrow> None
       | Some (Inl x) \<Rightarrow> Some (Inl x)
       | Some (Inr rest) \<Rightarrow> Some (Inr (take got bs @ rest)))"

record read_env =
  r_euid :: nat
  r_open :: "errno option"
  r_fstat :: "errno option"
  r_fchmod :: "errno option"
  r_malloc :: bool
  r_errno :: errno
  r_reads :: "io list"

text \<open>\<^verbatim>\<open>openat\<close> with \<open>O_NOFOLLOW\<close>.\<close>

definition open_nofollow :: "errno option \<Rightarrow> dir \<Rightarrow> string \<Rightarrow> errno + inode" where
  "open_nofollow fault d name =
    (case fault of Some e \<Rightarrow> Inl e
     | None \<Rightarrow> (case d name of None \<Rightarrow> Inl ENOENT
         | Some f \<Rightarrow> if kind f = Symlink then Inl (EOTHER ''Too many levels of symbolic links'') else Inr f))"

text \<open>The result is the directory, and \<open>Inr None\<close> for a missing file or \<open>Inr (Some bytes)\<close>.\<close>

definition read_database :: "read_env \<Rightarrow> dir \<Rightarrow> string \<Rightarrow> (dir \<times> (ns_error + string option)) option" where
  "read_database env d name =
    (case open_nofollow (r_open env) d name of
       Inl e \<Rightarrow> if e = ENOENT then Some (d, Inr None)
         else Some (d, Inl (Message (''cannot open '' @ name @ '': '' @ strerror e)))
     | Inr f \<Rightarrow>
       if r_fstat env \<noteq> None \<or> kind f \<noteq> Regular \<or> st_uid f \<noteq> r_euid env \<or> st_nlink f \<noteq> 1 then
         Some (d, Inl (Message (name @ '' is not a safe regular file'')))
       else if length (fdata f) \<le> 0 \<or> NS_DB_MAX_BYTES < length (fdata f) then
         Some (d, Inl (Message (name @ '' has an invalid size'')))
       else (case r_fchmod env of
           Some e \<Rightarrow> Some (d, Inl (Message (''cannot secure '' @ name @ '': '' @ strerror e)))
         | None \<Rightarrow>
           let d1 = d(name \<mapsto> f\<lparr>st_mode := MODE_0600\<rparr>) in
           if \<not> r_malloc env then Some (d1, Inl (Message ''out of memory''))
           else (case read_all_fd (r_errno env) (r_reads env) (fdata f) (length (fdata f)) of
               None \<Rightarrow> None
             | Some (Inl e) \<Rightarrow> Some (d1, Inl (Message (''cannot read '' @ name @ '': '' @ strerror e)))
             | Some (Inr bytes) \<Rightarrow> Some (d1, Inr (Some bytes)))))"

section \<open>Writing\<close>

text \<open>\<open>write_all_fd\<close>: the bytes that reached the file, and the error if it failed.\<close>

fun write_all_fd :: "io list \<Rightarrow> string \<Rightarrow> (string \<times> errno option) option" where
  "write_all_fd ios [] = Some ([], None)"
| "write_all_fd [] (c # cs) = None"
| "write_all_fd (IoErr x # ios) (c # cs) =
    (if x = EINTR then write_all_fd ios (c # cs) else Some ([], Some x))"
| "write_all_fd (Io n # ios) (c # cs) =
    (case write_all_fd ios (drop n (c # cs)) of
       None \<Rightarrow> None
     | Some (out, e) \<Rightarrow> Some (take n (c # cs) @ out, e))"

record write_env =
  w_euid :: nat
  w_pid :: int
  w_created_mode :: nat
  w_open :: "nat \<Rightarrow> errno option"
  w_fchmod :: "errno option"
  w_writes :: "io list"
  w_fsync :: "errno option"
  w_close :: "errno option"
  w_rename :: "errno option"
  w_dirsync :: "errno option"
  w_unlink :: bool

definition temporary_name :: "string \<Rightarrow> int \<Rightarrow> nat \<Rightarrow> string" where
  "temporary_name name pid serial =
    snprintf_s 96 (''.'' @ name @ ''.tmp.'' @ print_int pid @ ''.'' @ print_nat serial)"

text \<open>The loop of at most \<open>n\<close> attempts; \<open>serial\<close> is the static 64-bit counter.\<close>

fun open_temporary :: "nat \<Rightarrow> write_env \<Rightarrow> dir \<Rightarrow> nat \<Rightarrow> string \<Rightarrow> nat \<times> (ns_error + string \<times> dir)" where
  "open_temporary 0 env d serial name =
    (serial, Inl (Message ''cannot allocate a temporary state file''))"
| "open_temporary (Suc n) env d serial name =
    (let serial1 = (serial + 1) mod 2 ^ 64;
         t = temporary_name name (w_pid env) serial1
     in case w_open env n of
          Some e \<Rightarrow>
            if e = EEXIST then open_temporary n env d serial1 name
            else (serial1, Inl (Message (''cannot create temporary state file: '' @ strerror e)))
        | None \<Rightarrow>
            if d t \<noteq> None then open_temporary n env d serial1 name
            else (serial1, Inr (t, d(t \<mapsto> \<lparr>fdata = [], kind = Regular, st_uid = w_euid env,
                    st_nlink = 1, st_mode = w_created_mode env\<rparr>))))"

text \<open>\<^verbatim>\<open>fchmod\<close>, the write loop and \<^verbatim>\<open>fsync\<close> on the temporary file.\<close>

definition persist_temporary :: "write_env \<Rightarrow> dir \<Rightarrow> string \<Rightarrow> string \<Rightarrow> (dir list \<times> errno option) option" where
  "persist_temporary env d t data =
    (case w_fchmod env of Some e \<Rightarrow> Some ([], Some e)
     | None \<Rightarrow>
       let d1 = d(t := map_option (\<lambda>f. f\<lparr>st_mode := MODE_0600\<rparr>) (d t)) in
       (case write_all_fd (w_writes env) data of None \<Rightarrow> None
        | Some (out, e) \<Rightarrow>
          let d2 = d1(t := map_option (\<lambda>f. f\<lparr>fdata := out\<rparr>) (d1 t)) in
          Some ([d1, d2], if e \<noteq> None then e else w_fsync env)))"

definition unlink_temporary :: "write_env \<Rightarrow> dir \<Rightarrow> string \<Rightarrow> dir" where
  "unlink_temporary env d t = (if w_unlink env then d(t := None) else d)"

definition atomic_write ::
  "write_env \<Rightarrow> dir \<Rightarrow> nat \<Rightarrow> string \<Rightarrow> string \<Rightarrow> (dir list \<times> nat \<times> (ns_error + unit)) option" where
  "atomic_write env d serial name data =
    (case open_temporary 100 env d serial name of
       (serial1, Inl m) \<Rightarrow> Some ([], serial1, Inl m)
     | (serial1, Inr (t, d1)) \<Rightarrow>
       (case persist_temporary env d1 t data of
          None \<Rightarrow> None
        | Some (ds, failed) \<Rightarrow>
          let d2 = last (d1 # ds); undone = d1 # ds @ [unlink_temporary env d2 t] in
          (case failed of
             Some e \<Rightarrow> Some (undone, serial1, Inl (Message (''cannot persist state: '' @ strerror e)))
           | None \<Rightarrow>
          (case w_close env of
             Some e \<Rightarrow> Some (undone, serial1, Inl (Message (''cannot close state file: '' @ strerror e)))
           | None \<Rightarrow>
          (case w_rename env of
             Some e \<Rightarrow> Some (undone, serial1, Inl (Message (''cannot publish state: '' @ strerror e)))
           | None \<Rightarrow>
             let d3 = d2(name := d2 t, t := None) in
             (case w_dirsync env of
                Some e \<Rightarrow> Some (d1 # ds @ [d3], serial1,
                  Inl (Message (''state was renamed but directory fsync failed: '' @ strerror e)))
              | None \<Rightarrow> Some (d1 # ds @ [d3], serial1, Inr ())))))))"

section \<open>Lemmas on the loops\<close>

lemma read_all_fd_sound:
  "read_all_fd e ios bs w = Some (Inr out) \<Longrightarrow> out = take w bs \<and> w \<le> length bs"
proof (induction e ios bs w arbitrary: out rule: read_all_fd.induct)
  case (4 e n ios bs w)
  let ?got = "min n (min (Suc w) (length bs))"
  from "4.prems" obtain rest where r: "?got \<noteq> 0" "read_all_fd e ios (drop ?got bs) (Suc w - ?got) = Some (Inr rest)"
    "out = take ?got bs @ rest"
    by (auto simp: Let_def split: if_splits option.splits sum.splits)
  from "4.IH" [OF refl r(1,2)] have rest: "rest = take (Suc w - ?got) (drop ?got bs)"
    and len: "Suc w - ?got \<le> length (drop ?got bs)" by auto
  have "?got + (Suc w - ?got) = Suc w" by simp
  with rest r(3) have "out = take (Suc w) bs" by (metis take_add)
  moreover have "Suc w \<le> length bs" using len by (simp add: le_diff_conv2 split: if_splits)
  ultimately show ?case by simp
qed (auto split: if_splits)

lemma read_all_fd_ok:
  "w \<le> length bs \<Longrightarrow> list_all (\<lambda>i. \<exists>n > 0. i = Io n) ios \<Longrightarrow> w \<le> length ios \<Longrightarrow>
   read_all_fd e ios bs w = Some (Inr (take w bs))"
proof (induction e ios bs w rule: read_all_fd.induct)
  case (4 e n ios bs w)
  let ?got = "min n (min (Suc w) (length bs))"
  from "4.prems" have got: "?got \<noteq> 0" by auto
  with "4.prems" have "read_all_fd e ios (drop ?got bs) (Suc w - ?got) = Some (Inr (take (Suc w - ?got) (drop ?got bs)))"
    by (intro "4.IH") auto
  moreover have "take ?got bs @ take (Suc w - ?got) (drop ?got bs) = take (Suc w) bs"
    by (subst take_add [symmetric]) simp
  ultimately show ?case using got by (simp add: Let_def)
qed auto

lemma write_all_fd_sound: "write_all_fd ios data = Some (out, None) \<Longrightarrow> out = data"
  by (induction ios data arbitrary: out rule: write_all_fd.induct) (auto split: if_splits option.splits)

lemma write_all_fd_ok:
  "list_all (\<lambda>i. \<exists>n > 0. i = Io n) ios \<Longrightarrow> length data \<le> length ios \<Longrightarrow> write_all_fd ios data = Some (data, None)"
  by (induction ios data rule: write_all_fd.induct) auto

section \<open>Atomic replacement\<close>

lemma temporary_name_hidden: "temporary_name name pid serial \<noteq> [] \<and> hd (temporary_name name pid serial) = CHR ''.''"
  by (simp add: temporary_name_def snprintf_s_def)

text \<open>The file that is published: the new contents, owned by the user and private.\<close>

definition published :: "write_env \<Rightarrow> string \<Rightarrow> inode" where
  "published env data = \<lparr>fdata = data, kind = Regular, st_uid = w_euid env, st_nlink = 1, st_mode = MODE_0600\<rparr>"

lemma open_temporary_fresh:
  "open_temporary n env d serial name = (s, Inr (t, d1)) \<Longrightarrow>
   t \<noteq> [] \<and> hd t = CHR ''.'' \<and> d t = None \<and>
   d1 = d(t \<mapsto> \<lparr>fdata = [], kind = Regular, st_uid = w_euid env, st_nlink = 1, st_mode = w_created_mode env\<rparr>)"
  by (induction n arbitrary: serial)
    (auto simp: Let_def temporary_name_hidden split: option.splits if_splits)

text \<open>Everything up to the rename touches the temporary name only.\<close>

lemma persist_temporary_local:
  assumes "persist_temporary env d t data = Some (ds, failed)"
    "d t = Some \<lparr>fdata = [], kind = Regular, st_uid = w_euid env, st_nlink = 1, st_mode = m\<rparr>"
  shows "list_all (\<lambda>x. \<forall>n. n \<noteq> t \<longrightarrow> x n = d n) ds"
    and "failed = None \<Longrightarrow> last (d # ds) t = Some (published env data)"
  using assms write_all_fd_sound [of "w_writes env" data]
  by (auto simp: persist_temporary_def published_def Let_def split: option.splits if_splits)

text \<open>What a snapshot may look like: the old file or the complete new one, all else untouched.\<close>

definition old_or_new :: "write_env \<Rightarrow> dir \<Rightarrow> string \<Rightarrow> string \<Rightarrow> dir \<Rightarrow> bool" where
  "old_or_new env d name data x \<longleftrightarrow> (x name = d name \<or> x name = Some (published env data)) \<and>
     (\<forall>n. n \<noteq> name \<longrightarrow> d n \<noteq> None \<longrightarrow> x n = d n)"

lemma old_or_new_untouched:
  "\<forall>n. n \<noteq> t \<longrightarrow> x n = d n \<Longrightarrow> d t = None \<Longrightarrow> t \<noteq> name \<Longrightarrow> old_or_new env d name data x"
  unfolding old_or_new_def by metis

lemma old_or_new_published: "old_or_new env d name data (d(name \<mapsto> published env data))"
  by (simp add: old_or_new_def)

text \<open>
  The shapes of a run: nothing was touched; or the temporary file was written
  and removed; or it was renamed.
\<close>

lemma atomic_write_cases:
  assumes "atomic_write env d serial name data = Some (trace, s, r)"
  obtains (none) m where "trace = []" "r = Inl m"
  | (undone) t d1 ds failed m where "open_temporary 100 env d serial name = (s, Inr (t, d1))"
      "persist_temporary env d1 t data = Some (ds, failed)"
      "trace = d1 # ds @ [unlink_temporary env (last (d1 # ds)) t]" "r = Inl m"
  | (renamed) t d1 ds where "open_temporary 100 env d serial name = (s, Inr (t, d1))"
      "persist_temporary env d1 t data = Some (ds, None)"
      "trace = d1 # ds @ [(last (d1 # ds))(name := last (d1 # ds) t, t := None)]"
      "r = (case w_dirsync env of None \<Rightarrow> Inr () | Some e \<Rightarrow>
         Inl (Message (''state was renamed but directory fsync failed: '' @ strerror e)))"
proof -
  obtain s1 o1 where ot: "open_temporary 100 env d serial name = (s1, o1)" by (cases "open_temporary 100 env d serial name")
  show ?thesis
  proof (cases o1)
    case (Inl m)
    with assms ot none show ?thesis by (auto simp: atomic_write_def)
  next
    case (Inr p)
    obtain t d1 where p: "p = (t, d1)" by (cases p)
    from assms ot Inr p obtain ds failed where pt: "persist_temporary env d1 t data = Some (ds, failed)"
      by (auto simp: atomic_write_def split: option.splits)
    show ?thesis
    proof (cases "failed = None \<and> w_close env = None \<and> w_rename env = None")
      case True
      with assms ot Inr p pt show ?thesis
        by (intro renamed [of t d1 ds]) (auto simp: atomic_write_def Let_def split: option.splits)
    next
      case False
      with assms ot Inr p pt undone [of t d1 ds failed] show ?thesis
        by (auto simp: atomic_write_def Let_def split: option.splits)
    qed
  qed
qed

lemma atomic_write_published:
  assumes "atomic_write env d serial name data = Some (trace, s, Inr ())" "name \<noteq> []" "hd name \<noteq> CHR ''.''"
  shows "last trace = d(name \<mapsto> published env data)"
  using assms(1)
proof (cases rule: atomic_write_cases)
  case (renamed t d1 ds)
  note fresh = open_temporary_fresh [OF renamed(1)]
  then have tn: "t \<noteq> name" using assms(2,3) by auto
  have ds: "list_all (\<lambda>x. \<forall>n. n \<noteq> t \<longrightarrow> x n = d n) (d1 # ds)" "last (d1 # ds) t = Some (published env data)"
    using persist_temporary_local [OF renamed(2)] fresh by (auto simp: list_all_iff)
  then have "\<forall>n. n \<noteq> t \<longrightarrow> last (d1 # ds) n = d n" unfolding list_all_iff using last_in_set by blast
  then have "(last (d1 # ds))(name := last (d1 # ds) t, t := None) = d(name \<mapsto> published env data)"
    using ds(2) fresh tn by (auto simp: fun_eq_iff)
  then show ?thesis unfolding renamed(3) by simp
qed simp_all

text \<open>
  C6: replacing a database file is atomic whatever fails: in every intermediate
  directory the file has its old contents or the complete new ones and no
  other existing file has changed; success means the new contents are
  published, privately; and an error means that they are not, unless it is the
  one that reports a failed directory sync after the rename.
\<close>

theorem atomic_write_atomic:
  assumes "atomic_write env d serial name data = Some (trace, s, r)" "name \<noteq> []" "hd name \<noteq> CHR ''.''"
  shows "list_all (old_or_new env d name data) trace \<and>
    (r = Inr () \<longrightarrow> last trace = d(name \<mapsto> published env data)) \<and>
    (\<forall>m. r = Inl m \<longrightarrow> last (d # trace) name = d name \<or>
      (\<exists>e. m = Message (''state was renamed but directory fsync failed: '' @ strerror e)))"
  using assms(1)
proof (cases rule: atomic_write_cases)
  case (none m)
  then show ?thesis by simp
next
  case (undone t d1 ds failed m)
  note fresh = open_temporary_fresh [OF undone(1)]
  then have tn: "t \<noteq> name" using assms(2,3) by auto
  have ds: "list_all (\<lambda>x. \<forall>n. n \<noteq> t \<longrightarrow> x n = d n) (d1 # ds)"
    using persist_temporary_local(1) [OF undone(2)] fresh by (auto simp: list_all_iff)
  then have "\<forall>n. n \<noteq> t \<longrightarrow> last (d1 # ds) n = d n" unfolding list_all_iff using last_in_set by blast
  with ds have all: "list_all (\<lambda>x. \<forall>n. n \<noteq> t \<longrightarrow> x n = d n) trace"
    unfolding undone(3) by (auto simp: unlink_temporary_def list_all_iff)
  then have "list_all (old_or_new env d name data) trace"
    using tn fresh old_or_new_untouched [of t _ d name] by (simp add: list_all_iff)
  moreover have "last trace name = d name"
    using all tn undone(3) last_in_set [of trace] by (auto simp: list_all_iff)
  ultimately show ?thesis using undone(3,4) by simp
next
  case (renamed t d1 ds)
  note fresh = open_temporary_fresh [OF renamed(1)]
  then have tn: "t \<noteq> name" using assms(2,3) by auto
  have ds: "list_all (\<lambda>x. \<forall>n. n \<noteq> t \<longrightarrow> x n = d n) (d1 # ds)" "last (d1 # ds) t = Some (published env data)"
    using persist_temporary_local [OF renamed(2)] fresh by (auto simp: list_all_iff)
  then have l: "\<forall>n. n \<noteq> t \<longrightarrow> last (d1 # ds) n = d n" unfolding list_all_iff using last_in_set by blast
  have new: "(last (d1 # ds))(name := last (d1 # ds) t, t := None) = d(name \<mapsto> published env data)"
    using l ds(2) fresh tn by (auto simp: fun_eq_iff)
  have "list_all (old_or_new env d name data) (d1 # ds)"
    using ds(1) tn fresh old_or_new_untouched [of t _ d name] by (simp add: list_all_iff)
  then have "list_all (old_or_new env d name data) trace"
    unfolding renamed(3) new by (simp add: old_or_new_published)
  moreover have "last trace = d(name \<mapsto> published env data)" unfolding renamed(3) new by simp
  ultimately show ?thesis using renamed(4) by (auto split: option.splits)
qed

definition quiet_writes :: "nat \<Rightarrow> write_env" where
  "quiet_writes n = \<lparr>w_euid = 0, w_pid = 1, w_created_mode = MODE_0600, w_open = \<lambda>n. None, w_fchmod = None,
     w_writes = replicate n (Io 1), w_fsync = None, w_close = None, w_rename = None, w_dirsync = None, w_unlink = True\<rparr>"

lemma atomic_write_quiet:
  assumes "\<And>n. w_open env n = None" "w_fchmod env = None" "w_fsync env = None" "w_close env = None"
    "w_rename env = None" "w_dirsync env = None" "write_all_fd (w_writes env) data = Some (data, None)"
    "d (temporary_name name (w_pid env) ((serial + 1) mod 2 ^ 64)) = None"
  shows "\<exists>trace s. atomic_write env d serial name data = Some (trace, s, Inr ())"
proof -
  have "open_temporary 100 env d serial name = open_temporary (Suc 99) env d serial name" by simp
  then show ?thesis
    using assms unfolding atomic_write_def
    by (simp only: open_temporary.simps) (simp add: Let_def persist_temporary_def)
qed

theorem atomic_write_atomic_witness:
  "\<exists>trace s. atomic_write (quiet_writes 2) Map.empty 0 NS_WIFI_FILE ''ab'' = Some (trace, s, Inr ()) \<and>
     last trace = [NS_WIFI_FILE \<mapsto> published (quiet_writes 2) ''ab'']"
proof -
  have "write_all_fd (w_writes (quiet_writes 2)) ''ab'' = Some (''ab'', None)"
    by (intro write_all_fd_ok) (auto simp: quiet_writes_def list_all_iff)
  then obtain trace s where r: "atomic_write (quiet_writes 2) Map.empty 0 NS_WIFI_FILE ''ab'' = Some (trace, s, Inr ())"
    using atomic_write_quiet [of "quiet_writes 2" "''ab''" Map.empty NS_WIFI_FILE 0] by (auto simp: quiet_writes_def)
  from atomic_write_atomic [OF r] have "last trace = [NS_WIFI_FILE \<mapsto> published (quiet_writes 2) ''ab'']"
    by (simp add: NS_WIFI_FILE_def)
  with r show ?thesis by blast
qed

text \<open>
  A database file is read only when it is a regular file of the user with
  one link, not a symbolic link, and of 1 to 262144 bytes; the bytes returned
  are its whole contents however the reads are split, and it is made private
  before the first byte is read.
\<close>

theorem read_database_safe:
  assumes "read_database env d name = Some (d1, Inr (Some bytes))"
  shows "\<exists>f. d name = Some f \<and> kind f = Regular \<and> st_uid f = r_euid env \<and> st_nlink f = 1 \<and>
    bytes = fdata f \<and> bytes \<noteq> [] \<and> length bytes \<le> NS_DB_MAX_BYTES \<and> d1 = d(name \<mapsto> f\<lparr>st_mode := MODE_0600\<rparr>)"
proof -
  from assms obtain f where f: "open_nofollow (r_open env) d name = Inr f"
    by (auto simp: read_database_def split: sum.splits if_splits)
  then have "d name = Some f" by (auto simp: open_nofollow_def split: option.splits if_splits)
  with assms f show ?thesis
    by (auto simp: read_database_def Let_def split: if_splits option.splits sum.splits dest: read_all_fd_sound)
qed

definition quiet_reads :: "nat \<Rightarrow> read_env" where
  "quiet_reads n = \<lparr>r_euid = 0, r_open = None, r_fstat = None, r_fchmod = None, r_malloc = True,
     r_errno = EINTR, r_reads = replicate n (Io 1)\<rparr>"

lemma read_database_quiet:
  assumes "r_open env = None" "r_fstat env = None" "r_fchmod env = None" "r_malloc env"
    "list_all (\<lambda>i. \<exists>n > 0. i = Io n) (r_reads env)" "length (fdata f) \<le> length (r_reads env)"
    "d name = Some f" "kind f = Regular" "st_uid f = r_euid env" "st_nlink f = 1"
    "fdata f \<noteq> []" "length (fdata f) \<le> NS_DB_MAX_BYTES"
  shows "read_database env d name = Some (d(name \<mapsto> f\<lparr>st_mode := MODE_0600\<rparr>), Inr (Some (fdata f)))"
  using assms read_all_fd_ok [of "length (fdata f)" "fdata f" "r_reads env"]
  by (simp add: read_database_def open_nofollow_def Let_def)

theorem read_database_safe_witness:
  "\<exists>f. kind f = Regular \<and> fdata f = ''hello'' \<and> st_nlink f = 1 \<and>
     read_database (quiet_reads 5) [NS_WIFI_FILE \<mapsto> f] NS_WIFI_FILE = Some ([NS_WIFI_FILE \<mapsto> f], Inr (Some ''hello''))"
proof -
  let ?f = "\<lparr>fdata = ''hello'', kind = Regular, st_uid = 0, st_nlink = 1, st_mode = MODE_0600\<rparr>"
  have r: "read_database (quiet_reads 5) [NS_WIFI_FILE \<mapsto> ?f] NS_WIFI_FILE =
    Some ([NS_WIFI_FILE \<mapsto> ?f], Inr (Some ''hello''))"
    by (subst read_database_quiet [of _ ?f]) (auto simp: quiet_reads_def list_all_iff NS_DB_MAX_BYTES_def)
  from read_database_safe [OF r] have "kind ?f = Regular" "st_nlink ?f = 1" by auto
  with r show ?thesis by (intro exI [of _ ?f]) simp
qed

end
