(* ===== verification/Lines.thy ===== *)
theory Lines
  imports Percent
begin

text \<open>
  Text files of lines and tab-separated fields, as the settings store and the
  Bluetooth snapshot are written: which strings survive as a field or as a
  line, and that the next line of a written text is the line that was written.
\<close>

definition lines_text :: "string list \<Rightarrow> string" where
  "lines_text ls = concat (map (\<lambda>l. l @ [LF]) ls)"

lemma lines_text_simps [simp]: "lines_text [] = []" "lines_text (l # ls) = l @ LF # lines_text ls"
  by (simp_all add: lines_text_def)

text \<open>A field has no separator; a line has no line feed and no NUL.\<close>

definition clean_field :: "string \<Rightarrow> bool" where
  "clean_field t \<longleftrightarrow> (\<forall>c \<in> set t. 0x20 \<le> byte c)"

definition clean_line :: "string \<Rightarrow> bool" where
  "clean_line t \<longleftrightarrow> LF \<notin> set t \<and> NUL \<notin> set t"

lemma clean_fieldD: "clean_field t \<Longrightarrow> TAB \<notin> set t \<and> LF \<notin> set t \<and> NUL \<notin> set t"
  by (auto simp: clean_field_def)

lemma clean_line_Nil [simp]: "clean_line []"
  by (simp add: clean_line_def)

lemma clean_line_append [simp]: "clean_line (s @ t) \<longleftrightarrow> clean_line s \<and> clean_line t"
  by (auto simp: clean_line_def)

lemma clean_line_Cons [simp]: "clean_line (c # t) \<longleftrightarrow> c \<noteq> LF \<and> c \<noteq> NUL \<and> clean_line t"
  by (auto simp: clean_line_def)

lemma clean_line_field: "clean_field t \<Longrightarrow> clean_line t"
  by (auto simp: clean_line_def dest: clean_fieldD)

lemma clean_encode [simp]: "clean_field (encode_text t)"
  by (auto simp: clean_field_def intro: encode_text_clean)

lemma clean_print_nat [simp]: "clean_field (print_nat n)"
  by (auto simp: clean_field_def isdigit_def dest: print_nat_digits)

lemma clean_print_int [simp]: "clean_field (print_int i)"
  using clean_print_nat by (auto simp: print_int_def clean_field_def)

lemma print_int_clean: "c \<in> set (print_int i) \<Longrightarrow> 0x20 \<le> byte c"
  using clean_print_int [of i] by (simp add: clean_field_def)

lemmas clean_simps = clean_line_field clean_fieldD [THEN conjunct1]

lemma next_line_clean: "clean_line l \<Longrightarrow> next_line (l @ LF # rest) = (l, rest) \<and> cstr l = l"
  by (simp add: clean_line_def)

lemma last_lines_text: "ls \<noteq> [] \<Longrightarrow> lines_text ls \<noteq> [] \<and> last (lines_text ls) = LF"
proof (induction ls)
  case (Cons l ls)
  then show ?case by (cases ls) auto
qed simp

section \<open>Reading a stream line by line\<close>

text \<open>
  \<^verbatim>\<open>fgets(line, n, stream)\<close>: up to \<open>n - 1\<close> bytes, and no further than the first
  line feed, which is kept. The second part is what the stream still holds.
\<close>

definition fgets :: "nat \<Rightarrow> string \<Rightarrow> (string \<times> string) option" where
  "fgets n s =
    (if s = [] \<or> n < 2 then None
     else let k = length (takeWhile (\<lambda>c. c \<noteq> LF) s); m = min (Suc k) (n - 1) in Some (take m s, drop m s))"

lemma fgets_shorter: "fgets n s = Some (l, r) \<Longrightarrow> length r < length s"
  by (auto simp: fgets_def Let_def split: if_splits)

text \<open>The buffers of the loop \<^verbatim>\<open>while (fgets(line, sizeof(line), stream) != NULL)\<close>, as C strings.\<close>

function fgets_lines :: "nat \<Rightarrow> string \<Rightarrow> string list" where
  "fgets_lines n s = (case fgets n s of None \<Rightarrow> [] | Some (l, r) \<Rightarrow> cstr l # fgets_lines n r)"
  by pat_completeness auto
termination by (relation "measure (\<lambda>(n, s). length s)") (auto dest: fgets_shorter)

declare fgets_lines.simps [simp del]

lemma fgets_line:
  "LF \<notin> set l \<Longrightarrow> length l + 1 < n \<Longrightarrow> fgets n (l @ LF # rest) = Some (l @ [LF], rest)"
proof -
  assume l: "LF \<notin> set l" and n: "length l + 1 < n"
  have "takeWhile (\<lambda>c. c \<noteq> LF) (l @ LF # rest) = l" using l by (subst takeWhile_append2) auto
  moreover have "min (Suc (length l)) (n - 1) = Suc (length l)" using n by simp
  ultimately show ?thesis using n by (simp add: fgets_def Let_def)
qed

lemma fgets_lines_text:
  "list_all clean_line ls \<Longrightarrow> list_all (\<lambda>l. length l + 1 < n) ls \<Longrightarrow> fgets_lines n (lines_text ls) = map (\<lambda>l. l @ [LF]) ls"
proof (induction ls)
  case Nil
  then show ?case by (simp add: fgets_lines.simps [of n "[]"] fgets_def)
next
  case (Cons l ls)
  then have "fgets n (l @ LF # lines_text ls) = Some (l @ [LF], lines_text ls)"
    by (intro fgets_line) (simp_all add: clean_line_def)
  then show ?case using Cons by (simp add: fgets_lines.simps [of n "l @ LF # _"] clean_line_def)
qed

text \<open>\<^verbatim>\<open>text[strcspn(text, "\<close>CR LF\<^verbatim>\<open>")] = 0\<close>.\<close>

definition strip_line_end :: "string \<Rightarrow> string" where
  "strip_line_end = takeWhile (\<lambda>c. c \<noteq> CR \<and> c \<noteq> LF)"

lemma strip_line_end_id: "CR \<notin> set l \<Longrightarrow> LF \<notin> set l \<Longrightarrow> strip_line_end l = l"
  by (auto simp: strip_line_end_def takeWhile_eq_all_conv)

lemma strip_line_end_line [simp]: "CR \<notin> set l \<Longrightarrow> LF \<notin> set l \<Longrightarrow> strip_line_end (l @ LF # r) = l"
  unfolding strip_line_end_def by (subst takeWhile_append2) auto

end
