(* ===== verification/Netstream_Store.thy ===== *)
theory Netstream_Store
  imports Netstream_Db Netstream_Files Lines
begin

text \<open>
  Saving and loading the two databases (\<^verbatim>\<open>components/netstream/src/netstream.c\<close>):
  serialisation into the output buffer, publication with \<open>atomic_write\<close>, the
  line parser, and that loading what was saved gives the database back. The
  parsers of both files have the same loop; it is written once, with the tag,
  the header and the two line parsers of each file as its arguments.

  A line is what stands between two line feeds; the C code then treats it as a
  string, so bytes after an embedded NUL are not looked at.
\<close>

section \<open>Saving\<close>

record ns_store =
  dir_fd :: int
  lock_fd :: int

definition wifi_header :: string where
  "wifi_header = ''RG40XXV_NETSTREAM_WIFI'' @ [TAB, CHR ''1'']"

definition hosts_header :: string where
  "hosts_header = ''RG40XXV_NETSTREAM_HOSTS'' @ [TAB, CHR ''1'']"

text \<open>\<^verbatim>\<open>%s\<close> of a name that may be a null pointer.\<close>

definition format_name :: "string option \<Rightarrow> string" where
  "format_name n = (case n of None \<Rightarrow> ''(null)'' | Some t \<Rightarrow> t)"

fun wifi_records :: "(nat \<Rightarrow> bool) \<Rightarrow> ns_buffer \<Rightarrow> ns_wifi_profile list \<Rightarrow> ns_buffer option" where
  "wifi_records ra b [] = Some b"
| "wifi_records ra b (p # ps) =
    do { b1 \<leftarrow> buffer_append ra b [CHR ''W'', TAB];
         b2 \<leftarrow> buffer_encoded ra b1 (ssid p);
         b3 \<leftarrow> buffer_printf ra b2 ([TAB] @ format_name (ns_wifi_security_name (security p)) @ [TAB] @
                 print_int (hidden p) @ [TAB] @ print_int (priority p) @ [TAB]);
         b4 \<leftarrow> buffer_encoded ra b3 (secret p);
         b5 \<leftarrow> buffer_append ra b4 [LF];
         wifi_records ra b5 ps }"

definition wifi_buffer :: "(nat \<Rightarrow> bool) \<Rightarrow> ns_wifi_db \<Rightarrow> ns_buffer option" where
  "wifi_buffer ra db =
    do { b1 \<leftarrow> buffer_append ra empty_buffer (wifi_header @ [LF, CHR ''D'', TAB]);
         b2 \<leftarrow> buffer_encoded ra b1 (default_ssid db);
         b3 \<leftarrow> buffer_append ra b2 [LF];
         wifi_records ra b3 (take (wcount db) (profiles db)) }"

definition ns_wifi_save ::
  "(nat \<Rightarrow> bool) \<Rightarrow> write_env \<Rightarrow> ns_store \<Rightarrow> dir \<Rightarrow> nat \<Rightarrow> ns_wifi_db \<Rightarrow> (dir list \<times> nat \<times> (ns_error + unit)) option" where
  "ns_wifi_save ra env store d serial db =
    (if dir_fd store < 0 then Some ([], serial, Inl (Message ''invalid Wi-Fi save request''))
     else case validate_wifi_db db of
         Inl e \<Rightarrow> Some ([], serial, Inl e)
       | Inr _ \<Rightarrow>
         (case wifi_buffer ra db of
            None \<Rightarrow> Some ([], serial, Inl (Message ''Wi-Fi database is too large''))
          | Some b \<Rightarrow> atomic_write env d serial NS_WIFI_FILE (bdata b)))"

fun host_records :: "(nat \<Rightarrow> bool) \<Rightarrow> ns_buffer \<Rightarrow> ns_host list \<Rightarrow> ns_buffer option" where
  "host_records ra b [] = Some b"
| "host_records ra b (h # hs) =
    do { b1 \<leftarrow> buffer_append ra b [CHR ''H'', TAB];
         b2 \<leftarrow> buffer_encoded ra b1 (h_name h);
         b3 \<leftarrow> buffer_append ra b2 [TAB];
         b4 \<leftarrow> buffer_encoded ra b3 (h_address h);
         b5 \<leftarrow> buffer_printf ra b4 ([TAB] @ print_int (paired h) @ [TAB] @ print_nat (last_used h) @ [TAB] @
                 print_nat (width (resolution h)) @ [TAB] @ print_nat (height (resolution h)) @ [TAB] @
                 print_int (custom (resolution h)) @ [TAB] @ print_nat (fps h) @ [TAB] @
                 print_nat (bitrate_kbps h) @ [TAB] @ print_nat (packet_size h) @ [TAB] @
                 format_name (ns_codec_name (codec h)) @ [TAB] @ format_name (ns_aspect_name (aspect h)) @ [LF]);
         host_records ra b5 hs }"

definition host_buffer :: "(nat \<Rightarrow> bool) \<Rightarrow> ns_host_db \<Rightarrow> ns_buffer option" where
  "host_buffer ra db =
    do { b1 \<leftarrow> buffer_append ra empty_buffer (hosts_header @ [LF, CHR ''D'', TAB]);
         b2 \<leftarrow> buffer_encoded ra b1 (default_name db);
         b3 \<leftarrow> buffer_append ra b2 [LF];
         host_records ra b3 (take (hcount db) (hosts db)) }"

definition ns_hosts_save ::
  "inet_pton \<Rightarrow> (nat \<Rightarrow> bool) \<Rightarrow> write_env \<Rightarrow> ns_store \<Rightarrow> dir \<Rightarrow> nat \<Rightarrow> ns_host_db \<Rightarrow>
    (dir list \<times> nat \<times> (ns_error + unit)) option" where
  "ns_hosts_save pton ra env store d serial db =
    (if dir_fd store < 0 then Some ([], serial, Inl (Message ''invalid host save request''))
     else case validate_host_db pton db of
         Inl e \<Rightarrow> Some ([], serial, Inl e)
       | Inr _ \<Rightarrow>
         (case host_buffer ra db of
            None \<Rightarrow> Some ([], serial, Inl (Message ''host database is too large''))
          | Some b \<Rightarrow> atomic_write env d serial NS_HOSTS_FILE (bdata b)))"

section \<open>Loading\<close>

text \<open>
  The loop over lines: the lines already read, whether the default line was
  seen, the database so far and the bytes left.
\<close>

function load_lines :: "string \<Rightarrow> string \<Rightarrow> char \<Rightarrow> (string \<Rightarrow> 'db \<Rightarrow> 'db option) \<Rightarrow> (string \<Rightarrow> 'db \<Rightarrow> 'db option) \<Rightarrow>
    nat \<Rightarrow> bool \<Rightarrow> 'db \<Rightarrow> string \<Rightarrow> ns_error + bool \<times> 'db" where
  "load_lines label header tag default_line record_line line_number saw_default db s =
    (if s = [] then Inr (saw_default, db)
     else
       let line = cstr (fst (next_line s)); rest = snd (next_line s); n = line_number + 1;
           malformed = Inl (Message (label @ '' database line '' @ print_nat n @ '' is malformed''))
       in
       if n = 1 then
         (if line \<noteq> header then Inl (Message (''unsupported '' @ label @ '' database header''))
          else load_lines label header tag default_line record_line n saw_default db rest)
       else if n = 2 \<and> take 2 line = [CHR ''D'', TAB] then
         (if saw_default then malformed
          else case default_line line db of
              None \<Rightarrow> malformed
            | Some db1 \<Rightarrow> load_lines label header tag default_line record_line n True db1 rest)
       else if 2 < n \<and> saw_default \<and> take 2 line = [tag, TAB] then
         (case record_line line db of
            None \<Rightarrow> malformed
          | Some db1 \<Rightarrow> load_lines label header tag default_line record_line n saw_default db1 rest)
       else malformed)"
  by pat_completeness auto
termination
  by (relation "measure (\<lambda>(label, header, tag, default_line, record_line, n, saw, db, s). length s)")
    (simp_all add: next_line_shorter)

declare load_lines.simps [simp del]

definition wifi_default_line :: "string \<Rightarrow> ns_wifi_db \<Rightarrow> ns_wifi_db option" where
  "wifi_default_line line db =
    do { fields \<leftarrow> split_fields line 2;
         _ \<leftarrow> (if fields ! 0 = ''D'' then Some () else None);
         d \<leftarrow> percent_decode (fields ! 1) (NS_SSID_MAX_BYTES + 1);
         Some (db\<lparr>default_ssid := d\<rparr>) }"

definition wifi_record_line :: "string \<Rightarrow> ns_wifi_db \<Rightarrow> ns_wifi_db option" where
  "wifi_record_line line db =
    do { _ \<leftarrow> (if NS_MAX_WIFI_PROFILES \<le> wcount db then None else Some ());
         fields \<leftarrow> split_fields line 6;
         _ \<leftarrow> (if fields ! 0 = ''W'' then Some () else None);
         name \<leftarrow> percent_decode (fields ! 1) (NS_SSID_MAX_BYTES + 1);
         sec \<leftarrow> ns_parse_wifi_security (fields ! 2);
         hid \<leftarrow> ns_parse_bool (fields ! 3);
         prio \<leftarrow> parse_priority (fields ! 4);
         key \<leftarrow> percent_decode (fields ! 5) (NS_WIFI_SECRET_MAX_BYTES + 1);
         let p = \<lparr>ssid = name, security = sec, hidden = hid, priority = prio, secret = key\<rparr> in
         if ns_validate_wifi p \<noteq> Inr () \<or> ns_wifi_find db (Some (ssid p)) \<noteq> None then None
         else Some (db\<lparr>profiles := (profiles db)[wcount db := p], wcount := wcount db + 1\<rparr>) }"

definition wifi_parse :: "string \<Rightarrow> ns_error + ns_wifi_db" where
  "wifi_parse bytes =
    (if last bytes \<noteq> LF then Inl (Message ''Wi-Fi database is truncated (missing final newline)'')
     else case load_lines ''Wi-Fi'' wifi_header (CHR ''W'') wifi_default_line wifi_record_line 0 False zero_wifi_db bytes of
         Inl e \<Rightarrow> Inl e
       | Inr (saw_default, db) \<Rightarrow>
         if \<not> saw_default then Inl NoMessage
         else (case validate_wifi_db db of Inl e \<Rightarrow> Inl e | Inr _ \<Rightarrow> Inr db))"

text \<open>The result is the directory, the caller's database and the status.\<close>

definition ns_wifi_load :: "read_env \<Rightarrow> ns_store \<Rightarrow> dir \<Rightarrow> ns_wifi_db \<Rightarrow> (dir \<times> ns_wifi_db \<times> (ns_error + unit)) option" where
  "ns_wifi_load env store d db =
    (if dir_fd store < 0 then Some (d, db, Inl (Message ''invalid Wi-Fi load request''))
     else case read_database env d NS_WIFI_FILE of
         None \<Rightarrow> None
       | Some (d1, Inl e) \<Rightarrow> Some (d1, zero_wifi_db, Inl e)
       | Some (d1, Inr None) \<Rightarrow> Some (d1, zero_wifi_db, Inr ())
       | Some (d1, Inr (Some bytes)) \<Rightarrow>
         (case wifi_parse bytes of
            Inl e \<Rightarrow> Some (d1, zero_wifi_db, Inl e)
          | Inr db1 \<Rightarrow> Some (d1, db1, Inr ())))"

definition host_default_line :: "string \<Rightarrow> ns_host_db \<Rightarrow> ns_host_db option" where
  "host_default_line line db =
    do { fields \<leftarrow> split_fields line 2;
         _ \<leftarrow> (if fields ! 0 = ''D'' then Some () else None);
         d \<leftarrow> percent_decode (fields ! 1) (NS_HOST_NAME_MAX_BYTES + 1);
         Some (db\<lparr>default_name := d\<rparr>) }"

definition UINT32_MAX :: nat where "UINT32_MAX = 2 ^ 32 - 1"

definition host_record_line :: "inet_pton \<Rightarrow> string \<Rightarrow> ns_host_db \<Rightarrow> ns_host_db option" where
  "host_record_line pton line db =
    do { _ \<leftarrow> (if NS_MAX_HOSTS \<le> hcount db then None else Some ());
         fields \<leftarrow> split_fields line 13;
         _ \<leftarrow> (if fields ! 0 = ''H'' then Some () else None);
         name \<leftarrow> percent_decode (fields ! 1) (NS_HOST_NAME_MAX_BYTES + 1);
         addr \<leftarrow> percent_decode (fields ! 2) (NS_HOST_ADDRESS_MAX_BYTES + 1);
         pair \<leftarrow> ns_parse_bool (fields ! 3);
         used \<leftarrow> parse_u64 (fields ! 4) 0 4102444800;
         w \<leftarrow> parse_u32 (fields ! 5) 0 UINT32_MAX;
         h \<leftarrow> parse_u32 (fields ! 6) 0 UINT32_MAX;
         cust \<leftarrow> ns_parse_bool (fields ! 7);
         f \<leftarrow> parse_u32 (fields ! 8) 0 UINT32_MAX;
         rate \<leftarrow> parse_u32 (fields ! 9) 0 UINT32_MAX;
         size \<leftarrow> parse_u32 (fields ! 10) 0 UINT32_MAX;
         c \<leftarrow> ns_parse_codec (fields ! 11);
         a \<leftarrow> ns_parse_aspect (fields ! 12);
         let host = \<lparr>h_name = name, h_address = addr, paired = pair, last_used = used,
               resolution = \<lparr>width = w, height = h, custom = cust\<rparr>, fps = f, bitrate_kbps = rate,
               packet_size = size, codec = c, aspect = a\<rparr> in
         if ns_validate_host pton host \<noteq> Inr () \<or> ns_host_find db (Some (h_name host)) \<noteq> None then None
         else Some (db\<lparr>hosts := (hosts db)[hcount db := host], hcount := hcount db + 1\<rparr>) }"

definition host_parse :: "inet_pton \<Rightarrow> string \<Rightarrow> ns_error + ns_host_db" where
  "host_parse pton bytes =
    (if last bytes \<noteq> LF then Inl (Message ''host database is truncated (missing final newline)'')
     else case load_lines ''host'' hosts_header (CHR ''H'') host_default_line (host_record_line pton) 0 False zero_host_db bytes of
         Inl e \<Rightarrow> Inl e
       | Inr (saw_default, db) \<Rightarrow>
         if \<not> saw_default then Inl NoMessage
         else (case validate_host_db pton db of Inl e \<Rightarrow> Inl e | Inr _ \<Rightarrow> Inr db))"

definition ns_hosts_load ::
  "inet_pton \<Rightarrow> read_env \<Rightarrow> ns_store \<Rightarrow> dir \<Rightarrow> ns_host_db \<Rightarrow> (dir \<times> ns_host_db \<times> (ns_error + unit)) option" where
  "ns_hosts_load pton env store d db =
    (if dir_fd store < 0 then Some (d, db, Inl (Message ''invalid host load request''))
     else case read_database env d NS_HOSTS_FILE of
         None \<Rightarrow> None
       | Some (d1, Inl e) \<Rightarrow> Some (d1, zero_host_db, Inl e)
       | Some (d1, Inr None) \<Rightarrow> Some (d1, zero_host_db, Inr ())
       | Some (d1, Inr (Some bytes)) \<Rightarrow>
         (case host_parse pton bytes of
            Inl e \<Rightarrow> Some (d1, zero_host_db, Inl e)
          | Inr db1 \<Rightarrow> Some (d1, db1, Inr ())))"

section \<open>What the buffer holds\<close>

definition allocates :: "(nat \<Rightarrow> bool) \<Rightarrow> bool" where
  "allocates ra \<longleftrightarrow> (\<forall>n. ra n)"

text \<open>
  A writer that appends a fixed text, and fails only when memory or the size
  limit runs out. Writers compose.
\<close>

definition appends :: "(nat \<Rightarrow> bool) \<Rightarrow> (ns_buffer \<Rightarrow> ns_buffer option) \<Rightarrow> string \<Rightarrow> bool" where
  "appends ra f t \<longleftrightarrow>
     (\<forall>b b1. buffer_ok b \<longrightarrow> f b = Some b1 \<longrightarrow> buffer_ok b1 \<and> bdata b1 = bdata b @ t) \<and>
     (\<forall>b. buffer_ok b \<longrightarrow> allocates ra \<longrightarrow> length (bdata b) + length t \<le> NS_DB_MAX_BYTES \<longrightarrow> (\<exists>b1. f b = Some b1))"

lemma appendsI:
  assumes "\<And>b b1. buffer_ok b \<Longrightarrow> f b = Some b1 \<Longrightarrow> buffer_ok b1 \<and> bdata b1 = bdata b @ t"
    and "\<And>b. buffer_ok b \<Longrightarrow> allocates ra \<Longrightarrow> length (bdata b) + length t \<le> NS_DB_MAX_BYTES \<Longrightarrow> \<exists>b1. f b = Some b1"
  shows "appends ra f t"
  using assms unfolding appends_def by blast

lemma appendsD:
  assumes "appends ra f t" "buffer_ok b"
  shows "f b = Some b1 \<Longrightarrow> buffer_ok b1 \<and> bdata b1 = bdata b @ t"
    and "allocates ra \<Longrightarrow> length (bdata b) + length t \<le> NS_DB_MAX_BYTES \<Longrightarrow> \<exists>b1. f b = Some b1"
  using assms unfolding appends_def by blast+

lemma appends_append: "appends ra (\<lambda>b. buffer_append ra b t) t"
proof (rule appendsI)
  fix b
  assume "buffer_ok b" "allocates ra" "length (bdata b) + length t \<le> NS_DB_MAX_BYTES"
  then show "\<exists>b1. buffer_append ra b t = Some b1"
    using buffer_append_ok [of b ra t] by (auto simp: allocates_def)
qed (rule buffer_append_spec)

lemma appends_printf: "appends ra (\<lambda>b. buffer_printf ra b t) t"
  by (simp add: buffer_printf_append appends_append)

lemma appends_encoded: "appends ra (\<lambda>b. buffer_encoded ra b t) (encode_text t)"
proof (rule appendsI)
  fix b
  assume "buffer_ok b" "allocates ra" "length (bdata b) + length (encode_text t) \<le> NS_DB_MAX_BYTES"
  then show "\<exists>b1. buffer_encoded ra b t = Some b1"
    using buffer_encoded_ok [of ra b t] by (auto simp: allocates_def)
qed (rule buffer_encoded_spec)

lemma appends_nil: "appends ra Some []"
  by (rule appendsI) auto

lemma appends_bind:
  assumes f: "appends ra f t" and g: "appends ra g u"
  shows "appends ra (\<lambda>b. f b \<bind> g) (t @ u)"
proof (rule appendsI)
  fix b b2
  assume b: "buffer_ok b" "f b \<bind> g = Some b2"
  then obtain b1 where b1: "f b = Some b1" "g b1 = Some b2" by (cases "f b") auto
  with appendsD(1) [OF f b(1) b1(1)] appendsD(1) [OF g _ b1(2)] show "buffer_ok b2 \<and> bdata b2 = bdata b @ t @ u" by simp
next
  fix b
  assume b: "buffer_ok b" "allocates ra" "length (bdata b) + length (t @ u) \<le> NS_DB_MAX_BYTES"
  then obtain b1 where b1: "f b = Some b1" using appendsD(2) [OF f b(1,2)] by auto
  with appendsD(1) [OF f b(1) b1] b appendsD(2) [OF g _ b(2), of b1] show "\<exists>b2. f b \<bind> g = Some b2" by simp
qed

lemma appends_empty:
  assumes "appends ra f t"
  shows "f empty_buffer = Some b \<Longrightarrow> bdata b = t"
    and "allocates ra \<Longrightarrow> length t \<le> NS_DB_MAX_BYTES \<Longrightarrow> \<exists>b. f empty_buffer = Some b"
  using appendsD [OF assms buffer_ok_empty] by (simp_all add: empty_buffer_def)

lemmas appends_intros = appends_append appends_printf appends_encoded appends_bind

text \<open>The records as lines of text, without their line feed.\<close>

definition wifi_line :: "ns_wifi_profile \<Rightarrow> string" where
  "wifi_line p = [CHR ''W'', TAB] @ encode_text (ssid p) @ [TAB] @
     format_name (ns_wifi_security_name (security p)) @ [TAB] @ print_int (hidden p) @ [TAB] @
     print_int (priority p) @ [TAB] @ encode_text (secret p)"

definition host_line :: "ns_host \<Rightarrow> string" where
  "host_line h = [CHR ''H'', TAB] @ encode_text (h_name h) @ [TAB] @ encode_text (h_address h) @ [TAB] @
     print_int (paired h) @ [TAB] @ print_nat (last_used h) @ [TAB] @
     print_nat (width (resolution h)) @ [TAB] @ print_nat (height (resolution h)) @ [TAB] @
     print_int (custom (resolution h)) @ [TAB] @ print_nat (fps h) @ [TAB] @
     print_nat (bitrate_kbps h) @ [TAB] @ print_nat (packet_size h) @ [TAB] @
     format_name (ns_codec_name (codec h)) @ [TAB] @ format_name (ns_aspect_name (aspect h))"

definition store_text :: "string \<Rightarrow> string \<Rightarrow> string list \<Rightarrow> string" where
  "store_text header d ls = lines_text (header # ([CHR ''D'', TAB] @ encode_text d) # ls)"

lemma wifi_records_appends: "appends ra (\<lambda>b. wifi_records ra b ps) (lines_text (map wifi_line ps))"
proof (induction ps)
  case Nil
  then show ?case by (simp add: appends_nil)
next
  case (Cons p ps)
  have "appends ra (\<lambda>b. wifi_records ra b (p # ps))
     ([CHR ''W'', TAB] @ encode_text (ssid p) @ ([TAB] @ format_name (ns_wifi_security_name (security p)) @ [TAB] @
       print_int (hidden p) @ [TAB] @ print_int (priority p) @ [TAB]) @ encode_text (secret p) @ [LF] @
       lines_text (map wifi_line ps))"
    unfolding wifi_records.simps by (intro appends_intros Cons.IH)
  then show ?case by (simp add: wifi_line_def [of p])
qed

lemma host_records_appends: "appends ra (\<lambda>b. host_records ra b hs) (lines_text (map host_line hs))"
proof (induction hs)
  case Nil
  then show ?case by (simp add: appends_nil)
next
  case (Cons h hs)
  have "appends ra (\<lambda>b. host_records ra b (h # hs))
     ([CHR ''H'', TAB] @ encode_text (h_name h) @ [TAB] @ encode_text (h_address h) @
       ([TAB] @ print_int (paired h) @ [TAB] @ print_nat (last_used h) @ [TAB] @
                 print_nat (width (resolution h)) @ [TAB] @ print_nat (height (resolution h)) @ [TAB] @
                 print_int (custom (resolution h)) @ [TAB] @ print_nat (fps h) @ [TAB] @
                 print_nat (bitrate_kbps h) @ [TAB] @ print_nat (packet_size h) @ [TAB] @
                 format_name (ns_codec_name (codec h)) @ [TAB] @ format_name (ns_aspect_name (aspect h)) @ [LF]) @
       lines_text (map host_line hs))"
    unfolding host_records.simps by (intro appends_intros Cons.IH)
  then show ?case by (simp add: host_line_def [of h])
qed

lemma wifi_buffer_appends:
  "appends ra (\<lambda>b. buffer_append ra b (wifi_header @ [LF, CHR ''D'', TAB]) \<bind> (\<lambda>b1.
     buffer_encoded ra b1 d \<bind> (\<lambda>b2. buffer_append ra b2 [LF] \<bind> (\<lambda>b3. wifi_records ra b3 ps))))
   (store_text wifi_header d (map wifi_line ps))"
proof -
  have "store_text wifi_header d (map wifi_line ps) =
    (wifi_header @ [LF, CHR ''D'', TAB]) @ encode_text d @ [LF] @ lines_text (map wifi_line ps)"
    by (simp add: store_text_def)
  then show ?thesis by (simp only:) (intro appends_intros wifi_records_appends)
qed

lemma host_buffer_appends:
  "appends ra (\<lambda>b. buffer_append ra b (hosts_header @ [LF, CHR ''D'', TAB]) \<bind> (\<lambda>b1.
     buffer_encoded ra b1 d \<bind> (\<lambda>b2. buffer_append ra b2 [LF] \<bind> (\<lambda>b3. host_records ra b3 hs))))
   (store_text hosts_header d (map host_line hs))"
proof -
  have "store_text hosts_header d (map host_line hs) =
    (hosts_header @ [LF, CHR ''D'', TAB]) @ encode_text d @ [LF] @ lines_text (map host_line hs)"
    by (simp add: store_text_def)
  then show ?thesis by (simp only:) (intro appends_intros host_records_appends)
qed

abbreviation wifi_text :: "ns_wifi_db \<Rightarrow> string" where
  "wifi_text db \<equiv> store_text wifi_header (default_ssid db) (map wifi_line (wifi_entries db))"

abbreviation host_text :: "ns_host_db \<Rightarrow> string" where
  "host_text db \<equiv> store_text hosts_header (default_name db) (map host_line (host_entries db))"

lemma wifi_buffer_text:
  "wifi_buffer ra db = Some b \<Longrightarrow> bdata b = wifi_text db"
  "allocates ra \<Longrightarrow> length (wifi_text db) \<le> NS_DB_MAX_BYTES \<Longrightarrow> \<exists>b. wifi_buffer ra db = Some b"
  using appends_empty [OF wifi_buffer_appends [of ra "default_ssid db" "wifi_entries db"]]
  by (auto simp: wifi_buffer_def)

lemma host_buffer_text:
  "host_buffer ra db = Some b \<Longrightarrow> bdata b = host_text db"
  "allocates ra \<Longrightarrow> length (host_text db) \<le> NS_DB_MAX_BYTES \<Longrightarrow> \<exists>b. host_buffer ra db = Some b"
  using appends_empty [OF host_buffer_appends [of ra "default_name db" "host_entries db"]]
  by (auto simp: host_buffer_def)

section \<open>Reading the lines back\<close>

fun fold_lines :: "(string \<Rightarrow> 'db \<Rightarrow> 'db option) \<Rightarrow> string list \<Rightarrow> 'db \<Rightarrow> 'db option" where
  "fold_lines f [] db = Some db"
| "fold_lines f (l # ls) db = f l db \<bind> fold_lines f ls"

lemma load_records:
  "list_all (\<lambda>l. clean_line l \<and> take 2 l = [tag, TAB]) ls \<Longrightarrow> 2 \<le> n \<Longrightarrow> fold_lines rec ls db = Some db1 \<Longrightarrow>
   load_lines label header tag dl rec n True db (lines_text ls) = Inr (True, db1)"
proof (induction ls arbitrary: n db)
  case Nil
  then show ?case by (subst load_lines.simps) simp
next
  case (Cons l ls)
  from Cons.prems obtain db2 where "rec l db = Some db2" "fold_lines rec ls db2 = Some db1"
    by (cases "rec l db") auto
  with Cons show ?case by (subst load_lines.simps) (simp add: next_line_clean)
qed

lemma load_default:
  "clean_line l \<Longrightarrow> take 2 l = [CHR ''D'', TAB] \<Longrightarrow> dl l db = Some db0 \<Longrightarrow>
   load_lines label header tag dl rec (Suc 0) False db (l @ LF # rest) =
   load_lines label header tag dl rec (Suc (Suc 0)) True db0 rest"
  by (subst load_lines.simps) (simp add: next_line_clean)

lemma load_store_text:
  assumes "clean_line header" "list_all (\<lambda>l. clean_line l \<and> take 2 l = [tag, TAB]) ls"
    "dl ([CHR ''D'', TAB] @ encode_text d) db = Some db0" "fold_lines rec ls db0 = Some db1"
  shows "load_lines label header tag dl rec 0 False db (store_text header d ls) = Inr (True, db1)"
proof -
  let ?load = "load_lines label header tag dl rec"
  let ?d = "CHR ''D'' # TAB # encode_text d"
  have d: "clean_line ?d" "take 2 ?d = [CHR ''D'', TAB]" "dl ?d db = Some db0"
    using assms(3) by (simp_all add: clean_line_field)
  have "?load 0 False db (header @ LF # ?d @ LF # lines_text ls) = ?load (Suc 0) False db (?d @ LF # lines_text ls)"
    by (subst load_lines.simps) (simp add: next_line_clean [OF assms(1)])
  also have "\<dots> = ?load (Suc (Suc 0)) True db0 (lines_text ls)" by (rule load_default [where dl = dl, OF d])
  also have "\<dots> = Inr (True, db1)" by (rule load_records [OF assms(2) _ assms(4)]) simp
  finally show ?thesis by (simp add: store_text_def)
qed

lemma last_store_text: "last (store_text header d ls) = LF"
  unfolding store_text_def by (rule last_lines_text [THEN conjunct2]) simp

section \<open>Fields of valid records\<close>

lemma parse_bool_print: "b = 0 \<or> b = 1 \<Longrightarrow> ns_parse_bool (print_int b) = Some b"
  using print_nat_bits by (auto simp: ns_parse_bool_def print_int_def)

lemma wifi_line_fields:
  assumes "wifi_ok p"
  shows "split_fields (wifi_line p) 6 = Some [''W'', encode_text (ssid p),
    format_name (ns_wifi_security_name (security p)), print_int (hidden p), print_int (priority p), encode_text (secret p)]"
    and "clean_line (wifi_line p)" "take 2 (wifi_line p) = [CHR ''W'', TAB]"
proof -
  obtain t where t: "ns_wifi_security_name (security p) = Some t" using wifi_ok_fields [OF assms] by blast
  then have c: "clean_field t" using sec.name_clean by (auto simp: clean_field_def)
  show "split_fields (wifi_line p) 6 = Some [''W'', encode_text (ssid p),
    format_name (ns_wifi_security_name (security p)), print_int (hidden p), print_int (priority p), encode_text (secret p)]"
    using c t by (simp add: split_fields_def wifi_line_def format_name_def clean_fieldD)
  show "clean_line (wifi_line p)" "take 2 (wifi_line p) = [CHR ''W'', TAB]"
    using c t by (simp_all add: wifi_line_def format_name_def clean_line_field)
qed

lemma host_line_fields:
  assumes "host_ok pton h"
  shows "split_fields (host_line h) 13 = Some [''H'', encode_text (h_name h), encode_text (h_address h),
    print_int (paired h), print_nat (last_used h), print_nat (width (resolution h)), print_nat (height (resolution h)),
    print_int (custom (resolution h)), print_nat (fps h), print_nat (bitrate_kbps h), print_nat (packet_size h),
    format_name (ns_codec_name (codec h)), format_name (ns_aspect_name (aspect h))]"
    and "clean_line (host_line h)" "take 2 (host_line h) = [CHR ''H'', TAB]"
proof -
  obtain t u where t: "ns_codec_name (codec h) = Some t" "ns_aspect_name (aspect h) = Some u"
    using host_ok_fields [OF assms] by blast
  then have c: "clean_field t" "clean_field u"
    using cod.name_clean asp.name_clean by (auto simp: clean_field_def)
  show "split_fields (host_line h) 13 = Some [''H'', encode_text (h_name h), encode_text (h_address h),
    print_int (paired h), print_nat (last_used h), print_nat (width (resolution h)), print_nat (height (resolution h)),
    print_int (custom (resolution h)), print_nat (fps h), print_nat (bitrate_kbps h), print_nat (packet_size h),
    format_name (ns_codec_name (codec h)), format_name (ns_aspect_name (aspect h))]"
    using c t by (simp add: split_fields_def host_line_def format_name_def clean_fieldD)
  show "clean_line (host_line h)" "take 2 (host_line h) = [CHR ''H'', TAB]"
    using c t by (simp_all add: host_line_def format_name_def clean_line_field)
qed

section \<open>Databases built from their entries\<close>

definition wifi_db_of :: "ns_wifi_profile list \<Rightarrow> string \<Rightarrow> ns_wifi_db" where
  "wifi_db_of ps d = \<lparr>profiles = ps @ replicate (NS_MAX_WIFI_PROFILES - length ps) zero_wifi,
     wcount = length ps, default_ssid = d\<rparr>"

definition host_db_of :: "ns_host list \<Rightarrow> string \<Rightarrow> ns_host_db" where
  "host_db_of hs d = \<lparr>hosts = hs @ replicate (NS_MAX_HOSTS - length hs) zero_host,
     hcount = length hs, default_name = d\<rparr>"

lemma wifi_db_of_entries: "wifi_db_inv db \<Longrightarrow> wifi_db_of (wifi_entries db) (default_ssid db) = db"
  using append_take_drop_id [of "wcount db" "profiles db"]
  by (auto simp: wifi_db_of_def wifi_db_inv_def slots_ok_def intro!: ns_wifi_db.equality)

lemma host_db_of_entries: "host_db_inv pton db \<Longrightarrow> host_db_of (host_entries db) (default_name db) = db"
  using append_take_drop_id [of "hcount db" "hosts db"]
  by (auto simp: host_db_of_def host_db_inv_def slots_ok_def intro!: ns_host_db.equality)

lemma array_push: "length xs < n \<Longrightarrow> (xs @ replicate (n - length xs) z)[length xs := x] = (xs @ [x]) @ replicate (n - Suc (length xs)) z"
proof -
  assume "length xs < n"
  then have "replicate (n - length xs) z = z # replicate (n - Suc (length xs)) z"
    by (metis Suc_diff_Suc replicate_Suc)
  then show ?thesis by simp
qed

lemma wifi_record_line_push:
  assumes "wifi_ok p" "ssid p \<notin> ssid ` set ps" "length ps < NS_MAX_WIFI_PROFILES"
  shows "wifi_record_line (wifi_line p) (wifi_db_of ps d) = Some (wifi_db_of (ps @ [p]) d)"
proof -
  obtain t where t: "ns_wifi_security_name (security p) = Some t" using wifi_ok_fields [OF assms(1)] by blast
  have "find_key ssid ps (ssid p) = None" using assms(2) by (simp add: find_key_None)
  then have "ns_wifi_find (wifi_db_of ps d) (Some (ssid p)) = None" by (simp add: ns_wifi_find_def wifi_db_of_def)
  moreover have "percent_decode (encode_text (ssid p)) (NS_SSID_MAX_BYTES + 1) = Some (ssid p)"
    using wifi_ok_ssid [OF assms(1)] by (intro percent_decode_encode) (auto simp: ns_limits dest: utf8_text_bytes)
  moreover have "percent_decode (encode_text (secret p)) (NS_WIFI_SECRET_MAX_BYTES + 1) = Some (secret p)"
    using wifi_ok_secret_length [OF assms(1)] wifi_ok_secret_clean [OF assms(1)]
    by (intro percent_decode_encode) (fastforce simp: ns_limits)+
  moreover have "wifi_ok \<lparr>ssid = ssid p, security = security p, hidden = hidden p, priority = priority p, secret = secret p\<rparr>"
    using assms(1) by (cases p) simp
  ultimately show ?thesis
    using assms t wifi_ok_fields [OF assms(1)]
    by (simp add: wifi_record_line_def wifi_line_fields format_name_def sec.parse_name parse_bool_print
        parse_priority_print Let_def) (simp add: wifi_db_of_def array_push)
qed

lemma host_address_clean:
  assumes "host_ok pton h" "NUL \<notin> set (h_address h)"
  shows "percent_decode (encode_text (h_address h)) (NS_HOST_ADDRESS_MAX_BYTES + 1) = Some (h_address h)"
  using host_ok_address [OF assms(1)] assms(2) by (intro percent_decode_encode) (auto simp: ns_limits)

lemma host_record_line_push:
  assumes "host_ok pton h" "NUL \<notin> set (h_address h)" "h_name h \<notin> h_name ` set hs" "length hs < NS_MAX_HOSTS"
  shows "host_record_line pton (host_line h) (host_db_of hs d) = Some (host_db_of (hs @ [h]) d)"
proof -
  obtain t u where t: "ns_codec_name (codec h) = Some t" "ns_aspect_name (aspect h) = Some u"
    using host_ok_fields [OF assms(1)] by blast
  have "find_key h_name hs (h_name h) = None" using assms(3) by (simp add: find_key_None)
  then have "ns_host_find (host_db_of hs d) (Some (h_name h)) = None" by (simp add: ns_host_find_def host_db_of_def)
  moreover have "percent_decode (encode_text (h_name h)) (NS_HOST_NAME_MAX_BYTES + 1) = Some (h_name h)"
    using host_ok_name [OF assms(1)] by (intro percent_decode_encode) (auto simp: ns_limits dest: utf8_text_bytes)
  moreover note host_address_clean [OF assms(1,2)]
  moreover have "parse_u64 (print_nat (last_used h)) 0 4102444800 = Some (last_used h)"
    using host_ok_fields [OF assms(1)] by (intro parse_u64_print) auto
  moreover have "n \<le> 200000 \<Longrightarrow> parse_u32 (print_nat n) 0 UINT32_MAX = Some n" for n
    by (intro parse_u32_print) (auto simp: UINT32_MAX_def)
  moreover have "host_ok pton \<lparr>h_name = h_name h, h_address = h_address h, paired = paired h, last_used = last_used h,
      resolution = \<lparr>width = width (resolution h), height = height (resolution h), custom = custom (resolution h)\<rparr>,
      fps = fps h, bitrate_kbps = bitrate_kbps h, packet_size = packet_size h, codec = codec h, aspect = aspect h\<rparr>"
    using assms(1) by (cases h, cases "resolution h") simp
  ultimately show ?thesis
    using assms t host_ok_fields [OF assms(1)]
    by (simp add: host_record_line_def host_line_fields [OF assms(1)] format_name_def cod.parse_name asp.parse_name
        parse_bool_print Let_def) (simp add: host_db_of_def array_push)
qed

lemma fold_push:
  assumes "\<And>x xs. valid x \<Longrightarrow> key x \<notin> key ` set xs \<Longrightarrow> length xs < n \<Longrightarrow> add (line x) (mk xs) = Some (mk (xs @ [x]))"
  shows "list_all valid xs \<Longrightarrow> distinct (map key (ys @ xs)) \<Longrightarrow> length (ys @ xs) \<le> n \<Longrightarrow>
    fold_lines add (map line xs) (mk ys) = Some (mk (ys @ xs))"
proof (induction xs arbitrary: ys)
  case (Cons x xs)
  have "add (line x) (mk ys) = Some (mk (ys @ [x]))" using Cons.prems by (intro assms) auto
  moreover have "fold_lines add (map line xs) (mk (ys @ [x])) = Some (mk ((ys @ [x]) @ xs))"
    using Cons.prems by (intro Cons.IH) auto
  ultimately show ?case by simp
qed simp

section \<open>Sizes\<close>

lemma length_lines_text: "list_all (\<lambda>l. length l \<le> k) ls \<Longrightarrow> length (lines_text ls) \<le> length ls * (k + 1)"
  by (induction ls) auto

lemma length_print_int_small:
  assumes "\<bar>i\<bar> \<le> 999"
  shows "length (print_int i) \<le> 4"
proof -
  have "nat \<bar>i\<bar> < 10 ^ Suc 2" using assms by simp
  from length_print_nat [OF this] show ?thesis by (simp add: print_int_def abs_if split: if_splits)
qed

lemma length_wifi_line:
  assumes "wifi_ok p"
  shows "length (wifi_line p) \<le> 320"
proof -
  obtain t where t: "ns_wifi_security_name (security p) = Some t" using wifi_ok_fields [OF assms] by blast
  have "length (print_int (hidden p)) \<le> 4" "length (print_int (priority p)) \<le> 4"
    using wifi_ok_fields [OF assms] by (auto intro!: length_print_int_small)
  then show ?thesis
    using t sec.name_short [OF t] length_encode_text [of "ssid p"] length_encode_text [of "secret p"]
      wifi_ok_ssid [OF assms] wifi_ok_secret_length [OF assms]
    by (simp add: wifi_line_def format_name_def)
qed

lemma length_host_line:
  assumes "host_ok pton h"
  shows "length (host_line h) \<le> 1200"
proof -
  obtain t u where t: "ns_codec_name (codec h) = Some t" "ns_aspect_name (aspect h) = Some u"
    using host_ok_fields [OF assms] by blast
  have i: "length (print_int (paired h)) \<le> 1" "length (print_int (custom (resolution h))) \<le> 1"
    using host_ok_fields [OF assms] print_nat_bits by (auto simp: print_int_def)
  have n: "n \<le> 4102444800 \<Longrightarrow> length (print_nat n) \<le> 10" for n
    using length_print_nat [of n 9] by simp
  note f = host_ok_fields [OF assms]
  have "length (print_nat (last_used h)) \<le> 10" "length (print_nat (width (resolution h))) \<le> 10"
    "length (print_nat (height (resolution h))) \<le> 10" "length (print_nat (fps h)) \<le> 10"
    "length (print_nat (bitrate_kbps h)) \<le> 10" "length (print_nat (packet_size h)) \<le> 10"
    using f by (auto intro!: n)
  then show ?thesis
    using i t cod.name_short [OF t(1)] asp.name_short [OF t(2)] length_encode_text [of "h_name h"]
      length_encode_text [of "h_address h"] host_ok_name [OF assms] host_ok_address [OF assms]
    by (simp add: host_line_def format_name_def)
qed

lemma wifi_default_text:
  assumes "validate_wifi_db db = Inr ()"
  shows "NUL \<notin> set (default_ssid db)" "length (default_ssid db) < 33"
proof -
  note v = assms [unfolded validate_wifi_db_iff]
  consider "default_ssid db = []" | p where "p \<in> set (wifi_entries db)" "default_ssid db = ssid p" "wifi_ok p"
    using v by (auto simp: list_all_iff)
  then show "NUL \<notin> set (default_ssid db)" "length (default_ssid db) < 33"
    by (cases, simp, use wifi_ok_ssid utf8_text_clean in force)+
qed

lemma host_default_text:
  assumes "validate_host_db pton db = Inr ()"
  shows "NUL \<notin> set (default_name db)" "length (default_name db) < 97"
proof -
  note v = assms [unfolded validate_host_db_iff]
  consider "default_name db = []" | h where "h \<in> set (host_entries db)" "default_name db = h_name h" "host_ok pton h"
    using v by (auto simp: list_all_iff)
  then show "NUL \<notin> set (default_name db)" "length (default_name db) < 97"
    by (cases, simp, use host_ok_name utf8_text_clean in force)+
qed

text \<open>A valid database serialises within the limit.\<close>

lemma length_wifi_text:
  assumes "validate_wifi_db db = Inr ()"
  shows "length (wifi_text db) \<le> NS_DB_MAX_BYTES"
proof -
  note v = assms [unfolded validate_wifi_db_iff]
  from wifi_default_text [OF assms] have "length (encode_text (default_ssid db)) \<le> 96" using length_encode_text [of "default_ssid db"] by linarith
  moreover have "length (lines_text (map wifi_line (wifi_entries db))) \<le> length (wifi_entries db) * 321"
    using length_lines_text [of 320 "map wifi_line (wifi_entries db)"] v length_wifi_line
    by (simp add: list_all_iff)
  moreover have "length (wifi_entries db) \<le> 64" using v by (auto simp: ns_limits)
  ultimately show ?thesis by (simp add: store_text_def wifi_header_def NS_DB_MAX_BYTES_def)
qed

lemma length_host_text:
  assumes "validate_host_db pton db = Inr ()"
  shows "length (host_text db) \<le> NS_DB_MAX_BYTES"
proof -
  note v = assms [unfolded validate_host_db_iff]
  from host_default_text [OF assms] have "length (encode_text (default_name db)) \<le> 288" using length_encode_text [of "default_name db"] by linarith
  moreover have "length (lines_text (map host_line (host_entries db))) \<le> length (host_entries db) * 1201"
    using length_lines_text [of 1200 "map host_line (host_entries db)"] v length_host_line [of pton]
    by (simp add: list_all_iff)
  moreover have "length (host_entries db) \<le> 128" using v by (auto simp: ns_limits)
  ultimately show ?thesis by (simp add: store_text_def hosts_header_def NS_DB_MAX_BYTES_def)
qed

section \<open>Parsing inverts serialising\<close>

lemma wifi_parse_text:
  assumes "wifi_db_inv db"
  shows "wifi_parse (wifi_text db) = Inr db"
proof -
  note v = wifi_db_inv_valid [OF assms] and e = wifi_db_inv_entries [OF assms]
  let ?d = "default_ssid db" and ?ps = "wifi_entries db"
  note nul = wifi_default_text [OF v]
  have "wifi_default_line ([CHR ''D'', TAB] @ encode_text ?d) zero_wifi_db = Some (wifi_db_of [] ?d)"
    using percent_decode_encode [OF nul] clean_fieldD [OF clean_encode, of ?d]
    by (simp add: wifi_default_line_def split_fields_def ns_limits wifi_db_of_def zero_wifi_db_def)
  moreover have "fold_lines wifi_record_line (map wifi_line ?ps) (wifi_db_of [] ?d) = Some (wifi_db_of ([] @ ?ps) ?d)"
    using e by (intro fold_push [where valid = "\<lambda>p. wifi_ok p" and key = ssid and n = NS_MAX_WIFI_PROFILES]
        wifi_record_line_push) auto
  moreover have "list_all (\<lambda>l. clean_line l \<and> take 2 l = [CHR ''W'', TAB]) (map wifi_line ?ps)"
    using e(4) wifi_line_fields by (simp add: list_all_iff)
  moreover have "clean_line wifi_header" by (simp add: wifi_header_def clean_line_def)
  ultimately have "load_lines ''Wi-Fi'' wifi_header (CHR ''W'') wifi_default_line wifi_record_line 0 False zero_wifi_db
      (wifi_text db) = Inr (True, db)"
    using load_store_text [where dl = wifi_default_line and rec = wifi_record_line] wifi_db_of_entries [OF assms] by simp
  with v show ?thesis by (simp add: wifi_parse_def last_store_text)
qed

lemma host_parse_text:
  assumes "host_db_inv pton db" "list_all (\<lambda>h. NUL \<notin> set (h_address h)) (host_entries db)"
  shows "host_parse pton (host_text db) = Inr db"
proof -
  note v = host_db_inv_valid [OF assms(1)] and e = host_db_inv_entries [OF assms(1)]
  let ?d = "default_name db" and ?hs = "host_entries db"
  note nul = host_default_text [OF v]
  have "host_default_line ([CHR ''D'', TAB] @ encode_text ?d) zero_host_db = Some (host_db_of [] ?d)"
    using percent_decode_encode [OF nul] clean_fieldD [OF clean_encode, of ?d]
    by (simp add: host_default_line_def split_fields_def ns_limits host_db_of_def zero_host_db_def)
  moreover have "fold_lines (host_record_line pton) (map host_line ?hs) (host_db_of [] ?d) = Some (host_db_of ([] @ ?hs) ?d)"
    using e assms(2) by (intro fold_push [where valid = "\<lambda>h. host_ok pton h \<and> NUL \<notin> set (h_address h)" and key = h_name
          and n = NS_MAX_HOSTS] host_record_line_push) (auto simp: list_all_iff)
  moreover have "list_all (\<lambda>l. clean_line l \<and> take 2 l = [CHR ''H'', TAB]) (map host_line ?hs)"
    using e(4) host_line_fields [of pton] by (simp add: list_all_iff)
  moreover have "clean_line hosts_header" by (simp add: hosts_header_def clean_line_def)
  ultimately have "load_lines ''host'' hosts_header (CHR ''H'') host_default_line (host_record_line pton) 0 False zero_host_db
      (host_text db) = Inr (True, db)"
    using load_store_text [where dl = host_default_line and rec = "host_record_line pton"] host_db_of_entries [OF assms(1)]
    by simp
  with v show ?thesis by (simp add: host_parse_def last_store_text)
qed

section \<open>Saving and loading without faults\<close>

text \<open>Environments in which no call fails and every transfer makes progress, for \<open>n\<close> bytes.\<close>

definition quiet_write :: "write_env \<Rightarrow> dir \<Rightarrow> nat \<Rightarrow> string \<Rightarrow> nat \<Rightarrow> bool" where
  "quiet_write env d serial name n \<longleftrightarrow> w_open env = (\<lambda>k. None) \<and> w_fchmod env = None \<and> w_fsync env = None \<and>
     w_close env = None \<and> w_rename env = None \<and> w_dirsync env = None \<and>
     list_all (\<lambda>i. \<exists>k > 0. i = Io k) (w_writes env) \<and> n \<le> length (w_writes env) \<and>
     d (temporary_name name (w_pid env) ((serial + 1) mod 2 ^ 64)) = None"

definition quiet_read :: "read_env \<Rightarrow> nat \<Rightarrow> bool" where
  "quiet_read env n \<longleftrightarrow> r_open env = None \<and> r_fstat env = None \<and> r_fchmod env = None \<and> r_malloc env \<and>
     list_all (\<lambda>i. \<exists>k > 0. i = Io k) (r_reads env) \<and> n \<le> length (r_reads env)"

lemma quiet_atomic_write:
  assumes "quiet_write env d serial name (length data)" "name \<noteq> []" "hd name \<noteq> CHR ''.''"
  shows "\<exists>trace s. atomic_write env d serial name data = Some (trace, s, Inr ()) \<and>
    last trace = d(name \<mapsto> published env data)"
proof -
  obtain trace s where "atomic_write env d serial name data = Some (trace, s, Inr ())"
    using assms(1) write_all_fd_ok [of "w_writes env" data] atomic_write_quiet [of env data d name serial]
    by (auto simp: quiet_write_def)
  with atomic_write_published [OF this assms(2,3)] show ?thesis by blast
qed

lemma quiet_read_published:
  assumes "quiet_read renv (length data)" "r_euid renv = w_euid wenv" "data \<noteq> []" "length data \<le> NS_DB_MAX_BYTES"
  shows "read_database renv (d(name \<mapsto> published wenv data)) name = Some (d(name \<mapsto> published wenv data), Inr (Some data))"
  using assms by (subst read_database_quiet [where f = "published wenv data"])
    (auto simp: quiet_read_def published_def)

lemma store_text_nonempty: "store_text header d ls \<noteq> []"
  by (simp add: store_text_def)

text \<open>
  C1: a well-formed Wi-Fi database is saved and read back unchanged: the save
  succeeds when no system call fails, and the load then returns exactly the
  same database, default and secrets included.
\<close>

theorem wifi_save_load:
  assumes "wifi_db_inv db" "0 \<le> dir_fd store" "allocates ra"
    and "quiet_write wenv d serial NS_WIFI_FILE (length (wifi_text db))"
    and "quiet_read renv (length (wifi_text db))" "r_euid renv = w_euid wenv"
  shows "\<exists>trace s. ns_wifi_save ra wenv store d serial db = Some (trace, s, Inr ()) \<and>
    ns_wifi_load renv store (last trace) db0 = Some (last trace, db, Inr ())"
proof -
  note v = wifi_db_inv_valid [OF assms(1)]
  note len = length_wifi_text [OF v]
  obtain b where b: "wifi_buffer ra db = Some b" using wifi_buffer_text(2) [OF assms(3) len] by blast
  obtain trace s where w: "atomic_write wenv d serial NS_WIFI_FILE (wifi_text db) = Some (trace, s, Inr ())"
    "last trace = d(NS_WIFI_FILE \<mapsto> published wenv (wifi_text db))"
    using quiet_atomic_write [OF assms(4)] by (auto simp: NS_WIFI_FILE_def)
  have "ns_wifi_save ra wenv store d serial db = Some (trace, s, Inr ())"
    using assms(2) v b w(1) wifi_buffer_text(1) [OF b] by (simp add: ns_wifi_save_def)
  moreover have "ns_wifi_load renv store (last trace) db0 = Some (last trace, db, Inr ())"
    using assms(2) quiet_read_published [OF assms(5,6) store_text_nonempty len] wifi_parse_text [OF assms(1)]
    by (simp add: ns_wifi_load_def w(2))
  ultimately show ?thesis by blast
qed

lemma quiet_samples:
  "quiet_write (quiet_writes n) Map.empty serial name n" "quiet_read (quiet_reads n) n" "allocates (\<lambda>k. True)"
  by (auto simp: quiet_write_def quiet_writes_def quiet_read_def quiet_reads_def allocates_def list_all_iff)

theorem wifi_save_load_witness:
  "\<exists>n trace s. wcount (wifi_db_of [sample_wifi] ''lab'') = 1 \<and>
     ns_wifi_save (\<lambda>k. True) (quiet_writes n) \<lparr>dir_fd = 3, lock_fd = 4\<rparr> Map.empty 0 (wifi_db_of [sample_wifi] ''lab'') =
       Some (trace, s, Inr ()) \<and>
     ns_wifi_load (quiet_reads n) \<lparr>dir_fd = 3, lock_fd = 4\<rparr> (last trace) zero_wifi_db =
       Some (last trace, wifi_db_of [sample_wifi] ''lab'', Inr ())"
proof -
  let ?db = "wifi_db_of [sample_wifi] ''lab''"
  have inv: "wifi_db_inv ?db"
    using sample_wifi_ok by (simp add: wifi_db_inv_def wifi_db_of_def slots_ok_def ns_limits) (simp add: sample_wifi_def)
  have "w_euid (quiet_writes n) = r_euid (quiet_reads n)" for n by (simp add: quiet_writes_def quiet_reads_def)
  from wifi_save_load [OF inv _ quiet_samples(3) quiet_samples(1) quiet_samples(2) this [symmetric],
      of "\<lparr>dir_fd = 3, lock_fd = 4\<rparr>" 0 zero_wifi_db]
  show ?thesis by (fastforce simp: wifi_db_of_def)
qed

text \<open>
  The same for streaming hosts whose addresses are C strings: a well-formed
  host database is saved and read back unchanged.
\<close>

theorem host_save_load:
  assumes "host_db_inv pton db" "list_all (\<lambda>h. NUL \<notin> set (h_address h)) (host_entries db)"
    and "0 \<le> dir_fd store" "allocates ra"
    and "quiet_write wenv d serial NS_HOSTS_FILE (length (host_text db))"
    and "quiet_read renv (length (host_text db))" "r_euid renv = w_euid wenv"
  shows "\<exists>trace s. ns_hosts_save pton ra wenv store d serial db = Some (trace, s, Inr ()) \<and>
    ns_hosts_load pton renv store (last trace) db0 = Some (last trace, db, Inr ())"
proof -
  note v = host_db_inv_valid [OF assms(1)]
  note len = length_host_text [OF v]
  obtain b where b: "host_buffer ra db = Some b" using host_buffer_text(2) [OF assms(4) len] by blast
  obtain trace s where w: "atomic_write wenv d serial NS_HOSTS_FILE (host_text db) = Some (trace, s, Inr ())"
    "last trace = d(NS_HOSTS_FILE \<mapsto> published wenv (host_text db))"
    using quiet_atomic_write [OF assms(5)] by (auto simp: NS_HOSTS_FILE_def)
  have "ns_hosts_save pton ra wenv store d serial db = Some (trace, s, Inr ())"
    using assms(3) v b w(1) host_buffer_text(1) [OF b] by (simp add: ns_hosts_save_def)
  moreover have "ns_hosts_load pton renv store (last trace) db0 = Some (last trace, db, Inr ())"
    using assms(3) quiet_read_published [OF assms(6,7) store_text_nonempty len] host_parse_text [OF assms(1,2)]
    by (simp add: ns_hosts_load_def w(2))
  ultimately show ?thesis by blast
qed

theorem host_save_load_witness:
  "\<exists>n trace s. hcount (host_db_of [sample_host] ''pc'') = 1 \<and>
     ns_hosts_save (\<lambda>f a. False) (\<lambda>k. True) (quiet_writes n) \<lparr>dir_fd = 3, lock_fd = 4\<rparr> Map.empty 0 (host_db_of [sample_host] ''pc'') =
       Some (trace, s, Inr ()) \<and>
     ns_hosts_load (\<lambda>f a. False) (quiet_reads n) \<lparr>dir_fd = 3, lock_fd = 4\<rparr> (last trace) zero_host_db =
       Some (last trace, host_db_of [sample_host] ''pc'', Inr ())"
proof -
  let ?db = "host_db_of [sample_host] ''pc''"
  have inv: "host_db_inv (\<lambda>f a. False) ?db"
    using sample_host_ok by (simp add: host_db_inv_def host_db_of_def slots_ok_def ns_limits) (simp add: sample_host_def)
  have addr: "list_all (\<lambda>h. NUL \<notin> set (h_address h)) (host_entries ?db)"
    by (simp add: host_db_of_def sample_host_def)
  have "w_euid (quiet_writes n) = r_euid (quiet_reads n)" for n by (simp add: quiet_writes_def quiet_reads_def)
  from host_save_load [OF inv addr _ quiet_samples(3) quiet_samples(1) quiet_samples(2) this [symmetric],
      of "\<lparr>dir_fd = 3, lock_fd = 4\<rparr>" 0 zero_host_db]
  show ?thesis by (fastforce simp: host_db_of_def)
qed

section \<open>Loading arbitrary bytes\<close>

lemma load_lines_inv:
  assumes "\<And>l db db1. J db \<Longrightarrow> dl l db = Some db1 \<Longrightarrow> J db1" "\<And>l db db1. J db \<Longrightarrow> rec l db = Some db1 \<Longrightarrow> J db1"
  shows "J db \<Longrightarrow> load_lines label header tag dl rec n saw db s = Inr (saw1, db1) \<Longrightarrow> J db1"
proof (induction "length s" arbitrary: s n saw db rule: less_induct)
  case less
  show ?case
  proof (cases "s = []")
    case True
    with less.prems show ?thesis by (simp add: load_lines.simps)
  next
    case False
    let ?rest = "snd (next_line s)"
    have short: "length ?rest < length s" by (rule next_line_shorter [OF False])
    obtain m sw db2 where r: "load_lines label header tag dl rec m sw db2 ?rest = Inr (saw1, db1)"
      and "db2 = db \<or> (\<exists>l. dl l db = Some db2 \<or> rec l db = Some db2)"
      using less.prems(2) [unfolded load_lines.simps [where s = s]] False
      by (auto simp: Let_def split: if_splits option.splits)
    then have "J db2" using assms less.prems(1) by blast
    from less.hyps [OF short this r] show ?thesis .
  qed
qed

text \<open>While the lines are read everything but the default key is well formed.\<close>

lemma wifi_record_line_inv:
  assumes "wifi_db_inv (db\<lparr>default_ssid := []\<rparr>)" "wifi_record_line l db = Some db1"
  shows "wifi_db_inv (db1\<lparr>default_ssid := []\<rparr>)"
proof -
  from assms(2) obtain p where p: "wifi_ok p" "ns_wifi_find db (Some (ssid p)) = None" "wcount db < NS_MAX_WIFI_PROFILES"
    and db1: "db1 = db\<lparr>profiles := (profiles db)[wcount db := p], wcount := wcount db + 1\<rparr>"
    by (auto simp: wifi_record_line_def Let_def bind_eq_Some_conv split: if_splits)
  have "ns_wifi_find (db\<lparr>default_ssid := []\<rparr>) (Some (ssid p)) = None" using p(2) by (auto simp: ns_wifi_find_def split: if_splits)
  then have "find_key ssid (wifi_entries db) (ssid p) = None" using wifi_find_iff [OF assms(1), of "ssid p"] by simp
  from slots_append [OF assms(1) [unfolded wifi_db_inv_def], simplified, OF this p(1) p(3)] show ?thesis
    by (simp add: db1 wifi_db_inv_def)
qed

lemma host_record_line_inv:
  assumes "host_db_inv pton (db\<lparr>default_name := []\<rparr>)" "host_record_line pton l db = Some db1"
  shows "host_db_inv pton (db1\<lparr>default_name := []\<rparr>)"
proof -
  from assms(2) obtain h where h: "host_ok pton h" "ns_host_find db (Some (h_name h)) = None" "hcount db < NS_MAX_HOSTS"
    and db1: "db1 = db\<lparr>hosts := (hosts db)[hcount db := h], hcount := hcount db + 1\<rparr>"
    by (auto simp: host_record_line_def Let_def bind_eq_Some_conv split: if_splits)
  have "ns_host_find (db\<lparr>default_name := []\<rparr>) (Some (h_name h)) = None" using h(2) by (auto simp: ns_host_find_def split: if_splits)
  then have "find_key h_name (host_entries db) (h_name h) = None" using host_find_iff [OF assms(1), of "h_name h"] by simp
  from slots_append [OF assms(1) [unfolded host_db_inv_def], simplified, OF this h(1) h(3)] show ?thesis
    by (simp add: db1 host_db_inv_def)
qed

lemma wifi_parse_inv:
  assumes "wifi_parse bytes = Inr db"
  shows "wifi_db_inv db"
proof -
  from assms have l: "load_lines ''Wi-Fi'' wifi_header (CHR ''W'') wifi_default_line wifi_record_line 0 False zero_wifi_db bytes = Inr (True, db)"
    and v: "validate_wifi_db db = Inr ()"
    by (auto simp: wifi_parse_def split: if_splits sum.splits)
  have "wifi_db_inv (db\<lparr>default_ssid := []\<rparr>)"
  proof (rule load_lines_inv [where J = "\<lambda>db. wifi_db_inv (db\<lparr>default_ssid := []\<rparr>)", OF _ _ _ l])
    show "wifi_db_inv (zero_wifi_db\<lparr>default_ssid := []\<rparr>)" using zero_wifi_db_inv by (simp add: zero_wifi_db_def)
    show "wifi_db_inv (db2\<lparr>default_ssid := []\<rparr>)"
      if "wifi_db_inv (db1\<lparr>default_ssid := []\<rparr>)" "wifi_default_line l db1 = Some db2" for l db1 db2
      using that by (auto simp: wifi_default_line_def bind_eq_Some_conv)
  qed (rule wifi_record_line_inv)
  with v show ?thesis by (auto simp: wifi_db_inv_def slots_ok_def validate_wifi_db_iff)
qed

lemma host_parse_inv:
  assumes "host_parse pton bytes = Inr db"
  shows "host_db_inv pton db"
proof -
  from assms have l: "load_lines ''host'' hosts_header (CHR ''H'') host_default_line (host_record_line pton) 0 False zero_host_db bytes = Inr (True, db)"
    and v: "validate_host_db pton db = Inr ()"
    by (auto simp: host_parse_def split: if_splits sum.splits)
  have "host_db_inv pton (db\<lparr>default_name := []\<rparr>)"
  proof (rule load_lines_inv [where J = "\<lambda>db. host_db_inv pton (db\<lparr>default_name := []\<rparr>)", OF _ _ _ l])
    show "host_db_inv pton (zero_host_db\<lparr>default_name := []\<rparr>)" using zero_host_db_inv by (simp add: zero_host_db_def)
    show "host_db_inv pton (db2\<lparr>default_name := []\<rparr>)"
      if "host_db_inv pton (db1\<lparr>default_name := []\<rparr>)" "host_default_line l db1 = Some db2" for l db1 db2
      using that by (auto simp: host_default_line_def bind_eq_Some_conv)
  qed (rule host_record_line_inv)
  with v show ?thesis by (auto simp: host_db_inv_def slots_ok_def validate_host_db_iff)
qed

text \<open>
  C17: whatever bytes are on disk and whatever read fails, loading the Wi-Fi
  database leaves the caller with a well-formed one, and with the all-zero one
  when an error is reported: a file is taken whole or not at all.
\<close>

theorem wifi_load_total:
  assumes "0 \<le> dir_fd store" "ns_wifi_load env store d db0 = Some (d1, db, r)"
  shows "wifi_db_inv db \<and> (r \<noteq> Inr () \<longrightarrow> db = zero_wifi_db)"
  using assms wifi_parse_inv
  by (auto simp: ns_wifi_load_def split: option.splits sum.splits prod.splits)

theorem wifi_load_total_witness:
  "\<exists>db. ns_wifi_load (quiet_reads 5) \<lparr>dir_fd = 3, lock_fd = 4\<rparr> (\<lambda>n. None) (wifi_db_of [sample_wifi] []) =
    Some (\<lambda>n. None, db, Inr ()) \<and> wifi_db_inv db"
proof -
  have r: "ns_wifi_load (quiet_reads 5) \<lparr>dir_fd = 3, lock_fd = 4\<rparr> (\<lambda>n. None) (wifi_db_of [sample_wifi] []) =
    Some (\<lambda>n. None, zero_wifi_db, Inr ())"
    by (simp add: ns_wifi_load_def read_database_def open_nofollow_def quiet_reads_def)
  from wifi_load_total [OF _ r] r show ?thesis by auto
qed

text \<open>
  The same for the host database.
\<close>

theorem host_load_total:
  assumes "0 \<le> dir_fd store" "ns_hosts_load pton env store d db0 = Some (d1, db, r)"
  shows "host_db_inv pton db \<and> (r \<noteq> Inr () \<longrightarrow> db = zero_host_db)"
  using assms host_parse_inv
  by (auto simp: ns_hosts_load_def split: option.splits sum.splits prod.splits)

theorem host_load_total_witness:
  "\<exists>db. ns_hosts_load (\<lambda>f a. False) (quiet_reads 5) \<lparr>dir_fd = 3, lock_fd = 4\<rparr> (\<lambda>n. None) (host_db_of [sample_host] []) =
    Some (\<lambda>n. None, db, Inr ()) \<and> host_db_inv (\<lambda>f a. False) db"
proof -
  have r: "ns_hosts_load (\<lambda>f a. False) (quiet_reads 5) \<lparr>dir_fd = 3, lock_fd = 4\<rparr> (\<lambda>n. None) (host_db_of [sample_host] []) =
    Some (\<lambda>n. None, zero_host_db, Inr ())"
    by (simp add: ns_hosts_load_def read_database_def open_nofollow_def quiet_reads_def)
  from host_load_total [OF _ r] r show ?thesis by auto
qed

section \<open>Two corners of the format\<close>

text \<open>
  A file of the header alone is refused without a message: the failure of the
  missing default line sets none.
\<close>

lemma wifi_header_only_silent: "wifi_parse (wifi_header @ [LF]) = Inl NoMessage"
proof -
  have "clean_line wifi_header" by (simp add: wifi_header_def)
  then have "load_lines ''Wi-Fi'' wifi_header (CHR ''W'') wifi_default_line wifi_record_line 0 False zero_wifi_db
    (wifi_header @ [LF]) = Inr (False, zero_wifi_db)"
    using next_line_clean [of wifi_header "[]"] by (subst load_lines.simps) (simp add: load_lines.simps)
  then show ?thesis by (simp add: wifi_parse_def)
qed

text \<open>Bytes after a NUL inside a line are ignored, so such a file is accepted.\<close>

lemma wifi_nul_tail_accepted:
  "wifi_parse (wifi_header @ LF # [CHR ''D'', TAB, NUL, CHR ''x'', LF]) = Inr zero_wifi_db"
proof -
  let ?load = "load_lines ''Wi-Fi'' wifi_header (CHR ''W'') wifi_default_line wifi_record_line"
  have "clean_line wifi_header" by (simp add: wifi_header_def)
  then have "?load 0 False zero_wifi_db (wifi_header @ LF # [CHR ''D'', TAB, NUL, CHR ''x'', LF]) =
     ?load (Suc 0) False zero_wifi_db [CHR ''D'', TAB, NUL, CHR ''x'', LF]"
    by (subst load_lines.simps) (simp add: next_line_clean)
  also have "\<dots> = ?load (Suc (Suc 0)) True zero_wifi_db []"
    by (subst load_lines.simps) (simp add: next_line_def cstr_def wifi_default_line_def split_fields_def
        percent_decode_def zero_wifi_db_def)
  also have "\<dots> = Inr (True, zero_wifi_db)" by (subst load_lines.simps) simp
  finally show ?thesis by (simp add: wifi_parse_def wifi_db_inv_valid)
qed

end
