(* ===== verification/Netstream_Import.thy ===== *)
theory Netstream_Import
  imports Netstream_Store
begin

text \<open>
  The rest of \<^verbatim>\<open>components/netstream/src/netstream.c\<close>: opening and closing the
  state directory with its lock, reading a secret from a pipe or a restricted
  file, and importing the vendor's Wi-Fi file. Open descriptors are counted and
  those that hold an exclusive lock are listed, so that a leak on an error path
  or a missing lock would show.
\<close>

section \<open>Opening the store\<close>

record open_env =
  o_euid :: nat
  o_strdup :: bool
  o_root :: "errno option"
  o_mkdir :: "nat \<Rightarrow> errno option"
  o_open :: "nat \<Rightarrow> errno option"
  o_fstat :: "errno + inode"
  o_dir_fd :: nat
  l_open :: "errno option"
  l_fstat :: "errno + inode"
  l_fchmod :: "errno option"
  l_flock :: "errno option"
  l_lock_fd :: nat

definition MODE_0700 :: nat where "MODE_0700 = 7 * 64"

definition path_components :: "string \<Rightarrow> string list" where
  "path_components path = filter (\<lambda>c. c \<noteq> []) (split_on (CHR ''/'') (tl path))"

text \<open>
  The walk from the root: the number of the component, the components left
  and the open descriptors, of which one is the current directory.
\<close>

fun walk_components :: "open_env \<Rightarrow> nat \<Rightarrow> string list \<Rightarrow> nat \<Rightarrow> nat \<times> (ns_error + unit)" where
  "walk_components env k [] fds = (fds, Inr ())"
| "walk_components env k (c # cs) fds =
    (if c = ''.'' \<or> c = ''..'' then (fds - 1, Inl (Message ''state directory must not contain . or ..''))
     else
       let made = o_mkdir env k in
       if made \<noteq> None \<and> made \<noteq> Some EEXIST then
         (fds - 1, Inl (Message (''cannot create state directory: '' @ strerror (the made))))
       else (case o_open env k of
           Some e \<Rightarrow> (fds - 1, Inl (Message (''cannot securely open state directory: '' @ strerror e)))
         | None \<Rightarrow> walk_components env (k + 1) cs (fds + 1 - 1)))"

definition open_state_directory :: "open_env \<Rightarrow> string option \<Rightarrow> nat \<Rightarrow> nat \<times> (ns_error + nat)" where
  "open_state_directory env path fds =
    (case path of
       None \<Rightarrow> (fds, Inl (Message ''state directory must be a non-root absolute path''))
     | Some p \<Rightarrow>
       if p = [] \<or> hd p \<noteq> CHR ''/'' \<or> tl p = [] then
         (fds, Inl (Message ''state directory must be a non-root absolute path''))
       else if list_ex (\<lambda>c. c = ''.'' \<or> c = ''..'') (path_components p) then
         (fds, Inl (Message ''state directory must not contain . or ..''))
       else if \<not> o_strdup env then (fds, Inl (Message ''out of memory''))
       else (case o_root env of
           Some e \<Rightarrow> (fds, Inl (Message (''cannot open filesystem root: '' @ strerror e)))
         | None \<Rightarrow>
           (case walk_components env 0 (path_components p) (fds + 1) of
              (fds1, Inl m) \<Rightarrow> (fds1, Inl m)
            | (fds1, Inr _) \<Rightarrow>
              (case o_fstat env of
                 Inl e \<Rightarrow> (fds1 - 1, Inl (Message (''cannot inspect state directory: '' @ strerror e)))
               | Inr st \<Rightarrow>
                 if kind st \<noteq> Directory \<or> st_uid st \<noteq> o_euid env \<or> st_mode st \<noteq> MODE_0700 then
                   (fds1 - 1, Inl (Message ''state directory must be owned by this user and mode 0700''))
                 else (fds1, Inr (o_dir_fd env))))))"

text \<open>
  \<^verbatim>\<open>flock\<close> with \<open>LOCK_EX\<close> and with \<open>LOCK_UN\<close>, on the list of the locked
  descriptors; closing a descriptor releases its lock as well.
\<close>

definition flock_ex :: "open_env \<Rightarrow> int \<Rightarrow> int list \<Rightarrow> errno + int list" where
  "flock_ex env fd locks = (case l_flock env of Some e \<Rightarrow> Inl e | None \<Rightarrow> Inr (fd # locks))"

definition flock_un :: "int \<Rightarrow> int list \<Rightarrow> int list" where
  "flock_un fd locks = filter (\<lambda>l. l \<noteq> fd) locks"

definition ns_store_close :: "ns_store \<Rightarrow> nat \<Rightarrow> int list \<Rightarrow> nat \<times> int list \<times> ns_store" where
  "ns_store_close store fds locks =
    (let (fds1, locks1) = (if 0 \<le> lock_fd store then (fds - 1, flock_un (lock_fd store) locks) else (fds, locks));
         fds2 = (if 0 \<le> dir_fd store then fds1 - 1 else fds1)
     in (fds2, locks1, \<lparr>dir_fd = - 1, lock_fd = - 1\<rparr>))"

definition store_failed :: "ns_store \<Rightarrow> nat \<Rightarrow> int list \<Rightarrow> string \<Rightarrow> nat \<times> int list \<times> ns_store \<times> (ns_error + unit)" where
  "store_failed store fds locks message =
    (let (fds1, locks1, closed) = ns_store_close store fds locks in (fds1, locks1, closed, Inl (Message message)))"

definition ns_store_open ::
  "open_env \<Rightarrow> string option \<Rightarrow> nat \<Rightarrow> int list \<Rightarrow> nat \<times> int list \<times> ns_store \<times> (ns_error + unit)" where
  "ns_store_open env state_dir fds locks =
    (let none = \<lparr>dir_fd = - 1, lock_fd = - 1\<rparr>; lock_text = ''cannot lock state directory: '' in
     case open_state_directory env state_dir fds of
       (fds1, Inl m) \<Rightarrow> (fds1, locks, none, Inl m)
     | (fds1, Inr fd) \<Rightarrow>
       let store = none\<lparr>dir_fd := int fd\<rparr> in
       (case l_open env of
          Some e \<Rightarrow> store_failed store fds1 locks (lock_text @ strerror e)
        | None \<Rightarrow>
          let store = store\<lparr>lock_fd := int (l_lock_fd env)\<rparr>; fds2 = fds1 + 1 in
          (case l_fstat env of
             Inl e \<Rightarrow> store_failed store fds2 locks ''unsafe state lock file''
           | Inr st \<Rightarrow>
             if kind st \<noteq> Regular \<or> st_uid st \<noteq> o_euid env \<or> st_nlink st \<noteq> 1 then
               store_failed store fds2 locks ''unsafe state lock file''
             else (case l_fchmod env of
                 Some e \<Rightarrow> store_failed store fds2 locks (lock_text @ strerror e)
               | None \<Rightarrow>
                 (case flock_ex env (lock_fd store) locks of
                    Inl e \<Rightarrow> store_failed store fds2 locks (lock_text @ strerror e)
                  | Inr locks1 \<Rightarrow> (fds2, locks1, store, Inr ()))))))"

section \<open>Secrets\<close>

text \<open>The read loop into the 512-byte buffer: transfers, input left, bytes so far.\<close>

fun secret_bytes :: "io list \<Rightarrow> string \<Rightarrow> string \<Rightarrow> (ns_error + string) option" where
  "secret_bytes ios input buffer =
    (if length buffer = 512 then Some (Inl (Message ''secret input is too long''))
     else case ios of
         [] \<Rightarrow> None
       | IoErr e # ios1 \<Rightarrow>
           if e = EINTR then secret_bytes ios1 input buffer
           else Some (Inl (Message (''cannot read secret input: '' @ strerror e)))
       | Io n # ios1 \<Rightarrow>
           let got = min n (min (512 - length buffer) (length input)) in
           if got = 0 then Some (Inr buffer)
           else secret_bytes ios1 (drop got input) (buffer @ take got input))"

declare secret_bytes.simps [simp del]

definition strip_newline :: "string \<Rightarrow> string" where
  "strip_newline b =
    (if b \<noteq> [] \<and> last b = LF then
       (if butlast b \<noteq> [] \<and> last (butlast b) = CR then butlast (butlast b) else butlast b)
     else b)"

text \<open>On failure the destination is cleared, so a secret is in the result or nowhere.\<close>

definition read_secret_fd :: "io list \<Rightarrow> string \<Rightarrow> nat \<Rightarrow> (ns_error + string) option" where
  "read_secret_fd ios input capacity =
    (if capacity < 2 then Some (Inl (Message ''invalid secret destination''))
     else case secret_bytes ios input [] of
         None \<Rightarrow> None
       | Some (Inl e) \<Rightarrow> Some (Inl e)
       | Some (Inr buffer) \<Rightarrow>
         let b = strip_newline buffer in
         if capacity \<le> length b then Some (Inl (Message ''secret input is too long''))
         else if NUL \<in> set b \<or> LF \<in> set b \<or> CR \<in> set b then
           Some (Inl (Message ''secret input contains a forbidden line break or NUL''))
         else Some (Inr b))"

definition ns_read_secret_stdin :: "bool \<Rightarrow> io list \<Rightarrow> string \<Rightarrow> nat \<Rightarrow> (ns_error + string) option" where
  "ns_read_secret_stdin isatty ios input capacity =
    (if isatty then Some (Inl (Message
       ''refusing an echo-capable terminal; provide the secret through a pipe or restricted file''))
     else read_secret_fd ios input capacity)"

definition ns_read_secret_file :: "read_env \<Rightarrow> dir \<Rightarrow> string option \<Rightarrow> nat \<Rightarrow> (ns_error + string) option" where
  "ns_read_secret_file env fs path capacity =
    (case path of
       None \<Rightarrow> Some (Inl (Message ''secret file must use an absolute path''))
     | Some p \<Rightarrow>
       if p = [] \<or> hd p \<noteq> CHR ''/'' then Some (Inl (Message ''secret file must use an absolute path''))
       else (case open_nofollow (r_open env) fs p of
           Inl e \<Rightarrow> Some (Inl (Message (''cannot open secret file: '' @ strerror e)))
         | Inr f \<Rightarrow>
           if r_fstat env \<noteq> None \<or> kind f \<noteq> Regular \<or> st_uid f \<noteq> r_euid env \<or> st_nlink f \<noteq> 1 \<or>
              (st_mode f \<noteq> MODE_0600 \<and> st_mode f \<noteq> 4 * 64) then
             Some (Inl (Message ''secret file must be owned by this user, non-linked, and mode 0600 or 0400''))
           else if 512 < length (fdata f) then Some (Inl (Message ''secret file is too large''))
           else read_secret_fd (r_reads env) (fdata f) capacity))"

section \<open>The vendor file\<close>

definition NS_VENDOR_MAX_BYTES :: nat where "NS_VENDOR_MAX_BYTES = 64 * 1024"

text \<open>The bytes, and whether the file was accessible to others.\<close>

definition read_vendor_file :: "read_env \<Rightarrow> dir \<Rightarrow> string option \<Rightarrow> (ns_error + string \<times> bool) option" where
  "read_vendor_file env fs path =
    (case path of
       None \<Rightarrow> Some (Inl (Message ''vendor Wi-Fi file must use an absolute path''))
     | Some p \<Rightarrow>
       if p = [] \<or> hd p \<noteq> CHR ''/'' then Some (Inl (Message ''vendor Wi-Fi file must use an absolute path''))
       else (case open_nofollow (r_open env) fs p of
           Inl e \<Rightarrow> Some (Inl (Message (''cannot open vendor Wi-Fi file: '' @ strerror e)))
         | Inr f \<Rightarrow>
           if r_fstat env \<noteq> None \<or> kind f \<noteq> Regular \<or> st_nlink f \<noteq> 1 then
             Some (Inl (Message ''vendor Wi-Fi source is not a safe regular file''))
           else if length (fdata f) \<le> 0 \<or> NS_VENDOR_MAX_BYTES < length (fdata f) then
             Some (Inl (Message ''vendor Wi-Fi source has an invalid size''))
           else if \<not> r_malloc env then Some (Inl (Message ''out of memory''))
           else (case read_all_fd (r_errno env) (r_reads env) (fdata f) (length (fdata f)) of
               None \<Rightarrow> None
             | Some (Inl e) \<Rightarrow> Some (Inl (Message (''cannot read vendor Wi-Fi source: '' @ strerror e)))
             | Some (Inr bytes) \<Rightarrow> Some (Inr (bytes, st_mode f AND 0x3F \<noteq> 0)))))"

text \<open>\<^verbatim>\<open>memmem\<close>: what precedes the first occurrence and what follows it.\<close>

fun memmem_split :: "string \<Rightarrow> string \<Rightarrow> (string \<times> string) option" where
  "memmem_split s needle =
    (if take (length needle) s = needle then Some ([], drop (length needle) s)
     else case s of [] \<Rightarrow> None
       | c # cs \<Rightarrow> map_option (\<lambda>(pre, post). (c # pre, post)) (memmem_split cs needle))"

declare memmem_split.simps [simp del]

definition vendor_separator :: string where
  "vendor_separator = [TAB, CHR ''P'', CHR '':'']"

text \<open>One line without its line ending.\<close>

definition vendor_record :: "ns_wifi_db \<Rightarrow> string \<Rightarrow> ns_error + ns_wifi_db \<times> string" where
  "vendor_record working line =
    (if length line < 5 \<or> NUL \<in> set line \<or> take 2 line \<noteq> ''S:'' then
       Inl (Message ''vendor Wi-Fi source contains a malformed record'')
     else case memmem_split (drop 2 line) vendor_separator of
         None \<Rightarrow> Inl (Message ''vendor Wi-Fi source contains a malformed record'')
       | Some (name, key) \<Rightarrow>
         if memmem_split key vendor_separator \<noteq> None then
           Inl (Message ''vendor Wi-Fi source contains a malformed record'')
         else if length name = 0 \<or> NS_SSID_MAX_BYTES < length name \<or> NS_WIFI_SECRET_MAX_BYTES < length key then
           Inl (Message ''vendor Wi-Fi source contains an invalid credential length'')
         else
           let p = \<lparr>ssid = name, security = (if length key = 0 then NS_WIFI_OPEN else NS_WIFI_WPA2_PSK),
                 hidden = 0, priority = 0, secret = key\<rparr> in
           if ns_validate_wifi p \<noteq> Inr () then Inl (Message ''vendor Wi-Fi source contains an invalid profile'')
           else (case ns_wifi_upsert working p of
               Inl _ \<Rightarrow> Inl (Message ''vendor Wi-Fi source contains an invalid profile'')
             | Inr working1 \<Rightarrow> Inr (working1, ssid p)))"

function vendor_lines :: "ns_wifi_db \<Rightarrow> nat \<Rightarrow> string \<Rightarrow> string \<Rightarrow> ns_error + ns_wifi_db \<times> nat \<times> string" where
  "vendor_lines working count first_ssid s =
    (if s = [] then Inr (working, count, first_ssid)
     else
       let raw = fst (next_line s); rest = snd (next_line s);
           line = (if raw \<noteq> [] \<and> last raw = CR then butlast raw else raw)
       in
       if line = [] then vendor_lines working count first_ssid rest
       else (case vendor_record working line of
           Inl e \<Rightarrow> Inl e
         | Inr (working1, name) \<Rightarrow>
           vendor_lines working1 (count + 1)
             (if count = 0 then snprintf_s (NS_SSID_MAX_BYTES + 1) name else first_ssid) rest))"
  by pat_completeness auto
termination
  by (relation "measure (\<lambda>(working, count, first_ssid, s). length s)") (simp_all add: next_line_shorter)

declare vendor_lines.simps [simp del]

text \<open>The database, the number imported, whether the source was insecure, and the status.\<close>

definition ns_wifi_import_vendor ::
  "read_env \<Rightarrow> dir \<Rightarrow> ns_wifi_db \<Rightarrow> string option \<Rightarrow> bool \<Rightarrow> (ns_wifi_db \<times> nat \<times> bool \<times> (ns_error + unit)) option" where
  "ns_wifi_import_vendor env fs db path make_default =
    (case validate_wifi_db db of
       Inl e \<Rightarrow> Some (db, 0, False, Inl e)
     | Inr _ \<Rightarrow>
       (case read_vendor_file env fs path of
          None \<Rightarrow> None
        | Some (Inl e) \<Rightarrow> Some (db, 0, False, Inl e)
        | Some (Inr (bytes, insecure)) \<Rightarrow>
          (case vendor_lines db 0 [] bytes of
             Inl e \<Rightarrow> Some (db, 0, False, Inl e)
           | Inr (working, count, first_ssid) \<Rightarrow>
             if count = 0 then
               Some (db, 0, False, Inl (Message ''vendor Wi-Fi source contains no profiles''))
             else if make_default \<or> default_ssid working = [] then
               (case ns_wifi_select working (Some first_ssid) of
                  Inl e \<Rightarrow> Some (db, 0, False, Inl e)
                | Inr working1 \<Rightarrow> Some (working1, count, insecure, Inr ()))
             else Some (working, count, insecure, Inr ()))))"

section \<open>Properties\<close>

lemma walk_components_fds:
  "walk_components env k cs (Suc fds) = (f, r) \<Longrightarrow> (r = Inr () \<longrightarrow> f = Suc fds) \<and> (r \<noteq> Inr () \<longrightarrow> f = fds)"
  by (induction env k cs "Suc fds" arbitrary: r rule: walk_components.induct)
    (auto simp: Let_def split: if_splits option.splits)

lemma open_state_directory_fds:
  "open_state_directory env path fds = (f, r) \<Longrightarrow>
   f = (case r of Inl _ \<Rightarrow> fds | Inr _ \<Rightarrow> Suc fds) \<and> (\<forall>fd. r = Inr fd \<longrightarrow> fd = o_dir_fd env)"
  by (auto simp: open_state_directory_def split: option.splits if_splits sum.splits prod.splits
      dest!: walk_components_fds)

lemma open_state_directory_safe:
  "open_state_directory env path fds = (f, Inr fd) \<Longrightarrow>
   \<exists>p st. path = Some p \<and> p \<noteq> [] \<and> hd p = CHR ''/'' \<and> \<not> list_ex (\<lambda>c. c = ''.'' \<or> c = ''..'') (path_components p) \<and>
     o_fstat env = Inr st \<and> kind st = Directory \<and> st_uid st = o_euid env \<and> st_mode st = MODE_0700"
  by (auto simp: open_state_directory_def split: option.splits if_splits sum.splits prod.splits)

lemma flock_un_new: "fd \<notin> set locks \<Longrightarrow> flock_un fd locks = locks" "fd \<notin> set locks \<Longrightarrow> flock_un fd (fd # locks) = locks"
  by (auto simp: flock_un_def intro: filter_True)

lemma store_failed_simps:
  "int b \<notin> set locks \<Longrightarrow> store_failed \<lparr>dir_fd = int a, lock_fd = int b\<rparr> (Suc (Suc fds)) locks m =
    (fds, locks, \<lparr>dir_fd = - 1, lock_fd = - 1\<rparr>, Inl (Message m))"
  "store_failed \<lparr>dir_fd = int a, lock_fd = - 1\<rparr> (Suc fds) locks m = (fds, locks, \<lparr>dir_fd = - 1, lock_fd = - 1\<rparr>, Inl (Message m))"
  by (simp_all add: store_failed_def ns_store_close_def flock_un_new)

text \<open>
  C22: opening the store, where the lock file gets a descriptor that holds no
  lock yet, either fails with every descriptor closed again and no lock taken,
  or gives a store with exactly two more descriptors open and an exclusive lock
  held on the descriptor of its lock file, by an flock that succeeded on a
  regular file of the user with one link; closing the store releases descriptors
  and lock. It succeeds only on an absolute path without dot components whose
  directory is owned by the user with mode 0700.
\<close>

theorem store_open_no_leak:
  assumes "int (l_lock_fd env) \<notin> set locks" "ns_store_open env path fds locks = (fds1, locks1, store, r)"
  shows "(r \<noteq> Inr () \<longrightarrow> fds1 = fds \<and> locks1 = locks \<and> store = \<lparr>dir_fd = - 1, lock_fd = - 1\<rparr>) \<and>
    (r = Inr () \<longrightarrow> fds1 = fds + 2 \<and> 0 \<le> dir_fd store \<and> 0 \<le> lock_fd store \<and>
      l_flock env = None \<and> locks1 = lock_fd store # locks \<and>
      ns_store_close store fds1 locks1 = (fds, locks, \<lparr>dir_fd = - 1, lock_fd = - 1\<rparr>) \<and>
      (\<exists>lst. l_fstat env = Inr lst \<and> kind lst = Regular \<and> st_uid lst = o_euid env \<and> st_nlink lst = 1) \<and>
      (\<exists>p st. path = Some p \<and> p \<noteq> [] \<and> hd p = CHR ''/'' \<and>
        \<not> list_ex (\<lambda>c. c = ''.'' \<or> c = ''..'') (path_components p) \<and>
        o_fstat env = Inr st \<and> kind st = Directory \<and> st_uid st = o_euid env \<and> st_mode st = MODE_0700))"
proof -
  obtain f q where q: "open_state_directory env path fds = (f, q)" by (cases "open_state_directory env path fds")
  note fds = open_state_directory_fds [OF q]
  show ?thesis
  proof (cases q)
    case (Inl m)
    with assms q fds show ?thesis by (auto simp: ns_store_open_def Let_def)
  next
    case (Inr fd)
    then have f: "f = Suc fds" using fds by simp
    note safe = open_state_directory_safe [OF q [unfolded Inr]]
    have "r \<noteq> Inr () \<and> fds1 = fds \<and> locks1 = locks \<and> store = \<lparr>dir_fd = - 1, lock_fd = - 1\<rparr> \<or>
      r = Inr () \<and> fds1 = fds + 2 \<and> store = \<lparr>dir_fd = int fd, lock_fd = int (l_lock_fd env)\<rparr> \<and>
        l_flock env = None \<and> locks1 = lock_fd store # locks \<and>
        (\<exists>lst. l_fstat env = Inr lst \<and> kind lst = Regular \<and> st_uid lst = o_euid env \<and> st_nlink lst = 1)"
      using assms q Inr f
      by (auto simp: ns_store_open_def Let_def store_failed_simps flock_ex_def split: option.splits sum.splits if_splits)
    with safe assms(1) show ?thesis by (auto simp: ns_store_close_def flock_un_new)
  qed
qed

definition quiet_open :: open_env where
  "quiet_open = (let st = \<lparr>fdata = [], kind = Directory, st_uid = 0, st_nlink = 1, st_mode = MODE_0700\<rparr> in
     \<lparr>o_euid = 0, o_strdup = True, o_root = None, o_mkdir = (\<lambda>k. Some EEXIST), o_open = (\<lambda>k. None),
      o_fstat = Inr st, o_dir_fd = 3, l_open = None, l_fstat = Inr (st\<lparr>kind := Regular\<rparr>), l_fchmod = None,
      l_flock = None, l_lock_fd = 4\<rparr>)"

theorem store_open_no_leak_witness:
  "ns_store_open quiet_open (Some ''/var/lib'') 0 [] = (2, [4], \<lparr>dir_fd = 3, lock_fd = 4\<rparr>, Inr ()) \<and>
   ns_store_close \<lparr>dir_fd = 3, lock_fd = 4\<rparr> 2 [4] = (0, [], \<lparr>dir_fd = - 1, lock_fd = - 1\<rparr>)"
proof -
  have r: "ns_store_open quiet_open (Some ''/var/lib'') 0 [] = (2, [4], \<lparr>dir_fd = 3, lock_fd = 4\<rparr>, Inr ())"
    by (simp add: ns_store_open_def open_state_directory_def path_components_def quiet_open_def flock_ex_def Let_def)
  with store_open_no_leak [OF _ r] show ?thesis by simp
qed

lemma secret_bytes_quiet:
  "list_all (\<lambda>i. \<exists>k > 0. i = Io k) ios \<Longrightarrow> length input < length ios \<Longrightarrow> length buffer \<le> 512 \<Longrightarrow>
   secret_bytes ios input buffer =
     Some (if 512 \<le> length buffer + length input then Inl (Message ''secret input is too long'') else Inr (buffer @ input))"
proof (induction ios arbitrary: input buffer)
  case (Cons i ios)
  then obtain k where k: "i = Io k" "0 < k" by auto
  let ?got = "min k (min (512 - length buffer) (length input))"
  show ?case
  proof (cases "length buffer = 512 \<or> input = []")
    case True
    with k Cons.prems show ?thesis by (subst secret_bytes.simps) auto
  next
    case False
    then have got: "?got \<noteq> 0" "?got \<le> length input" using k Cons.prems(3) by auto
    have "secret_bytes ios (drop ?got input) (buffer @ take ?got input) =
      Some (if 512 \<le> length (buffer @ take ?got input) + length (drop ?got input)
        then Inl (Message ''secret input is too long'') else Inr ((buffer @ take ?got input) @ drop ?got input))"
    proof (rule Cons.IH)
      have "length input - ?got < length input" using got False by simp
      then show "length (drop ?got input) < length ios" using Cons.prems(2) by simp
    qed (use Cons.prems in auto)
    moreover have "secret_bytes (i # ios) input buffer = secret_bytes ios (drop ?got input) (buffer @ take ?got input)"
      using k False Cons.prems(3) by (subst secret_bytes.simps) (auto simp: Let_def min_def)
    ultimately show ?thesis using got(2) by simp
  qed
qed simp

text \<open>
  However the input is split into reads, a secret is accepted exactly when
  the input is shorter than 512 bytes, and, without one trailing line ending,
  is shorter than the destination and free of NUL, line feed and carriage
  return; the accepted secret is the input without that line ending.
\<close>

theorem read_secret_exact:
  assumes "list_all (\<lambda>i. \<exists>k > 0. i = Io k) ios" "length input < length ios"
  shows "read_secret_fd ios input capacity = Some (Inr s) \<longleftrightarrow>
    2 \<le> capacity \<and> length input < 512 \<and> s = strip_newline input \<and> length s < capacity \<and>
    NUL \<notin> set s \<and> LF \<notin> set s \<and> CR \<notin> set s"
  using secret_bytes_quiet [OF assms, of "[]"] by (auto simp: read_secret_fd_def Let_def)

theorem read_secret_exact_witness:
  "read_secret_fd (replicate 10 (Io 3)) ''secret12'' 65 = Some (Inr ''secret12'')"
proof -
  have "list_all (\<lambda>i. \<exists>k > 0. i = Io k) (replicate 10 (Io 3))" by (auto simp: list_all_iff)
  from read_secret_exact [OF this, of "''secret12''" 65 "''secret12''"] show ?thesis by (simp add: strip_newline_def)
qed

abbreviation wifi_keys :: "ns_wifi_db \<Rightarrow> string set" where
  "wifi_keys db \<equiv> ssid ` set (wifi_entries db)"

text \<open>The networks of a database, by name.\<close>

abbreviation networks :: "ns_wifi_db \<Rightarrow> string \<rightharpoonup> ns_wifi_profile" where
  "networks db \<equiv> entry_map ssid (wifi_entries db)"

text \<open>
  What a vendor file says: its lines without the line ending, the empty ones
  left out; the line of a network; the profile such a line stands for.
\<close>

definition strip_cr :: "string \<Rightarrow> string" where
  "strip_cr l = (if l \<noteq> [] \<and> last l = CR then butlast l else l)"

definition vendor_records :: "string \<Rightarrow> string list" where
  "vendor_records s = filter (\<lambda>l. l \<noteq> []) (map strip_cr (split_on LF s))"

definition vendor_text :: "ns_wifi_profile \<Rightarrow> string" where
  "vendor_text p = ''S:'' @ ssid p @ vendor_separator @ secret p"

definition vendor_profile :: "ns_wifi_profile \<Rightarrow> bool" where
  "vendor_profile p \<longleftrightarrow> wifi_ok p \<and> hidden p = 0 \<and> priority p = 0 \<and>
     security p = (if secret p = [] then NS_WIFI_OPEN else NS_WIFI_WPA2_PSK)"

fun add_networks :: "(string \<rightharpoonup> ns_wifi_profile) \<Rightarrow> ns_wifi_profile list \<Rightarrow> string \<rightharpoonup> ns_wifi_profile" where
  "add_networks m [] = m"
| "add_networks m (p # ps) = add_networks (m(ssid p \<mapsto> p)) ps"

lemma vendor_records_step:
  assumes "s \<noteq> []"
  shows "vendor_records s =
    (if strip_cr (fst (next_line s)) = [] then [] else [strip_cr (fst (next_line s))]) @ vendor_records (snd (next_line s))"
proof (cases "LF \<in> set s")
  case True
  then obtain l rest where "s = l @ LF # rest" "LF \<notin> set l" by (metis split_list_first)
  then show ?thesis by (simp add: vendor_records_def)
next
  case False
  then have "dropWhile (\<lambda>c. c \<noteq> LF) s = []" "takeWhile (\<lambda>c. c \<noteq> LF) s = s" by (auto simp: takeWhile_eq_all_conv)
  then have "next_line s = (s, [])" by (simp only: next_line_def) simp
  with False show ?thesis by (simp add: vendor_records_def strip_cr_def)
qed

lemma memmem_split_sound: "memmem_split s needle = Some (pre, post) \<Longrightarrow> s = pre @ needle @ post"
proof (induction s arbitrary: pre post)
  case Nil
  then show ?case by (simp add: memmem_split.simps split: if_splits)
next
  case (Cons c cs)
  show ?case
  proof (cases "take (length needle) (c # cs) = needle")
    case True
    then show ?thesis using Cons.prems append_take_drop_id [of "length needle" "c # cs"] by (auto simp: memmem_split.simps)
  next
    case False
    then obtain q where "memmem_split cs needle = Some (q, post)" "pre = c # q"
      using Cons.prems by (subst (asm) memmem_split.simps) auto
    then show ?thesis using Cons.IH by simp
  qed
qed

lemma upsert_networks:
  assumes "wifi_db_inv db" "ns_wifi_upsert db p = Inr db1"
  shows "wifi_db_inv db1 \<and> networks db1 = (networks db)(ssid p \<mapsto> p) \<and> default_ssid db1 = default_ssid db \<and> wifi_ok p"
proof -
  consider "wifi_ok p" "ssid p \<in> wifi_keys db"
    | "wifi_ok p" "ssid p \<notin> wifi_keys db" "length (wifi_entries db) < NS_MAX_WIFI_PROFILES"
    using wdb.upsert_rejects [OF assms(1), of p] assms(2) by fastforce
  then show ?thesis
  proof cases
    case 1
    from wdb.upsert_replaces [OF assms(1) 1] assms(2) 1 show ?thesis by (auto simp: entry_map_replace)
  next
    case 2
    from wdb.upsert_appends [OF assms(1) 2] assms(2) 2 show ?thesis by (auto simp: entry_map_append)
  qed
qed

lemma vendor_record_network:
  assumes "wifi_db_inv w" "vendor_record w l = Inr (w1, name)"
  obtains p where "l = vendor_text p" "vendor_profile p" "name = ssid p" "length name \<le> NS_SSID_MAX_BYTES" "wifi_db_inv w1"
    "networks w1 = (networks w)(ssid p \<mapsto> p)" "default_ssid w1 = default_ssid w"
proof -
  from assms(2) obtain key where m: "memmem_split (drop 2 l) vendor_separator = Some (name, key)" "take 2 l = ''S:''"
      "length name \<le> NS_SSID_MAX_BYTES"
    and u: "ns_wifi_upsert w \<lparr>ssid = name, security = (if length key = 0 then NS_WIFI_OPEN else NS_WIFI_WPA2_PSK),
        hidden = 0, priority = 0, secret = key\<rparr> = Inr w1"
    by (auto simp: vendor_record_def Let_def not_less split: if_splits option.splits sum.splits)
  from m(2) memmem_split_sound [OF m(1)] have "l = ''S:'' @ name @ vendor_separator @ key" by (metis append_take_drop_id)
  with upsert_networks [OF assms(1) u] m(3) show thesis
    by (intro that [of "\<lparr>ssid = name, security = (if length key = 0 then NS_WIFI_OPEN else NS_WIFI_WPA2_PSK),
        hidden = 0, priority = 0, secret = key\<rparr>"]) (simp_all add: vendor_text_def vendor_profile_def)
qed

text \<open>A run of the loop that succeeds took in every record that was left.\<close>

lemma vendor_lines_networks:
  "wifi_db_inv w \<Longrightarrow> vendor_lines w n f s = Inr (w1, n1, f1) \<Longrightarrow>
   \<exists>ps. vendor_records s = map vendor_text ps \<and> list_all vendor_profile ps \<and> n1 = n + length ps \<and> wifi_db_inv w1 \<and>
     networks w1 = add_networks (networks w) ps \<and> default_ssid w1 = default_ssid w \<and>
     f1 = (if n = 0 \<and> ps \<noteq> [] then ssid (hd ps) else f)"
proof (induction "length s" arbitrary: s w n f rule: less_induct)
  case less
  let ?rest = "snd (next_line s)" and ?line = "strip_cr (fst (next_line s))"
  consider "s = []" | "s \<noteq> []" "?line = []" "vendor_lines w n f ?rest = Inr (w1, n1, f1)"
    | w2 name where "s \<noteq> []" "?line \<noteq> []" "vendor_record w ?line = Inr (w2, name)"
      "vendor_lines w2 (n + 1) (if n = 0 then snprintf_s (NS_SSID_MAX_BYTES + 1) name else f) ?rest = Inr (w1, n1, f1)"
    using less.prems(2) [unfolded vendor_lines.simps [where s = s], folded strip_cr_def]
    by (auto simp: Let_def strip_cr_def [symmetric] split: if_splits sum.splits)
  then show ?case
  proof cases
    case 1
    with less.prems show ?thesis by (intro exI [of _ "[]"]) (simp add: vendor_lines.simps vendor_records_def strip_cr_def)
  next
    case 2
    from less.hyps [OF next_line_shorter [OF 2(1)] less.prems(1) 2(3)] 2(1,2) show ?thesis by (simp add: vendor_records_step)
  next
    case 3
    obtain p where p: "?line = vendor_text p" "vendor_profile p" "name = ssid p" "length name \<le> NS_SSID_MAX_BYTES" "wifi_db_inv w2"
      "networks w2 = (networks w)(ssid p \<mapsto> p)" "default_ssid w2 = default_ssid w"
      by (rule vendor_record_network [OF less.prems(1) 3(3)])
    from less.hyps [OF next_line_shorter [OF 3(1)] p(5) 3(4)] obtain ps where
      "vendor_records ?rest = map vendor_text ps" "list_all vendor_profile ps" "n1 = n + 1 + length ps" "wifi_db_inv w1"
      "networks w1 = add_networks (networks w2) ps" "default_ssid w1 = default_ssid w2"
      "f1 = (if n = 0 then snprintf_s (NS_SSID_MAX_BYTES + 1) name else f)" by auto
    with p 3(1,2) show ?thesis
      by (intro exI [of _ "p # ps"]) (simp add: vendor_records_step snprintf_s_def)
  qed
qed

lemma read_vendor_file_bytes:
  "read_vendor_file env fs path = Some (Inr (bytes, insecure)) \<Longrightarrow>
   \<exists>p f. path = Some p \<and> fs p = Some f \<and> kind f = Regular \<and> bytes = fdata f"
  by (auto simp: read_vendor_file_def open_nofollow_def dest!: read_all_fd_sound split: option.splits sum.splits if_splits)

text \<open>
  C18: importing the vendor's Wi-Fi file into a well-formed database is all or
  nothing. On any error the database is untouched and nothing is counted. On
  success the lines of the file, apart from the empty ones and without their LF
  or CRLF, are exactly the lines of some valid profiles, at least one, and the
  count is their number; every one of them is in the database, a later one
  instead of an earlier one or of an existing network with the same name, and
  every other network is there as it was; the default is the first one imported
  when the caller asked for that or there was none, and else the old one.
\<close>

theorem vendor_import_all_or_nothing:
  assumes "wifi_db_inv db" "ns_wifi_import_vendor env fs db path make_default = Some (db1, n, insecure, r)"
  shows "wifi_db_inv db1 \<and> (r \<noteq> Inr () \<longrightarrow> db1 = db \<and> n = 0) \<and>
    (r = Inr () \<longrightarrow> (\<exists>p f ps. path = Some p \<and> fs p = Some f \<and> vendor_records (fdata f) = map vendor_text ps \<and>
       list_all vendor_profile ps \<and> ps \<noteq> [] \<and> n = length ps \<and> networks db1 = add_networks (networks db) ps \<and>
       default_ssid db1 = (if make_default \<or> default_ssid db = [] then ssid (hd ps) else default_ssid db)))"
proof (cases "r = Inr ()")
  case False
  with assms wifi_db_inv_valid [OF assms(1)] show ?thesis
    by (auto simp: ns_wifi_import_vendor_def split: option.splits sum.splits if_splits)
next
  case ok: True
  with assms(2) obtain bytes w f where b: "read_vendor_file env fs path = Some (Inr (bytes, insecure))"
    and l: "vendor_lines db 0 [] bytes = Inr (w, n, f)" "0 < n"
    and sel: "(if make_default \<or> default_ssid w = [] then ns_wifi_select w (Some f) else Inr w) = Inr db1"
    by (auto simp: ns_wifi_import_vendor_def split: option.splits sum.splits if_splits)
  from vendor_lines_networks [OF assms(1) l(1)] l(2) obtain ps where ps: "vendor_records bytes = map vendor_text ps"
    "list_all vendor_profile ps" "n = length ps" "ps \<noteq> []" "wifi_db_inv w" "networks w = add_networks (networks db) ps"
    "default_ssid w = default_ssid db" "f = ssid (hd ps)" by auto
  have db1: "wifi_db_inv db1 \<and> networks db1 = networks w \<and>
      default_ssid db1 = (if make_default \<or> default_ssid db = [] then ssid (hd ps) else default_ssid db)"
  proof (cases "make_default \<or> default_ssid w = []")
    case True
    then have "ns_wifi_select w (Some f) = Inr db1" using sel by simp
    with wdb.select_selects [OF ps(5), of f] wdb.select_rejects [OF ps(5), of f] True ps(7,8) show ?thesis by fastforce
  qed (use sel ps in simp)
  with read_vendor_file_bytes [OF b] ps ok show ?thesis by auto
qed

text \<open>What the resulting networks are, name by name.\<close>

lemma add_networks_lookup:
  "add_networks m ps k = (case find (\<lambda>p. ssid p = k) (rev ps) of None \<Rightarrow> m k | Some p \<Rightarrow> Some p)"
proof (induction ps arbitrary: m)
  case (Cons p ps)
  have "find P (xs @ ys) = (case find P xs of None \<Rightarrow> find P ys | Some x \<Rightarrow> Some x)" for P and xs ys :: "ns_wifi_profile list"
    by (induction xs) simp_all
  then show ?case using Cons by (simp split: option.split)
qed simp

definition sample_vendor :: inode where
  "sample_vendor = \<lparr>fdata = ''S:lab'' @ vendor_separator @ [LF], kind = Regular, st_uid = 0, st_nlink = 1, st_mode = 0\<rparr>"

theorem vendor_import_all_or_nothing_witness:
  "\<exists>db1. ns_wifi_import_vendor (quiet_reads 9) [''/v'' \<mapsto> sample_vendor] zero_wifi_db (Some ''/v'') False =
     Some (db1, 1, False, Inr ()) \<and> wifi_db_inv db1 \<and>
   (\<exists>ps. vendor_records (fdata sample_vendor) = map vendor_text ps \<and> length ps = 1 \<and>
      networks db1 = add_networks (networks zero_wifi_db) ps \<and> default_ssid db1 = ssid (hd ps))"
proof -
  let ?p = "\<lparr>ssid = ''lab'', security = NS_WIFI_OPEN, hidden = 0, priority = 0, secret = []\<rparr>"
  have p: "wifi_ok ?p"
    by (simp add: ns_validate_wifi_def ns_validate_utf8_text_Some ns_limits strnlen_def)
  obtain w where w: "ns_wifi_upsert zero_wifi_db ?p = Inr w" "wifi_db_inv w" "default_ssid w = default_ssid zero_wifi_db"
    "wifi_entries w = [?p]"
    using wdb.upsert_appends [OF zero_wifi_db_inv p] by (auto simp: zero_wifi_db_def ns_limits)
  have b: "read_vendor_file (quiet_reads 9) [''/v'' \<mapsto> sample_vendor] (Some ''/v'') =
    Some (Inr (fdata sample_vendor, False))"
    using read_all_fd_ok [of "length (fdata sample_vendor)" "fdata sample_vendor" "replicate 9 (Io 1)" EINTR]
    by (simp add: read_vendor_file_def quiet_reads_def open_nofollow_def sample_vendor_def vendor_separator_def
        NS_VENDOR_MAX_BYTES_def list_all_iff)
  have "vendor_record zero_wifi_db (''S:lab'' @ vendor_separator) = Inr (w, ''lab'')"
    using w(1) p by (simp add: vendor_record_def vendor_separator_def memmem_split.simps ns_limits Let_def)
  then have "vendor_lines zero_wifi_db 0 [] (fdata sample_vendor) = Inr (w, 1, ''lab'')"
    using next_line_append [of "''S:lab'' @ vendor_separator" "[]"]
    by (subst vendor_lines.simps) (simp add: sample_vendor_def vendor_separator_def vendor_lines.simps snprintf_s_def ns_limits)
  moreover obtain db1 where "ns_wifi_select w (Some ''lab'') = Inr db1"
    using wdb.select_selects [OF w(2), of "''lab''"] w(4) by auto
  moreover have "default_ssid w = []" using w(3) by (simp add: zero_wifi_db_def)
  ultimately have r: "ns_wifi_import_vendor (quiet_reads 9) [''/v'' \<mapsto> sample_vendor] zero_wifi_db (Some ''/v'') False =
     Some (db1, 1, False, Inr ())"
    using b by (simp add: ns_wifi_import_vendor_def wifi_db_inv_valid)
  have "default_ssid zero_wifi_db = []" by (simp add: zero_wifi_db_def)
  with vendor_import_all_or_nothing [OF zero_wifi_db_inv r] r show ?thesis by auto
qed

end
