(* ===== verification/Qsort.thy ===== *)
theory Qsort
  imports Prelude "HOL-Library.Multiset" "HOL-Library.Product_Lexorder" "HOL-Library.List_Lexorder"
begin

text \<open>
  \<^verbatim>\<open>qsort\<close> as a parameter: what the C standard asks of a comparison function and
  promises of the result, and the comparison functions that compare a key.
\<close>

lemma strcmp_lex:
  "strcmp s t = (if map byte s < map byte t then - 1 else if map byte s = map byte t then 0 else 1)"
  by (induction s t rule: strcmp.induct) auto

lemma map_byte_eq: "map byte s = map byte t \<longleftrightarrow> s = t"
  using inj_map_eq_map [of byte s t] by (simp add: inj_def)

text \<open>What the C standard asks of a comparison function, and what it promises of \<^verbatim>\<open>qsort\<close>.\<close>

definition comparison :: "('a \<Rightarrow> 'a \<Rightarrow> int) \<Rightarrow> bool" where
  "comparison cmp \<longleftrightarrow> (\<forall>a b. sgn (cmp b a) = - sgn (cmp a b)) \<and>
     (\<forall>a b c. cmp a b \<le> 0 \<longrightarrow> cmp b c \<le> 0 \<longrightarrow> cmp a c \<le> 0)"

definition qsort_ok :: "(('a \<Rightarrow> 'a \<Rightarrow> int) \<Rightarrow> 'a list \<Rightarrow> 'a list) \<Rightarrow> bool" where
  "qsort_ok qsort \<longleftrightarrow> (\<forall>cmp xs. comparison cmp \<longrightarrow>
     mset (qsort cmp xs) = mset xs \<and> sorted_wrt (\<lambda>a b. cmp a b \<le> 0) (qsort cmp xs))"

text \<open>Comparison functions that compare a key.\<close>

lemma comparison_sign:
  fixes k :: "'a \<Rightarrow> 'k :: linorder"
  assumes "\<And>a b. (cmp a b < 0 \<longleftrightarrow> k a < k b) \<and> (cmp a b = 0 \<longleftrightarrow> k a = k b)"
  shows "comparison cmp"
  unfolding comparison_def
proof (intro conjI allI impI)
  fix a b c
  have s: "sgn (cmp x y) = (if k x < k y then - 1 else if k x = k y then 0 else 1)" for x y
    using assms [of x y] by (auto simp: sgn_if)
  show "sgn (cmp b a) = - sgn (cmp a b)" by (cases "k a" "k b" rule: linorder_cases) (auto simp: s)
  have le: "cmp x y \<le> 0 \<longleftrightarrow> k x \<le> k y" for x y using assms [of x y] by (auto simp: order_le_less)
  show "cmp a b \<le> 0 \<Longrightarrow> cmp b c \<le> 0 \<Longrightarrow> cmp a c \<le> 0" unfolding le by (rule order_trans)
qed

lemma qsort_sign:
  fixes k :: "'a \<Rightarrow> 'k :: linorder"
  assumes "qsort_ok qsort" "\<And>a b. (cmp a b < 0 \<longleftrightarrow> k a < k b) \<and> (cmp a b = 0 \<longleftrightarrow> k a = k b)"
  shows "mset (qsort cmp xs) = mset xs" "sorted (map k (qsort cmp xs))"
proof -
  have "comparison cmp" by (rule comparison_sign [of cmp k]) (rule assms(2))
  then have q: "mset (qsort cmp xs) = mset xs" "sorted_wrt (\<lambda>a b. cmp a b \<le> 0) (qsort cmp xs)"
    using assms(1) by (auto simp: qsort_ok_def)
  have le: "cmp x y \<le> 0 \<longleftrightarrow> k x \<le> k y" for x y using assms(2) [of x y] by (auto simp: order_le_less)
  show "mset (qsort cmp xs) = mset xs" "sorted (map k (qsort cmp xs))" using q by (simp_all add: sorted_wrt_map le)
qed

lemma comparison_key:
  fixes k :: "'a \<Rightarrow> 'k :: linorder"
  assumes "\<And>a b. cmp a b = (if k a < k b then - 1 else if k a = k b then 0 else 1)"
  shows "comparison cmp"
  by (rule comparison_sign [of cmp k]) (auto simp: assms)

lemma qsort_key:
  fixes k :: "'a \<Rightarrow> 'k :: linorder"
  assumes "qsort_ok qsort" "\<And>a b. cmp a b = (if k a < k b then - 1 else if k a = k b then 0 else 1)"
  shows "mset (qsort cmp xs) = mset xs" "sorted (map k (qsort cmp xs))"
  by (rule qsort_sign [OF assms(1), of cmp k]; auto simp: assms(2))+

text \<open>Insertion sort meets the contract, so it can be met.\<close>

fun insert_by :: "('a \<Rightarrow> 'a \<Rightarrow> int) \<Rightarrow> 'a \<Rightarrow> 'a list \<Rightarrow> 'a list" where
  "insert_by cmp x [] = [x]"
| "insert_by cmp x (y # ys) = (if cmp x y \<le> 0 then x # y # ys else y # insert_by cmp x ys)"

definition insertion_sort :: "('a \<Rightarrow> 'a \<Rightarrow> int) \<Rightarrow> 'a list \<Rightarrow> 'a list" where
  "insertion_sort cmp xs = foldr (insert_by cmp) xs []"

lemma mset_insert_by: "mset (insert_by cmp x ys) = add_mset x (mset ys)"
  by (induction ys) auto

lemma set_insert_by: "set (insert_by cmp x ys) = insert x (set ys)"
  by (metis mset_insert_by set_mset_add_mset_insert set_mset_mset)

lemma comparison_total: "comparison cmp \<Longrightarrow> \<not> cmp x y \<le> 0 \<Longrightarrow> cmp y x \<le> 0"
proof -
  assume "comparison cmp" "\<not> cmp x y \<le> 0"
  then have "sgn (cmp y x) = - 1" by (simp add: comparison_def sgn_if)
  then show ?thesis by (simp add: sgn_if split: if_splits)
qed

lemma sorted_insert_by:
  assumes "comparison cmp"
  shows "sorted_wrt (\<lambda>a b. cmp a b \<le> 0) ys \<Longrightarrow> sorted_wrt (\<lambda>a b. cmp a b \<le> 0) (insert_by cmp x ys)"
proof (induction ys)
  case (Cons y ys)
  have "cmp x y \<le> 0 \<Longrightarrow> cmp y z \<le> 0 \<Longrightarrow> cmp x z \<le> 0" for z using assms unfolding comparison_def by blast
  with Cons comparison_total [OF assms, of x y] show ?case by (auto simp: set_insert_by)
qed simp

lemma insertion_sort_ok: "qsort_ok insertion_sort"
  unfolding qsort_ok_def
proof (intro allI impI)
  fix cmp :: "'a \<Rightarrow> 'a \<Rightarrow> int" and xs
  assume "comparison cmp"
  then show "mset (insertion_sort cmp xs) = mset xs \<and> sorted_wrt (\<lambda>a b. cmp a b \<le> 0) (insertion_sort cmp xs)"
    by (induction xs) (auto simp: insertion_sort_def mset_insert_by sorted_insert_by)
qed

end
