(* ===== verification/Bluetooth_Model.thy ===== *)
theory Bluetooth_Model
  imports Percent Qsort
begin

text \<open>
  The Bluetooth helper's model of adapters and devices
  (\<^verbatim>\<open>components/bluetooth-runtime/src/bluetooth_model.c\<close>, and
  \<^verbatim>\<open>finalize_model\<close> of \<^verbatim>\<open>rg40xxv-bluetooth-control.c\<close>): address and name
  normalisation, classification, the order of the device list and the snapshot
  text printed for the shell.

  The device array is the list of its used entries: \<open>finalize_model\<close> copies
  each kept device to an index that is never ahead of the one it reads, so the
  in-place loop is a pass over the list. \<^verbatim>\<open>qsort\<close> is a parameter with the
  contract of the C standard, \<open>qsort_ok\<close>. \<open>fprintf\<close> and \<open>fflush\<close> may fail: \<open>io k\<close> says
  whether the \<open>k\<close>-th of these calls succeeds.
\<close>

section \<open>Data\<close>

datatype bt_errno = EINVAL | ENOSPC | EPROTO | EIO | EOVERFLOW | E2BIG | EEXIST | ENODEV | EAGAIN
  | ECANCELED | ETIMEDOUT | EFBIG | EINTR | EACCES | ENOENT | ENOMEM | ECHILD | ESYS nat

definition RG40XXV_BT_MAX_DEVICES :: nat where "RG40XXV_BT_MAX_DEVICES = 64"
definition RG40XXV_BT_OUTPUT_DEVICES :: nat where "RG40XXV_BT_OUTPUT_DEVICES = 16"
definition RG40XXV_BT_ADDRESS_SIZE :: nat where "RG40XXV_BT_ADDRESS_SIZE = 18"
definition RG40XXV_BT_NAME_SIZE :: nat where "RG40XXV_BT_NAME_SIZE = 97"
definition RG40XXV_BT_ENCODED_NAME_SIZE :: nat where
  "RG40XXV_BT_ENCODED_NAME_SIZE = (RG40XXV_BT_NAME_SIZE - 1) * 3 + 1"

lemmas bt_limits = RG40XXV_BT_MAX_DEVICES_def RG40XXV_BT_OUTPUT_DEVICES_def RG40XXV_BT_ADDRESS_SIZE_def
  RG40XXV_BT_NAME_SIZE_def RG40XXV_BT_ENCODED_NAME_SIZE_def

datatype rg40xxv_bt_kind = RG40XXV_BT_UNKNOWN | RG40XXV_BT_CONTROLLER | RG40XXV_BT_AUDIO
  | RG40XXV_BT_KEYBOARD | RG40XXV_BT_MOUSE

record rg40xxv_bt_device =
  path :: string
  address :: string
  name :: string
  raw_name :: string
  raw_alias :: string
  icon :: string
  class_of_device :: u32
  rssi :: int
  paired :: bool
  trusted :: bool
  connected :: bool
  has_hid_uuid :: bool
  has_audio_uuid :: bool
  kind :: rg40xxv_bt_kind

record rg40xxv_bt_model =
  devices :: "rg40xxv_bt_device list"
  adapter_path :: string
  adapter_address :: string
  adapter_present :: bool
  powered :: bool
  discovering :: bool

section \<open>Addresses and names\<close>

fun prefix_case_insensitive :: "string \<Rightarrow> string \<Rightarrow> bool" where
  "prefix_case_insensitive text [] = True"
| "prefix_case_insensitive [] (n # needle) = False"
| "prefix_case_insensitive (c # text) (n # needle) =
    (tolower c = tolower n \<and> prefix_case_insensitive text needle)"

fun contains_case_insensitive :: "string \<Rightarrow> string \<Rightarrow> bool" where
  "contains_case_insensitive [] needle = (needle = [])"
| "contains_case_insensitive (c # text) needle =
    (if needle = [] then True
     else if prefix_case_insensitive (c # text) needle then True
     else contains_case_insensitive text needle)"

text \<open>The loop of \<open>rg40xxv_bt_normalize_mac\<close> from \<open>offset\<close> on.\<close>

fun mac_loop :: "nat \<Rightarrow> string \<Rightarrow> string option" where
  "mac_loop offset [] = Some []"
| "mac_loop offset (c # cs) =
    (if offset mod 3 = 2 then
       (if c \<noteq> CHR '':'' then None else map_option (Cons (CHR '':'')) (mac_loop (offset + 1) cs))
     else if \<not> isxdigit c then None
     else map_option (Cons (toupper c)) (mac_loop (offset + 1) cs))"

definition rg40xxv_bt_normalize_mac :: "string option \<Rightarrow> string option" where
  "rg40xxv_bt_normalize_mac input =
    (case input of None \<Rightarrow> None
     | Some t \<Rightarrow> if length t \<noteq> RG40XXV_BT_ADDRESS_SIZE - 1 then None else mac_loop 0 t)"

text \<open>The byte \<open>k\<close> places on; beyond the end it is the terminator.\<close>

definition byte_at :: "string \<Rightarrow> nat \<Rightarrow> nat" where
  "byte_at t k = (if k < length t then byte (t ! k) else 0)"

definition valid_utf8_sequence :: "string \<Rightarrow> nat" where
  "valid_utf8_sequence t =
    (let first = byte_at t 0;
         len = (if 0xC2 \<le> first \<and> first \<le> 0xDF then 2
                else if 0xE0 \<le> first \<and> first \<le> 0xEF then 3
                else if 0xF0 \<le> first \<and> first \<le> 0xF4 then 4 else 0)
     in if len = 0 then 0
        else if list_ex (\<lambda>k. byte_at t k = 0 \<or> byte_at t k AND 0xC0 \<noteq> 0x80) [1..<len] then 0
        else if (first = 0xE0 \<and> byte_at t 1 < 0xA0) \<or> (first = 0xED \<and> 0xA0 \<le> byte_at t 1) \<or>
                (first = 0xF0 \<and> byte_at t 1 < 0x90) \<or> (first = 0xF4 \<and> 0x90 \<le> byte_at t 1) then 0
        else len)"

lemma valid_utf8_sequence_le: "valid_utf8_sequence t \<le> 4"
  by (simp add: valid_utf8_sequence_def Let_def)

text \<open>The copying loop: bytes used so far and the input left.\<close>

function sanitize_loop :: "nat \<Rightarrow> string \<Rightarrow> string" where
  "sanitize_loop used [] = []"
| "sanitize_loop used (c # cs) =
    (if \<not> used + 1 < RG40XXV_BT_NAME_SIZE then []
     else if byte c < 0x80 then
       (if byte c < 0x20 \<or> byte c = 0x7F then CHR '' '' else c) # sanitize_loop (used + 1) cs
     else
       let sequence = valid_utf8_sequence (c # cs) in
       if sequence = 0 then CHR ''?'' # sanitize_loop (used + 1) cs
       else if RG40XXV_BT_NAME_SIZE \<le> used + sequence then []
       else take sequence (c # cs) @ sanitize_loop (used + sequence) (drop sequence (c # cs)))"
  by pat_completeness auto
termination by (relation "measure (\<lambda>(used, cursor). length cursor)") auto

definition trim_spaces :: "string \<Rightarrow> string" where
  "trim_spaces t = rev (dropWhile (\<lambda>c. c = CHR '' '') (rev t))"

definition rg40xxv_bt_sanitize_name :: "string option \<Rightarrow> string option \<Rightarrow> string" where
  "rg40xxv_bt_sanitize_name input fallback =
    (let out = trim_spaces (sanitize_loop 0 (case input of None \<Rightarrow> [] | Some t \<Rightarrow> t)) in
     if out = [] then
       snprintf_s RG40XXV_BT_NAME_SIZE
         (case fallback of None \<Rightarrow> ''Bluetooth device'' | Some f \<Rightarrow> if f = [] then ''Bluetooth device'' else f)
     else out)"

section \<open>Classification\<close>

definition rg40xxv_bt_classify :: "string \<Rightarrow> u32 \<Rightarrow> bool \<Rightarrow> bool \<Rightarrow> rg40xxv_bt_kind" where
  "rg40xxv_bt_classify icon_name cls hid audio =
    (let major = drop_bit 8 cls AND 0x1F; minor = drop_bit 2 cls AND 0x3F in
     if contains_case_insensitive icon_name ''keyboard'' then RG40XXV_BT_KEYBOARD
     else if contains_case_insensitive icon_name ''mouse'' then RG40XXV_BT_MOUSE
     else if contains_case_insensitive icon_name ''input-gaming'' \<or> contains_case_insensitive icon_name ''gamepad'' \<or>
             contains_case_insensitive icon_name ''joystick'' then RG40XXV_BT_CONTROLLER
     else if contains_case_insensitive icon_name ''audio'' \<or> contains_case_insensitive icon_name ''headset'' \<or>
             contains_case_insensitive icon_name ''headphone'' \<or> contains_case_insensitive icon_name ''speaker'' then RG40XXV_BT_AUDIO
     else if audio then RG40XXV_BT_AUDIO
     else if major = 5 then
       let combo = minor AND 0x30; subtype = minor AND 0x0F in
       if subtype = 1 \<or> subtype = 2 then RG40XXV_BT_CONTROLLER
       else if combo = 0x10 then RG40XXV_BT_KEYBOARD
       else if combo = 0x20 then RG40XXV_BT_MOUSE
       else RG40XXV_BT_CONTROLLER
     else if hid then RG40XXV_BT_CONTROLLER
     else if major = 4 then RG40XXV_BT_AUDIO
     else RG40XXV_BT_UNKNOWN)"

fun rg40xxv_bt_kind_name :: "rg40xxv_bt_kind \<Rightarrow> string" where
  "rg40xxv_bt_kind_name RG40XXV_BT_CONTROLLER = ''controller''"
| "rg40xxv_bt_kind_name RG40XXV_BT_AUDIO = ''audio''"
| "rg40xxv_bt_kind_name RG40XXV_BT_KEYBOARD = ''keyboard''"
| "rg40xxv_bt_kind_name RG40XXV_BT_MOUSE = ''mouse''"
| "rg40xxv_bt_kind_name RG40XXV_BT_UNKNOWN = ''unknown''"

section \<open>The snapshot\<close>

definition bt_plain :: "char \<Rightarrow> bool" where
  "bt_plain c \<longleftrightarrow> isalnum c \<or> c = CHR ''-'' \<or> c = CHR ''_'' \<or> c = CHR ''.'' \<or> c = CHR ''~''"

fun bt_encode_loop :: "nat \<Rightarrow> nat \<Rightarrow> string \<Rightarrow> bt_errno + string" where
  "bt_encode_loop output_size used [] = Inr []"
| "bt_encode_loop output_size used (c # cs) =
    (let needed = (if bt_plain c then 1 else 3) in
     if output_size \<le> used + needed then Inl ENOSPC
     else case bt_encode_loop output_size (used + needed) cs of
         Inl e \<Rightarrow> Inl e
       | Inr out \<Rightarrow> Inr ((if bt_plain c then [c] else escape_byte c) @ out))"

definition rg40xxv_bt_percent_encode :: "string option \<Rightarrow> nat \<Rightarrow> bt_errno + string" where
  "rg40xxv_bt_percent_encode input output_size =
    (case input of None \<Rightarrow> Inl EINVAL
     | Some t \<Rightarrow> if output_size = 0 then Inl EINVAL else bt_encode_loop output_size 0 t)"

definition compare_devices :: "rg40xxv_bt_device \<Rightarrow> rg40xxv_bt_device \<Rightarrow> int" where
  "compare_devices l r =
    (if connected l \<noteq> connected r then (if connected l then - 1 else 1)
     else if paired l \<noteq> paired r then (if paired l then - 1 else 1)
     else if rssi l \<noteq> rssi r then (if rssi r < rssi l then - 1 else 1)
     else if strcmp (name l) (name r) \<noteq> 0 then strcmp (name l) (name r)
     else strcmp (address l) (address r))"

type_synonym bt_qsort = "(rg40xxv_bt_device \<Rightarrow> rg40xxv_bt_device \<Rightarrow> int) \<Rightarrow> rg40xxv_bt_device list \<Rightarrow> rg40xxv_bt_device list"

definition rg40xxv_bt_sort :: "bt_qsort \<Rightarrow> rg40xxv_bt_model \<Rightarrow> rg40xxv_bt_model" where
  "rg40xxv_bt_sort qsort m = m\<lparr>devices := qsort compare_devices (devices m)\<rparr>"

definition print_bool :: "bool \<Rightarrow> string" where
  "print_bool b = (if b then ''1'' else ''0'')"

definition bt_rssi_field :: "int \<Rightarrow> int" where
  "bt_rssi_field r = (if (- 127 \<le> r \<and> r \<le> 20) \<or> r = 127 then r else 127)"

definition bt_device_line :: "string \<Rightarrow> string \<Rightarrow> rg40xxv_bt_device \<Rightarrow> string" where
  "bt_device_line normalized encoded d =
    [CHR ''D'', TAB] @ normalized @ [TAB] @ encoded @ [TAB] @ rg40xxv_bt_kind_name (kind d) @ [TAB] @
    print_bool (paired d) @ [TAB] @ print_bool (trusted d) @ [TAB] @ print_bool (connected d) @ [TAB] @
    print_int (bt_rssi_field (rssi d))"

text \<open>
  The loop over devices: the number of the next output call, the lines still
  allowed, the devices left; the text written and the status.
\<close>

fun write_devices :: "(nat \<Rightarrow> bool) \<Rightarrow> nat \<Rightarrow> nat \<Rightarrow> rg40xxv_bt_device list \<Rightarrow> string \<times> bt_errno option" where
  "write_devices io k room [] = ([], if io k then None else Some EIO)"
| "write_devices io k room (d # ds) =
    (if room = 0 then ([], if io k then None else Some EIO)
     else case rg40xxv_bt_normalize_mac (Some (address d)) of
         None \<Rightarrow> write_devices io k room ds
       | Some normalized \<Rightarrow>
         (case rg40xxv_bt_percent_encode (Some (name d)) RG40XXV_BT_ENCODED_NAME_SIZE of
            Inl _ \<Rightarrow> ([], Some EOVERFLOW)
          | Inr encoded \<Rightarrow>
            if \<not> io k then ([], Some EIO)
            else let (out, r) = write_devices io (k + 1) (room - 1) ds
                 in (bt_device_line normalized encoded d @ LF # out, r)))"

definition snapshot_header :: string where
  "snapshot_header = ''RG40XXV_BLUETOOTH_SNAPSHOT'' @ [TAB, CHR ''2'']"

definition bt_adapter_line :: "rg40xxv_bt_model \<Rightarrow> string \<Rightarrow> string" where
  "bt_adapter_line m addr = [CHR ''A'', TAB] @ print_bool (adapter_present m) @ [TAB] @
     print_bool (adapter_present m \<and> powered m) @ [TAB] @
     print_bool (adapter_present m \<and> powered m \<and> discovering m) @ [TAB] @ addr"

definition rg40xxv_bt_write_snapshot :: "(nat \<Rightarrow> bool) \<Rightarrow> rg40xxv_bt_model \<Rightarrow> string \<times> bt_errno option" where
  "rg40xxv_bt_write_snapshot io m =
    (let mac = (if adapter_present m then rg40xxv_bt_normalize_mac (Some (adapter_address m)) else Some ''-'') in
     case mac of
       None \<Rightarrow> ([], Some EPROTO)
     | Some addr \<Rightarrow>
       if adapter_present m \<and> addr = ''00:00:00:00:00:00'' then ([], Some EPROTO)
       else if \<not> io 0 then ([], Some EIO)
       else
         let head = snapshot_header @ LF # bt_adapter_line m addr @ [LF] in
         if \<not> adapter_present m then (head, if io 1 then None else Some EIO)
         else let (out, r) = write_devices io 1 RG40XXV_BT_OUTPUT_DEVICES (devices m) in (head @ out, r))"

section \<open>From BlueZ objects to the model\<close>

definition device_belongs_to_adapter :: "string \<Rightarrow> string \<Rightarrow> bool" where
  "device_belongs_to_adapter adapter p \<longleftrightarrow>
     0 < length adapter \<and> take (length adapter) p = adapter \<and> byte_at p (length adapter) = byte (CHR ''/'')"

definition address_already_present :: "rg40xxv_bt_device list \<Rightarrow> string \<Rightarrow> bool" where
  "address_already_present ds addr = list_ex (\<lambda>d. strcmp (address d) addr = 0) ds"

fun finalize_devices :: "string \<Rightarrow> rg40xxv_bt_device list \<Rightarrow> rg40xxv_bt_device list \<Rightarrow> rg40xxv_bt_device list" where
  "finalize_devices adapter kept [] = kept"
| "finalize_devices adapter kept (d # ds) =
    (if \<not> device_belongs_to_adapter adapter (path d) then finalize_devices adapter kept ds
     else case rg40xxv_bt_normalize_mac (Some (address d)) of
         None \<Rightarrow> finalize_devices adapter kept ds
       | Some normalized \<Rightarrow>
         if address_already_present kept normalized then finalize_devices adapter kept ds
         else
           let display = (if raw_alias d \<noteq> [] then raw_alias d else raw_name d) in
           finalize_devices adapter
             (kept @ [d\<lparr>address := normalized,
                name := rg40xxv_bt_sanitize_name (Some display) (Some normalized),
                kind := rg40xxv_bt_classify (icon d) (class_of_device d) (has_hid_uuid d) (has_audio_uuid d)\<rparr>]) ds)"

definition finalize_model :: "bt_qsort \<Rightarrow> rg40xxv_bt_model \<Rightarrow> rg40xxv_bt_model" where
  "finalize_model qsort m =
    (if \<not> adapter_present m then m\<lparr>devices := []\<rparr>
     else rg40xxv_bt_sort qsort (m\<lparr>devices := finalize_devices (adapter_path m) [] (devices m)\<rparr>))"

definition find_device :: "rg40xxv_bt_model \<Rightarrow> string \<Rightarrow> rg40xxv_bt_device option" where
  "find_device m addr = List.find (\<lambda>d. strcmp (address d) addr = 0) (devices m)"

section \<open>Names\<close>

lemma byte_at_simps [simp]:
  "byte_at [] k = 0" "byte_at (c # cs) 0 = byte c" "byte_at (c # cs) (Suc k) = byte_at cs k"
  by (simp_all add: byte_at_def)

lemma valid_utf8_sequence_next:
  assumes "0x80 \<le> byte c" "valid_utf8_sequence (c # p) = n" "n \<noteq> 0"
  shows "\<exists>cp. utf8_next (c # p) = Some (cp, drop n (c # p))"
proof -
  have r: "[Suc 0..<2] = [Suc 0]" "[Suc 0..<3] = [Suc 0, Suc (Suc 0)]"
    "[Suc 0..<4] = [Suc 0, Suc (Suc 0), Suc (Suc (Suc 0))]"
    by (simp_all add: upt_rec)
  consider "p = []" | d where "p = [d]" | d e where "p = [d, e]" | d e f q where "p = d # e # f # q"
    by (metis list.exhaust)
  then show ?thesis
    by cases (use assms in \<open>auto simp: valid_utf8_sequence_def Let_def utf8_next_def utf8_cont_def r split: if_splits\<close>)
qed

text \<open>
  Text as the shell accepts it in a device name: well-formed UTF-8 without the
  C0 controls and DEL.
\<close>

definition bt_text :: "string \<Rightarrow> bool" where
  "bt_text t \<longleftrightarrow> (\<exists>cps. t = utf8_encodes cps \<and> list_all (\<lambda>cp. utf8_scalar cp \<and> 0x20 \<le> cp \<and> cp \<noteq> 0x7F) cps)"

lemma bt_text_Nil [simp]: "bt_text []"
  unfolding bt_text_def by (intro exI [of _ "[]"]) simp

lemma bt_text_append: "bt_text s \<Longrightarrow> bt_text t \<Longrightarrow> bt_text (s @ t)"
proof -
  assume "bt_text s" "bt_text t"
  then obtain xs ys where "s = utf8_encodes xs" "list_all (\<lambda>cp. utf8_scalar cp \<and> 0x20 \<le> cp \<and> cp \<noteq> 0x7F) xs"
    "t = utf8_encodes ys" "list_all (\<lambda>cp. utf8_scalar cp \<and> 0x20 \<le> cp \<and> cp \<noteq> 0x7F) ys"
    unfolding bt_text_def by blast
  then show ?thesis unfolding bt_text_def by (intro exI [of _ "xs @ ys"]) simp
qed

lemma bt_text_encode: "utf8_scalar cp \<Longrightarrow> 0x20 \<le> cp \<Longrightarrow> cp \<noteq> 0x7F \<Longrightarrow> bt_text (utf8_encode cp)"
  unfolding bt_text_def by (intro exI [of _ "[cp]"]) simp

lemma bt_text_ascii:
  assumes "0x20 \<le> byte c" "byte c < 0x7F"
  shows "bt_text (c # t) \<longleftrightarrow> bt_text t"
proof
  have e: "utf8_encode (byte c) = [c]" "utf8_scalar (byte c)" using assms by (simp_all add: utf8_encode_def utf8_scalar_def)
  show "bt_text t \<Longrightarrow> bt_text (c # t)"
    using bt_text_append [OF bt_text_encode [OF e(2)], of t] e(1) assms by simp
  assume "bt_text (c # t)"
  then obtain cps where cps: "c # t = utf8_encodes cps" "list_all (\<lambda>cp. utf8_scalar cp \<and> 0x20 \<le> cp \<and> cp \<noteq> 0x7F) cps"
    by (auto simp: bt_text_def)
  then obtain cp rest where r: "cps = cp # rest" by (cases cps) auto
  from cps r have "utf8_next (c # t) = Some (cp, utf8_encodes rest)" by (simp add: utf8_next_encode)
  with assms have "t = utf8_encodes rest" by (simp add: utf8_next_def)
  with cps r show "bt_text t" by (auto simp: bt_text_def)
qed

lemma sanitize_loop_text:
  "used < 97 \<Longrightarrow> bt_text (sanitize_loop used t) \<and> used + length (sanitize_loop used t) < 97"
proof (induction used t rule: sanitize_loop.induct)
  case (2 used c cs)
  consider "\<not> used + 1 < 97" | "used + 1 < 97" "byte c < 0x80"
    | "used + 1 < 97" "0x80 \<le> byte c" "valid_utf8_sequence (c # cs) = 0"
    | n where "used + 1 < 97" "0x80 \<le> byte c" "valid_utf8_sequence (c # cs) = n" "n \<noteq> 0" by fastforce
  then show ?case
  proof cases
    case 1
    then show ?thesis using "2.prems" by (simp add: bt_limits)
  next
    case 2
    have "bt_text (sanitize_loop (used + 1) cs) \<and> used + 1 + length (sanitize_loop (used + 1) cs) < 97"
      using 2 "2.IH"(1) by (simp add: bt_limits)
    moreover have "byte (if byte c < 0x20 \<or> byte c = 0x7F then CHR '' '' else c) < 0x7F"
      "0x20 \<le> byte (if byte c < 0x20 \<or> byte c = 0x7F then CHR '' '' else c)" using 2 by auto
    ultimately show ?thesis using 2 by (simp add: bt_limits bt_text_ascii)
  next
    case 3
    have "bt_text (sanitize_loop (used + 1) cs) \<and> used + 1 + length (sanitize_loop (used + 1) cs) < 97"
      using 3 "2.IH"(2) by (simp add: bt_limits)
    then show ?thesis using 3 by (simp add: bt_limits bt_text_ascii)
  next
    case (4 n)
    obtain cp where cp: "utf8_next (c # cs) = Some (cp, drop n (c # cs))"
      using valid_utf8_sequence_next [OF 4(2,3,4)] by blast
    note s = utf8_next_sound [OF cp]
    then have tk: "take n (c # cs) = utf8_encode cp" by (metis append_eq_append_conv append_take_drop_id)
    have "0x80 \<le> cp"
    proof (rule ccontr)
      assume "\<not> 0x80 \<le> cp"
      then have "utf8_encode cp = [char_of cp]" by (simp add: utf8_encode_def)
      with s 4(2) \<open>\<not> 0x80 \<le> cp\<close> show False by simp
    qed
    then have t: "bt_text (take n (c # cs))" unfolding tk using s by (intro bt_text_encode) auto
    show ?thesis
    proof (cases "97 \<le> used + n")
      case True
      with 4 "2.prems" show ?thesis by (simp add: bt_limits)
    next
      case False
      then have "bt_text (sanitize_loop (used + n) (drop n (c # cs))) \<and>
        used + n + length (sanitize_loop (used + n) (drop n (c # cs))) < 97"
        using 4 "2.IH"(3) by (simp add: bt_limits)
      moreover have "min (Suc (length cs)) n \<le> n" by simp
      ultimately show ?thesis using False 4 bt_text_append [OF t]
        by (simp add: bt_limits Let_def del: min_le_iff_disj) linarith
    qed
  qed
qed simp

lemma last_utf8_encode: "0x80 \<le> cp \<Longrightarrow> 0x80 \<le> byte (last (utf8_encode cp))"
  by (simp add: utf8_encode_def)

lemma bt_text_snoc_space: "bt_text (t @ [CHR '' '']) \<Longrightarrow> bt_text t"
proof -
  assume "bt_text (t @ [CHR '' ''])"
  then obtain cps where cps: "t @ [CHR '' ''] = utf8_encodes cps"
    "list_all (\<lambda>cp. utf8_scalar cp \<and> 0x20 \<le> cp \<and> cp \<noteq> 0x7F) cps" unfolding bt_text_def by blast
  then obtain xs cp where x: "cps = xs @ [cp]" by (cases cps rule: rev_cases) auto
  have "last (utf8_encode cp) = CHR '' ''"
    using cps(1) x by (metis append_Nil2 last_appendR last_snoc utf8_encode_nonempty utf8_encodes_simps)
  then have "cp < 0x80" using last_utf8_encode [of cp] by (cases "cp < 0x80") auto
  then have "t = utf8_encodes xs" using cps(1) x by (simp add: utf8_encode_def)
  with cps(2) x show ?thesis unfolding bt_text_def by auto
qed

lemma trim_spaces_snoc: "trim_spaces (t @ [c]) = (if c = CHR '' '' then trim_spaces t else t @ [c])"
  by (simp add: trim_spaces_def)

lemma trim_spaces_text: "bt_text t \<Longrightarrow> bt_text (trim_spaces t) \<and> length (trim_spaces t) \<le> length t"
proof (induction t rule: rev_induct)
  case (snoc c t)
  then show ?case using bt_text_snoc_space [of t] by (auto simp: trim_spaces_snoc)
qed (simp add: trim_spaces_def)

lemma sanitize_name_ok:
  assumes "f \<noteq> []" "bt_text f" "length f < 97"
  shows "rg40xxv_bt_sanitize_name input (Some f) \<noteq> [] \<and> bt_text (rg40xxv_bt_sanitize_name input (Some f)) \<and>
    length (rg40xxv_bt_sanitize_name input (Some f)) < 97"
proof -
  let ?out = "sanitize_loop 0 (case input of None \<Rightarrow> [] | Some t \<Rightarrow> t)"
  have "bt_text ?out" "length ?out < 97" using sanitize_loop_text [of 0] by auto
  with trim_spaces_text [of ?out] assms show ?thesis
    by (auto simp: rg40xxv_bt_sanitize_name_def Let_def snprintf_s_def bt_limits)
qed

section \<open>Addresses\<close>

lemma mac_loop_result:
  "mac_loop k t = Some u \<Longrightarrow> length u = length t \<and> mac_loop k u = Some u \<and>
     list_all (\<lambda>c. c = CHR '':'' \<or> (isxdigit c \<and> \<not> islower c)) u"
proof (induction k t arbitrary: u rule: mac_loop.induct)
  case (2 k c cs)
  then show ?case by (auto split: if_splits)
qed simp

lemma mac_char: "isxdigit c \<Longrightarrow> 0x30 \<le> byte c \<and> byte c < 0x7F"
  by (auto simp: byte_simps)

lemma mac_loop_upper: "mac_loop k t = Some u \<Longrightarrow> \<forall>c \<in> set t. c = CHR '':'' \<or> isxdigit c"
  by (induction k t arbitrary: u rule: mac_loop.induct) (auto split: if_splits)

lemma normalize_mac_result:
  assumes "rg40xxv_bt_normalize_mac (Some t) = Some u"
  shows "length u = 17" "rg40xxv_bt_normalize_mac (Some u) = Some u"
    "list_all (\<lambda>c. 0x30 \<le> byte c \<and> byte c < 0x7F) u"
proof -
  from assms have l: "length t = 17" "mac_loop 0 t = Some u"
    by (auto simp: rg40xxv_bt_normalize_mac_def bt_limits split: if_splits)
  note m = mac_loop_result [OF l(2)]
  with l show "length u = 17" "rg40xxv_bt_normalize_mac (Some u) = Some u"
    by (simp_all add: rg40xxv_bt_normalize_mac_def bt_limits)
  from m show "list_all (\<lambda>c. 0x30 \<le> byte c \<and> byte c < 0x7F) u"
    by (auto elim!: list.pred_mono_strong dest: mac_char)
qed

lemma bt_text_ascii_list: "list_all (\<lambda>c. 0x20 \<le> byte c \<and> byte c < 0x7F) t \<Longrightarrow> bt_text t"
  by (induction t) (auto simp: bt_text_ascii)

section \<open>Percent encoding\<close>

lemma bt_plain_unreserved: "bt_plain c = unreserved c"
  by (auto simp: bt_plain_def unreserved_def byte_simps)

lemma bt_encode_loop_eq:
  "used < n \<Longrightarrow> bt_encode_loop n used t =
    (if used + length (encode_text t) < n then Inr (encode_text t) else Inl ENOSPC)"
proof (induction n used t rule: bt_encode_loop.induct)
  case (2 n used c cs)
  let ?k = "if bt_plain c then 1 else 3"
  have k: "length (if unreserved c then [c] else escape_byte c) = ?k"
    by (simp add: bt_plain_unreserved escape_byte_def)
  show ?case
  proof (cases "n \<le> used + ?k")
    case True
    then show ?thesis using k by (auto simp: Let_def)
  next
    case False
    with "2.IH" [OF refl False] have
      "bt_encode_loop n (used + ?k) cs = (if used + ?k + length (encode_text cs) < n then Inr (encode_text cs) else Inl ENOSPC)"
      by simp
    with False k show ?thesis
      by (auto simp: Let_def bt_plain_unreserved add.assoc split: if_splits)
  qed
qed simp

lemma bt_encode_name: "length t < 97 \<Longrightarrow> rg40xxv_bt_percent_encode (Some t) RG40XXV_BT_ENCODED_NAME_SIZE = Inr (encode_text t)"
  using length_encode_text [of t] by (simp add: rg40xxv_bt_percent_encode_def bt_limits bt_encode_loop_eq)

section \<open>The order of devices\<close>

text \<open>The key the comparison stands for, in lexicographic order.\<close>

definition device_key :: "rg40xxv_bt_device \<Rightarrow> bool \<times> bool \<times> int \<times> nat list \<times> nat list" where
  "device_key d = (\<not> connected d, \<not> paired d, - rssi d, map byte (name d), map byte (address d))"

lemma compare_devices_key:
  "compare_devices l r = (if device_key l < device_key r then - 1 else if device_key l = device_key r then 0 else 1)"
  by (auto simp: compare_devices_def device_key_def strcmp_lex map_byte_eq less_prod_def')

lemma compare_devices_le: "compare_devices l r \<le> 0 \<longleftrightarrow> device_key l \<le> device_key r"
  by (auto simp: compare_devices_key)

lemma comparison_devices: "comparison compare_devices"
  by (rule comparison_key) (rule compare_devices_key)

lemma qsort_devices:
  assumes "qsort_ok qsort"
  shows "mset (qsort compare_devices ds) = mset ds" "sorted (map device_key (qsort compare_devices ds))"
  using qsort_key [OF assms compare_devices_key] by simp_all

section \<open>The finished model\<close>

text \<open>What the shell needs of every device, and of the list.\<close>

definition device_wire_ok :: "rg40xxv_bt_device \<Rightarrow> bool" where
  "device_wire_ok d \<longleftrightarrow> rg40xxv_bt_normalize_mac (Some (address d)) = Some (address d) \<and>
     name d \<noteq> [] \<and> bt_text (name d) \<and> length (name d) < 97"

definition devices_wire_ok :: "rg40xxv_bt_device list \<Rightarrow> bool" where
  "devices_wire_ok ds \<longleftrightarrow> list_all device_wire_ok ds \<and> distinct (map address ds)"

lemma finalize_device_ok:
  assumes "rg40xxv_bt_normalize_mac (Some (address d)) = Some a"
  shows "device_wire_ok (d\<lparr>address := a, name := rg40xxv_bt_sanitize_name input (Some a), kind := k\<rparr>)"
proof -
  note a = normalize_mac_result [OF assms]
  have "list_all (\<lambda>c. 0x20 \<le> byte c \<and> byte c < 0x7F) a"
    using a(3) by (rule list.pred_mono_strong) simp
  moreover have "a \<noteq> []" using a(1) by auto
  ultimately show ?thesis
    using a sanitize_name_ok [of a input] by (simp add: device_wire_ok_def bt_text_ascii_list)
qed

lemma finalize_devices_ok:
  "devices_wire_ok kept \<Longrightarrow> devices_wire_ok (finalize_devices adapter kept ds)"
proof (induction adapter kept ds rule: finalize_devices.induct)
  case (2 adapter kept d ds)
  show ?case
  proof (cases "rg40xxv_bt_normalize_mac (Some (address d))")
    case None
    with 2 show ?thesis by simp
  next
    case (Some a)
    let ?d = "d\<lparr>address := a,
      name := rg40xxv_bt_sanitize_name (Some (if raw_alias d \<noteq> [] then raw_alias d else raw_name d)) (Some a),
      kind := rg40xxv_bt_classify (icon d) (class_of_device d) (has_hid_uuid d) (has_audio_uuid d)\<rparr>"
    have "\<not> address_already_present kept a \<Longrightarrow> devices_wire_ok (kept @ [?d])"
      using "2.prems" finalize_device_ok [OF Some]
      by (auto simp: devices_wire_ok_def address_already_present_def list_ex_iff)
    with 2 Some show ?thesis by (auto simp: Let_def)
  qed
qed simp

lemma finalize_model_ok:
  assumes "qsort_ok qsort"
  shows "devices_wire_ok (devices (finalize_model qsort m))"
proof (cases "adapter_present m")
  case True
  let ?ds = "finalize_devices (adapter_path m) [] (devices m)"
  have "devices_wire_ok ?ds" by (rule finalize_devices_ok) (simp add: devices_wire_ok_def)
  moreover note q = qsort_devices(1) [OF assms, of ?ds]
  then have "mset (map address (qsort compare_devices ?ds)) = mset (map address ?ds)" by simp
  then have "distinct (map address (qsort compare_devices ?ds)) = distinct (map address ?ds)"
    by (metis mset_eq_imp_distinct_iff)
  moreover have "set (qsort compare_devices ?ds) = set ?ds" using q by (metis set_mset_mset)
  ultimately show ?thesis
    using True by (simp add: finalize_model_def rg40xxv_bt_sort_def devices_wire_ok_def list_all_iff)
qed (simp add: finalize_model_def devices_wire_ok_def)

section \<open>Properties\<close>

text \<open>
  C27: the comparison of devices is a total preorder, the lexicographic order of
  connected, paired, signal, name and address, so sorting is well defined and
  gives a permutation of the devices in that order.
\<close>

theorem bt_sort_correct:
  assumes "qsort_ok qsort"
  shows "comparison compare_devices \<and> mset (devices (rg40xxv_bt_sort qsort m)) = mset (devices m) \<and>
    sorted (map device_key (devices (rg40xxv_bt_sort qsort m)))"
  using qsort_devices [OF assms] comparison_devices by (simp add: rg40xxv_bt_sort_def)

definition sample_device :: rg40xxv_bt_device where
  "sample_device = \<lparr>path = ''/a/b'', address = ''aa:bb:cc:dd:ee:ff'', name = [], raw_name = ''Pad'', raw_alias = [],
     icon = ''input-gaming'', class_of_device = 0, rssi = - 40, paired = False, trusted = False, connected = False,
     has_hid_uuid = True, has_audio_uuid = False, kind = RG40XXV_BT_UNKNOWN\<rparr>"

definition sample_model :: rg40xxv_bt_model where
  "sample_model = \<lparr>devices = [sample_device, sample_device\<lparr>connected := True\<rparr>], adapter_path = ''/a'',
     adapter_address = ''00:11:22:33:44:55'', adapter_present = True, powered = True, discovering = False\<rparr>"

theorem bt_sort_correct_witness:
  "mset (devices (rg40xxv_bt_sort insertion_sort sample_model)) = mset (devices sample_model) \<and>
   sorted (map device_key (devices (rg40xxv_bt_sort insertion_sort sample_model)))"
  using bt_sort_correct [OF insertion_sort_ok] by blast

text \<open>
  A device whose signal strength is unknown is given 127 by the parser of the
  BlueZ properties, and sorts before every device of the same state with a known one.
\<close>

lemma unknown_rssi_sorts_first:
  "connected a = connected b \<Longrightarrow> paired a = paired b \<Longrightarrow> rssi a = 127 \<Longrightarrow> rssi b \<le> 20 \<Longrightarrow> compare_devices a b = - 1"
  by (simp add: compare_devices_def)

end
