(* ===== verification/Bluetooth_Snapshot.thy ===== *)
theory Bluetooth_Snapshot
  imports Bluetooth_Model Lines "HOL-Library.Monad_Syntax"
begin

text \<open>
  The shell's reader of the Bluetooth helper's output
  (\<^verbatim>\<open>components/rg40xxv-shell/src/bluetooth_backend.c\<close>): addresses, names,
  fields and the whole snapshot. Together with the helper's writer this gives
  the protocol between the two programs: whatever BlueZ reports, the text the
  helper prints is accepted and means the devices it was printed from.
\<close>

section \<open>Data\<close>

definition BLUETOOTH_BACKEND_MAX_DEVICES :: nat where "BLUETOOTH_BACKEND_MAX_DEVICES = 16"
definition BLUETOOTH_BACKEND_ADDRESS_SIZE :: nat where "BLUETOOTH_BACKEND_ADDRESS_SIZE = 18"
definition BLUETOOTH_BACKEND_NAME_SIZE :: nat where "BLUETOOTH_BACKEND_NAME_SIZE = 97"

lemmas backend_limits = BLUETOOTH_BACKEND_MAX_DEVICES_def BLUETOOTH_BACKEND_ADDRESS_SIZE_def
  BLUETOOTH_BACKEND_NAME_SIZE_def

datatype bluetooth_backend_gate = BLUETOOTH_GATE_PENDING | BLUETOOTH_GATE_ADMITTED | BLUETOOTH_GATE_REJECTED
datatype bluetooth_backend_phase = BLUETOOTH_PHASE_STOPPED | BLUETOOTH_PHASE_PENDING | BLUETOOTH_PHASE_LOADING
  | BLUETOOTH_PHASE_READY | BLUETOOTH_PHASE_WORKING | BLUETOOTH_PHASE_ERROR
datatype bluetooth_backend_action = BLUETOOTH_ACTION_NONE | BLUETOOTH_ACTION_STATUS | BLUETOOTH_ACTION_SCAN
  | BLUETOOTH_ACTION_POWER | BLUETOOTH_ACTION_PAIR | BLUETOOTH_ACTION_CONNECT | BLUETOOTH_ACTION_DISCONNECT
  | BLUETOOTH_ACTION_FORGET
datatype bluetooth_device_kind = BLUETOOTH_DEVICE_UNKNOWN | BLUETOOTH_DEVICE_CONTROLLER | BLUETOOTH_DEVICE_AUDIO
  | BLUETOOTH_DEVICE_KEYBOARD | BLUETOOTH_DEVICE_MOUSE

record bluetooth_device_snapshot =
  s_address :: string
  s_name :: string
  s_kind :: bluetooth_device_kind
  s_rssi :: int
  s_paired :: bool
  s_trusted :: bool
  s_connected :: bool

text \<open>An error of 0 is \<open>None\<close>; the device array is the list of its used entries.\<close>

record bluetooth_backend_snapshot =
  s_devices :: "bluetooth_device_snapshot list"
  generation :: u64
  active_request_id :: u64
  completed_request_id :: u64
  gate :: bluetooth_backend_gate
  phase :: bluetooth_backend_phase
  last_action :: bluetooth_backend_action
  last_error :: "bt_errno option"
  helper_exit_code :: int
  helper_term_signal :: int
  s_adapter_address :: string
  s_adapter_present :: bool
  s_powered :: bool
  s_discovering :: bool

definition snapshot_init :: "bluetooth_backend_gate \<Rightarrow> bluetooth_backend_phase \<Rightarrow> bluetooth_backend_snapshot" where
  "snapshot_init g p = \<lparr>s_devices = [], generation = 0, active_request_id = 0, completed_request_id = 0,
     gate = g, phase = p, last_action = BLUETOOTH_ACTION_NONE, last_error = None, helper_exit_code = - 1,
     helper_term_signal = 0, s_adapter_address = [], s_adapter_present = False, s_powered = False,
     s_discovering = False\<rparr>"

section \<open>Fields\<close>

fun normalize_mac_loop :: "nat \<Rightarrow> string \<Rightarrow> string option" where
  "normalize_mac_loop i [] = Some []"
| "normalize_mac_loop i (c # cs) =
    (if i mod 3 = 2 then
       (if c \<noteq> CHR '':'' then None else map_option (Cons (CHR '':'')) (normalize_mac_loop (i + 1) cs))
     else if \<not> isxdigit c then None
     else map_option (Cons (toupper c)) (normalize_mac_loop (i + 1) cs))"

definition normalize_mac :: "string option \<Rightarrow> string option" where
  "normalize_mac input =
    (case input of None \<Rightarrow> None
     | Some t \<Rightarrow> if length t \<noteq> BLUETOOTH_BACKEND_ADDRESS_SIZE - 1 then None else normalize_mac_loop 0 t)"

text \<open>The continuation bytes still expected, the code point so far and the text left.\<close>

fun utf8_continuations :: "nat \<Rightarrow> nat \<Rightarrow> string \<Rightarrow> (nat \<times> string) option" where
  "utf8_continuations 0 cp t = Some (cp, t)"
| "utf8_continuations (Suc n) cp [] = None"
| "utf8_continuations (Suc n) cp (c # cs) =
    (if byte c AND 0xC0 \<noteq> 0x80 then None
     else utf8_continuations n (push_bit 6 cp OR (byte c AND 0x3F)) cs)"

lemma utf8_continuations_length: "utf8_continuations n cp t = Some (cp1, r) \<Longrightarrow> length t = n + length r"
  by (induction n cp t rule: utf8_continuations.induct) (auto split: if_splits)

definition utf8_multibyte :: "char \<Rightarrow> string \<Rightarrow> (nat \<times> string) option" where
  "utf8_multibyte c cs =
    (let first = byte c;
         lead = (if 0xC2 \<le> first \<and> first \<le> 0xDF then Some (first AND 0x1F, 1)
                 else if 0xE0 \<le> first \<and> first \<le> 0xEF then Some (first AND 0x0F, 2)
                 else if 0xF0 \<le> first \<and> first \<le> 0xF4 then Some (first AND 0x07, 3) else None)
     in case lead of None \<Rightarrow> None
       | Some (cp0, extra) \<Rightarrow>
         (case utf8_continuations extra cp0 cs of
            None \<Rightarrow> None
          | Some (cp, r) \<Rightarrow>
            if (extra = 2 \<and> cp < 0x800) \<or> (extra = 3 \<and> cp < 0x10000) \<or> (0xD800 \<le> cp \<and> cp \<le> 0xDFFF) \<or> 0x10FFFF < cp
            then None else Some (cp, r)))"

lemma utf8_multibyte_length: "utf8_multibyte c cs = Some (cp, r) \<Longrightarrow> length r < Suc (length cs)"
  by (auto simp: utf8_multibyte_def Let_def split: if_splits option.splits prod.splits
      dest!: utf8_continuations_length)

function utf8_text_valid :: "string \<Rightarrow> bool" where
  "utf8_text_valid [] = True"
| "utf8_text_valid (c # cs) =
    (if byte c < 0x80 then
       (if byte c < 0x20 \<or> byte c = 0x7F then False else utf8_text_valid cs)
     else case utf8_multibyte c cs of
         None \<Rightarrow> False
       | Some (cp, r) \<Rightarrow> utf8_text_valid r)"
  by pat_completeness auto
termination by (relation "measure length") (auto dest: utf8_multibyte_length)

definition bt_hex_value :: "char \<Rightarrow> nat option" where
  "bt_hex_value c =
    (if 48 \<le> byte c \<and> byte c \<le> 57 then Some (byte c - 48)
     else if 97 \<le> byte c \<and> byte c \<le> 102 then Some (byte c - 97 + 10)
     else if 65 \<le> byte c \<and> byte c \<le> 70 then Some (byte c - 65 + 10) else None)"

text \<open>The decoding loop, with the bytes written so far.\<close>

fun decode_name_loop :: "nat \<Rightarrow> string \<Rightarrow> string option" where
  "decode_name_loop out [] = Some []"
| "decode_name_loop out (c # cs) =
    (if c = CHR ''%'' then
       (case cs of h # l # rest \<Rightarrow>
          (case (bt_hex_value h, bt_hex_value l) of
             (Some high, Some low) \<Rightarrow>
               if BLUETOOTH_BACKEND_NAME_SIZE \<le> out + 1 then None
               else map_option (Cons (char_of (push_bit 4 high OR low))) (decode_name_loop (out + 1) rest)
           | _ \<Rightarrow> None)
        | _ \<Rightarrow> None)
     else if BLUETOOTH_BACKEND_NAME_SIZE \<le> out + 1 then None
     else map_option (Cons c) (decode_name_loop (out + 1) cs))"

definition decode_name :: "string \<Rightarrow> string option" where
  "decode_name encoded =
    (if length encoded = 0 \<or> (BLUETOOTH_BACKEND_NAME_SIZE - 1) * 3 < length encoded then None
     else case decode_name_loop 0 encoded of
         None \<Rightarrow> None
       | Some out \<Rightarrow> if length out = 0 \<or> \<not> utf8_text_valid out then None else Some out)"

definition bt_split_fields :: "string \<Rightarrow> nat \<Rightarrow> string list option" where
  "bt_split_fields line capacity =
    (let fs = split_on TAB line in if capacity < length fs then None else Some fs)"

definition bt_parse_bool :: "string \<Rightarrow> bool option" where
  "bt_parse_bool t = (if t = ''0'' then Some False else if t = ''1'' then Some True else None)"

definition parse_rssi :: "string \<Rightarrow> int option" where
  "parse_rssi t =
    (let (parsed, err, rest) = strtol t in
     if err \<or> rest = t \<or> rest \<noteq> [] \<or> \<not> ((- 127 \<le> parsed \<and> parsed \<le> 20) \<or> parsed = 127) then None
     else Some parsed)"

definition parse_kind :: "string \<Rightarrow> bluetooth_device_kind option" where
  "parse_kind t =
    (if t = ''unknown'' then Some BLUETOOTH_DEVICE_UNKNOWN
     else if t = ''controller'' then Some BLUETOOTH_DEVICE_CONTROLLER
     else if t = ''audio'' then Some BLUETOOTH_DEVICE_AUDIO
     else if t = ''keyboard'' then Some BLUETOOTH_DEVICE_KEYBOARD
     else if t = ''mouse'' then Some BLUETOOTH_DEVICE_MOUSE else None)"

section \<open>The snapshot\<close>

definition parse_adapter_line :: "string \<Rightarrow> bluetooth_backend_snapshot \<Rightarrow> bluetooth_backend_snapshot option" where
  "parse_adapter_line line snap =
    do { fs \<leftarrow> bt_split_fields line 8;
         _ \<leftarrow> (if length fs = 5 \<and> fs ! 0 = ''A'' then Some () else None);
         present \<leftarrow> bt_parse_bool (fs ! 1);
         pow \<leftarrow> bt_parse_bool (fs ! 2);
         disc \<leftarrow> bt_parse_bool (fs ! 3);
         addr \<leftarrow> (if present then normalize_mac (Some (fs ! 4))
                   else if fs ! 4 = ''-'' then Some (s_adapter_address snap) else None);
         Some (snap\<lparr>s_adapter_present := present, s_powered := pow, s_discovering := disc, s_adapter_address := addr\<rparr>) }"

definition parse_device_fields :: "string \<Rightarrow> string list \<Rightarrow> bluetooth_device_snapshot option" where
  "parse_device_fields normalized fs =
    do { n \<leftarrow> decode_name (fs ! 2);
         k \<leftarrow> parse_kind (fs ! 3);
         p \<leftarrow> bt_parse_bool (fs ! 4);
         t \<leftarrow> bt_parse_bool (fs ! 5);
         c \<leftarrow> bt_parse_bool (fs ! 6);
         r \<leftarrow> parse_rssi (fs ! 7);
         Some \<lparr>s_address = snprintf_s BLUETOOTH_BACKEND_ADDRESS_SIZE normalized, s_name = n, s_kind = k, s_rssi = r,
               s_paired = p, s_trusted = t, s_connected = c\<rparr> }"

definition parse_device_line :: "string \<Rightarrow> bluetooth_backend_snapshot \<Rightarrow> bt_errno + bluetooth_backend_snapshot" where
  "parse_device_line line snap =
    (if BLUETOOTH_BACKEND_MAX_DEVICES \<le> length (s_devices snap) then Inl E2BIG
     else case bt_split_fields line 8 of
         None \<Rightarrow> Inl EPROTO
       | Some fs \<Rightarrow>
         if length fs \<noteq> 8 \<or> fs ! 0 \<noteq> ''D'' then Inl EPROTO
         else (case normalize_mac (Some (fs ! 1)) of
             None \<Rightarrow> Inl EPROTO
           | Some normalized \<Rightarrow>
             if list_ex (\<lambda>d. strcmp (s_address d) normalized = 0) (s_devices snap) then Inl EEXIST
             else (case parse_device_fields normalized fs of
                 None \<Rightarrow> Inl EPROTO
               | Some d \<Rightarrow> Inr (snap\<lparr>s_devices := s_devices snap @ [d]\<rparr>))))"

text \<open>The loop over lines: the number of the line, the adapter flag, the snapshot, the bytes left.\<close>

function parse_snapshot_lines ::
  "nat \<Rightarrow> bool \<Rightarrow> bluetooth_backend_snapshot \<Rightarrow> string \<Rightarrow> bt_errno + nat \<times> bool \<times> bluetooth_backend_snapshot" where
  "parse_snapshot_lines n seen snap s =
    (if s = [] then Inr (n, seen, snap)
     else
       let line = fst (next_line s); rest = snd (next_line s) in
       if line = [] then Inl EPROTO
       else if n = 0 then
         (if line \<noteq> snapshot_header then Inl EPROTO else parse_snapshot_lines (n + 1) seen snap rest)
       else if n = 1 then
         (case parse_adapter_line line snap of
            None \<Rightarrow> Inl EPROTO
          | Some snap1 \<Rightarrow> parse_snapshot_lines (n + 1) True snap1 rest)
       else
         (case parse_device_line line snap of
            Inl e \<Rightarrow> Inl e
          | Inr snap1 \<Rightarrow> parse_snapshot_lines (n + 1) seen snap1 rest))"
  by pat_completeness auto
termination
  by (relation "measure (\<lambda>(n, seen, snap, s). length s)") (simp_all add: next_line_shorter)

declare parse_snapshot_lines.simps [simp del]

definition parse_snapshot :: "string \<Rightarrow> bt_errno + bluetooth_backend_snapshot" where
  "parse_snapshot output =
    (if output = [] \<or> last output \<noteq> LF \<or> NUL \<in> set output \<or> CR \<in> set output then Inl EPROTO
     else case parse_snapshot_lines 0 False (snapshot_init BLUETOOTH_GATE_ADMITTED BLUETOOTH_PHASE_READY) output of
         Inl e \<Rightarrow> Inl e
       | Inr (n, seen, snap) \<Rightarrow>
         if \<not> seen \<or> n < 2 \<or>
            (\<not> s_adapter_present snap \<and> (s_powered snap \<or> s_discovering snap \<or> length (s_devices snap) \<noteq> 0)) \<or>
            (\<not> s_powered snap \<and> s_discovering snap)
         then Inl EPROTO else Inr snap)"

section \<open>Text validation is well-formed UTF-8\<close>

lemma multibyte2:
  assumes "0xC2 \<le> byte c" "byte c \<le> 0xDF"
  shows "utf8_multibyte c cs = utf8_next (c # cs)"
proof (cases cs)
  case Nil
  with assms show ?thesis by (simp add: utf8_multibyte_def utf8_next_def One_nat_def)
next
  case (Cons d q)
  have "push_bit 6 (byte c AND 0x1F) OR (byte d AND 0x3F) < 0x800"
    using push6_or_less [of "byte d mod 64" "byte c mod 32"] by (simp add: and_masks)
  with assms Cons show ?thesis by (auto simp: utf8_multibyte_def utf8_next_def utf8_cont_def One_nat_def)
qed

lemma multibyte3_range:
  assumes "0xE0 \<le> byte c" "byte c \<le> 0xEF" "utf8_cont d" "utf8_cont e"
    and "cp = (byte c mod 16 * 64 + byte d mod 64) * 64 + byte e mod 64"
  shows "cp < 0x800 \<or> (0xD800 \<le> cp \<and> cp \<le> 0xDFFF) \<or> 0x10FFFF < cp \<longleftrightarrow>
    (byte c = 0xE0 \<and> byte d < 0xA0) \<or> (byte c = 0xED \<and> 0xA0 \<le> byte d)"
proof -
  obtain x where x: "x < 16" "byte c = 0xE0 + x" using assms(1,2) byte_offset [of "0xE0" c 16] by auto
  obtain y where y: "y < 64" "byte d = 0x80 + y" by (rule utf8_cont_offset [OF assms(3)])
  obtain z where z: "z < 64" "byte e = 0x80 + z" by (rule utf8_cont_offset [OF assms(4)])
  have cp: "cp = x * 4096 + y * 64 + z" using assms(5) x y z by (simp add: lead_mods)
  have "cp < 0x800 \<longleftrightarrow> x = 0 \<and> y < 32" "\<not> 0x10FFFF < cp"
    using x(1) y(1) z(1) unfolding cp by linarith+
  moreover consider "x \<le> 12" | "x = 13" | "14 \<le> x" by linarith
  then have "0xD800 \<le> cp \<and> cp \<le> 0xDFFF \<longleftrightarrow> x = 13 \<and> 32 \<le> y"
    using y(1) z(1) unfolding cp by cases linarith+
  ultimately show ?thesis using x(2) y(2) by auto
qed

lemma multibyte4_range:
  assumes "0xF0 \<le> byte c" "byte c \<le> 0xF4" "utf8_cont d" "utf8_cont e" "utf8_cont f"
    and "cp = ((byte c mod 8 * 64 + byte d mod 64) * 64 + byte e mod 64) * 64 + byte f mod 64"
  shows "cp < 0x10000 \<or> (0xD800 \<le> cp \<and> cp \<le> 0xDFFF) \<or> 0x10FFFF < cp \<longleftrightarrow>
    (byte c = 0xF0 \<and> byte d < 0x90) \<or> (byte c = 0xF4 \<and> 0x90 \<le> byte d)"
proof -
  obtain w where w: "w < 5" "byte c = 0xF0 + w" using assms(1,2) byte_offset [of "0xF0" c 5] by auto
  obtain x where x: "x < 64" "byte d = 0x80 + x" by (rule utf8_cont_offset [OF assms(3)])
  obtain y where y: "y < 64" "byte e = 0x80 + y" by (rule utf8_cont_offset [OF assms(4)])
  obtain z where z: "z < 64" "byte f = 0x80 + z" by (rule utf8_cont_offset [OF assms(5)])
  have cp: "cp = w * 262144 + x * 4096 + y * 64 + z" using assms(6) w x y z by (simp add: lead_mods)
  have "cp < 0x10000 \<longleftrightarrow> w = 0 \<and> x < 16" "0x10FFFF < cp \<longleftrightarrow> w = 4 \<and> 16 \<le> x"
    using w(1) x(1) y(1) z(1) unfolding cp by linarith+
  then show ?thesis using w(2) x(2) by auto
qed

lemma multibyte3:
  assumes "0xE0 \<le> byte c" "byte c \<le> 0xEF"
  shows "utf8_multibyte c cs = utf8_next (c # cs)"
proof -
  have n: "(2 :: nat) = Suc (Suc 0)" by simp
  consider "cs = []" | d where "cs = [d]" | d e q where "cs = d # e # q" "\<not> utf8_cont d \<or> \<not> utf8_cont e"
    | d e q where "cs = d # e # q" "utf8_cont d" "utf8_cont e" by (metis list.exhaust)
  then show ?thesis
  proof cases
    case (4 d e q)
    from multibyte3_range [OF assms 4(2,3) refl] 4 assms show ?thesis
      by (simp add: utf8_multibyte_def utf8_next_def utf8_cont_def n and_masks push6_or Let_def)
  qed (use assms in \<open>auto simp: utf8_multibyte_def utf8_next_def utf8_cont_def n\<close>)
qed

lemma multibyte4:
  assumes "0xF0 \<le> byte c" "byte c \<le> 0xF4"
  shows "utf8_multibyte c cs = utf8_next (c # cs)"
proof -
  have n: "(3 :: nat) = Suc (Suc (Suc 0))" by simp
  consider "cs = []" | d where "cs = [d]" | d e where "cs = [d, e]"
    | d e f q where "cs = d # e # f # q" "\<not> utf8_cont d \<or> \<not> utf8_cont e \<or> \<not> utf8_cont f"
    | d e f q where "cs = d # e # f # q" "utf8_cont d" "utf8_cont e" "utf8_cont f" by (metis list.exhaust)
  then show ?thesis
  proof cases
    case (5 d e f q)
    from multibyte4_range [OF assms 5(2-4) refl] 5 assms show ?thesis
      by (simp add: utf8_multibyte_def utf8_next_def utf8_cont_def n and_masks push6_or Let_def)
  qed (use assms in \<open>auto simp: utf8_multibyte_def utf8_next_def utf8_cont_def n\<close>)
qed

lemma utf8_multibyte_next: "0x80 \<le> byte c \<Longrightarrow> utf8_multibyte c cs = utf8_next (c # cs)"
proof -
  assume "0x80 \<le> byte c"
  then consider "0xC2 \<le> byte c" "byte c \<le> 0xDF" | "0xE0 \<le> byte c" "byte c \<le> 0xEF" | "0xF0 \<le> byte c" "byte c \<le> 0xF4"
    | "byte c < 0xC2" "0x80 \<le> byte c" | "0xF4 < byte c" by linarith
  then show ?thesis
    by cases (erule (1) multibyte2 multibyte3 multibyte4 | simp add: utf8_multibyte_def utf8_next_def)+
qed

lemma utf8_text_valid_encode:
  assumes "utf8_scalar cp"
  shows "utf8_text_valid (utf8_encode cp @ r) \<longleftrightarrow> 0x20 \<le> cp \<and> cp \<noteq> 0x7F \<and> utf8_text_valid r"
proof (cases "cp < 0x80")
  case True
  then have "utf8_encode cp = [char_of cp]" "byte (char_of cp) = cp" by (simp_all add: utf8_encode_def)
  with True show ?thesis by auto
next
  case False
  obtain c cs where c: "utf8_encode cp @ r = c # cs" by (cases "utf8_encode cp @ r") auto
  with utf8_next_encode [OF assms, of r] have n: "utf8_next (c # cs) = Some (cp, r)" by simp
  have "0x80 \<le> byte c"
  proof (rule ccontr)
    assume "\<not> 0x80 \<le> byte c"
    with n have "cp = byte c" by (simp add: utf8_next_def)
    with False \<open>\<not> 0x80 \<le> byte c\<close> show False by simp
  qed
  with c n False show ?thesis by (simp add: utf8_multibyte_next)
qed

lemma utf8_text_valid_decodes: "utf8_text_valid t \<Longrightarrow> bt_text t"
proof (induction t rule: utf8_text_valid.induct)
  case (2 c cs)
  show ?case
  proof (cases "byte c < 0x80")
    case True
    with 2 show ?thesis by (cases "byte c < 0x20 \<or> byte c = 0x7F") (auto simp: bt_text_ascii)
  next
    case False
    with "2.prems" obtain cp r where n: "utf8_next (c # cs) = Some (cp, r)" "utf8_text_valid r"
      by (auto simp: utf8_multibyte_next split: option.splits)
    have m: "utf8_multibyte c cs = Some (cp, r)" using n False by (simp add: utf8_multibyte_next)
    note s = utf8_next_sound [OF n(1)]
    have "0x20 \<le> cp \<and> cp \<noteq> 0x7F"
      using utf8_text_valid_encode [of cp r] s "2.prems" by auto
    then have "bt_text (utf8_encode cp)" using s by (intro bt_text_encode) auto
    moreover have "bt_text r" using "2.IH"(2) False m n(2) by simp
    ultimately show ?thesis using s bt_text_append by simp
  qed
qed simp

lemma utf8_text_valid_iff: "utf8_text_valid t \<longleftrightarrow> bt_text t"
proof
  assume "bt_text t"
  then obtain cps where "t = utf8_encodes cps" "list_all (\<lambda>cp. utf8_scalar cp \<and> 0x20 \<le> cp \<and> cp \<noteq> 0x7F) cps"
    by (auto simp: bt_text_def)
  then show "utf8_text_valid t" by (induction cps arbitrary: t) (auto simp: utf8_text_valid_encode)
qed (rule utf8_text_valid_decodes)

text \<open>
  The name check of the shell accepts exactly the well-formed UTF-8 texts,
  in shortest form and without surrogates, that have no C0 control and no DEL.
\<close>

theorem utf8_text_valid_exact:
  "utf8_text_valid t \<longleftrightarrow>
    (\<exists>cps. t = utf8_encodes cps \<and> list_all (\<lambda>cp. utf8_scalar cp \<and> 0x20 \<le> cp \<and> cp \<noteq> 0x7F) cps)"
  using utf8_text_valid_iff bt_text_def by simp

section \<open>Fields round trip\<close>

lemma normalize_mac_same: "normalize_mac = rg40xxv_bt_normalize_mac"
proof -
  have "normalize_mac_loop i t = mac_loop i t" for i t
    by (induction i t rule: normalize_mac_loop.induct) auto
  then show ?thesis by (auto simp: fun_eq_iff normalize_mac_def rg40xxv_bt_normalize_mac_def bt_limits backend_limits split: option.splits)
qed

lemma bt_nibbles: "n < 16 \<Longrightarrow> bt_hex_value (hex_digits ! n) = Some n"
proof -
  have "\<forall>n \<in> set [0..<16]. bt_hex_value (hex_digits ! n) = Some n"
    by (simp add: upt_rec hex_digits_def bt_hex_value_def)
  then show "n < 16 \<Longrightarrow> ?thesis" by simp
qed

lemma decode_name_loop_encode:
  "out + length t < 97 \<Longrightarrow> decode_name_loop out (encode_text t) = Some t"
proof (induction t arbitrary: out)
  case (Cons c t)
  have "c = CHR ''%'' \<Longrightarrow> \<not> unreserved c" by simp
  moreover have "char_of (push_bit 4 (drop_bit 4 (byte c)) OR (byte c AND 0x0F)) = c" by (simp add: high_low_nibble)
  ultimately show ?case using Cons
    by (auto simp: escape_byte_def bt_nibbles high_low_nibble backend_limits)
qed simp

lemma decode_name_encode:
  assumes "t \<noteq> []" "length t < 97" "bt_text t"
  shows "decode_name (encode_text t) = Some t"
proof -
  have "encode_text t \<noteq> []" using assms(1) by (cases t) (auto simp: escape_byte_def)
  moreover have "length (encode_text t) \<le> 288" using length_encode_text [of t] assms(2) by linarith
  ultimately show ?thesis
    using decode_name_loop_encode [of 0 t] assms by (simp add: decode_name_def backend_limits utf8_text_valid_iff)
qed

lemma parse_bool_print_bool: "bt_parse_bool (print_bool b) = Some b"
  by (simp add: bt_parse_bool_def print_bool_def)

lemma parse_rssi_field: "parse_rssi (print_int (bt_rssi_field r)) = Some (bt_rssi_field r)"
proof -
  have "[] \<noteq> print_int i" for i by (simp add: print_int_def not_sym)
  then show ?thesis by (simp add: parse_rssi_def bt_rssi_field_def)
qed

fun wire_kind :: "rg40xxv_bt_kind \<Rightarrow> bluetooth_device_kind" where
  "wire_kind RG40XXV_BT_UNKNOWN = BLUETOOTH_DEVICE_UNKNOWN"
| "wire_kind RG40XXV_BT_CONTROLLER = BLUETOOTH_DEVICE_CONTROLLER"
| "wire_kind RG40XXV_BT_AUDIO = BLUETOOTH_DEVICE_AUDIO"
| "wire_kind RG40XXV_BT_KEYBOARD = BLUETOOTH_DEVICE_KEYBOARD"
| "wire_kind RG40XXV_BT_MOUSE = BLUETOOTH_DEVICE_MOUSE"

lemma parse_kind_name: "parse_kind (rg40xxv_bt_kind_name k) = Some (wire_kind k)"
  by (cases k) (simp_all add: parse_kind_def)

lemma kind_name_clean: "clean_field (rg40xxv_bt_kind_name k)"
  by (cases k) (auto simp: clean_field_def)

lemma print_bool_clean: "clean_field (print_bool b)"
  by (auto simp: print_bool_def clean_field_def)

lemma mac_clean: "rg40xxv_bt_normalize_mac (Some t) = Some u \<Longrightarrow> clean_field u"
  using normalize_mac_result(3) by (fastforce simp: clean_field_def list_all_iff)

section \<open>The snapshot round trip\<close>

definition wire_device :: "rg40xxv_bt_device \<Rightarrow> bluetooth_device_snapshot" where
  "wire_device d = \<lparr>s_address = address d, s_name = name d, s_kind = wire_kind (kind d),
     s_rssi = bt_rssi_field (rssi d), s_paired = paired d, s_trusted = trusted d, s_connected = connected d\<rparr>"

definition wire_line :: "rg40xxv_bt_device \<Rightarrow> string" where
  "wire_line d = bt_device_line (address d) (encode_text (name d)) d"

lemma wire_line_split:
  assumes "device_wire_ok d"
  shows "split_on TAB (wire_line d) = [''D'', address d, encode_text (name d), rg40xxv_bt_kind_name (kind d),
      print_bool (paired d), print_bool (trusted d), print_bool (connected d), print_int (bt_rssi_field (rssi d))]"
    and "clean_line (wire_line d)" "wire_line d \<noteq> []" "CR \<notin> set (wire_line d)"
proof -
  have a: "clean_field (address d)" using assms mac_clean by (auto simp: device_wire_ok_def)
  have cr: "clean_field t \<Longrightarrow> CR \<notin> set t" for t by (auto simp: clean_field_def)
  note c = a clean_encode [of "name d"] kind_name_clean [of "kind d"] print_bool_clean clean_print_int
  from c show "split_on TAB (wire_line d) = [''D'', address d, encode_text (name d), rg40xxv_bt_kind_name (kind d),
      print_bool (paired d), print_bool (trusted d), print_bool (connected d), print_int (bt_rssi_field (rssi d))]"
    by (simp add: wire_line_def bt_device_line_def clean_fieldD)
  from c show "clean_line (wire_line d)" "wire_line d \<noteq> []"
    by (simp_all add: wire_line_def bt_device_line_def clean_line_field)
  from c show "CR \<notin> set (wire_line d)"
    by (simp add: wire_line_def bt_device_line_def cr)
qed

lemma parse_wire_line:
  assumes "device_wire_ok d" "length (s_devices snap) < 16" "address d \<notin> s_address ` set (s_devices snap)"
  shows "parse_device_line (wire_line d) snap = Inr (snap\<lparr>s_devices := s_devices snap @ [wire_device d]\<rparr>)"
proof -
  from assms(1) have d: "normalize_mac (Some (address d)) = Some (address d)" "decode_name (encode_text (name d)) = Some (name d)"
    "length (address d) = 17"
    using decode_name_encode normalize_mac_result(1) by (auto simp: device_wire_ok_def normalize_mac_same)
  have "\<not> list_ex (\<lambda>x. strcmp (s_address x) (address d) = 0) (s_devices snap)"
    using assms(3) by (simp add: list_ex_iff image_iff) metis
  moreover have "parse_device_fields (address d) (split_on TAB (wire_line d)) = Some (wire_device d)"
    unfolding wire_line_split(1) [OF assms(1)] using d
    by (simp add: parse_device_fields_def parse_kind_name parse_bool_print_bool parse_rssi_field wire_device_def
        snprintf_s_def backend_limits)
  ultimately show ?thesis
    using assms(2) d wire_line_split(1) [OF assms(1)]
    by (simp add: parse_device_line_def bt_split_fields_def backend_limits)
qed

lemma parse_wire_lines:
  "devices_wire_ok ds \<Longrightarrow> length (s_devices snap) + length ds \<le> 16 \<Longrightarrow>
   address ` set ds \<inter> s_address ` set (s_devices snap) = {} \<Longrightarrow> 2 \<le> n \<Longrightarrow>
   parse_snapshot_lines n seen snap (lines_text (map wire_line ds)) =
     Inr (n + length ds, seen, snap\<lparr>s_devices := s_devices snap @ map wire_device ds\<rparr>)"
proof (induction ds arbitrary: n snap)
  case Nil
  then show ?case by (subst parse_snapshot_lines.simps) simp
next
  case (Cons d ds)
  from Cons.prems(1) have d: "device_wire_ok d" "devices_wire_ok ds" "address d \<notin> address ` set ds"
    by (auto simp: devices_wire_ok_def)
  have "s_address (wire_device d) = address d" by (simp add: wire_device_def)
  with Cons.prems d Cons.IH [of "snap\<lparr>s_devices := s_devices snap @ [wire_device d]\<rparr>" "Suc n"]
    next_line_clean [OF wire_line_split(2) [OF d(1)]] wire_line_split(3) [OF d(1)] parse_wire_line [OF d(1), of snap]
  show ?case by (subst parse_snapshot_lines.simps) (simp add: Let_def)
qed

lemma write_devices_text:
  assumes "\<And>k. io k"
  shows "list_all device_wire_ok ds \<Longrightarrow> write_devices io k room ds = (lines_text (map wire_line (take room ds)), None)"
proof (induction ds arbitrary: k room)
  case (Cons d ds)
  then have "rg40xxv_bt_percent_encode (Some (name d)) RG40XXV_BT_ENCODED_NAME_SIZE = Inr (encode_text (name d))"
    "rg40xxv_bt_normalize_mac (Some (address d)) = Some (address d)"
    by (auto simp: device_wire_ok_def bt_encode_name)
  with Cons assms show ?case by (cases room) (simp_all add: wire_line_def)
qed (simp add: assms)

lemma adapter_line_fields:
  assumes "clean_field addr"
  shows "split_on TAB (bt_adapter_line m addr) = [''A'', print_bool (adapter_present m),
      print_bool (adapter_present m \<and> powered m), print_bool (adapter_present m \<and> powered m \<and> discovering m), addr]"
    and "clean_line (bt_adapter_line m addr)" "bt_adapter_line m addr \<noteq> []" "CR \<notin> set (bt_adapter_line m addr)"
proof -
  have cr: "clean_field t \<Longrightarrow> CR \<notin> set t" for t by (auto simp: clean_field_def)
  note c = assms print_bool_clean
  from c show "split_on TAB (bt_adapter_line m addr) = [''A'', print_bool (adapter_present m),
      print_bool (adapter_present m \<and> powered m), print_bool (adapter_present m \<and> powered m \<and> discovering m), addr]"
    by (simp add: bt_adapter_line_def clean_fieldD)
  from c show "clean_line (bt_adapter_line m addr)" "bt_adapter_line m addr \<noteq> []" "CR \<notin> set (bt_adapter_line m addr)"
    by (simp_all add: bt_adapter_line_def clean_line_field cr)
qed

text \<open>The adapter's address field, and what the shell makes of it.\<close>

definition wire_adapter :: "rg40xxv_bt_model \<Rightarrow> string \<Rightarrow> bool" where
  "wire_adapter m addr \<longleftrightarrow> (if adapter_present m then
     rg40xxv_bt_normalize_mac (Some (adapter_address m)) = Some addr \<and> addr \<noteq> ''00:00:00:00:00:00'' else addr = ''-'')"

definition wire_snapshot :: "rg40xxv_bt_model \<Rightarrow> string \<Rightarrow> bluetooth_backend_snapshot" where
  "wire_snapshot m addr = (snapshot_init BLUETOOTH_GATE_ADMITTED BLUETOOTH_PHASE_READY)
     \<lparr>s_adapter_present := adapter_present m, s_powered := adapter_present m \<and> powered m,
      s_discovering := adapter_present m \<and> powered m \<and> discovering m,
      s_adapter_address := (if adapter_present m then addr else []),
      s_devices := map wire_device (take 16 (devices m))\<rparr>"

lemma wire_adapter_clean: "wire_adapter m addr \<Longrightarrow> clean_field addr"
  using mac_clean by (auto simp: wire_adapter_def clean_field_def split: if_splits)

lemma parse_adapter_wire:
  assumes "wire_adapter m addr" "s_adapter_address snap = []"
  shows "parse_adapter_line (bt_adapter_line m addr) snap =
    Some (snap\<lparr>s_adapter_present := adapter_present m, s_powered := adapter_present m \<and> powered m,
      s_discovering := adapter_present m \<and> powered m \<and> discovering m,
      s_adapter_address := (if adapter_present m then addr else [])\<rparr>)"
proof -
  have "adapter_present m \<Longrightarrow> normalize_mac (Some addr) = Some addr"
    using assms(1) normalize_mac_result(2) by (auto simp: wire_adapter_def normalize_mac_same)
  then show ?thesis
    using assms adapter_line_fields(1) [OF wire_adapter_clean [OF assms(1)]]
    by (simp add: parse_adapter_line_def bt_split_fields_def parse_bool_print_bool wire_adapter_def)
qed

lemma devices_wire_take: "devices_wire_ok ds \<Longrightarrow> devices_wire_ok (take n ds)"
  by (auto simp: devices_wire_ok_def list_all_iff take_map [symmetric] dest: in_set_takeD intro: distinct_take)

lemma write_snapshot_text:
  assumes "\<And>k. io k" "devices_wire_ok (devices m)" "wire_adapter m addr" "\<not> adapter_present m \<longrightarrow> devices m = []"
  shows "rg40xxv_bt_write_snapshot io m =
    (lines_text (snapshot_header # bt_adapter_line m addr # map wire_line (take 16 (devices m))), None)"
  using assms write_devices_text [of io "devices m" 1 16]
  by (auto simp: rg40xxv_bt_write_snapshot_def wire_adapter_def devices_wire_ok_def bt_limits Let_def)

lemma parse_snapshot_wire:
  assumes "devices_wire_ok (devices m)" "wire_adapter m addr" "\<not> adapter_present m \<longrightarrow> devices m = []"
  shows "parse_snapshot (lines_text (snapshot_header # bt_adapter_line m addr # map wire_line (take 16 (devices m)))) =
    Inr (wire_snapshot m addr)"
proof -
  let ?ds = "take 16 (devices m)" and ?a = "bt_adapter_line m addr"
  let ?snap = "snapshot_init BLUETOOTH_GATE_ADMITTED BLUETOOTH_PHASE_READY"
  let ?text = "lines_text (snapshot_header # ?a # map wire_line ?ds)"
  note ds = devices_wire_take [OF assms(1), of 16] and a = adapter_line_fields [OF wire_adapter_clean [OF assms(2)]]
  have h: "clean_line snapshot_header" "snapshot_header \<noteq> []" "CR \<notin> set snapshot_header" by (simp_all add: snapshot_header_def)
  have lines: "list_all (\<lambda>l. clean_line l \<and> CR \<notin> set l) (snapshot_header # ?a # map wire_line ?ds)"
    using h a ds wire_line_split by (auto simp: devices_wire_ok_def list_all_iff)
  then have clean: "NUL \<notin> set ?text" "CR \<notin> set ?text"
    by (auto simp: lines_text_def list_all_iff clean_line_def)
  have last: "?text \<noteq> []" "last ?text = LF" using last_lines_text by blast+
  have "parse_snapshot_lines 0 False ?snap ?text = parse_snapshot_lines 1 False ?snap (?a @ LF # lines_text (map wire_line ?ds))"
    by (subst parse_snapshot_lines.simps) (simp add: h next_line_clean [OF h(1)] del: One_nat_def)
  also have "\<dots> = parse_snapshot_lines 2 True (?snap\<lparr>s_adapter_present := adapter_present m, s_powered := adapter_present m \<and> powered m,
      s_discovering := adapter_present m \<and> powered m \<and> discovering m,
      s_adapter_address := (if adapter_present m then addr else [])\<rparr>) (lines_text (map wire_line ?ds))"
    by (subst parse_snapshot_lines.simps)
      (simp add: a next_line_clean [OF a(2)] parse_adapter_wire [OF assms(2)] snapshot_init_def numeral_2_eq_2)
  also have "\<dots> = Inr (2 + length ?ds, True, wire_snapshot m addr)"
    by (subst parse_wire_lines [OF ds]) (simp_all add: snapshot_init_def wire_snapshot_def)
  finally show ?thesis
    using clean last assms(3) by (auto simp: parse_snapshot_def wire_snapshot_def simp del: lines_text_simps)
qed

text \<open>
  C10: the two programs agree on the protocol: whatever objects BlueZ reports,
  if the adapter has a usable address and the output can be written, the
  helper prints a snapshot that the shell accepts, and what the shell reads is
  the adapter state and the first sixteen devices of the helper's model.
\<close>

theorem bt_snapshot_protocol:
  assumes "qsort_ok qsort" "\<And>k. io k" "wire_adapter (finalize_model qsort raw) addr"
  shows "\<exists>out. rg40xxv_bt_write_snapshot io (finalize_model qsort raw) = (out, None) \<and>
    parse_snapshot out = Inr (wire_snapshot (finalize_model qsort raw) addr)"
proof -
  let ?m = "finalize_model qsort raw"
  have "devices_wire_ok (devices ?m)" by (rule finalize_model_ok [OF assms(1)])
  moreover have "\<not> adapter_present ?m \<longrightarrow> devices ?m = []" by (simp add: finalize_model_def rg40xxv_bt_sort_def)
  ultimately show ?thesis using write_snapshot_text [where io = io, OF assms(2)] parse_snapshot_wire assms(3) by blast
qed

theorem bt_snapshot_protocol_witness:
  "\<exists>out. rg40xxv_bt_write_snapshot (\<lambda>k. True) (finalize_model insertion_sort sample_model) = (out, None) \<and>
    parse_snapshot out = Inr (wire_snapshot (finalize_model insertion_sort sample_model) ''00:11:22:33:44:55'')"
proof (rule bt_snapshot_protocol [OF insertion_sort_ok])
  have "mac_loop 0 ''00:11:22:33:44:55'' = Some ''00:11:22:33:44:55''"
    by (simp add: isxdigit_def isdigit_def toupper_def islower_def)
  then show "wire_adapter (finalize_model insertion_sort sample_model) ''00:11:22:33:44:55''"
    by (simp add: wire_adapter_def finalize_model_def rg40xxv_bt_sort_def sample_model_def rg40xxv_bt_normalize_mac_def bt_limits)
qed simp

end
