(* ===== verification/Bluetooth_Helper.thy ===== *)
theory Bluetooth_Helper
  imports Bluetooth_Snapshot
begin

text \<open>
  How the shell's Bluetooth backend admits and runs its helper program
  (\<^verbatim>\<open>components/rg40xxv-shell/src/bluetooth_backend.c\<close>): the capability file, the
  checks of the helper's file, the argument vector, and one execution of the
  helper with its pipe, its deadline and its termination.

  The operating system is an environment: what each call returns. A loop that
  is still running when the given answers are used up has the value \<open>None\<close>.
  The calls that matter for resources are recorded in a trace.
\<close>

section \<open>Limits\<close>

definition BLUETOOTH_REQUEST_QUEUE :: nat where "BLUETOOTH_REQUEST_QUEUE = 32"
definition BLUETOOTH_CAPABILITY_MAX_BYTES :: nat where "BLUETOOTH_CAPABILITY_MAX_BYTES = 4096"
definition BLUETOOTH_HELPER_OUTPUT_MAX :: nat where "BLUETOOTH_HELPER_OUTPUT_MAX = 16 * 1024"
definition BLUETOOTH_CHILD_TERM_MS :: u64 where "BLUETOOTH_CHILD_TERM_MS = 250"
definition BLUETOOTH_STATUS_TIMEOUT_MS :: u64 where "BLUETOOTH_STATUS_TIMEOUT_MS = 5000"
definition BLUETOOTH_SCAN_TIMEOUT_MS :: u64 where "BLUETOOTH_SCAN_TIMEOUT_MS = 15000"
definition BLUETOOTH_ACTION_TIMEOUT_MS :: u64 where "BLUETOOTH_ACTION_TIMEOUT_MS = 15000"
definition BLUETOOTH_PAIR_TIMEOUT_MS :: u64 where "BLUETOOTH_PAIR_TIMEOUT_MS = 120000"


definition BLUETOOTH_CAPABILITY_DEFAULT :: string where
  "BLUETOOTH_CAPABILITY_DEFAULT = ''/opt/rg40xxv/bluetooth/runtime/admission.env''"

definition BLUETOOTH_CAPABILITY_SCHEMA :: string where
  "BLUETOOTH_CAPABILITY_SCHEMA = ''schema=rg40xxv-bluetooth-runtime-admission-v1''"

section \<open>The capability file\<close>

record file_status =
  is_regular :: bool
  is_symlink :: bool
  st_uid :: nat
  st_nlink :: nat
  st_mode :: nat
  st_bytes :: string

text \<open>One answer of \<^verbatim>\<open>read\<close>: an error, or at most so many bytes.\<close>

datatype read_answer = ReadErr bt_errno | ReadUpTo nat

text \<open>
  The bytes of the file from the offset on and the bytes still wanted. A
  \<^verbatim>\<open>read\<close> that returns nothing before the size is reached is \<open>EIO\<close>.
\<close>

fun capability_bytes :: "read_answer list \<Rightarrow> string \<Rightarrow> nat \<Rightarrow> (bt_errno + string) option" where
  "capability_bytes as bs 0 = Some (Inr [])"
| "capability_bytes [] bs (Suc w) = None"
| "capability_bytes (ReadErr e # as) bs (Suc w) =
    (if e = EINTR then capability_bytes as bs (Suc w) else Some (Inl e))"
| "capability_bytes (ReadUpTo n # as) bs (Suc w) =
    (let got = min n (min (Suc w) (length bs)) in
     if got = 0 then Some (Inl EIO)
     else case capability_bytes as (drop got bs) (Suc w - got) of
         None \<Rightarrow> None
       | Some (Inl e) \<Rightarrow> Some (Inl e)
       | Some (Inr rest) \<Rightarrow> Some (Inr (take got bs @ rest)))"

text \<open>The loop over lines: schema seen, status seen, admitted, bytes left.\<close>

function capability_lines :: "bool \<Rightarrow> bool \<Rightarrow> bool \<Rightarrow> string \<Rightarrow> bt_errno + bluetooth_backend_gate" where
  "capability_lines schema_seen status_seen admitted s =
    (if s = [] then
       (if \<not> schema_seen \<or> \<not> status_seen then Inl EPROTO
        else Inr (if admitted then BLUETOOTH_GATE_ADMITTED else BLUETOOTH_GATE_PENDING))
     else
       let line = fst (next_line s); rest = snd (next_line s) in
       if line = [] then Inl EPROTO
       else if line = BLUETOOTH_CAPABILITY_SCHEMA then
         (if schema_seen then Inl EPROTO else capability_lines True status_seen admitted rest)
       else if line = ''status=PASS'' \<or> line = ''status=PENDING'' then
         (if status_seen then Inl EPROTO else capability_lines schema_seen True (line = ''status=PASS'') rest)
       else Inl EPROTO)"
  by pat_completeness auto
termination
  by (relation "measure (\<lambda>(a, b, c, s). length s)") (simp_all add: next_line_shorter)

declare capability_lines.simps [simp del]

definition capability_text :: "string \<Rightarrow> bt_errno + bluetooth_backend_gate" where
  "capability_text content =
    (if content = [] \<or> last content \<noteq> LF \<or> NUL \<in> set content \<or> CR \<in> set content then Inl EPROTO
     else capability_lines False False False content)"

text \<open>Octal \<^verbatim>\<open>022\<close>: writable by the group or by others.\<close>

definition MODE_022 :: nat where "MODE_022 = 18"

record capability_env =
  cap_path :: "string option"
  cap_open :: "bt_errno + file_status"
  cap_fstat :: "bt_errno option"
  cap_euid :: nat
  cap_reads :: "read_answer list"

text \<open>The gate and the value left in \<open>error\<close>.\<close>

definition read_capability :: "capability_env \<Rightarrow> (bluetooth_backend_gate \<times> bt_errno option) option" where
  "read_capability env =
    (let where_from = (case cap_path env of None \<Rightarrow> BLUETOOTH_CAPABILITY_DEFAULT
         | Some p \<Rightarrow> if p = [] then BLUETOOTH_CAPABILITY_DEFAULT else p) in
     if hd where_from \<noteq> CHR ''/'' then Some (BLUETOOTH_GATE_REJECTED, Some EINVAL)
     else case cap_open env of
         Inl e \<Rightarrow> if e = ENOENT then Some (BLUETOOTH_GATE_PENDING, None) else Some (BLUETOOTH_GATE_REJECTED, Some e)
       | Inr f \<Rightarrow>
         (case cap_fstat env of
            Some e \<Rightarrow> Some (BLUETOOTH_GATE_REJECTED, Some e)
          | None \<Rightarrow>
            if \<not> is_regular f \<or> st_uid f \<noteq> cap_euid env \<or> st_nlink f \<noteq> 1 \<or> st_mode f AND MODE_022 \<noteq> 0 \<or>
               length (st_bytes f) = 0 \<or> BLUETOOTH_CAPABILITY_MAX_BYTES < length (st_bytes f)
            then Some (BLUETOOTH_GATE_REJECTED, Some EACCES)
            else (case capability_bytes (cap_reads env) (st_bytes f) (length (st_bytes f)) of
                None \<Rightarrow> None
              | Some (Inl e) \<Rightarrow> Some (BLUETOOTH_GATE_REJECTED, Some e)
              | Some (Inr content) \<Rightarrow>
                (case capability_text content of
                   Inl e \<Rightarrow> Some (BLUETOOTH_GATE_REJECTED, Some e)
                 | Inr g \<Rightarrow> Some (g, None)))))"

definition S_IXUSR :: nat where "S_IXUSR = 64"

text \<open>\<open>lst\<close> is the answer of \<^verbatim>\<open>lstat\<close>, \<open>exec_ok\<close> that of \<^verbatim>\<open>access(path, X_OK)\<close>.\<close>

definition validate_helper :: "string option \<Rightarrow> (bt_errno + file_status) \<Rightarrow> nat \<Rightarrow> bool \<Rightarrow> bt_errno option" where
  "validate_helper helper lst euid exec_ok =
    (case helper of
       None \<Rightarrow> Some EINVAL
     | Some p \<Rightarrow>
       if p = [] \<or> hd p \<noteq> CHR ''/'' \<or> PATH_MAX \<le> length p then Some EINVAL
       else (case lst of
           Inl e \<Rightarrow> Some e
         | Inr f \<Rightarrow>
           if \<not> is_regular f \<or> is_symlink f \<or> st_uid f \<noteq> euid \<or> st_nlink f \<noteq> 1 \<or> st_mode f AND MODE_022 \<noteq> 0 \<or>
              st_mode f AND S_IXUSR = 0 \<or> \<not> exec_ok
           then Some EACCES else None))"

section \<open>Requests\<close>

record bluetooth_request =
  r_action :: bluetooth_backend_action
  r_request_id :: u64
  r_address :: string
  r_powered :: bool

fun request_timeout_ms :: "bluetooth_backend_action \<Rightarrow> u64" where
  "request_timeout_ms BLUETOOTH_ACTION_SCAN = BLUETOOTH_SCAN_TIMEOUT_MS"
| "request_timeout_ms BLUETOOTH_ACTION_PAIR = BLUETOOTH_PAIR_TIMEOUT_MS"
| "request_timeout_ms BLUETOOTH_ACTION_STATUS = BLUETOOTH_STATUS_TIMEOUT_MS"
| "request_timeout_ms _ = BLUETOOTH_ACTION_TIMEOUT_MS"

text \<open>The argument vector, \<open>None\<close> when \<open>arguments[1]\<close> is \<open>NULL\<close>.\<close>

definition request_arguments :: "string \<Rightarrow> bluetooth_request \<Rightarrow> string list option" where
  "request_arguments helper request =
    (case r_action request of
       BLUETOOTH_ACTION_STATUS \<Rightarrow> Some [helper, ''status'']
     | BLUETOOTH_ACTION_SCAN \<Rightarrow> Some [helper, ''scan'']
     | BLUETOOTH_ACTION_POWER \<Rightarrow> Some [helper, ''power'', if r_powered request then ''on'' else ''off'']
     | BLUETOOTH_ACTION_PAIR \<Rightarrow> Some [helper, ''pair'', r_address request]
     | BLUETOOTH_ACTION_CONNECT \<Rightarrow> Some [helper, ''connect'', r_address request]
     | BLUETOOTH_ACTION_DISCONNECT \<Rightarrow> Some [helper, ''disconnect'', r_address request]
     | BLUETOOTH_ACTION_FORGET \<Rightarrow> Some [helper, ''forget'', r_address request]
     | BLUETOOTH_ACTION_NONE \<Rightarrow> None)"

section \<open>One execution\<close>

record bluetooth_helper_result =
  h_output :: string
  h_error :: "bt_errno option"
  h_exit_code :: int
  h_term_signal :: int

text \<open>What \<^verbatim>\<open>waitpid\<close> stores, as the wait macros read it.\<close>

datatype child_status = Exited nat | Signaled nat

definition decode_child_status :: "bluetooth_helper_result \<Rightarrow> child_status \<Rightarrow> bluetooth_helper_result" where
  "decode_child_status result status =
    result\<lparr>h_exit_code := (case status of Exited c \<Rightarrow> int c | Signaled _ \<Rightarrow> - 1),
           h_term_signal := (case status of Exited _ \<Rightarrow> 0 | Signaled s \<Rightarrow> int s)\<rparr>"

text \<open>
  One answer of the non-blocking \<^verbatim>\<open>read\<close>: bytes, of which the call takes at
  most as many as it asked for (none is end of file), or an error; \<open>EAGAIN\<close>
  when nothing is there. An exhausted list is \<open>EAGAIN\<close>.
\<close>

datatype pipe_answer = PipeBytes string | PipeErr bt_errno

fun drain_output :: "pipe_answer list \<Rightarrow> bluetooth_helper_result \<Rightarrow> bluetooth_helper_result" where
  "drain_output [] result = result"
| "drain_output (PipeBytes bs # as) result =
    (if BLUETOOTH_HELPER_OUTPUT_MAX \<le> length (h_output result) then
       (if bs \<noteq> [] then result\<lparr>h_error := Some EFBIG\<rparr> else result)
     else
       let got = take (BLUETOOTH_HELPER_OUTPUT_MAX - length (h_output result)) bs in
       if got \<noteq> [] then drain_output as (result\<lparr>h_output := h_output result @ got\<rparr>)
       else result)"
| "drain_output (PipeErr e # as) result =
    (if BLUETOOTH_HELPER_OUTPUT_MAX \<le> length (h_output result) then result
     else if e = EINTR then drain_output as result
     else if e \<noteq> EAGAIN then result\<lparr>h_error := Some e\<rparr>
     else result)"

text \<open>
  The answer of \<^verbatim>\<open>waitpid\<close> after its \<open>EINTR\<close> retries: nothing yet, the
  status of the child, or an error.
\<close>

datatype wait_answer = StillRunning | Reaped child_status | WaitErr bt_errno

text \<open>The system calls that matter for resources.\<close>

datatype effect = PipeOpen | CloseRead | CloseWrite | is_Spawn: Spawn "string list" | SignalTerm | SignalKill | Wait

text \<open>
  \<open>terminate_child\<close>: per turn of the loop the answer of \<^verbatim>\<open>waitpid\<close> and the
  clock; \<open>final\<close> is what the blocking \<^verbatim>\<open>waitpid\<close> after \<open>SIGKILL\<close> stores,
  \<open>None\<close> when it fails with no child, and \<open>status\<close> keeps its value.
\<close>

fun terminate_loop :: "u64 \<Rightarrow> (wait_answer \<times> u64) list \<Rightarrow> child_status \<Rightarrow> child_status option \<Rightarrow>
    (child_status \<times> effect list) option" where
  "terminate_loop deadline [] status final = None"
| "terminate_loop deadline ((w, now) # ts) status final =
    (case w of
       Reaped s \<Rightarrow> Some (s, [Wait])
     | WaitErr e \<Rightarrow>
         if e = ECHILD then Some (status, [Wait])
         else if deadline \<le> now then Some (case final of None \<Rightarrow> status | Some s \<Rightarrow> s, [SignalKill, Wait])
         else terminate_loop deadline ts status final
     | StillRunning \<Rightarrow>
         if deadline \<le> now then Some (case final of None \<Rightarrow> status | Some s \<Rightarrow> s, [SignalKill, Wait])
         else terminate_loop deadline ts status final)"

definition terminate_child :: "u64 \<Rightarrow> (wait_answer \<times> u64) list \<Rightarrow> child_status \<Rightarrow> child_status option \<Rightarrow>
    (child_status \<times> effect list) option" where
  "terminate_child start turns status final =
    map_option (apsnd (Cons SignalTerm)) (terminate_loop (start + BLUETOOTH_CHILD_TERM_MS) turns status final)"

text \<open>
  One turn of the main loop: the reads of \<open>drain_output\<close>, the answer of
  \<^verbatim>\<open>waitpid\<close>, the two readings of \<open>running\<close> and the clock.
\<close>

record helper_turn =
  t_reads :: "pipe_answer list"
  t_wait :: wait_answer
  t_stopping :: bool
  t_now :: u64
  t_stopping_again :: bool

text \<open>The result so far, and the status when the child was seen to end.\<close>

fun helper_loop :: "u64 \<Rightarrow> helper_turn list \<Rightarrow> bluetooth_helper_result \<Rightarrow> child_status \<Rightarrow>
    (bluetooth_helper_result \<times> child_status \<times> bool) option" where
  "helper_loop deadline [] result status = None"
| "helper_loop deadline (t # ts) result status =
    (let r = drain_output (t_reads t) result in
     case t_wait t of
       Reaped s \<Rightarrow> Some (r, s, True)
     | WaitErr e \<Rightarrow> if e = ECHILD then Some (r, status, True) else Some (r\<lparr>h_error := Some e\<rparr>, status, False)
     | StillRunning \<Rightarrow>
         if h_error r \<noteq> None \<or> t_stopping t \<or> deadline \<le> t_now t then
           Some (if h_error r = None
                 then r\<lparr>h_error := Some (if t_stopping_again t then ECANCELED else ETIMEDOUT)\<rparr> else r, status, False)
         else helper_loop deadline ts r status)"

record helper_env =
  e_stopping :: bool
  e_pipe :: "bt_errno option"
  e_setup :: "bt_errno option list"
  e_spawn :: "bt_errno option"
  e_start :: u64
  e_turns :: "helper_turn list"
  e_term_start :: u64
  e_term_turns :: "(wait_answer \<times> u64) list"
  e_term_final :: "child_status option"
  e_last_reads :: "pipe_answer list"

text \<open>
  The calls before \<^verbatim>\<open>posix_spawn\<close> each run only when no earlier one failed;
  the first error of the sequence is the error. \<open>configure_signals\<close> is four of them.
\<close>

fun first_error :: "bt_errno option list \<Rightarrow> bt_errno option" where
  "first_error [] = None"
| "first_error (Some e # es) = Some e"
| "first_error (None # es) = first_error es"

definition helper_verdict :: "bluetooth_helper_result \<Rightarrow> bluetooth_helper_result" where
  "helper_verdict r0 =
    (let r1 = (if h_error r0 = None \<and> h_term_signal r0 \<noteq> 0 then r0\<lparr>h_error := Some EINTR\<rparr> else r0) in
     if h_error r1 = None \<and> h_exit_code r1 \<noteq> 0 then r1\<lparr>h_error := Some EIO\<rparr> else r1)"

text \<open>The result and the trace.\<close>

definition execute_helper :: "string \<Rightarrow> helper_env \<Rightarrow> bluetooth_request \<Rightarrow>
    (bluetooth_helper_result \<times> effect list) option" where
  "execute_helper helper env request =
    (let result = \<lparr>h_output = [], h_error = None, h_exit_code = - 1, h_term_signal = 0\<rparr> in
     case request_arguments helper request of
       None \<Rightarrow> Some (result\<lparr>h_error := Some EINVAL\<rparr>, [])
     | Some arguments \<Rightarrow>
       if e_stopping env then Some (result\<lparr>h_error := Some ECANCELED\<rparr>, [])
       else (case e_pipe env of
           Some e \<Rightarrow> Some (result\<lparr>h_error := Some e\<rparr>, [])
         | None \<Rightarrow>
           (case first_error (e_setup env @ [e_spawn env]) of
              Some e \<Rightarrow> Some (result\<lparr>h_error := Some e\<rparr>, [PipeOpen, CloseWrite, CloseRead])
            | None \<Rightarrow>
              do { (r, status, finished) \<leftarrow> helper_loop (e_start env + request_timeout_ms (r_action request))
                     (e_turns env) result (Exited 0);
                   (status1, trace) \<leftarrow> (if finished then Some (status, [Wait])
                     else terminate_child (e_term_start env) (e_term_turns env) status (e_term_final env));
                   Some (helper_verdict (decode_child_status (drain_output (e_last_reads env) r) status1),
                         [PipeOpen, Spawn arguments, CloseWrite] @ trace @ [CloseRead]) })))"

section \<open>Admission\<close>

lemma capability_bytes_whole:
  "capability_bytes as bs w = Some (Inr out) \<Longrightarrow> w \<le> length bs \<Longrightarrow> out = take w bs"
proof (induction as bs w arbitrary: out rule: capability_bytes.induct)
  case (4 n as bs w)
  let ?got = "min n (min (Suc w) (length bs))"
  from "4.prems"(1) obtain rest where r: "?got \<noteq> 0" "capability_bytes as (drop ?got bs) (Suc w - ?got) = Some (Inr rest)"
    "out = take ?got bs @ rest" by (auto simp: Let_def split: if_splits option.splits sum.splits)
  have "Suc w - ?got \<le> length (drop ?got bs)" using "4.prems"(2) by simp
  from "4.IH" [OF refl r(1) r(2) this] r(3) have "out = take ?got bs @ take (Suc w - ?got) (drop ?got bs)" by simp
  moreover have "?got \<le> Suc w" by simp
  ultimately show ?case by (metis le_add_diff_inverse take_add)
qed (auto split: if_splits)

text \<open>The two texts that admit the helper.\<close>

definition admitting_texts :: "string list" where
  "admitting_texts = [lines_text [BLUETOOTH_CAPABILITY_SCHEMA, ''status=PASS''],
     lines_text [''status=PASS'', BLUETOOTH_CAPABILITY_SCHEMA]]"

lemma next_line_split:
  assumes "s \<noteq> []" "last s = LF"
  shows "s = fst (next_line s) @ LF # snd (next_line s)"
    and "snd (next_line s) \<noteq> [] \<Longrightarrow> last (snd (next_line s)) = LF"
proof -
  have "LF \<in> set s" using assms by (metis last_in_set)
  then obtain l r where s: "s = l @ LF # r" "LF \<notin> set l" by (metis split_list_first)
  then have n: "next_line s = (l, r)" by simp
  with s show "s = fst (next_line s) @ LF # snd (next_line s)" by simp
  show "snd (next_line s) \<noteq> [] \<Longrightarrow> last (snd (next_line s)) = LF" using n s(1) assms(2) by simp
qed

lemma capability_third:
  "capability_lines True True a s = Inr g \<Longrightarrow>
   s = [] \<and> g = (if a then BLUETOOTH_GATE_ADMITTED else BLUETOOTH_GATE_PENDING)"
  by (subst (asm) capability_lines.simps) (auto simp: Let_def split: if_splits)

lemma capability_status_left:
  assumes "capability_lines True False a s = Inr BLUETOOTH_GATE_ADMITTED" "s \<noteq> [] \<Longrightarrow> last s = LF"
  shows "s = lines_text [''status=PASS'']"
proof -
  have "s \<noteq> []" using assms(1) by (subst (asm) capability_lines.simps) auto
  note l = next_line_split(1) [OF this assms(2) [OF this]]
  from assms(1) \<open>s \<noteq> []\<close> have c: "fst (next_line s) = ''status=PASS''"
    "capability_lines True True True (snd (next_line s)) = Inr BLUETOOTH_GATE_ADMITTED"
    by (subst (asm) capability_lines.simps; auto simp: Let_def split: if_splits dest: capability_third)+
  then show ?thesis using l capability_third [OF c(2)] by simp
qed

lemma capability_schema_left:
  assumes "capability_lines False True True s = Inr BLUETOOTH_GATE_ADMITTED" "s \<noteq> [] \<Longrightarrow> last s = LF"
  shows "s = lines_text [BLUETOOTH_CAPABILITY_SCHEMA]"
proof -
  have "s \<noteq> []" using assms(1) by (subst (asm) capability_lines.simps) auto
  note l = next_line_split(1) [OF this assms(2) [OF this]]
  from assms(1) \<open>s \<noteq> []\<close> have c: "fst (next_line s) = BLUETOOTH_CAPABILITY_SCHEMA"
    "capability_lines True True True (snd (next_line s)) = Inr BLUETOOTH_GATE_ADMITTED"
    by (subst (asm) capability_lines.simps; auto simp: Let_def split: if_splits)+
  then show ?thesis using l capability_third [OF c(2)] by simp
qed

lemma capability_schema_clean:
  "clean_line BLUETOOTH_CAPABILITY_SCHEMA" "BLUETOOTH_CAPABILITY_SCHEMA \<noteq> []" "CR \<notin> set BLUETOOTH_CAPABILITY_SCHEMA"
  by (simp_all add: BLUETOOTH_CAPABILITY_SCHEMA_def)

lemma capability_line_steps:
  "capability_lines False b a (BLUETOOTH_CAPABILITY_SCHEMA @ LF # r) = capability_lines True b a r"
  "capability_lines b False a (''status=PASS'' @ LF # r) = capability_lines b True True r"
proof -
  have p: "clean_line ''status=PASS''" "''status=PASS'' \<noteq> BLUETOOTH_CAPABILITY_SCHEMA"
    by (simp_all add: BLUETOOTH_CAPABILITY_SCHEMA_def)
  show "capability_lines False b a (BLUETOOTH_CAPABILITY_SCHEMA @ LF # r) = capability_lines True b a r"
    by (subst capability_lines.simps) (simp add: next_line_clean capability_schema_clean)
  show "capability_lines b False a (''status=PASS'' @ LF # r) = capability_lines b True True r"
    by (subst capability_lines.simps) (simp add: next_line_clean [OF p(1)] p(2) del: append_Cons)
qed

lemma capability_admits:
  "capability_text s = Inr BLUETOOTH_GATE_ADMITTED \<longleftrightarrow> s \<in> set admitting_texts"
proof
  assume a: "capability_text s = Inr BLUETOOTH_GATE_ADMITTED"
  then have s: "s \<noteq> []" "last s = LF" and c: "capability_lines False False False s = Inr BLUETOOTH_GATE_ADMITTED"
    by (auto simp: capability_text_def split: if_splits)
  note l = next_line_split [OF s]
  from c s(1) consider "fst (next_line s) = BLUETOOTH_CAPABILITY_SCHEMA"
      "capability_lines True False False (snd (next_line s)) = Inr BLUETOOTH_GATE_ADMITTED"
    | "fst (next_line s) = ''status=PASS''" "capability_lines False True True (snd (next_line s)) = Inr BLUETOOTH_GATE_ADMITTED"
    | "capability_lines False True False (snd (next_line s)) = Inr BLUETOOTH_GATE_ADMITTED"
    by (subst (asm) capability_lines.simps) (auto simp: Let_def split: if_splits)
  then show "s \<in> set admitting_texts"
  proof cases
    case 1
    from capability_status_left [OF 1(2) l(2)] 1(1) l(1) show ?thesis by (simp add: admitting_texts_def)
  next
    case 2
    from capability_schema_left [OF 2(2) l(2)] 2(1) l(1) show ?thesis by (simp add: admitting_texts_def)
  next
    case 3
    then show ?thesis
      by (subst (asm) capability_lines.simps) (auto simp: Let_def split: if_splits dest: capability_third)
  qed
next
  assume "s \<in> set admitting_texts"
  then have "capability_lines False False False s = Inr BLUETOOTH_GATE_ADMITTED"
    using capability_line_steps capability_lines.simps [of True True True "[]"]
    by (auto simp: admitting_texts_def simp del: append_Cons)
  then show "capability_text s = Inr BLUETOOTH_GATE_ADMITTED"
    using capability_schema_clean \<open>s \<in> set admitting_texts\<close>
    by (auto simp: capability_text_def admitting_texts_def clean_line_def)
qed

text \<open>The file that was opened is private to the user and of a permitted size.\<close>

definition capability_file_ok :: "capability_env \<Rightarrow> file_status \<Rightarrow> bool" where
  "capability_file_ok env f \<longleftrightarrow> cap_open env = Inr f \<and> is_regular f \<and> st_uid f = cap_euid env \<and> st_nlink f = 1 \<and>
     st_mode f AND MODE_022 = 0 \<and> st_bytes f \<noteq> [] \<and> length (st_bytes f) \<le> BLUETOOTH_CAPABILITY_MAX_BYTES"

lemma read_capability_content:
  assumes "read_capability env = Some (g, None)" "g \<noteq> BLUETOOTH_GATE_PENDING \<or> cap_open env = Inr f"
  shows "\<exists>f. capability_file_ok env f \<and> capability_text (st_bytes f) = Inr g"
proof -
  from assms obtain f content where f: "capability_file_ok env f"
    "capability_bytes (cap_reads env) (st_bytes f) (length (st_bytes f)) = Some (Inr content)" "capability_text content = Inr g"
    unfolding read_capability_def Let_def capability_file_ok_def
    by (cases "cap_open env") (auto split: if_splits option.splits sum.splits)
  from capability_bytes_whole [OF f(2)] f show ?thesis by auto
qed

lemma read_capability_error:
  "read_capability env = Some (g, e) \<Longrightarrow> g = BLUETOOTH_GATE_REJECTED \<longleftrightarrow> e \<noteq> None"
proof -
  have "capability_lines a b c s \<noteq> Inr BLUETOOTH_GATE_REJECTED" for a b c s
  proof (induction "length s" arbitrary: a b c s rule: less_induct)
    case less
    then have "capability_lines a b c (snd (next_line s)) \<noteq> Inr BLUETOOTH_GATE_REJECTED" if "s \<noteq> []" for a b c
      using next_line_shorter [OF that] by simp
    then show ?case by (subst capability_lines.simps) (simp add: Let_def)
  qed
  then have "capability_text s \<noteq> Inr BLUETOOTH_GATE_REJECTED" for s by (simp add: capability_text_def)
  then show "read_capability env = Some (g, e) \<Longrightarrow> ?thesis"
    unfolding read_capability_def Let_def
    by (cases "cap_fstat env"; cases "cap_open env")
      (auto split: if_splits option.splits sum.splits simp: eq_commute [of "Some _" "cap_fstat env"])
qed

text \<open>
  C28: the helper is admitted only through a private regular file of the user
  whose whole content is the schema line and the line status=PASS in one of
  the two orders, and such a file admits it whenever it could be read; a
  rejection always carries an error and nothing else does.
\<close>

theorem capability_gate_exact:
  assumes "read_capability env = Some (g, e)"
  shows "(g = BLUETOOTH_GATE_ADMITTED \<longleftrightarrow> e = None \<and> (\<exists>f. capability_file_ok env f \<and> st_bytes f \<in> set admitting_texts)) \<and>
    (g = BLUETOOTH_GATE_REJECTED \<longleftrightarrow> e \<noteq> None)"
proof -
  note r = read_capability_error [OF assms]
  have "g = BLUETOOTH_GATE_ADMITTED" if "e = None" "capability_file_ok env f" "st_bytes f \<in> set admitting_texts" for f
    using read_capability_content [of env g f] assms that capability_admits [of "st_bytes f"]
    by (auto simp: capability_file_ok_def)
  moreover have "e = None \<and> (\<exists>f. capability_file_ok env f \<and> st_bytes f \<in> set admitting_texts)" if "g = BLUETOOTH_GATE_ADMITTED"
    using read_capability_content [of env g] assms that r capability_admits by auto
  ultimately show ?thesis using r by blast
qed

definition sample_capability :: capability_env where
  "sample_capability = \<lparr>cap_path = None,
     cap_open = Inr \<lparr>is_regular = True, is_symlink = False, st_uid = 0, st_nlink = 1, st_mode = 420,
       st_bytes = lines_text [BLUETOOTH_CAPABILITY_SCHEMA, ''status=PASS'']\<rparr>,
     cap_fstat = None, cap_euid = 0, cap_reads = [ReadUpTo 20, ReadErr EINTR, ReadUpTo 4096]\<rparr>"

theorem capability_gate_exact_witness:
  "read_capability sample_capability = Some (BLUETOOTH_GATE_ADMITTED, None) \<and>
   (\<exists>f. capability_file_ok sample_capability f \<and> st_bytes f \<in> set admitting_texts)"
proof -
  have "read_capability sample_capability = Some (BLUETOOTH_GATE_ADMITTED, None)" by code_simp
  with capability_gate_exact [OF this] show ?thesis by simp
qed

section \<open>Running the helper\<close>

lemma drain_output_le:
  "length (h_output r) \<le> BLUETOOTH_HELPER_OUTPUT_MAX \<Longrightarrow> length (h_output (drain_output as r)) \<le> BLUETOOTH_HELPER_OUTPUT_MAX"
  by (induction as r rule: drain_output.induct) (auto simp: Let_def)

lemma helper_loop_le:
  "helper_loop deadline ts r s = Some (r1, s1, f) \<Longrightarrow> length (h_output r) \<le> BLUETOOTH_HELPER_OUTPUT_MAX \<Longrightarrow>
   length (h_output r1) \<le> BLUETOOTH_HELPER_OUTPUT_MAX"
  by (induction deadline ts r s rule: helper_loop.induct)
    (auto simp: Let_def drain_output_le split: wait_answer.splits if_splits)

lemma terminate_loop_waits:
  "terminate_loop deadline ts s final = Some (s1, tr) \<Longrightarrow> tr = [Wait] \<or> tr = [SignalKill, Wait]"
  by (induction deadline ts s final rule: terminate_loop.induct) (auto split: wait_answer.splits if_splits)

lemma helper_verdict_ok:
  "h_error (helper_verdict r) = None \<longleftrightarrow> h_error r = None \<and> h_exit_code r = 0 \<and> h_term_signal r = 0"
  "h_output (helper_verdict r) = h_output r" "h_exit_code (helper_verdict r) = h_exit_code r"
  "h_term_signal (helper_verdict r) = h_term_signal r"
  by (auto simp: helper_verdict_def Let_def)

text \<open>
  C12: whatever the system calls answer, an execution of the helper that returns
  has closed both ends of its pipe exactly once, has waited for the child it
  spawned, ran it with the request's arguments, holds at most 16 KiB of output,
  and reports success only for an exit code of zero.
\<close>

theorem execute_helper_safe:
  assumes "execute_helper helper env request = Some (res, tr)"
  shows "count_list tr CloseRead = count_list tr PipeOpen \<and> count_list tr CloseWrite = count_list tr PipeOpen \<and>
    length (filter is_Spawn tr) = count_list tr Wait \<and>
    list_all (\<lambda>e. is_Spawn e \<longrightarrow> Some e = map_option Spawn (request_arguments helper request)) tr \<and>
    length (h_output res) \<le> BLUETOOTH_HELPER_OUTPUT_MAX \<and>
    (h_error res = None \<longrightarrow> h_exit_code res = 0 \<and> h_term_signal res = 0)"
proof (cases "\<exists>as. request_arguments helper request = Some as \<and> \<not> e_stopping env \<and> e_pipe env = None \<and>
    first_error (e_setup env @ [e_spawn env]) = None")
  case False
  with assms show ?thesis by (auto simp: execute_helper_def Let_def split: option.splits if_splits)
next
  case True
  then obtain as where as: "request_arguments helper request = Some as" by blast
  with True assms obtain r s f s1 trace where
    loop: "helper_loop (e_start env + request_timeout_ms (r_action request)) (e_turns env)
       \<lparr>h_output = [], h_error = None, h_exit_code = - 1, h_term_signal = 0\<rparr> (Exited 0) = Some (r, s, f)" and
    fin: "(if f then Some (s, [Wait])
       else terminate_child (e_term_start env) (e_term_turns env) s (e_term_final env)) = Some (s1, trace)" and
    res: "res = helper_verdict (decode_child_status (drain_output (e_last_reads env) r) s1)"
    "tr = [PipeOpen, Spawn as, CloseWrite] @ trace @ [CloseRead]"
    by (auto simp: execute_helper_def Let_def split: Option.bind_splits)
  have "trace = [Wait] \<or> trace = [SignalTerm, Wait] \<or> trace = [SignalTerm, SignalKill, Wait]"
    using fin by (auto simp: terminate_child_def split: if_splits dest!: terminate_loop_waits)
  moreover have "length (h_output res) \<le> BLUETOOTH_HELPER_OUTPUT_MAX"
    using helper_loop_le [OF loop] drain_output_le [of r "e_last_reads env"]
    by (simp add: res helper_verdict_ok decode_child_status_def)
  ultimately show ?thesis
    using as by (auto simp: res helper_verdict_ok decode_child_status_def)
qed

lemma terminate_loop_returns:
  "list_ex (\<lambda>(w, now). deadline \<le> now) ts \<Longrightarrow> \<exists>s1 tr. terminate_loop deadline ts s final = Some (s1, tr)"
  by (induction deadline ts s final rule: terminate_loop.induct) (auto split: wait_answer.splits)

lemma helper_loop_returns:
  "list_ex (\<lambda>t. deadline \<le> t_now t) ts \<Longrightarrow> \<exists>r1 s1 f. helper_loop deadline ts r s = Some (r1, s1, f)"
  by (induction deadline ts r s rule: helper_loop.induct) (auto simp: Let_def split: wait_answer.splits)

text \<open>
  C13: an execution of the helper ends, even if the helper never exits and never
  closes its output: the first turn whose clock has reached the deadline of the
  action is the last one, and the child is then gone after the quarter of a
  second it has to react to SIGTERM.
\<close>

theorem execute_helper_returns:
  assumes "list_ex (\<lambda>t. e_start env + request_timeout_ms (r_action request) \<le> t_now t) (e_turns env)"
    and "list_ex (\<lambda>(w, now). e_term_start env + BLUETOOTH_CHILD_TERM_MS \<le> now) (e_term_turns env)"
  shows "\<exists>res tr. execute_helper helper env request = Some (res, tr)"
proof -
  obtain r s f where l: "helper_loop (e_start env + request_timeout_ms (r_action request)) (e_turns env)
       \<lparr>h_output = [], h_error = None, h_exit_code = - 1, h_term_signal = 0\<rparr> (Exited 0) = Some (r, s, f)"
    using helper_loop_returns [OF assms(1)] by blast
  obtain s1 tr where "terminate_loop (e_term_start env + BLUETOOTH_CHILD_TERM_MS) (e_term_turns env) s (e_term_final env) = Some (s1, tr)"
    using terminate_loop_returns [OF assms(2)] by blast
  with l show ?thesis
    by (cases f) (auto simp: execute_helper_def Let_def terminate_child_def split: option.splits)
qed

text \<open>A helper that prints half a line and hangs, ignoring SIGTERM.\<close>

definition hanging_helper :: helper_env where
  "hanging_helper = \<lparr>e_stopping = False, e_pipe = None, e_setup = [None, None], e_spawn = None, e_start = 100,
     e_turns = map (\<lambda>(rs, now). \<lparr>t_reads = rs, t_wait = StillRunning, t_stopping = False, t_now = now, t_stopping_again = False\<rparr>)
       [([PipeBytes ''RG40''], 125), ([PipeErr EAGAIN], 5100)],
     e_term_start = 5100, e_term_turns = [(StillRunning, 5110), (StillRunning, 5350)],
     e_term_final = Some (Signaled 9), e_last_reads = []\<rparr>"

definition status_request :: bluetooth_request where
  "status_request = \<lparr>r_action = BLUETOOTH_ACTION_STATUS, r_request_id = 1, r_address = [], r_powered = False\<rparr>"

lemma hanging_helper_run:
  "execute_helper ''/h'' hanging_helper status_request =
    Some (\<lparr>h_output = ''RG40'', h_error = Some ETIMEDOUT, h_exit_code = - 1, h_term_signal = 9\<rparr>,
          [PipeOpen, Spawn [''/h'', ''status''], CloseWrite, SignalTerm, SignalKill, Wait, CloseRead])"
  by code_simp

theorem execute_helper_safe_witness:
  "\<exists>res tr. execute_helper ''/h'' hanging_helper status_request = Some (res, tr) \<and>
    count_list tr CloseRead = 1 \<and> length (filter is_Spawn tr) = count_list tr Wait"
  using execute_helper_safe [OF hanging_helper_run] hanging_helper_run by simp

theorem execute_helper_returns_witness:
  "\<exists>res tr. execute_helper ''/h'' hanging_helper status_request = Some (res, tr)"
  by (rule execute_helper_returns) code_simp+

end
