(* ===== verification/Fifo.thy ===== *)
theory Fifo
  imports Prelude
begin

text \<open>
  The contract of a bounded first-in first-out queue and its realisation as a
  ring in an array: a head index, a count, and indices modulo the array's
  size. Both background workers of the shell keep their requests in such a
  ring. \<open>fifo\<close> is what a client may rely on; the fact it is used for is that
  whatever the interleaving of requests and removals, what comes out followed
  by what is still inside is what was inside followed by what was accepted.
\<close>

datatype 'a queue_op = Enq 'a | Deq

locale fifo =
  fixes abs_queue :: "'q \<Rightarrow> 'a list"
    and invar :: "'q \<Rightarrow> bool"
    and enq :: "'a \<Rightarrow> 'q \<Rightarrow> 'q option"
    and deq :: "'q \<Rightarrow> ('a \<times> 'q) option"
    and capacity :: nat
  assumes enq_full: "invar q \<Longrightarrow> capacity \<le> length (abs_queue q) \<Longrightarrow> enq x q = None"
    and enq_room: "invar q \<Longrightarrow> length (abs_queue q) < capacity \<Longrightarrow>
      \<exists>q1. enq x q = Some q1 \<and> invar q1 \<and> abs_queue q1 = abs_queue q @ [x]"
    and deq_empty: "invar q \<Longrightarrow> abs_queue q = [] \<Longrightarrow> deq q = None"
    and deq_head: "invar q \<Longrightarrow> abs_queue q \<noteq> [] \<Longrightarrow>
      \<exists>q1. deq q = Some (hd (abs_queue q), q1) \<and> invar q1 \<and> abs_queue q1 = tl (abs_queue q)"
begin

text \<open>The queue after the operations, what was accepted and what was removed.\<close>

fun serve :: "'q \<Rightarrow> 'a queue_op list \<Rightarrow> 'q \<times> 'a list \<times> 'a list" where
  "serve q [] = (q, [], [])"
| "serve q (Enq x # ops) =
    (case enq x q of
       None \<Rightarrow> serve q ops
     | Some q1 \<Rightarrow> (case serve q1 ops of (q2, accepted, removed) \<Rightarrow> (q2, x # accepted, removed)))"
| "serve q (Deq # ops) =
    (case deq q of
       None \<Rightarrow> serve q ops
     | Some (x, q1) \<Rightarrow> (case serve q1 ops of (q2, accepted, removed) \<Rightarrow> (q2, accepted, x # removed)))"

lemma serve_fifo:
  "invar q \<Longrightarrow> serve q ops = (q2, accepted, removed) \<Longrightarrow>
   invar q2 \<and> removed @ abs_queue q2 = abs_queue q @ accepted"
proof (induction q ops arbitrary: accepted removed rule: serve.induct)
  case (2 q x ops)
  show ?case
  proof (cases "enq x q")
    case None
    with 2 show ?thesis by simp
  next
    case (Some q1)
    then have "\<not> capacity \<le> length (abs_queue q)" using enq_full [OF "2.prems"(1), of x] by auto
    with enq_room [OF "2.prems"(1), of x] Some have q1: "invar q1" "abs_queue q1 = abs_queue q @ [x]" by auto
    from 2 Some obtain acc where "serve q1 ops = (q2, acc, removed)" "accepted = x # acc"
      by (auto split: prod.splits)
    with "2.IH"(2) [OF Some q1(1)] q1(2) show ?thesis by simp
  qed
next
  case (3 q ops)
  show ?case
  proof (cases "abs_queue q = []")
    case True
    with deq_empty [OF "3.prems"(1)] 3 show ?thesis by simp
  next
    case False
    from deq_head [OF "3.prems"(1) False] obtain q1 where q1: "deq q = Some (hd (abs_queue q), q1)" "invar q1"
      "abs_queue q1 = tl (abs_queue q)" by blast
    from "3.prems"(2) q1(1) obtain rem where r: "serve q1 ops = (q2, accepted, rem)" "removed = hd (abs_queue q) # rem"
      by (auto split: prod.splits)
    from "3.IH"(2) [OF q1(1) refl q1(2) r(1)] q1(3) r(2) False show ?thesis by (cases "abs_queue q") auto
  qed
qed simp

lemma serve_bounded:
  "invar q \<Longrightarrow> length (abs_queue q) \<le> capacity \<Longrightarrow> serve q ops = (q2, accepted, removed) \<Longrightarrow>
   length (abs_queue q2) \<le> capacity"
proof (induction q ops arbitrary: accepted removed rule: serve.induct)
  case (2 q x ops)
  show ?case
  proof (cases "enq x q")
    case None
    with 2 show ?thesis by simp
  next
    case (Some q1)
    then have "\<not> capacity \<le> length (abs_queue q)" using enq_full [OF "2.prems"(1), of x] by auto
    with enq_room [OF "2.prems"(1), of x] Some have q1: "invar q1" "length (abs_queue q1) \<le> capacity" by auto
    from 2 Some obtain acc where "serve q1 ops = (q2, acc, removed)" by (auto split: prod.splits)
    from "2.IH"(2) [OF Some q1 this] show ?thesis .
  qed
next
  case (3 q ops)
  show ?case
  proof (cases "abs_queue q = []")
    case True
    with deq_empty [OF "3.prems"(1)] 3 show ?thesis by simp
  next
    case False
    from deq_head [OF "3.prems"(1) False] obtain q1 where q1: "deq q = Some (hd (abs_queue q), q1)" "invar q1"
      "abs_queue q1 = tl (abs_queue q)" by blast
    then have len: "length (abs_queue q1) \<le> capacity" using "3.prems"(2) by simp
    from "3.prems"(3) q1(1) obtain rem where "serve q1 ops = (q2, accepted, rem)" by (auto split: prod.splits)
    from "3.IH"(2) [OF q1(1) refl q1(2) len this] show ?thesis .
  qed
qed simp

end

section \<open>The ring\<close>

record 'a ring =
  slots :: "'a list"
  head :: nat
  count :: nat

definition ring_enq :: "'a \<Rightarrow> 'a ring \<Rightarrow> 'a ring option" where
  "ring_enq x r =
    (if length (slots r) \<le> count r then None
     else Some (r\<lparr>slots := (slots r)[(head r + count r) mod length (slots r) := x], count := count r + 1\<rparr>))"

definition ring_deq :: "'a ring \<Rightarrow> ('a \<times> 'a ring) option" where
  "ring_deq r =
    (if count r = 0 then None
     else Some (slots r ! head r, r\<lparr>head := (head r + 1) mod length (slots r), count := count r - 1\<rparr>))"

definition ring_inv :: "nat \<Rightarrow> 'a ring \<Rightarrow> bool" where
  "ring_inv n r \<longleftrightarrow> length (slots r) = n \<and> 0 < n \<and> head r < n \<and> count r \<le> n"

definition ring_abs :: "'a ring \<Rightarrow> 'a list" where
  "ring_abs r = map (\<lambda>i. slots r ! ((head r + i) mod length (slots r))) [0..<count r]"

lemma length_ring_abs [simp]: "length (ring_abs r) = count r"
  by (simp add: ring_abs_def)

text \<open>Two places of the ring within one round are different.\<close>

lemma ring_places: "i < j \<Longrightarrow> j < n \<Longrightarrow> (h + i) mod n \<noteq> (h + j) mod (n :: nat)"
proof
  assume "i < j" "j < n" "(h + i) mod n = (h + j) mod n"
  have "h + i \<le> h + j" using \<open>i < j\<close> by simp
  then have "n dvd (h + j) - (h + i)"
    by (rule iffD1 [OF mod_eq_dvd_iff_nat]) (rule \<open>(h + i) mod n = (h + j) mod n\<close> [symmetric])
  then have "n dvd j - i" by simp
  then have "n \<le> j - i" by (rule dvd_imp_le) (use \<open>i < j\<close> in simp)
  with \<open>j < n\<close> show False by simp
qed

lemma ring_enq_abs:
  assumes "ring_inv n r" "count r < n"
  shows "\<exists>r1. ring_enq x r = Some r1 \<and> ring_inv n r1 \<and> ring_abs r1 = ring_abs r @ [x]"
proof -
  from assms have n: "length (slots r) = n" "0 < n" "head r < n" by (simp_all add: ring_inv_def)
  let ?t = "(head r + count r) mod n"
  let ?r = "r\<lparr>slots := (slots r)[?t := x], count := count r + 1\<rparr>"
  have "(slots r)[?t := x] ! ((head r + i) mod n) = slots r ! ((head r + i) mod n)" if "i < count r" for i
    using ring_places [OF that assms(2), of "head r"] by (simp add: nth_list_update_neq)
  then have "ring_abs ?r = ring_abs r @ [x]"
    using n by (auto simp: ring_abs_def)
  moreover have "ring_enq x r = Some ?r" "ring_inv n ?r"
    using assms n by (simp_all add: ring_enq_def ring_inv_def)
  ultimately show ?thesis by blast
qed

lemma ring_deq_abs:
  assumes "ring_inv n r" "0 < count r"
  shows "\<exists>r1. ring_deq r = Some (hd (ring_abs r), r1) \<and> ring_inv n r1 \<and> ring_abs r1 = tl (ring_abs r)"
proof -
  from assms have n: "length (slots r) = n" "0 < n" "head r < n" by (simp_all add: ring_inv_def)
  let ?r = "r\<lparr>head := (head r + 1) mod n, count := count r - 1\<rparr>"
  obtain k where k: "count r = Suc k" using assms(2) by (cases "count r") auto
  have m: "(Suc (head r) mod n + i) mod n = (head r + Suc i) mod n" for i
    by (metis add_Suc_right add_Suc mod_add_left_eq)
  have "ring_abs r = slots r ! head r # map (\<lambda>i. slots r ! ((head r + Suc i) mod n)) [0..<k]"
    using n k by (simp add: ring_abs_def upt_conv_Cons map_Suc_upt [symmetric] del: upt_Suc)
  moreover have "ring_abs ?r = map (\<lambda>i. slots r ! ((head r + Suc i) mod n)) [0..<k]"
    using n k m by (simp add: ring_abs_def)
  ultimately show ?thesis using assms n by (simp add: ring_deq_def ring_inv_def)
qed

interpretation ring: fifo ring_abs "ring_inv n" ring_enq ring_deq n
  for n :: nat
proof
  fix r :: "'a ring" and x
  assume i: "ring_inv n r"
  show "n \<le> length (ring_abs r) \<Longrightarrow> ring_enq x r = None" using i by (simp add: ring_inv_def ring_enq_def)
  show "length (ring_abs r) < n \<Longrightarrow> \<exists>q1. ring_enq x r = Some q1 \<and> ring_inv n q1 \<and> ring_abs q1 = ring_abs r @ [x]"
    using ring_enq_abs [OF i] by simp
  show "ring_abs r = [] \<Longrightarrow> ring_deq r = None" using length_ring_abs [of r] by (simp add: ring_deq_def)
  show "ring_abs r \<noteq> [] \<Longrightarrow> \<exists>q1. ring_deq r = Some (hd (ring_abs r), q1) \<and> ring_inv n q1 \<and> ring_abs q1 = tl (ring_abs r)"
    using ring_deq_abs [OF i] by (simp flip: length_greater_0_conv)
qed

end
