(* ===== verification/Bluetooth_Backend.thy ===== *)
theory Bluetooth_Backend
  imports Bluetooth_Helper Fifo Machines
begin

text \<open>
  The shell's Bluetooth backend (\<^verbatim>\<open>components/rg40xxv-shell/src/bluetooth_backend.c\<close>):
  a queue of requests, one worker that runs the helper for each of them, and
  the snapshot it publishes for the user interface. Every section the code runs
  under the mutex is one step; the steps of the worker and of the client
  interleave freely. A log records which requests were accepted, which were
  taken and which snapshots were published.
\<close>

section \<open>State\<close>

record bluetooth_backend =
  published :: bluetooth_backend_snapshot
  confirmed :: bluetooth_backend_snapshot
  requests :: "bluetooth_request ring"
  next_request_id :: u64
  helper_path :: string
  child_pgid :: int
  running :: bool
  thread_started :: bool

definition zero_request :: bluetooth_request where
  "zero_request = \<lparr>r_action = BLUETOOTH_ACTION_NONE, r_request_id = 0, r_address = [], r_powered = False\<rparr>"

definition empty_requests :: "bluetooth_request ring" where
  "empty_requests = \<lparr>slots = replicate BLUETOOTH_REQUEST_QUEUE zero_request, head = 0, count = 0\<rparr>"

section \<open>Publishing\<close>

definition next_generation :: "u64 \<Rightarrow> u64" where
  "next_generation g = (if g + 1 = 0 then 1 else g + 1)"

definition publish_locked :: "bluetooth_backend \<Rightarrow> bluetooth_backend_snapshot \<Rightarrow> bluetooth_backend" where
  "publish_locked b snap = b\<lparr>published := snap\<lparr>generation := next_generation (generation (published b))\<rparr>\<rparr>"

definition publish_working :: "bluetooth_backend \<Rightarrow> bluetooth_request \<Rightarrow> bluetooth_backend" where
  "publish_working b request =
    publish_locked b ((confirmed b)\<lparr>phase := BLUETOOTH_PHASE_WORKING, last_action := r_action request,
      active_request_id := r_request_id request\<rparr>)"

definition publish_success :: "bluetooth_backend \<Rightarrow> bluetooth_backend_snapshot \<Rightarrow> bluetooth_request \<Rightarrow> bluetooth_backend" where
  "publish_success b snap request =
    (let done = snap\<lparr>gate := BLUETOOTH_GATE_ADMITTED, phase := BLUETOOTH_PHASE_READY, last_action := r_action request,
           active_request_id := 0, completed_request_id := r_request_id request, last_error := None,
           helper_exit_code := 0, helper_term_signal := 0\<rparr>;
         b1 = publish_locked (b\<lparr>confirmed := done\<rparr>) done
     in b1\<lparr>confirmed := (confirmed b1)\<lparr>generation := generation (published b1)\<rparr>\<rparr>)"

text \<open>The loop over the previous devices, with the devices of the new snapshot so far.\<close>

fun retain_loop :: "bluetooth_device_snapshot list \<Rightarrow> bluetooth_device_snapshot list \<Rightarrow> bluetooth_device_snapshot list" where
  "retain_loop [] ds = ds"
| "retain_loop (d # previous) ds =
    (if s_paired d \<or> s_trusted d \<or> s_connected d then retain_loop previous ds
     else if list_ex (\<lambda>x. strcmp (s_address x) (s_address d) = 0) ds \<or> BLUETOOTH_BACKEND_MAX_DEVICES \<le> length ds
       then retain_loop previous ds
     else retain_loop previous (ds @ [d]))"

definition retain_discovered :: "bluetooth_backend \<Rightarrow> bluetooth_backend_snapshot \<Rightarrow> bluetooth_request \<Rightarrow> bluetooth_backend_snapshot" where
  "retain_discovered b snap request =
    (if r_action request = BLUETOOTH_ACTION_SCAN \<or> \<not> s_adapter_present snap \<or> \<not> s_powered snap then snap
     else if gate (confirmed b) \<noteq> BLUETOOTH_GATE_ADMITTED \<or> \<not> s_powered (confirmed b) then snap
     else snap\<lparr>s_devices := retain_loop (s_devices (confirmed b)) (s_devices snap)\<rparr>)"

definition publish_failure :: "bluetooth_backend \<Rightarrow> bluetooth_request \<Rightarrow> bluetooth_helper_result \<Rightarrow> bt_errno option \<Rightarrow> bluetooth_backend" where
  "publish_failure b request result error =
    (let snap = (confirmed b)\<lparr>phase := BLUETOOTH_PHASE_ERROR, last_action := r_action request, active_request_id := 0,
           completed_request_id := r_request_id request,
           last_error := (case error of None \<Rightarrow> Some EIO | Some e \<Rightarrow> Some e),
           helper_exit_code := h_exit_code result, helper_term_signal := h_term_signal result\<rparr>;
         b1 = publish_locked (b\<lparr>confirmed := snap\<rparr>) snap
     in b1\<lparr>confirmed := (confirmed b1)\<lparr>generation := generation (published b1)\<rparr>\<rparr>)"

section \<open>The client's operations\<close>

fun action_code :: "bluetooth_backend_action \<Rightarrow> nat" where
  "action_code BLUETOOTH_ACTION_NONE = 0"
| "action_code BLUETOOTH_ACTION_STATUS = 1"
| "action_code BLUETOOTH_ACTION_SCAN = 2"
| "action_code BLUETOOTH_ACTION_POWER = 3"
| "action_code BLUETOOTH_ACTION_PAIR = 4"
| "action_code BLUETOOTH_ACTION_CONNECT = 5"
| "action_code BLUETOOTH_ACTION_DISCONNECT = 6"
| "action_code BLUETOOTH_ACTION_FORGET = 7"

definition bluetooth_backend_available :: "bluetooth_backend option \<Rightarrow> bool" where
  "bluetooth_backend_available backend =
    (case backend of None \<Rightarrow> False
     | Some b \<Rightarrow> running b \<and> thread_started b \<and> gate (published b) = BLUETOOTH_GATE_ADMITTED)"

text \<open>
  The error or the new backend with the request id. A null request id pointer
  is a caller's error with no effect and is left out; a null backend is \<open>None\<close>.
\<close>

definition enqueue_request :: "bluetooth_backend option \<Rightarrow> bluetooth_backend_action \<Rightarrow> bool \<Rightarrow> string option \<Rightarrow>
    bt_errno + bluetooth_backend \<times> u64" where
  "enqueue_request backend action on addr =
    (case backend of
       None \<Rightarrow> Inl EINVAL
     | Some b \<Rightarrow>
       if action_code action \<le> 0 \<or> 7 < action_code action then Inl EINVAL
       else if addr \<noteq> None \<and> normalize_mac addr = None then Inl EINVAL
       else
         let a = (case addr of None \<Rightarrow> [] | Some t \<Rightarrow> the (normalize_mac addr)) in
         if 4 \<le> action_code action \<and> a = [] then Inl EINVAL
         else if \<not> running b \<or> \<not> thread_started b \<or> gate (published b) \<noteq> BLUETOOTH_GATE_ADMITTED then Inl ENODEV
         else
           let n = next_request_id b + 1; n1 = (if n = 0 then n + 1 else n);
               request = \<lparr>r_action = action, r_request_id = n1, r_address = a, r_powered = on\<rparr> in
           (case ring_enq request (requests b) of
              None \<Rightarrow> Inl EAGAIN
            | Some q \<Rightarrow> Inr (b\<lparr>next_request_id := n1, requests := q\<rparr>, n1)))"

definition bluetooth_backend_request_status where
  "bluetooth_backend_request_status b = enqueue_request b BLUETOOTH_ACTION_STATUS False None"

definition bluetooth_backend_request_scan where
  "bluetooth_backend_request_scan b = enqueue_request b BLUETOOTH_ACTION_SCAN False None"

definition bluetooth_backend_request_power where
  "bluetooth_backend_request_power b on = enqueue_request b BLUETOOTH_ACTION_POWER on None"

definition bluetooth_backend_request_pair where
  "bluetooth_backend_request_pair b addr = enqueue_request b BLUETOOTH_ACTION_PAIR False addr"

definition bluetooth_backend_request_connect where
  "bluetooth_backend_request_connect b addr = enqueue_request b BLUETOOTH_ACTION_CONNECT False addr"

definition bluetooth_backend_request_disconnect where
  "bluetooth_backend_request_disconnect b addr = enqueue_request b BLUETOOTH_ACTION_DISCONNECT False addr"

definition bluetooth_backend_request_forget where
  "bluetooth_backend_request_forget b addr = enqueue_request b BLUETOOTH_ACTION_FORGET False addr"

text \<open>The snapshot when there is a new one, and the generation to remember.\<close>

definition bluetooth_backend_poll :: "bluetooth_backend \<Rightarrow> u64 \<Rightarrow> bluetooth_backend_snapshot option \<times> u64" where
  "bluetooth_backend_poll b last_generation =
    (if generation (published b) \<noteq> last_generation then (Some (published b), generation (published b))
     else (None, last_generation))"

text \<open>
  The locked section of \<open>bluetooth_backend_stop\<close> and the process group that is
  sent \<open>SIGTERM\<close>. What follows waits for the worker and frees the backend.
\<close>

definition bluetooth_backend_stop :: "bluetooth_backend \<Rightarrow> bluetooth_backend \<times> int option" where
  "bluetooth_backend_stop b =
    (b\<lparr>running := False, requests := (requests b)\<lparr>count := 0\<rparr>\<rparr>,
     if 1 < child_pgid b then Some (child_pgid b) else None)"

definition backend_stopping :: "bluetooth_backend \<Rightarrow> bool" where
  "backend_stopping b \<longleftrightarrow> \<not> running b"

definition set_child_pgid :: "bluetooth_backend \<Rightarrow> int \<Rightarrow> bluetooth_backend" where
  "set_child_pgid b pgid = b\<lparr>child_pgid := pgid\<rparr>"

section \<open>Starting\<close>

definition blank_backend :: "string \<Rightarrow> bluetooth_backend_snapshot \<Rightarrow> bluetooth_backend" where
  "blank_backend helper snap = \<lparr>published = snap, confirmed = snap, requests = empty_requests, next_request_id = 0,
     helper_path = helper, child_pgid = 0, running = False, thread_started = False\<rparr>"

text \<open>
  \<open>memory\<close> says whether the allocation and both locks succeed, \<open>thread\<close> whether
  the worker can be created; \<open>capability\<close> and \<open>helper_check\<close> are the results of
  \<open>read_capability\<close> and \<open>validate_helper\<close>.
\<close>

definition bluetooth_backend_start :: "string option \<Rightarrow> bool \<Rightarrow> bluetooth_backend_gate \<times> bt_errno option \<Rightarrow> bt_errno option \<Rightarrow> bool \<Rightarrow>
    bt_errno + bluetooth_backend" where
  "bluetooth_backend_start helper memory capability helper_check thread =
    (case helper of
       None \<Rightarrow> Inl EINVAL
     | Some h \<Rightarrow>
       if h = [] \<or> hd h \<noteq> CHR ''/'' \<or> PATH_MAX \<le> length h then Inl EINVAL
       else if \<not> memory then Inl ENOMEM
       else
         let hp = snprintf_s PATH_MAX h in
         (case fst capability of
            BLUETOOTH_GATE_PENDING \<Rightarrow>
              Inr (blank_backend hp ((snapshot_init BLUETOOTH_GATE_PENDING BLUETOOTH_PHASE_PENDING)\<lparr>generation := 1\<rparr>))
          | BLUETOOTH_GATE_REJECTED \<Rightarrow>
              Inr (blank_backend hp ((snapshot_init BLUETOOTH_GATE_REJECTED BLUETOOTH_PHASE_ERROR)\<lparr>generation := 1,
                last_error := (case snd capability of None \<Rightarrow> Some EACCES | Some e \<Rightarrow> Some e)\<rparr>))
          | BLUETOOTH_GATE_ADMITTED \<Rightarrow>
            (case helper_check of
               Some e \<Rightarrow> Inr (blank_backend hp ((snapshot_init BLUETOOTH_GATE_ADMITTED BLUETOOTH_PHASE_ERROR)\<lparr>generation := 1,
                 last_error := Some e\<rparr>))
             | None \<Rightarrow>
               let snap = (snapshot_init BLUETOOTH_GATE_ADMITTED BLUETOOTH_PHASE_LOADING)\<lparr>generation := 1\<rparr>;
                   first = \<lparr>r_action = BLUETOOTH_ACTION_STATUS, r_request_id = 1, r_address = [], r_powered = False\<rparr>;
                   b = (blank_backend hp snap)\<lparr>running := True, next_request_id := 1,
                     requests := empty_requests\<lparr>slots := (slots empty_requests)[0 := first], count := 1\<rparr>\<rparr> in
               if thread then Inr (b\<lparr>thread_started := True\<rparr>)
               else
                 let failed = snap\<lparr>phase := BLUETOOTH_PHASE_ERROR, last_error := Some EAGAIN\<rparr> in
                 Inr (b\<lparr>running := False, requests := (requests b)\<lparr>count := 0\<rparr>, published := failed, confirmed := failed\<rparr>))))"

section \<open>The worker\<close>

datatype worker = Waiting | Taken bluetooth_request | Running bluetooth_request
  | Finished bluetooth_request bluetooth_helper_result | Parsed bluetooth_request bluetooth_backend_snapshot | Exited_Worker

datatype log_entry = Accepted bluetooth_request | Served bluetooth_request | Published bluetooth_backend_snapshot

record bt_system =
  backend :: bluetooth_backend
  worker :: worker
  log :: "log_entry list"

text \<open>
  The steps of \<open>worker_main\<close>, one per locked section; only the test for a
  stop after an execution is one step with the failure published next, where a
  stop in between would commute with the publication. \<open>Helper\<close> carries what the
  system calls of one execution answer; an execution that has not returned
  leaves the worker where it is.
\<close>

definition worker_take :: "bt_system \<Rightarrow> bt_system" where
  "worker_take s =
    (let b = backend s in
     if \<not> running b then s\<lparr>worker := Exited_Worker\<rparr>
     else case ring_deq (requests b) of
         None \<Rightarrow> s
       | Some (request, q) \<Rightarrow>
           s\<lparr>backend := b\<lparr>requests := q\<rparr>, worker := Taken request, log := log s @ [Served request]\<rparr>)"

definition publish :: "bt_system \<Rightarrow> bluetooth_backend \<Rightarrow> worker \<Rightarrow> bt_system" where
  "publish s b w = s\<lparr>backend := b, worker := w, log := log s @ [Published (published b)]\<rparr>"

definition worker_result :: "bt_system \<Rightarrow> bluetooth_request \<Rightarrow> bluetooth_helper_result \<Rightarrow> bt_system" where
  "worker_result s request result =
    (let b = backend s in
     if backend_stopping b then s\<lparr>worker := Exited_Worker\<rparr>
     else if h_error result \<noteq> None then publish s (publish_failure b request result (h_error result)) Waiting
     else case parse_snapshot (h_output result) of
         Inl e \<Rightarrow> publish s (publish_failure b request result (Some e)) Waiting
       | Inr snap \<Rightarrow> s\<lparr>worker := Parsed request (retain_discovered b snap request)\<rparr>)"

definition worker_step :: "bt_system \<Rightarrow> helper_env \<Rightarrow> bt_system" where
  "worker_step s env =
    (case worker s of
       Waiting \<Rightarrow> worker_take s
     | Taken request \<Rightarrow> publish s (publish_working (backend s) request) (Running request)
     | Running request \<Rightarrow>
         (case execute_helper (helper_path (backend s)) env request of
            None \<Rightarrow> s
          | Some (result, trace) \<Rightarrow> s\<lparr>backend := set_child_pgid (backend s) 0, worker := Finished request result\<rparr>)
     | Finished request result \<Rightarrow> worker_result s request result
     | Parsed request snap \<Rightarrow> publish s (publish_success (backend s) snap request) Waiting
     | Exited_Worker \<Rightarrow> s)"

datatype bt_event = Request bluetooth_backend_action bool "string option" | Stop | Work helper_env | Child int

text \<open>\<open>Child\<close> is \<open>set_child_pgid\<close> of a running execution.\<close>

definition bt_step :: "bt_system \<Rightarrow> bt_event \<Rightarrow> bt_system \<times> (bt_errno + u64)" where
  "bt_step s ev =
    (case ev of
       Request action on addr \<Rightarrow>
         (case enqueue_request (Some (backend s)) action on addr of
            Inl e \<Rightarrow> (s, Inl e)
          | Inr (b, i) \<Rightarrow>
              (s\<lparr>backend := b, log := log s @ [Accepted (last (ring_abs (requests b)))]\<rparr>, Inr i))
     | Stop \<Rightarrow> (s\<lparr>backend := fst (bluetooth_backend_stop (backend s))\<rparr>, Inr 0)
     | Work env \<Rightarrow> (worker_step s env, Inr 0)
     | Child pgid \<Rightarrow>
         (case worker s of Running request \<Rightarrow> (s\<lparr>backend := set_child_pgid (backend s) pgid\<rparr>, Inr 0) | _ \<Rightarrow> (s, Inr 0)))"

definition bt_initial :: "bluetooth_backend \<Rightarrow> bt_system" where
  "bt_initial b = \<lparr>backend = b, worker = (if thread_started b then Waiting else Exited_Worker),
     log = map Accepted (ring_abs (requests b))\<rparr>"

section \<open>What the user interface may rely on in a snapshot\<close>

definition device_ok :: "bluetooth_device_snapshot \<Rightarrow> bool" where
  "device_ok d \<longleftrightarrow> normalize_mac (Some (s_address d)) = Some (s_address d) \<and> s_name d \<noteq> [] \<and>
     length (s_name d) < BLUETOOTH_BACKEND_NAME_SIZE \<and> utf8_text_valid (s_name d) \<and>
     (- 127 \<le> s_rssi d \<and> s_rssi d \<le> 20 \<or> s_rssi d = 127)"

definition snapshot_ok :: "bluetooth_backend_snapshot \<Rightarrow> bool" where
  "snapshot_ok snap \<longleftrightarrow> length (s_devices snap) \<le> BLUETOOTH_BACKEND_MAX_DEVICES \<and>
     distinct (map s_address (s_devices snap)) \<and> list_all device_ok (s_devices snap)"

lemma address_present: "list_ex (\<lambda>x. s_address x = a) ds \<longleftrightarrow> a \<in> s_address ` set ds"
  by (auto simp: list_ex_iff)

lemma snapshot_ok_cong: "s_devices x = s_devices y \<Longrightarrow> snapshot_ok x = snapshot_ok y"
  by (simp add: snapshot_ok_def)

lemma decode_name_loop_le: "decode_name_loop k t = Some out \<Longrightarrow> out \<noteq> [] \<Longrightarrow> k + length out < BLUETOOTH_BACKEND_NAME_SIZE"
proof (induction k t arbitrary: out rule: decode_name_loop.induct)
  case (2 k c cs)
  from "2.prems"(1) obtain v rest more where o: "out = v # rest" "k + 1 < BLUETOOTH_BACKEND_NAME_SIZE"
    "decode_name_loop (k + 1) more = Some rest"
    and m: "c = CHR ''%'' \<Longrightarrow> \<exists>h l. cs = h # l # more \<and> bt_hex_value h \<noteq> None \<and> bt_hex_value l \<noteq> None" "c \<noteq> CHR ''%'' \<Longrightarrow> more = cs"
    by (auto split: if_splits list.splits option.splits)
  have "rest \<noteq> [] \<Longrightarrow> k + 1 + length rest < BLUETOOTH_BACKEND_NAME_SIZE"
  proof (cases "c = CHR ''%''")
    case True
    then show "rest \<noteq> [] \<Longrightarrow> ?thesis" using m(1) "2.IH"(1) o(2,3) by fastforce
  next
    case False
    then show "rest \<noteq> [] \<Longrightarrow> ?thesis" using m(2) "2.IH"(2) o(2,3) by simp
  qed
  with o show ?case by (cases rest) auto
qed simp

lemma parse_device_fields_ok:
  assumes "parse_device_fields a fs = Some d" "normalize_mac (Some t) = Some a"
  shows "device_ok d" "s_address d = a"
proof -
  have a: "length a = 17" "normalize_mac (Some a) = Some a"
    using assms(2) normalize_mac_result by (auto simp: normalize_mac_same)
  from assms(1) obtain n r where d: "decode_name (fs ! 2) = Some n" "parse_rssi (fs ! 7) = Some r"
    "s_address d = take 17 a" "s_name d = n" "s_rssi d = r"
    by (auto simp: parse_device_fields_def snprintf_s_def backend_limits split: Option.bind_splits)
  show "s_address d = a" using d(3) a(1) by simp
  moreover have "n \<noteq> []" "length n < BLUETOOTH_BACKEND_NAME_SIZE" "utf8_text_valid n"
    using d(1) decode_name_loop_le [of 0 "fs ! 2" n] by (auto simp: decode_name_def split: if_splits option.splits)
  moreover have "- 127 \<le> r \<and> r \<le> 20 \<or> r = 127"
    using d(2) by (auto simp: parse_rssi_def split: prod.splits if_splits)
  ultimately show "device_ok d" using d a by (simp add: device_ok_def)
qed

lemma parse_device_line_ok:
  assumes "parse_device_line line snap = Inr snap1" "snapshot_ok snap"
  shows "snapshot_ok snap1"
proof -
  from assms(1) obtain fs a d where d: "length (s_devices snap) < BLUETOOTH_BACKEND_MAX_DEVICES"
    "normalize_mac (Some (fs ! 1)) = Some a" "\<not> list_ex (\<lambda>d. strcmp (s_address d) a = 0) (s_devices snap)"
    "parse_device_fields a fs = Some d" "snap1 = snap\<lparr>s_devices := s_devices snap @ [d]\<rparr>"
    unfolding parse_device_line_def by (auto simp: not_le split: if_splits option.splits)
  from parse_device_fields_ok [OF d(4,2)] d assms(2) show ?thesis
    by (auto simp: snapshot_ok_def list_ex_iff)
qed

lemma parse_adapter_line_devices: "parse_adapter_line line snap = Some snap1 \<Longrightarrow> s_devices snap1 = s_devices snap"
  by (auto simp: parse_adapter_line_def split: Option.bind_splits if_splits)

lemma parse_snapshot_lines_ok:
  "parse_snapshot_lines n seen snap s = Inr (n1, seen1, snap1) \<Longrightarrow> snapshot_ok snap \<Longrightarrow> snapshot_ok snap1"
proof (induction "length s" arbitrary: n seen snap s rule: less_induct)
  case less
  show ?case
  proof (cases "s = []")
    case True
    with less.prems show ?thesis by (simp add: parse_snapshot_lines.simps)
  next
    case False
    from less.prems(1) False obtain n2 seen2 snap2 where
      r: "parse_snapshot_lines n2 seen2 snap2 (snd (next_line s)) = Inr (n1, seen1, snap1)" and
      k: "snap2 = snap \<or> parse_adapter_line (fst (next_line s)) snap = Some snap2 \<or>
          parse_device_line (fst (next_line s)) snap = Inr snap2"
      by (subst (asm) parse_snapshot_lines.simps) (auto simp: Let_def split: if_splits option.splits sum.splits)
    from k less.prems(2) have "snapshot_ok snap2"
      using parse_device_line_ok parse_adapter_line_devices snapshot_ok_cong by metis
    with less.hyps [OF next_line_shorter [OF False] r] show ?thesis .
  qed
qed

lemma parse_snapshot_ok: "parse_snapshot out = Inr snap \<Longrightarrow> snapshot_ok snap"
  using parse_snapshot_lines_ok [of 0 False "snapshot_init BLUETOOTH_GATE_ADMITTED BLUETOOTH_PHASE_READY" out]
  by (auto simp: parse_snapshot_def snapshot_ok_def snapshot_init_def split: if_splits sum.splits prod.splits)

text \<open>Carrying devices over keeps the snapshot well formed and every device it had.\<close>

lemma retain_loop_ok:
  "list_all device_ok previous \<Longrightarrow> list_all device_ok ds \<Longrightarrow> distinct (map s_address ds) \<Longrightarrow>
   length ds \<le> BLUETOOTH_BACKEND_MAX_DEVICES \<Longrightarrow>
   list_all device_ok (retain_loop previous ds) \<and> distinct (map s_address (retain_loop previous ds)) \<and>
   length (retain_loop previous ds) \<le> BLUETOOTH_BACKEND_MAX_DEVICES"
  by (induction previous ds rule: retain_loop.induct) (simp_all add: address_present)

lemma retain_loop_prefix: "take (length ds) (retain_loop previous ds) = ds"
proof (induction previous ds rule: retain_loop.induct)
  case (2 d previous ds)
  have "take (length ds) (retain_loop previous (ds @ [d])) = ds" if "take (length (ds @ [d])) (retain_loop previous (ds @ [d])) = ds @ [d]"
    using arg_cong [OF that, of "take (length ds)"] by (simp add: min_def)
  with 2 show ?case by simp
qed simp

lemma retain_discovered_ok:
  "snapshot_ok snap \<Longrightarrow> snapshot_ok (confirmed b) \<Longrightarrow> snapshot_ok (retain_discovered b snap request)"
  using retain_loop_ok [of "s_devices (confirmed b)" "s_devices snap"]
  by (auto simp: retain_discovered_def snapshot_ok_def)

section \<open>The invariants\<close>

text \<open>Requests accepted, requests taken, and the ids reported as completed, in the order of the log.\<close>

fun accepted :: "log_entry list \<Rightarrow> bluetooth_request list" where
  "accepted [] = []"
| "accepted (Accepted r # l) = r # accepted l"
| "accepted (_ # l) = accepted l"

fun served :: "log_entry list \<Rightarrow> bluetooth_request list" where
  "served [] = []"
| "served (Served r # l) = r # served l"
| "served (_ # l) = served l"

fun completions :: "log_entry list \<Rightarrow> u64 list" where
  "completions [] = []"
| "completions (Published p # l) =
    (if phase p = BLUETOOTH_PHASE_WORKING then completions l else completed_request_id p # completions l)"
| "completions (_ # l) = completions l"

lemma log_append [simp]:
  "accepted (l @ m) = accepted l @ accepted m" "served (l @ m) = served l @ served m"
  "completions (l @ m) = completions l @ completions m"
  by (induction l rule: accepted.induct) auto

lemma log_accepted [simp]: "accepted (map Accepted rs) = rs" "served (map Accepted rs) = []" "completions (map Accepted rs) = []"
  by (induction rs) auto

fun held :: "worker \<Rightarrow> bluetooth_request list" where
  "held (Taken r) = [r]"
| "held (Running r) = [r]"
| "held (Finished r res) = [r]"
| "held (Parsed r snap) = [r]"
| "held _ = []"

text \<open>
  The queue and the log: nothing is lost, duplicated or reordered while the
  backend runs, and every request taken is reported completed once, in order.
\<close>

definition queue_inv :: "bt_system \<Rightarrow> bool" where
  "queue_inv s \<longleftrightarrow> ring_inv BLUETOOTH_REQUEST_QUEUE (requests (backend s)) \<and>
     (if running (backend s)
      then worker s \<noteq> Exited_Worker \<and> accepted (log s) = served (log s) @ ring_abs (requests (backend s)) \<and>
        map r_request_id (served (log s)) = completions (log s) @ map r_request_id (held (worker s))
      else (\<exists>rest. accepted (log s) = served (log s) @ rest) \<and>
        (\<exists>ids. map r_request_id (served (log s)) = completions (log s) @ map r_request_id (held (worker s)) @ ids \<and>
           length (held (worker s)) + length ids \<le> 1))"

lemma ring_abs_count_0 [simp]: "ring_abs (q\<lparr>count := 0\<rparr>) = []"
  by (simp add: ring_abs_def)

lemma enqueue_request_queue:
  assumes "enqueue_request (Some b) action on addr = Inr (b1, i)" "ring_inv BLUETOOTH_REQUEST_QUEUE (requests b)"
  shows "\<exists>r. ring_abs (requests b1) = ring_abs (requests b) @ [r] \<and> r_request_id r = i \<and> r_action r = action"
    and "ring_inv BLUETOOTH_REQUEST_QUEUE (requests b1)" "running b1 = running b" "running b"
proof -
  from assms(1) obtain r q where q: "ring_enq r (requests b) = Some q" "requests b1 = q" "r_request_id r = i" "r_action r = action"
    "running b1 = running b" "running b"
    by (auto simp: enqueue_request_def Let_def split: if_splits option.splits)
  have "\<not> BLUETOOTH_REQUEST_QUEUE \<le> length (ring_abs (requests b))"
    using ring.enq_full [OF assms(2), of r] q(1) by auto
  with ring.enq_room [OF assms(2), of r] q
  have "ring_inv BLUETOOTH_REQUEST_QUEUE (requests b1) \<and> ring_abs (requests b1) = ring_abs (requests b) @ [r]" by auto
  with q show "\<exists>r. ring_abs (requests b1) = ring_abs (requests b) @ [r] \<and> r_request_id r = i \<and> r_action r = action"
    "ring_inv BLUETOOTH_REQUEST_QUEUE (requests b1)" "running b1 = running b" "running b" by auto
qed

text \<open>A publication touches neither the queue nor the flags.\<close>

lemma publish_frame [simp]:
  "requests (publish_locked b snap) = requests b" "running (publish_locked b snap) = running b"
  "requests (publish_working b r) = requests b" "running (publish_working b r) = running b"
  "requests (publish_success b snap r) = requests b" "running (publish_success b snap r) = running b"
  "requests (publish_failure b r res e) = requests b" "running (publish_failure b r res e) = running b"
  by (simp_all add: publish_locked_def publish_working_def publish_success_def publish_failure_def Let_def)

lemma published_working [simp]:
  "phase (published (publish_working b r)) = BLUETOOTH_PHASE_WORKING"
  "active_request_id (published (publish_working b r)) = r_request_id r"
  by (simp_all add: publish_locked_def publish_working_def)

lemma published_success [simp]:
  "phase (published (publish_success b snap r)) = BLUETOOTH_PHASE_READY"
  "completed_request_id (published (publish_success b snap r)) = r_request_id r"
  by (simp_all add: publish_locked_def publish_success_def Let_def)

lemma published_failure [simp]:
  "phase (published (publish_failure b r res e)) = BLUETOOTH_PHASE_ERROR"
  "completed_request_id (published (publish_failure b r res e)) = r_request_id r"
  by (simp_all add: publish_locked_def publish_failure_def Let_def)

lemma worker_take_queue: "queue_inv s \<Longrightarrow> worker s = Waiting \<Longrightarrow> queue_inv (worker_take s)"
proof (cases "running (backend s) \<and> ring_abs (requests (backend s)) \<noteq> []")
  case True
  assume q: "queue_inv s" "worker s = Waiting"
  let ?r = "hd (ring_abs (requests (backend s)))"
  from q obtain q1 where "ring_deq (requests (backend s)) = Some (?r, q1)" "ring_inv BLUETOOTH_REQUEST_QUEUE q1"
    "ring_abs (requests (backend s)) = ?r # ring_abs q1"
    using True ring.deq_head [of BLUETOOTH_REQUEST_QUEUE "requests (backend s)"] by (auto simp: queue_inv_def)
  with q True show ?thesis by (simp add: queue_inv_def worker_take_def Let_def)
next
  case False
  assume q: "queue_inv s" "worker s = Waiting"
  show ?thesis
  proof (cases "running (backend s)")
    case True
    then have "ring_deq (requests (backend s)) = None"
      using False q ring.deq_empty [of BLUETOOTH_REQUEST_QUEUE "requests (backend s)"] by (auto simp: queue_inv_def)
    with q True show ?thesis by (simp add: worker_take_def)
  next
    case False
    with q show ?thesis by (auto simp: queue_inv_def worker_take_def)
  qed
qed

lemma worker_result_queue:
  assumes "queue_inv s" "worker s = Finished r res"
  shows "queue_inv (worker_result s r res)"
proof (cases "running (backend s)")
  case True
  with assms show ?thesis
    by (auto simp: queue_inv_def worker_result_def publish_def backend_stopping_def Let_def split: sum.splits)
next
  case False
  with assms show ?thesis by (auto simp: queue_inv_def worker_result_def backend_stopping_def Let_def)
qed

lemma worker_step_queue: "queue_inv s \<Longrightarrow> queue_inv (worker_step s env)"
proof -
  assume q: "queue_inv s"
  show ?thesis
  proof (cases "worker s")
    case Waiting
    with q worker_take_queue show ?thesis by (simp add: worker_step_def)
  next
    case (Taken r)
    with q show ?thesis by (auto simp: worker_step_def publish_def queue_inv_def)
  next
    case (Running r)
    with q show ?thesis
      by (auto simp: worker_step_def queue_inv_def set_child_pgid_def split: option.splits)
  next
    case (Finished r res)
    with q worker_result_queue show ?thesis by (simp add: worker_step_def)
  next
    case (Parsed r snap)
    with q show ?thesis by (auto simp: worker_step_def publish_def queue_inv_def)
  next
    case Exited_Worker
    with q show ?thesis by (simp add: worker_step_def)
  qed
qed

lemma bt_step_queue: "queue_inv s \<Longrightarrow> queue_inv (fst (bt_step s ev))"
proof (cases ev)
  case (Request action on addr)
  assume q: "queue_inv s"
  show ?thesis
  proof (cases "enqueue_request (Some (backend s)) action on addr")
    case (Inr p)
    then obtain b i where e: "enqueue_request (Some (backend s)) action on addr = Inr (b, i)" by (cases p) auto
    have "ring_inv BLUETOOTH_REQUEST_QUEUE (requests (backend s))" using q by (simp add: queue_inv_def)
    from enqueue_request_queue [OF e this] q e Request show ?thesis by (auto simp: bt_step_def queue_inv_def)
  qed (use q Request in \<open>simp add: bt_step_def\<close>)
next
  case Stop
  assume "queue_inv s"
  with Stop show ?thesis
    by (cases "worker s") (auto simp: bt_step_def bluetooth_backend_stop_def queue_inv_def ring_inv_def split: if_splits)
next
  case (Work env)
  assume "queue_inv s"
  with Work worker_step_queue show ?thesis by (simp add: bt_step_def)
next
  case (Child pgid)
  assume "queue_inv s"
  with Child show ?thesis by (auto simp: bt_step_def set_child_pgid_def queue_inv_def split: worker.splits)
qed

interpretation bt_queue: machine_inv bt_step queue_inv
  by unfold_locales (rule bt_step_queue)

text \<open>Published and confirmed snapshots, and the one about to be published.\<close>

definition data_inv :: "bt_system \<Rightarrow> bool" where
  "data_inv s \<longleftrightarrow> snapshot_ok (published (backend s)) \<and> snapshot_ok (confirmed (backend s)) \<and>
     generation (published (backend s)) \<noteq> 0 \<and> (\<forall>r snap. worker s = Parsed r snap \<longrightarrow> snapshot_ok snap)"

lemma next_generation_nonzero [simp]: "next_generation g \<noteq> 0"
  by (simp add: next_generation_def)

lemma publish_data:
  "snapshot_ok (confirmed b) \<Longrightarrow> snapshot_ok (published (publish_working b r))"
  "snapshot_ok snap \<Longrightarrow> snapshot_ok (published (publish_success b snap r)) \<and> snapshot_ok (confirmed (publish_success b snap r))"
  "snapshot_ok (confirmed b) \<Longrightarrow>
     snapshot_ok (published (publish_failure b r res e)) \<and> snapshot_ok (confirmed (publish_failure b r res e))"
  "confirmed (publish_working b r) = confirmed b"
  "generation (published (publish_working b r)) = next_generation (generation (published b))"
  "generation (published (publish_success b snap r)) = next_generation (generation (published b))"
  "generation (published (publish_failure b r res e)) = next_generation (generation (published b))"
  by (simp_all add: publish_locked_def publish_working_def publish_success_def publish_failure_def Let_def snapshot_ok_def)

lemma worker_step_data: "data_inv s \<Longrightarrow> data_inv (worker_step s env)"
proof -
  assume d: "data_inv s"
  show ?thesis
  proof (cases "worker s")
    case Waiting
    with d show ?thesis by (auto simp: data_inv_def worker_step_def worker_take_def Let_def split: option.splits prod.splits)
  next
    case (Taken r)
    with d show ?thesis by (simp add: data_inv_def worker_step_def publish_def publish_data)
  next
    case (Running r)
    with d show ?thesis by (auto simp: data_inv_def worker_step_def set_child_pgid_def split: option.splits)
  next
    case (Finished r res)
    with d show ?thesis
      by (auto simp: data_inv_def worker_step_def worker_result_def publish_def publish_data Let_def
          intro: retain_discovered_ok parse_snapshot_ok split: sum.splits)
  next
    case (Parsed r snap)
    with d show ?thesis by (simp add: data_inv_def worker_step_def publish_def publish_data)
  next
    case Exited_Worker
    with d show ?thesis by (simp add: worker_step_def)
  qed
qed

lemma enqueue_request_frame:
  "enqueue_request (Some b) action on addr = Inr (b1, i) \<Longrightarrow>
   published b1 = published b \<and> confirmed b1 = confirmed b \<and> i \<noteq> 0"
  by (auto simp: enqueue_request_def Let_def split: if_splits option.splits)

lemma bt_step_data: "data_inv s \<Longrightarrow> data_inv (fst (bt_step s ev))"
proof (cases ev)
  case (Request action on addr)
  assume "data_inv s"
  with Request show ?thesis
    by (auto simp: bt_step_def data_inv_def dest!: enqueue_request_frame split: sum.splits)
next
  case Stop
  assume "data_inv s"
  with Stop show ?thesis by (simp add: bt_step_def bluetooth_backend_stop_def data_inv_def)
next
  case (Work env)
  assume "data_inv s"
  with Work worker_step_data show ?thesis by (simp add: bt_step_def)
next
  case (Child pgid)
  assume "data_inv s"
  with Child show ?thesis by (auto simp: bt_step_def set_child_pgid_def data_inv_def split: worker.splits)
qed

interpretation bt_data: machine_inv bt_step data_inv
  by unfold_locales (rule bt_step_data)

text \<open>The backend that was started, in the four outcomes of the start.\<close>

lemma start_inv:
  assumes "bluetooth_backend_start helper memory capability helper_check thread = Inr b"
  shows "queue_inv (bt_initial b)" "data_inv (bt_initial b)"
proof -
  have r: "ring_inv BLUETOOTH_REQUEST_QUEUE empty_requests" "ring_abs empty_requests = []"
    by (simp_all add: ring_inv_def empty_requests_def BLUETOOTH_REQUEST_QUEUE_def ring_abs_def)
  from r assms show "queue_inv (bt_initial b)"
    by (auto simp: bluetooth_backend_start_def blank_backend_def bt_initial_def queue_inv_def ring_inv_def Let_def
        split: option.splits if_splits bluetooth_backend_gate.splits)
  from assms show "data_inv (bt_initial b)"
    by (auto simp: bluetooth_backend_start_def blank_backend_def bt_initial_def data_inv_def snapshot_ok_def snapshot_init_def Let_def
        split: option.splits if_splits bluetooth_backend_gate.splits)
qed

section \<open>Requests are served once and in order\<close>

text \<open>
  C9: in every interleaving of client and worker from a successful start, the
  queue holds at most 32 requests; while the backend runs, the requests taken
  followed by those still queued are exactly the requests accepted, in order,
  and the completed ids published are the ids of the requests taken, in order,
  short only of the one in progress. After a stop the requests taken are still
  a prefix of those accepted and at most one taken request goes unreported.
\<close>

theorem bt_requests_in_order:
  assumes "bluetooth_backend_start helper memory capability helper_check thread = Inr b"
    and "s = run bt_step (bt_initial b) events"
  shows "length (ring_abs (requests (backend s))) \<le> BLUETOOTH_REQUEST_QUEUE \<and>
    (running (backend s) \<longrightarrow> accepted (log s) = served (log s) @ ring_abs (requests (backend s)) \<and>
       map r_request_id (served (log s)) = completions (log s) @ map r_request_id (held (worker s))) \<and>
    (\<exists>rest. accepted (log s) = served (log s) @ rest) \<and>
    (\<exists>ids. map r_request_id (served (log s)) = completions (log s) @ ids \<and> length ids \<le> 1)"
proof -
  have q: "queue_inv s" unfolding assms(2) by (rule bt_queue.run_invar [OF start_inv(1) [OF assms(1)]])
  have "length (held w) \<le> 1" for w by (cases w) simp_all
  with q show ?thesis
    by (cases "running (backend s)") (auto simp: queue_inv_def ring_inv_def intro: exI [of _ "map r_request_id (held (worker s))"])
qed

definition sample_backend :: bluetooth_backend where
  "sample_backend = (case bluetooth_backend_start (Some ''/h'') True (BLUETOOTH_GATE_ADMITTED, None) None True of Inr b \<Rightarrow> b)"

lemma sample_backend_start:
  "bluetooth_backend_start (Some ''/h'') True (BLUETOOTH_GATE_ADMITTED, None) None True = Inr sample_backend"
  by (simp add: sample_backend_def bluetooth_backend_start_def PATH_MAX_def Let_def)

definition sample_events :: "bt_event list" where
  "sample_events = [Work hanging_helper, Request BLUETOOTH_ACTION_SCAN False None]"

text \<open>The first status request is taken and a scan is queued.\<close>

theorem bt_requests_in_order_witness:
  "let s = run bt_step (bt_initial sample_backend) sample_events in
   running (backend s) \<and> map r_request_id (accepted (log s)) = [1, 2] \<and> map r_request_id (ring_abs (requests (backend s))) = [2] \<and>
   accepted (log s) = served (log s) @ ring_abs (requests (backend s))"
proof -
  have "running (backend (run bt_step (bt_initial sample_backend) sample_events))"
    "map r_request_id (accepted (log (run bt_step (bt_initial sample_backend) sample_events))) = [1, 2]"
    "map r_request_id (ring_abs (requests (backend (run bt_step (bt_initial sample_backend) sample_events)))) = [2]"
    by code_simp+
  with bt_requests_in_order [OF sample_backend_start refl, of sample_events] show ?thesis by (simp add: Let_def)
qed

section \<open>Snapshots are well formed\<close>

text \<open>
  C11: whatever the helper prints and however the steps interleave, the snapshot
  the user interface can read has at most sixteen devices with pairwise
  different normalised addresses, non-empty valid names that fit their buffer
  and an rssi in range, and its generation is not zero; so has the confirmed one.
\<close>

theorem bt_snapshots_well_formed:
  assumes "bluetooth_backend_start helper memory capability helper_check thread = Inr b"
  shows "data_inv (run bt_step (bt_initial b) events)"
  by (rule bt_data.run_invar [OF start_inv(2) [OF assms]])

theorem bt_snapshots_well_formed_witness:
  "data_inv (run bt_step (bt_initial sample_backend) sample_events)"
  by (rule bt_snapshots_well_formed [OF sample_backend_start])

section \<open>A failure keeps what was confirmed\<close>

text \<open>The adapter and the devices of a snapshot.\<close>

definition confirmed_state :: "bluetooth_backend_snapshot \<Rightarrow>
    bluetooth_device_snapshot list \<times> string \<times> bool \<times> bool \<times> bool \<times> bluetooth_backend_gate" where
  "confirmed_state snap = (s_devices snap, s_adapter_address snap, s_adapter_present snap, s_powered snap, s_discovering snap, gate snap)"

text \<open>The error the worker reports for a result, if any.\<close>

definition result_error :: "bluetooth_helper_result \<Rightarrow> bt_errno option" where
  "result_error res = (case h_error res of Some e \<Rightarrow> Some e
     | None \<Rightarrow> (case parse_snapshot (h_output res) of Inl e \<Rightarrow> Some e | Inr snap \<Rightarrow> None))"

text \<open>
  C14: when the helper fails, times out, prints too much or prints an invalid
  snapshot, the worker publishes the error with the exit code and signal for
  that request and keeps the last confirmed adapter and device state, both in
  the published snapshot and as the confirmed one.
\<close>

theorem bt_failure_retains:
  assumes "worker s = Finished r res" "running (backend s)" "result_error res = Some e"
  shows "let b = backend (worker_step s env); p = published b in
    worker (worker_step s env) = Waiting \<and> phase p = BLUETOOTH_PHASE_ERROR \<and> last_error p = Some e \<and>
    helper_exit_code p = h_exit_code res \<and> helper_term_signal p = h_term_signal res \<and>
    completed_request_id p = r_request_id r \<and> active_request_id p = 0 \<and>
    confirmed_state p = confirmed_state (confirmed (backend s)) \<and> confirmed b = p"
  using assms
  by (auto simp: worker_step_def worker_result_def backend_stopping_def result_error_def publish_def publish_failure_def
      publish_locked_def confirmed_state_def Let_def split: option.splits sum.splits)

theorem bt_failure_retains_witness:
  "let s = (bt_initial sample_backend)\<lparr>worker := Finished status_request
      \<lparr>h_output = ''garbage'', h_error = None, h_exit_code = 0, h_term_signal = 0\<rparr>\<rparr>;
     p = published (backend (worker_step s hanging_helper)) in
   phase p = BLUETOOTH_PHASE_ERROR \<and> last_error p = Some EPROTO \<and>
   confirmed_state p = confirmed_state (confirmed (backend s))"
proof -
  let ?res = "\<lparr>h_output = ''garbage'', h_error = None, h_exit_code = 0, h_term_signal = 0\<rparr>"
  let ?s = "(bt_initial sample_backend)\<lparr>worker := Finished status_request ?res\<rparr>"
  have "worker ?s = Finished status_request ?res" by simp
  moreover have "running (backend ?s)"
    by (simp add: bt_initial_def sample_backend_def bluetooth_backend_start_def PATH_MAX_def Let_def)
  moreover have "result_error ?res = Some EPROTO" by (simp add: result_error_def parse_snapshot_def)
  ultimately show ?thesis using bt_failure_retains [of ?s status_request ?res EPROTO hanging_helper] by (simp add: Let_def)
qed

section \<open>Polling sees every publication\<close>

definition publications :: "log_entry list \<Rightarrow> nat" where
  "publications l = length (filter (\<lambda>e. case e of Published p \<Rightarrow> True | _ \<Rightarrow> False) l)"

lemma publications_simps [simp]:
  "publications (l @ m) = publications l + publications m" "publications [Published p] = 1"
  "publications [Accepted r] = 0" "publications [Served r] = 0"
  by (simp_all add: publications_def)

lemma next_generation_unat: "g \<noteq> 0 \<Longrightarrow> unat (next_generation g) - 1 = (unat g - 1 + 1) mod (2 ^ 64 - 1)"
proof -
  assume "g \<noteq> 0"
  then have b: "unat g < 2 ^ 64" "0 < unat g" using unsigned_less [of g, where ?'a = nat] by (auto simp: unat_gt_0)
  have u: "unat (g + 1) = (unat g + 1) mod 2 ^ 64" by (simp add: unat_word_ariths)
  show ?thesis
  proof (cases "unat g = 2 ^ 64 - 1")
    case True
    then have "g + 1 = 0" using u by (simp flip: unat_eq_zero)
    with True show ?thesis by (simp add: next_generation_def)
  next
    case False
    with b u have n: "unat (g + 1) = unat g + 1" by simp
    then have "g + 1 \<noteq> 0" by (metis add_is_0 unat_0 zero_neq_one)
    with n b False show ?thesis by (simp add: next_generation_def)
  qed
qed

lemma next_generation_iterate:
  "g \<noteq> 0 \<Longrightarrow> (next_generation ^^ k) g \<noteq> 0 \<and> unat ((next_generation ^^ k) g) - 1 = (unat g - 1 + k) mod (2 ^ 64 - 1)"
proof (induction k)
  case 0
  have "unat g < 2 ^ 64" using unsigned_less [of g, where ?'a = nat] by simp
  with 0 show ?case by (simp add: unat_gt_0)
next
  case (Suc k)
  with next_generation_unat [of "(next_generation ^^ k) g"] show ?case
    by (simp add: mod_Suc_eq)
qed

lemma next_generation_moves:
  assumes "g \<noteq> 0" "0 < k" "k < 2 ^ 64 - 1"
  shows "(next_generation ^^ k) g \<noteq> g"
proof
  assume "(next_generation ^^ k) g = g"
  with next_generation_iterate [OF assms(1), of k] next_generation_iterate [OF assms(1), of 0]
  have "(unat g - 1) mod (2 ^ 64 - 1) = (unat g - 1 + k) mod (2 ^ 64 - 1)" by simp
  with ring_places [of 0 k "2 ^ 64 - 1" "unat g - 1"] assms(2,3) show False by simp
qed

lemma bt_step_generation:
  "\<exists>n. generation (published (backend (fst (bt_step s ev)))) = (next_generation ^^ n) (generation (published (backend s))) \<and>
    publications (log (fst (bt_step s ev))) = publications (log s) + n"
proof -
  let ?s = "fst (bt_step s ev)"
  have "generation (published (backend ?s)) = generation (published (backend s)) \<and> publications (log ?s) = publications (log s) \<or>
    generation (published (backend ?s)) = next_generation (generation (published (backend s))) \<and>
    publications (log ?s) = publications (log s) + 1"
  proof (cases ev)
    case (Work env)
    then show ?thesis
      by (cases "worker s") (auto simp: bt_step_def worker_step_def worker_take_def worker_result_def set_child_pgid_def
          publish_def publish_data Let_def split: option.splits sum.splits)
  next
    case (Request action on addr)
    then show ?thesis by (auto simp: bt_step_def dest!: enqueue_request_frame split: sum.splits)
  qed (auto simp: bt_step_def bluetooth_backend_stop_def set_child_pgid_def split: worker.splits)
  then show ?thesis
  proof
    assume "generation (published (backend ?s)) = generation (published (backend s)) \<and> publications (log ?s) = publications (log s)"
    then show ?thesis by (intro exI [of _ 0]) simp
  next
    assume "generation (published (backend ?s)) = next_generation (generation (published (backend s))) \<and>
      publications (log ?s) = publications (log s) + 1"
    then show ?thesis by (intro exI [of _ 1]) simp
  qed
qed

lemma bt_run_generation:
  "\<exists>n. generation (published (backend (run bt_step s es))) = (next_generation ^^ n) (generation (published (backend s))) \<and>
    publications (log (run bt_step s es)) = publications (log s) + n"
proof (induction es arbitrary: s)
  case Nil
  show ?case by (intro exI [of _ 0]) simp
next
  case (Cons ev es)
  obtain m where m: "generation (published (backend (fst (bt_step s ev)))) = (next_generation ^^ m) (generation (published (backend s)))"
    "publications (log (fst (bt_step s ev))) = publications (log s) + m" using bt_step_generation by blast
  obtain n where n: "generation (published (backend (run bt_step s (ev # es)))) =
      (next_generation ^^ n) (generation (published (backend (fst (bt_step s ev)))))"
    "publications (log (run bt_step s (ev # es))) = publications (log (fst (bt_step s ev))) + n"
    using Cons.IH [of "fst (bt_step s ev)"] by auto
  show ?case using m n by (intro exI [of _ "n + m"]) (simp add: funpow_add)
qed

text \<open>
  A client that remembers the generation of its last poll is told by the
  next poll exactly when something was published in between, also across the
  wrap-around of the 64-bit generation, as long as fewer than 2^64 - 1
  publications happened in between.
\<close>

theorem bt_poll_sees_publications:
  assumes "bluetooth_backend_start helper memory capability helper_check thread = Inr b"
    and "s = run bt_step (bt_initial b) earlier" "t = run bt_step s later"
    and "publications (log t) - publications (log s) < 2 ^ 64 - 1"
  shows "bluetooth_backend_poll (backend t) (generation (published (backend s))) =
    (if publications (log t) = publications (log s) then (None, generation (published (backend s)))
     else (Some (published (backend t)), generation (published (backend t))))"
proof -
  have g: "generation (published (backend s)) \<noteq> 0"
    using bt_data.run_invar [OF start_inv(2) [OF assms(1)], of earlier] assms(2) by (simp add: data_inv_def)
  obtain n where n: "generation (published (backend t)) = (next_generation ^^ n) (generation (published (backend s)))"
    "publications (log t) = publications (log s) + n" using bt_run_generation [of s later] assms(3) by auto
  show ?thesis
  proof (cases "n = 0")
    case True
    with n show ?thesis by (simp add: bluetooth_backend_poll_def)
  next
    case False
    with next_generation_moves [OF g, of n] n assms(4) show ?thesis by (simp add: bluetooth_backend_poll_def)
  qed
qed

theorem bt_poll_sees_publications_witness:
  "bluetooth_backend_poll (backend (run bt_step (bt_initial sample_backend) (sample_events @ [Work hanging_helper])))
     (generation (published (backend (run bt_step (bt_initial sample_backend) sample_events)))) \<noteq> (None, 1)"
proof -
  let ?s = "run bt_step (bt_initial sample_backend) sample_events"
  let ?t = "run bt_step ?s [Work hanging_helper]"
  have "publications (log ?s) = 0" "publications (log ?t) = 1" by code_simp+
  with bt_poll_sees_publications [OF sample_backend_start refl refl, of sample_events "[Work hanging_helper]"]
  show ?thesis by simp
qed

section \<open>The helper only ever gets documented arguments\<close>

definition request_ok :: "bluetooth_request \<Rightarrow> bool" where
  "request_ok r \<longleftrightarrow> r_action r \<noteq> BLUETOOTH_ACTION_NONE \<and>
     (4 \<le> action_code (r_action r) \<longrightarrow> normalize_mac (Some (r_address r)) = Some (r_address r))"

definition documented_tail :: "string list \<Rightarrow> bool" where
  "documented_tail tail \<longleftrightarrow> tail \<in> {[''status''], [''scan''], [''power'', ''on''], [''power'', ''off'']} \<or>
     (\<exists>verb mac. tail = [verb, mac] \<and> verb \<in> {''pair'', ''connect'', ''disconnect'', ''forget''} \<and>
        normalize_mac (Some mac) = Some mac)"

definition request_inv :: "bt_system \<Rightarrow> bool" where
  "request_inv s \<longleftrightarrow> queue_inv s \<and> list_all request_ok (accepted (log s))"

lemma request_ok_arguments: "request_ok r \<Longrightarrow> \<exists>tail. request_arguments helper r = Some (helper # tail) \<and> documented_tail tail"
  by (cases "r_action r") (auto simp: request_ok_def request_arguments_def documented_tail_def)

lemma enqueue_request_ok:
  assumes "enqueue_request (Some b) action on addr = Inr (b1, i)" "ring_inv BLUETOOTH_REQUEST_QUEUE (requests b)"
  shows "request_ok (last (ring_abs (requests b1)))"
proof -
  from assms(1) obtain r q where q: "ring_enq r (requests b) = Some q" "requests b1 = q" "request_ok r"
  proof -
    let ?a = "case addr of None \<Rightarrow> [] | Some t \<Rightarrow> the (normalize_mac addr)"
    have a: "?a \<noteq> [] \<Longrightarrow> normalize_mac addr \<noteq> None \<Longrightarrow> normalize_mac (Some ?a) = Some ?a"
      using normalize_mac_result(2) by (auto simp: normalize_mac_same split: option.splits)
    let ?n = "if next_request_id b + 1 = 0 then next_request_id b + 1 + 1 else next_request_id b + 1"
    let ?r = "\<lparr>r_action = action, r_request_id = ?n, r_address = ?a, r_powered = on\<rparr>"
    from assms(1) have "action_code action > 0" "4 \<le> action_code action \<longrightarrow> ?a \<noteq> []" "addr \<noteq> None \<longrightarrow> normalize_mac addr \<noteq> None"
      and e: "ring_enq ?r (requests b) = Some (requests b1)"
      by (auto simp: enqueue_request_def Let_def split: if_splits option.splits)
    then have "request_ok ?r" using a by (cases action; cases addr) (auto simp: request_ok_def)
    with e that show thesis by blast
  qed
  have "\<not> BLUETOOTH_REQUEST_QUEUE \<le> length (ring_abs (requests b))"
    using ring.enq_full [OF assms(2), of r] q(1) by auto
  with ring.enq_room [OF assms(2), of r] q show ?thesis by auto
qed

lemma bt_step_request: "request_inv s \<Longrightarrow> request_inv (fst (bt_step s ev))"
proof -
  assume i: "request_inv s"
  then have "ring_inv BLUETOOTH_REQUEST_QUEUE (requests (backend s))" by (simp add: request_inv_def queue_inv_def)
  note e = enqueue_request_ok [OF _ this]
  have "list_all request_ok (accepted (log (fst (bt_step s ev))))"
  proof (cases ev)
    case (Work env)
    with i show ?thesis
      by (cases "worker s") (auto simp: request_inv_def bt_step_def worker_step_def worker_take_def worker_result_def
          publish_def Let_def split: option.splits sum.splits)
  next
    case (Request action on addr)
    with i e show ?thesis by (auto simp: request_inv_def bt_step_def split: sum.splits)
  qed (use i in \<open>auto simp: request_inv_def bt_step_def split: worker.splits\<close>)
  with i bt_step_queue show ?thesis by (simp add: request_inv_def)
qed

interpretation bt_request: machine_inv bt_step request_inv
  by unfold_locales (rule bt_step_request)

text \<open>
  Every request the worker takes turns into the helper's path followed by
  one of the documented argument tails, with a normalised address where there
  is one; no string of the client reaches the helper unchecked.
\<close>

theorem bt_arguments_documented:
  assumes "bluetooth_backend_start helper memory capability helper_check thread = Inr b"
  shows "list_all (\<lambda>r. \<exists>tail. request_arguments h r = Some (h # tail) \<and> documented_tail tail)
    (served (log (run bt_step (bt_initial b) events)))"
proof -
  let ?s = "run bt_step (bt_initial b) events"
  have "request_inv (bt_initial b)"
    using start_inv(1) [OF assms] assms
    by (auto simp: request_inv_def bluetooth_backend_start_def blank_backend_def bt_initial_def Let_def request_ok_def
        ring_abs_def empty_requests_def BLUETOOTH_REQUEST_QUEUE_def
        split: option.splits if_splits bluetooth_backend_gate.splits)
  from bt_request.run_invar [OF this, of events] obtain rest where
    "accepted (log ?s) = served (log ?s) @ rest" "list_all request_ok (accepted (log ?s))"
    by (auto simp: request_inv_def queue_inv_def split: if_splits)
  then have "list_all request_ok (served (log ?s))" by simp
  then show ?thesis by (rule list.pred_mono_strong) (rule request_ok_arguments)
qed

theorem bt_arguments_documented_witness:
  "list_all (\<lambda>r. \<exists>tail. request_arguments ''/h'' r = Some (''/h'' # tail) \<and> documented_tail tail)
    (served (log (run bt_step (bt_initial sample_backend) sample_events)))"
  by (rule bt_arguments_documented [OF sample_backend_start])

end
