(* ===== verification/Input_Latch.thy ===== *)
theory Input_Latch
  imports Machines
begin

text \<open>
  The input latch of the shell (\<^verbatim>\<open>components/rg40xxv-shell/src/input_latch.c\<close>):
  after a start or a resume, input is ignored until every control has been
  neutral for a while. The pressed controls are the bits of two 64-bit words;
  the lemmas read them as a finite set of control numbers.
\<close>

section \<open>Data\<close>

definition INPUT_LATCH_NEUTRAL_STABLE_MS :: u32 where "INPUT_LATCH_NEUTRAL_STABLE_MS = 120"
definition INPUT_LATCH_CONTROL_CAPACITY :: nat where "INPUT_LATCH_CONTROL_CAPACITY = 128"
definition INPUT_LATCH_EVDEV_BUTTON_COUNT :: nat where "INPUT_LATCH_EVDEV_BUTTON_COUNT = 13"
definition INPUT_LATCH_EVDEV_AXIS_COUNT :: nat where "INPUT_LATCH_EVDEV_AXIS_COUNT = 6"

datatype input_latch_evdev_profile = INPUT_LATCH_EVDEV_H700_MAINLINE | INPUT_LATCH_EVDEV_ANBERNIC_STOCK

record input_latch =
  active :: "u64 list"
  neutral_since :: tick
  stable_interval_ms :: u32
  neutral_since_valid :: bool
  waiting :: bool

record input_activation_guard =
  armed :: bool

section \<open>The latch\<close>

definition input_latch_any_active :: "input_latch \<Rightarrow> bool" where
  "input_latch_any_active latch = list_ex (\<lambda>w. w \<noteq> 0) (active latch)"

definition input_latch_init :: "tick \<Rightarrow> u32 \<Rightarrow> input_latch" where
  "input_latch_init now interval = \<lparr>active = replicate (INPUT_LATCH_CONTROL_CAPACITY div 64) 0, neutral_since = now,
     stable_interval_ms = interval, neutral_since_valid = True, waiting = True\<rparr>"

definition input_latch_set :: "input_latch \<Rightarrow> nat \<Rightarrow> bool \<Rightarrow> tick \<Rightarrow> input_latch" where
  "input_latch_set latch control on now =
    (if INPUT_LATCH_CONTROL_CAPACITY \<le> control then latch
     else
       let w = control div 64; mask = push_bit (control mod 64) 1;
           was_active = (active latch ! w AND mask \<noteq> 0) in
       if on = was_active then latch
       else if on then latch\<lparr>active := (active latch)[w := active latch ! w OR mask], neutral_since_valid := False\<rparr>
       else
         let l = latch\<lparr>active := (active latch)[w := active latch ! w AND NOT mask]\<rparr> in
         if \<not> input_latch_any_active l then l\<lparr>neutral_since := now, neutral_since_valid := True\<rparr> else l)"

definition input_latch_update :: "input_latch \<Rightarrow> tick \<Rightarrow> input_latch \<times> bool" where
  "input_latch_update latch now =
    (if \<not> waiting latch then (latch, True)
     else if input_latch_any_active latch then (latch, False)
     else if \<not> neutral_since_valid latch then (latch\<lparr>neutral_since := now, neutral_since_valid := True\<rparr>, False)
     else if now - neutral_since latch < stable_interval_ms latch then (latch, False)
     else (latch\<lparr>waiting := False\<rparr>, True))"

definition input_latch_waiting :: "input_latch \<Rightarrow> bool" where
  "input_latch_waiting latch = waiting latch"

definition input_latch_force_ready :: "input_latch \<Rightarrow> input_latch" where
  "input_latch_force_ready latch =
    latch\<lparr>active := map (\<lambda>w. 0) (active latch), neutral_since_valid := True, waiting := False\<rparr>"

text \<open>Clearing the lowest set bit makes the word smaller, so the counting loop ends.\<close>

lemma clear_lowest_less: "v \<noteq> 0 \<Longrightarrow> unat (v AND (v - 1)) < unat (v :: u64)"
proof -
  assume "v \<noteq> 0"
  then have "unat (v - 1) < unat v" by (simp add: unat_minus_one unat_gt_0)
  moreover have "v AND (v - 1) \<le> v - 1" by (simp add: word_and_le1)
  ultimately show ?thesis by (simp add: word_le_nat_alt)
qed

function count_bits :: "u64 \<Rightarrow> nat" where
  "count_bits v = (if v = 0 then 0 else Suc (count_bits (v AND (v - 1))))"
  by pat_completeness auto
termination by (relation "measure unat") (auto simp: clear_lowest_less)

declare count_bits.simps [simp del]

definition input_latch_active_count :: "input_latch \<Rightarrow> nat" where
  "input_latch_active_count latch = sum_list (map count_bits (active latch))"

section \<open>The activation guard\<close>

definition input_activation_guard_init :: input_activation_guard where
  "input_activation_guard_init = \<lparr>armed = True\<rparr>"

definition input_activation_guard_release :: "input_activation_guard \<Rightarrow> input_activation_guard" where
  "input_activation_guard_release guard = guard\<lparr>armed := True\<rparr>"

definition input_activation_guard_consume :: "input_activation_guard \<Rightarrow> input_activation_guard \<times> bool" where
  "input_activation_guard_consume guard = (if \<not> armed guard then (guard, False) else (guard\<lparr>armed := False\<rparr>, True))"

section \<open>Event codes\<close>

text \<open>The codes of \<^verbatim>\<open>linux/input-event-codes.h\<close>.\<close>

definition BTN_SOUTH :: nat where "BTN_SOUTH = 0x130"
definition BTN_EAST :: nat where "BTN_EAST = 0x131"
definition BTN_NORTH :: nat where "BTN_NORTH = 0x133"
definition BTN_WEST :: nat where "BTN_WEST = 0x134"
definition BTN_TL :: nat where "BTN_TL = 0x136"
definition BTN_TR :: nat where "BTN_TR = 0x137"
definition BTN_SELECT :: nat where "BTN_SELECT = 0x13A"
definition BTN_START :: nat where "BTN_START = 0x13B"
definition BTN_MODE :: nat where "BTN_MODE = 0x13C"
definition BTN_DPAD_UP :: nat where "BTN_DPAD_UP = 0x220"
definition BTN_DPAD_DOWN :: nat where "BTN_DPAD_DOWN = 0x221"
definition BTN_DPAD_LEFT :: nat where "BTN_DPAD_LEFT = 0x222"
definition BTN_DPAD_RIGHT :: nat where "BTN_DPAD_RIGHT = 0x223"
definition KEY_CNT :: nat where "KEY_CNT = 0x300"
definition ABS_X :: nat where "ABS_X = 0"
definition ABS_Y :: nat where "ABS_Y = 1"
definition ABS_RX :: nat where "ABS_RX = 3"
definition ABS_RY :: nat where "ABS_RY = 4"
definition ABS_HAT0X :: nat where "ABS_HAT0X = 0x10"
definition ABS_HAT0Y :: nat where "ABS_HAT0Y = 0x11"

lemmas event_codes = BTN_SOUTH_def BTN_EAST_def BTN_NORTH_def BTN_WEST_def BTN_TL_def BTN_TR_def BTN_SELECT_def BTN_START_def
  BTN_MODE_def BTN_DPAD_UP_def BTN_DPAD_DOWN_def BTN_DPAD_LEFT_def BTN_DPAD_RIGHT_def KEY_CNT_def
  ABS_X_def ABS_Y_def ABS_RX_def ABS_RY_def ABS_HAT0X_def ABS_HAT0Y_def

text \<open>An index of -1 is \<open>None\<close>.\<close>

definition input_latch_evdev_button_index :: "input_latch_evdev_profile \<Rightarrow> nat \<Rightarrow> nat option" where
  "input_latch_evdev_button_index profile code =
    (if profile = INPUT_LATCH_EVDEV_H700_MAINLINE then
       (if code = BTN_DPAD_UP then Some 0 else if code = BTN_DPAD_DOWN then Some 1
        else if code = BTN_DPAD_LEFT then Some 2 else if code = BTN_DPAD_RIGHT then Some 3
        else if code = BTN_EAST then Some 4 else if code = BTN_SOUTH then Some 5
        else if code = BTN_NORTH then Some 6 else if code = BTN_WEST then Some 7
        else if code = BTN_START then Some 8 else if code = BTN_SELECT then Some 9
        else if code = BTN_MODE then Some 10 else if code = BTN_TL then Some 11
        else if code = BTN_TR then Some 12 else None)
     else if code = 0x130 then Some 0 else if code = 0x131 then Some 1 else if code = 0x132 then Some 2
     else if code = 0x133 then Some 3 else if code = 0x137 then Some 4 else if code = 0x136 then Some 5
     else if code = 0x138 then Some 6 else None)"

definition input_latch_evdev_axis_index :: "nat \<Rightarrow> nat option" where
  "input_latch_evdev_axis_index code =
    (if code = ABS_X then Some 0 else if code = ABS_Y then Some 1 else if code = ABS_RX then Some 2
     else if code = ABS_RY then Some 3 else if code = ABS_HAT0X then Some 4 else if code = ABS_HAT0Y then Some 5 else None)"

lemma button_index_range:
  "input_latch_evdev_button_index p code = Some i \<Longrightarrow> i < INPUT_LATCH_EVDEV_BUTTON_COUNT \<and> code < KEY_CNT"
  by (auto simp: input_latch_evdev_button_index_def INPUT_LATCH_EVDEV_BUTTON_COUNT_def event_codes split: if_splits)

lemma button_index_inj:
  "input_latch_evdev_button_index p c = Some i \<Longrightarrow> input_latch_evdev_button_index p d = Some i \<Longrightarrow> c = d"
  by (auto simp: input_latch_evdev_button_index_def split: if_splits)

lemma axis_index_range: "input_latch_evdev_axis_index code = Some i \<Longrightarrow> i < INPUT_LATCH_EVDEV_AXIS_COUNT"
  by (auto simp: input_latch_evdev_axis_index_def INPUT_LATCH_EVDEV_AXIS_COUNT_def split: if_splits)

section \<open>The pressed controls as a set\<close>

definition latch_wf :: "input_latch \<Rightarrow> bool" where
  "latch_wf l \<longleftrightarrow> length (active l) = 2"

definition pressed :: "input_latch \<Rightarrow> nat set" where
  "pressed l = {c. c < INPUT_LATCH_CONTROL_CAPACITY \<and> bit (active l ! (c div 64)) (c mod 64)}"

lemma mask_test: "n < 64 \<Longrightarrow> (w AND push_bit n 1 \<noteq> 0) = bit (w :: u64) n"
  by (simp add: bit_iff_and_push_bit_not_eq_0)

lemma pressed_word: "n < 64 \<Longrightarrow> k < 2 \<Longrightarrow> (64 * k + n \<in> pressed l) = bit (active l ! k) n"
  by (auto simp: pressed_def INPUT_LATCH_CONTROL_CAPACITY_def)

lemma pressed_empty: "pressed l = {} \<longleftrightarrow> (\<forall>k < 2. \<forall>n < 64. \<not> bit (active l ! k) n)"
proof
  assume "pressed l = {}"
  then show "\<forall>k < 2. \<forall>n < 64. \<not> bit (active l ! k) n" using pressed_word by blast
next
  assume n: "\<forall>k < 2. \<forall>n < 64. \<not> bit (active l ! k) n"
  show "pressed l = {}"
  proof (rule equals0I)
    fix c assume "c \<in> pressed l"
    then have "c div 64 < 2" "bit (active l ! (c div 64)) (c mod 64)"
      by (auto simp: pressed_def INPUT_LATCH_CONTROL_CAPACITY_def)
    with n show False by simp
  qed
qed

lemma word_zero_bits: "(w :: u64) = 0 \<longleftrightarrow> (\<forall>n < 64. \<not> bit w n)"
  by (auto intro: bit_word_eqI)

lemma any_active_pressed: "latch_wf l \<Longrightarrow> input_latch_any_active l = (pressed l \<noteq> {})"
proof -
  assume "latch_wf l"
  then obtain a b where "active l = [a, b]" by (auto simp: latch_wf_def length_Suc_conv numeral_2_eq_2)
  moreover have "(\<forall>k < 2. P k) \<longleftrightarrow> P 0 \<and> P (1 :: nat)" for P by (auto simp: less_2_cases_iff)
  ultimately show ?thesis by (simp add: input_latch_any_active_def pressed_empty word_zero_bits [of a] word_zero_bits [of b])
qed

lemma bit_set_mask: "n < 64 \<Longrightarrow> m < 64 \<Longrightarrow> bit ((w :: u64) OR push_bit n 1) m \<longleftrightarrow> m = n \<or> bit w m"
  "n < 64 \<Longrightarrow> m < 64 \<Longrightarrow> bit ((w :: u64) AND NOT (push_bit n 1)) m \<longleftrightarrow> m \<noteq> n \<and> bit w m"
  by (auto simp: bit_simps)

lemma pressed_update:
  assumes "length (active l) = 2" "c < INPUT_LATCH_CONTROL_CAPACITY"
    and "\<And>m. m < 64 \<Longrightarrow> bit w m \<longleftrightarrow> (if m = c mod 64 then on else bit (active l ! (c div 64)) m)"
  shows "pressed (l\<lparr>active := (active l)[c div 64 := w]\<rparr>) = (if on then insert c (pressed l) else pressed l - {c})"
proof -
  have c: "c div 64 < 2" using assms(2) by (simp add: INPUT_LATCH_CONTROL_CAPACITY_def)
  have "d div 64 = c div 64 \<Longrightarrow> d mod 64 = c mod 64 \<longleftrightarrow> d = c" for d by (metis mult_div_mod_eq)
  then show ?thesis using assms c
    by (auto simp: pressed_def INPUT_LATCH_CONTROL_CAPACITY_def nth_list_update split: if_splits)
qed

lemma pressed_set:
  assumes "latch_wf l"
  shows "pressed (input_latch_set l c on now) =
    (if c < INPUT_LATCH_CONTROL_CAPACITY then (if on then insert c (pressed l) else pressed l - {c}) else pressed l)"
    and "latch_wf (input_latch_set l c on now)"
proof -
  have f: "pressed (l\<lparr>active := a, neutral_since := t, neutral_since_valid := v\<rparr>) = pressed (l\<lparr>active := a\<rparr>)"
    "pressed (l\<lparr>active := a, neutral_since_valid := v\<rparr>) = pressed (l\<lparr>active := a\<rparr>)" for a t v
    by (simp_all add: pressed_def)
  have m: "(active l ! (c div 64) AND push_bit (c mod 64) 1 \<noteq> 0) = bit (active l ! (c div 64)) (c mod 64)"
    by (rule mask_test) simp
  have wf: "length (active l) = 2" using assms by (simp add: latch_wf_def)
  have on: "c < INPUT_LATCH_CONTROL_CAPACITY \<Longrightarrow>
      pressed (l\<lparr>active := (active l)[c div 64 := active l ! (c div 64) OR push_bit (c mod 64) 1]\<rparr>) = insert c (pressed l)"
    by (subst pressed_update [OF wf, of c _ True]) (simp_all add: bit_set_mask del: push_bit_of_1)
  have off: "c < INPUT_LATCH_CONTROL_CAPACITY \<Longrightarrow>
      pressed (l\<lparr>active := (active l)[c div 64 := active l ! (c div 64) AND NOT (push_bit (c mod 64) 1)]\<rparr>) = pressed l - {c}"
    by (subst pressed_update [OF wf, of c _ False]) (simp_all add: bit_set_mask del: push_bit_of_1)
  have t: "c < INPUT_LATCH_CONTROL_CAPACITY \<Longrightarrow> bit (active l ! (c div 64)) (c mod 64) \<longleftrightarrow> c \<in> pressed l" by (simp add: pressed_def)
  show "pressed (input_latch_set l c on now) =
    (if c < INPUT_LATCH_CONTROL_CAPACITY then (if on then insert c (pressed l) else pressed l - {c}) else pressed l)"
  proof (cases "c < INPUT_LATCH_CONTROL_CAPACITY")
    case True
    with on off t show ?thesis
      unfolding input_latch_set_def Let_def m by (simp add: f insert_absorb del: push_bit_of_1)
  qed (simp add: input_latch_set_def)
  show "latch_wf (input_latch_set l c on now)" using assms by (simp add: latch_wf_def input_latch_set_def Let_def)
qed

section \<open>Counting\<close>

fun nat_bits :: "nat \<Rightarrow> nat" where
  "nat_bits n = (if n = 0 then 0 else n mod 2 + nat_bits (n div 2))"

declare nat_bits.simps [simp del]

lemma nat_bits_clear: "0 < n \<Longrightarrow> Suc (nat_bits (n AND (n - 1))) = nat_bits n"
proof (induction n rule: less_induct)
  case (less n)
  show ?case
  proof (cases "even n")
    case True
    then obtain a where a: "n = 2 * a" "0 < a" using less.prems by (auto elim!: evenE)
    then have "(n - 1) div 2 = a - 1" by (cases a) auto
    then have "n AND (n - 1) = 2 * (a AND (a - 1))" using a by (subst and_rec) simp
    moreover have "nat_bits (2 * k) = nat_bits k" for k by (subst nat_bits.simps) (simp add: nat_bits.simps [of 0])
    ultimately show ?thesis using less.IH [of a] a by simp
  next
    case False
    then obtain a where a: "n = 2 * a + 1" by (auto elim!: oddE)
    then have "n AND (n - 1) = 2 * a" by (subst and_rec) simp
    moreover have "nat_bits (2 * k) = nat_bits k" for k by (subst nat_bits.simps) (simp add: nat_bits.simps [of 0])
    moreover have "nat_bits (2 * a + 1) = Suc (nat_bits a)" by (subst nat_bits.simps) simp
    ultimately show ?thesis using a by simp
  qed
qed

lemma count_bits_nat: "count_bits v = nat_bits (unat v)"
proof (induction v rule: count_bits.induct)
  case (1 v)
  show ?case
  proof (cases "v = 0")
    case True
    then show ?thesis by (simp add: count_bits.simps nat_bits.simps)
  next
    case False
    then have "unat (v AND (v - 1)) = unat v AND (unat v - 1)" by (simp add: unsigned_and_eq unat_minus_one)
    with 1 False nat_bits_clear [of "unat v"] show ?thesis
      by (subst count_bits.simps) (simp add: unat_gt_0)
  qed
qed

lemma nat_bits_card: "nat_bits n = card {i. bit n i} \<and> finite {i. bit n i}"
proof (induction n rule: nat_bits.induct)
  case (1 n)
  show ?case
  proof (cases "n = 0")
    case True
    then show ?thesis by (simp add: nat_bits.simps)
  next
    case False
    have s: "{i. bit n i} = (if odd n then {0} else {}) \<union> Suc ` {i. bit (n div 2) i}"
    proof (rule set_eqI)
      fix i show "i \<in> {i. bit n i} \<longleftrightarrow> i \<in> (if odd n then {0} else {}) \<union> Suc ` {i. bit (n div 2) i}"
        by (cases i) (auto simp: bit_0 bit_Suc)
    qed
    have "card (Suc ` {i. bit (n div 2) i}) = card {i. bit (n div 2) i}" by (simp add: card_image)
    with 1 False s show ?thesis by (subst nat_bits.simps) (auto simp: odd_iff_mod_2_eq_one)
  qed
qed

lemma count_bits_card: "count_bits v = card {n. n < 64 \<and> bit v n}"
proof -
  have "{i. bit (unat v) i} = {n. n < 64 \<and> bit v n}" by (auto simp: bit_unsigned_iff bit_simps dest: bit_imp_le_length)
  then show ?thesis using nat_bits_card [of "unat v"] by (simp add: count_bits_nat)
qed

text \<open>
  The bit-clearing loop counts exactly the controls that are pressed, and
  setting a control acts on them as insertion and removal in a set.
\<close>

theorem latch_counts_pressed:
  assumes "latch_wf l"
  shows "input_latch_active_count l = card (pressed l) \<and>
    pressed (input_latch_set l c on now) =
      (if c < INPUT_LATCH_CONTROL_CAPACITY then (if on then insert c (pressed l) else pressed l - {c}) else pressed l)"
proof -
  from assms obtain a b where ab: "active l = [a, b]" by (auto simp: latch_wf_def length_Suc_conv numeral_2_eq_2)
  have "pressed l = {n. n < 64 \<and> bit a n} \<union> (+) 64 ` {n. n < 64 \<and> bit b n}"
  proof (rule set_eqI)
    fix c
    show "c \<in> pressed l \<longleftrightarrow> c \<in> {n. n < 64 \<and> bit a n} \<union> (+) 64 ` {n. n < 64 \<and> bit b n}"
    proof (cases "c < 64")
      case True
      with pressed_word [of c 0 l] ab show ?thesis by auto
    next
      case False
      define d where "d = c - 64"
      with False have c: "c = 64 + d" by simp
      show ?thesis
      proof (cases "d < 64")
        case True
        with pressed_word [of d 1 l] ab c show ?thesis by auto
      next
        case False
        with c show ?thesis by (auto simp: pressed_def INPUT_LATCH_CONTROL_CAPACITY_def)
      qed
    qed
  qed
  moreover have "{n. n < 64 \<and> bit a n} \<inter> (+) 64 ` {n. n < 64 \<and> bit b n} = {}" by auto
  ultimately have "input_latch_active_count l = card (pressed l)"
    by (simp add: input_latch_active_count_def ab count_bits_card card_Un_disjoint card_image)
  with pressed_set(1) [OF assms] show ?thesis by simp
qed

theorem latch_counts_pressed_witness:
  "input_latch_active_count (input_latch_set (input_latch_init 0 120) 65 True 7) =
   card (pressed (input_latch_set (input_latch_init 0 120) 65 True 7))"
proof -
  have "latch_wf (input_latch_init 0 120)" by (simp add: latch_wf_def input_latch_init_def INPUT_LATCH_CONTROL_CAPACITY_def)
  from latch_counts_pressed [OF pressed_set(2) [OF this]] show ?thesis by simp
qed

section \<open>The latch opens only after a stable neutral time\<close>

datatype latch_event = Control nat bool tick | Tick tick | Force

fun latch_step :: "input_latch \<Rightarrow> latch_event \<Rightarrow> input_latch \<times> bool" where
  "latch_step l (Control c on now) = (input_latch_set l c on now, False)"
| "latch_step l (Tick now) = input_latch_update l now"
| "latch_step l Force = (input_latch_force_ready l, True)"

fun event_time :: "latch_event \<Rightarrow> tick option" where
  "event_time (Control c on now) = Some now"
| "event_time (Tick now) = Some now"
| "event_time Force = None"

text \<open>
  \<open>since\<close> is the time of the start or of the last event of \<open>pre\<close>, and nothing was
  pressed from then on.
\<close>

definition quiet_since :: "tick \<Rightarrow> u32 \<Rightarrow> latch_event list \<Rightarrow> tick \<Rightarrow> bool" where
  "quiet_since t0 interval es since \<longleftrightarrow> (\<exists>pre post. es = pre @ post \<and>
     (if pre = [] then since = t0 else event_time (last pre) = Some since) \<and>
     (\<forall>k \<le> length post. pressed (run latch_step (input_latch_init t0 interval) (pre @ take k post)) = {}))"

lemma quiet_since_extend:
  assumes "quiet_since t0 interval es since" "pressed (run latch_step (input_latch_init t0 interval) (es @ [e])) = {}"
  shows "quiet_since t0 interval (es @ [e]) since"
proof -
  from assms(1) obtain pre post where p: "es = pre @ post" "if pre = [] then since = t0 else event_time (last pre) = Some since"
    "\<forall>k \<le> length post. pressed (run latch_step (input_latch_init t0 interval) (pre @ take k post)) = {}"
    by (auto simp: quiet_since_def)
  have "pressed (run latch_step (input_latch_init t0 interval) (pre @ take k (post @ [e]))) = {}" if "k \<le> length (post @ [e])" for k
    using p(1,3) assms(2) that by (cases "k = Suc (length post)") auto
  with p show ?thesis unfolding quiet_since_def by (intro exI [of _ pre] exI [of _ "post @ [e]"]) auto
qed

lemma quiet_since_now:
  assumes "pressed (run latch_step (input_latch_init t0 interval) (es @ [e])) = {}" "event_time e = Some since"
  shows "quiet_since t0 interval (es @ [e]) since"
  unfolding quiet_since_def using assms by (intro exI [of _ "es @ [e]"] exI [of _ "[]"]) auto

definition latch_hist :: "tick \<Rightarrow> u32 \<Rightarrow> latch_event list \<Rightarrow> input_latch \<Rightarrow> bool" where
  "latch_hist t0 interval es l \<longleftrightarrow> latch_wf l \<and> stable_interval_ms l = interval \<and>
     l = run latch_step (input_latch_init t0 interval) es \<and> (neutral_since_valid l \<longleftrightarrow> pressed l = {}) \<and>
     (waiting l \<and> neutral_since_valid l \<longrightarrow> quiet_since t0 interval es (neutral_since l))"

lemma latch_init_pressed: "pressed (input_latch_init t0 interval) = {}" "latch_wf (input_latch_init t0 interval)"
  by (auto simp: pressed_def input_latch_init_def latch_wf_def INPUT_LATCH_CONTROL_CAPACITY_def nth_Cons' numeral_2_eq_2)

text \<open>What setting a control does to the neutral time.\<close>

lemma latch_set_neutral:
  assumes "latch_wf l" "neutral_since_valid l \<longleftrightarrow> pressed l = {}"
  shows "neutral_since_valid (input_latch_set l c on now) \<longleftrightarrow> pressed (input_latch_set l c on now) = {}"
    and "pressed (input_latch_set l c on now) = {} \<Longrightarrow>
      input_latch_set l c on now = l \<or> neutral_since (input_latch_set l c on now) = now"
    and "waiting (input_latch_set l c on now) = waiting l" "stable_interval_ms (input_latch_set l c on now) = stable_interval_ms l"
proof -
  let ?w = "c div 64" and ?mask = "push_bit (c mod 64) (1 :: u64)"
  let ?off = "l\<lparr>active := (active l)[?w := active l ! ?w AND NOT ?mask]\<rparr>"
  show i: "waiting (input_latch_set l c on now) = waiting l" "stable_interval_ms (input_latch_set l c on now) = stable_interval_ms l"
    by (simp_all add: input_latch_set_def Let_def)
  have m: "(active l ! ?w AND ?mask \<noteq> 0) = bit (active l ! ?w) (c mod 64)" by (rule mask_test) simp
  have wf: "latch_wf ?off" using assms(1) by (simp add: latch_wf_def)
  have f: "pressed (?off\<lparr>neutral_since := t, neutral_since_valid := v\<rparr>) = pressed ?off" for t v by (simp add: pressed_def)
  note set_pressed = pressed_set(1) [OF assms(1), of c on now]
  have bitp: "c < INPUT_LATCH_CONTROL_CAPACITY \<Longrightarrow> bit (active l ! ?w) (c mod 64) \<longleftrightarrow> c \<in> pressed l" by (simp add: pressed_def)
  show v: "neutral_since_valid (input_latch_set l c on now) \<longleftrightarrow> pressed (input_latch_set l c on now) = {}"
  proof (cases "c < INPUT_LATCH_CONTROL_CAPACITY \<and> on \<noteq> (c \<in> pressed l)")
    case True
    show ?thesis
    proof (cases on)
      case True
      with \<open>c < INPUT_LATCH_CONTROL_CAPACITY \<and> on \<noteq> (c \<in> pressed l)\<close> set_pressed bitp show ?thesis
        unfolding input_latch_set_def Let_def m by simp
    next
      case False
      with True bitp have e: "input_latch_set l c on now =
          (if \<not> input_latch_any_active ?off then ?off\<lparr>neutral_since := now, neutral_since_valid := True\<rparr> else ?off)"
        unfolding input_latch_set_def Let_def m by simp
      moreover have "\<not> neutral_since_valid ?off" using True False assms(2) by auto
      ultimately show ?thesis using any_active_pressed [OF wf] f by simp
    qed
  next
    case False
    then have "input_latch_set l c on now = l" using bitp unfolding input_latch_set_def Let_def m by auto
    with assms(2) show ?thesis by simp
  qed
  show "pressed (input_latch_set l c on now) = {} \<Longrightarrow>
      input_latch_set l c on now = l \<or> neutral_since (input_latch_set l c on now) = now"
    using v any_active_pressed [OF wf] unfolding input_latch_set_def Let_def by (auto split: if_splits)
qed

lemma latch_update_pressed:
  "pressed (fst (input_latch_update l now)) = pressed l" "latch_wf (fst (input_latch_update l now)) = latch_wf l"
  "stable_interval_ms (fst (input_latch_update l now)) = stable_interval_ms l"
  "waiting (fst (input_latch_update l now)) \<Longrightarrow> waiting l"
  by (simp_all add: input_latch_update_def pressed_def latch_wf_def split: if_splits)

lemma latch_step_hist: "latch_hist t0 interval es l \<Longrightarrow> latch_hist t0 interval (es @ [e]) (fst (latch_step l e))"
proof -
  assume h: "latch_hist t0 interval es l"
  then have wf: "latch_wf l" and iv: "stable_interval_ms l = interval" and valid: "neutral_since_valid l \<longleftrightarrow> pressed l = {}"
    and l: "l = run latch_step (input_latch_init t0 interval) es"
    and q: "waiting l \<Longrightarrow> pressed l = {} \<Longrightarrow> quiet_since t0 interval es (neutral_since l)"
    by (auto simp: latch_hist_def)
  have r: "run latch_step (input_latch_init t0 interval) (es @ [e]) = fst (latch_step l e)" using l by simp
  show ?thesis
  proof (cases e)
    case (Control c on now)
    let ?l = "input_latch_set l c on now"
    note n = latch_set_neutral [OF wf valid, of c on now]
    have "quiet_since t0 interval (es @ [e]) (neutral_since ?l)" if w: "waiting ?l" "neutral_since_valid ?l"
    proof -
      have p: "pressed ?l = {}" using w(2) n(1) by simp
      from n(2) [OF p] show ?thesis
      proof
        assume "?l = l"
        with p q w n(3) r Control show ?thesis by (intro quiet_since_extend) auto
      next
        assume "neutral_since ?l = now"
        with p r Control show ?thesis by (intro quiet_since_now) auto
      qed
    qed
    with n iv pressed_set(2) [OF wf] r Control show ?thesis by (simp add: latch_hist_def)
  next
    case (Tick now)
    let ?l = "fst (input_latch_update l now)"
    note n = latch_update_pressed [of l now]
    have s: "pressed l = {} \<Longrightarrow> neutral_since_valid ?l \<and> neutral_since ?l = neutral_since l"
      "pressed l \<noteq> {} \<Longrightarrow> neutral_since_valid ?l = neutral_since_valid l"
      using valid any_active_pressed [OF wf] by (simp_all add: input_latch_update_def)
    have "quiet_since t0 interval (es @ [e]) (neutral_since ?l)" if "waiting ?l" "pressed l = {}"
      using that q n s r Tick by (intro quiet_since_extend) auto
    with n iv wf valid s r Tick show ?thesis by (auto simp: latch_hist_def)
  next
    case Force
    have "pressed (input_latch_force_ready l) = {}" "latch_wf (input_latch_force_ready l)"
      using wf by (auto simp: input_latch_force_ready_def pressed_def latch_wf_def INPUT_LATCH_CONTROL_CAPACITY_def)
    with iv r Force show ?thesis by (simp add: latch_hist_def input_latch_force_ready_def)
  qed
qed

interpretation latch: machine_history latch_step "\<lambda>l. l = input_latch_init t0 interval" "latch_hist t0 interval" for t0 interval
proof
  fix l assume "l = input_latch_init t0 interval"
  then show "latch_hist t0 interval [] l"
    using latch_init_pressed [of t0 interval]
    by (simp add: latch_hist_def quiet_since_def) (simp add: input_latch_init_def)
qed (rule latch_step_hist)

text \<open>A waiting latch that opens at a poll has been neutral for the interval.\<close>

lemma latch_opens_now:
  assumes "l = run latch_step (input_latch_init t0 interval) events" "waiting l" "input_latch_update l now = (l1, True)"
  shows "\<exists>since. quiet_since t0 interval events since \<and> interval \<le> now - since"
proof -
  have h: "latch_hist t0 interval events l" unfolding assms(1) by (rule latch.run_hist) simp
  from assms(2,3) have "neutral_since_valid l" "\<not> now - neutral_since l < stable_interval_ms l"
    by (auto simp: input_latch_update_def split: if_splits)
  moreover from this h assms(2) have "quiet_since t0 interval events (neutral_since l)" "stable_interval_ms l = interval"
    unfolding latch_hist_def by blast+
  ultimately show ?thesis by (intro exI [of _ "neutral_since l"]) (simp add: not_less)
qed

lemma latch_update_waiting: "waiting (fst (input_latch_update l now)) \<longleftrightarrow> \<not> snd (input_latch_update l now)"
  by (simp add: input_latch_update_def)

text \<open>An open latch was forced, or opened at an earlier poll.\<close>

definition polled_open :: "tick \<Rightarrow> u32 \<Rightarrow> latch_event list \<Rightarrow> bool" where
  "polled_open t0 interval es \<longleftrightarrow> (\<exists>before t after since.
     es = before @ Tick t # after \<and> quiet_since t0 interval before since \<and> interval \<le> t - since)"

lemma latch_open_history:
  "\<not> waiting (run latch_step (input_latch_init t0 interval) es) \<Longrightarrow> Force \<in> set es \<or> polled_open t0 interval es"
proof (induction es rule: rev_induct)
  case Nil
  then show ?case by (simp add: input_latch_init_def)
next
  case (snoc e es)
  let ?l = "run latch_step (input_latch_init t0 interval) es"
  have h: "latch_hist t0 interval es ?l" by (rule latch.run_hist) simp
  show ?case
  proof (cases "waiting ?l")
    case False
    then have "Force \<in> set es \<or> polled_open t0 interval es" by (rule snoc.IH)
    moreover have "polled_open t0 interval (es @ [e])" if "polled_open t0 interval es"
      using that unfolding polled_open_def by fastforce
    ultimately show ?thesis by auto
  next
    case True
    show ?thesis
    proof (cases e)
      case (Control c on now)
      have "latch_wf ?l" "neutral_since_valid ?l \<longleftrightarrow> pressed ?l = {}" using h by (simp_all add: latch_hist_def)
      from latch_set_neutral(3) [OF this, of c on now] True snoc.prems Control show ?thesis by simp
    next
      case (Tick t)
      then have "input_latch_update ?l t = (fst (input_latch_update ?l t), True)"
        using snoc.prems latch_update_waiting [of ?l t] by (simp add: prod_eq_iff)
      from latch_opens_now [OF refl True this] Tick show ?thesis unfolding polled_open_def by blast
    qed simp
  qed
qed

text \<open>
  C15: the latch lets input through only after a stable neutral time or when it
  was forced. After a start at a time t0 and any sequence of controls pressed and
  released, polls and forced openings, a poll answers "ready" only if the latch
  was forced open before (input_latch_force_ready), or if at this poll or an
  earlier one no control was pressed from some moment on (the start or an event
  of the run up to that poll) and at least the stable interval had passed since,
  counted in wrapping milliseconds.
\<close>

theorem latch_opens_after_stable_neutral:
  assumes "input_latch_update (run latch_step (input_latch_init t0 interval) events) now = (l1, True)"
  shows "Force \<in> set events \<or>
    (\<exists>before t after since. events @ [Tick now] = before @ Tick t # after \<and>
       quiet_since t0 interval before since \<and> interval \<le> t - since)"
proof -
  let ?l = "run latch_step (input_latch_init t0 interval) events"
  have "\<not> waiting (run latch_step (input_latch_init t0 interval) (events @ [Tick now]))"
    using latch_update_waiting [of ?l now] assms by simp
  from latch_open_history [OF this] show ?thesis by (simp add: polled_open_def)
qed

theorem latch_opens_after_stable_neutral_witness:
  "\<exists>before t after since.
     [Control 5 True 110, Tick 300, Control 5 False 310] @ [Tick 430] = before @ Tick t # after \<and>
     quiet_since 100 120 before since \<and> 120 \<le> t - since"
proof -
  let ?l = "run latch_step (input_latch_init 100 120) [Control 5 True 110, Tick 300, Control 5 False 310]"
  have "input_latch_update ?l 430 = (?l\<lparr>waiting := False\<rparr>, True)" by code_simp
  from latch_opens_after_stable_neutral [OF this] show ?thesis by simp
qed

end
