(* ===== verification/Input_Navigation.thy ===== *)
theory Input_Navigation
  imports Input_Latch
begin

text \<open>
  The sticks and the hat of the gamepad as navigation keys
  (\<^verbatim>\<open>components/rg40xxv-shell/src/input_navigation.c\<close>), and the reading of the
  whole device when input is acquired again (\<^verbatim>\<open>input_latch_snapshot.c\<close>).
  Values of type \<^verbatim>\<open>int\<close> are integers; the casts to \<^verbatim>\<open>int\<close> are written
  \<open>to_int32\<close>, the 64-bit intermediate values cannot overflow.
\<close>

section \<open>Data\<close>

datatype input_navigation_direction = INPUT_NAVIGATION_NONE | INPUT_NAVIGATION_LEFT | INPUT_NAVIGATION_RIGHT
  | INPUT_NAVIGATION_UP | INPUT_NAVIGATION_DOWN

definition INPUT_NAVIGATION_ANALOG_AXIS_COUNT :: nat where "INPUT_NAVIGATION_ANALOG_AXIS_COUNT = 4"
definition INPUT_NAVIGATION_HAT_AXIS_COUNT :: nat where "INPUT_NAVIGATION_HAT_AXIS_COUNT = 2"

record input_navigation_axis =
  minimum :: int
  maximum :: int
  center :: int
  flat :: int
  negative_press :: int
  negative_release :: int
  positive_release :: int
  positive_press :: int
  direction :: int
  configured :: bool

record input_navigation =
  analog :: "input_navigation_axis list"
  hat :: "int list"

text \<open>The fields of \<^verbatim>\<open>struct input_absinfo\<close> that are used.\<close>

record input_absinfo =
  i_value :: int
  i_minimum :: int
  i_maximum :: int
  i_flat :: int

definition zero_axis :: input_navigation_axis where
  "zero_axis = \<lparr>minimum = 0, maximum = 0, center = 0, flat = 0, negative_press = 0, negative_release = 0,
     positive_release = 0, positive_press = 0, direction = 0, configured = False\<rparr>"

section \<open>Configuration\<close>

definition analog_axis_index :: "nat \<Rightarrow> nat option" where
  "analog_axis_index code =
    (if code = ABS_X then Some 0 else if code = ABS_Y then Some 1 else if code = ABS_RX then Some 2
     else if code = ABS_RY then Some 3 else None)"

definition maximum_i64 :: "int \<Rightarrow> int \<Rightarrow> int" where
  "maximum_i64 a b = (if a > b then a else b)"

definition absolute_i64 :: "int \<Rightarrow> int" where
  "absolute_i64 v = (if v < 0 then - v else v)"

definition press_distance :: "int \<Rightarrow> int \<Rightarrow> int" where
  "press_distance extent fl =
    (let press = maximum_i64 (c_div (extent + 1) 2) (fl + 1) in if press > extent then extent else press)"

definition release_distance :: "int \<Rightarrow> int \<Rightarrow> int" where
  "release_distance extent fl =
    (let press = press_distance extent fl; release = maximum_i64 (c_div extent 4) fl in
     if release \<ge> press then (if press > 0 then press - 1 else 0) else release)"

definition configure_thresholds :: "input_navigation_axis \<Rightarrow> int \<Rightarrow> int \<Rightarrow> input_navigation_axis" where
  "configure_thresholds axis negative_extent positive_extent =
    axis\<lparr>negative_press := to_int32 (center axis - press_distance negative_extent (flat axis)),
         negative_release := to_int32 (center axis - release_distance negative_extent (flat axis)),
         positive_release := to_int32 (center axis + release_distance positive_extent (flat axis)),
         positive_press := to_int32 (center axis + press_distance positive_extent (flat axis))\<rparr>"

definition input_navigation_init :: input_navigation where
  "input_navigation_init = \<lparr>analog = replicate INPUT_NAVIGATION_ANALOG_AXIS_COUNT zero_axis,
     hat = replicate INPUT_NAVIGATION_HAT_AXIS_COUNT 0\<rparr>"

definition input_navigation_reset_state :: "input_navigation \<Rightarrow> input_navigation" where
  "input_navigation_reset_state n = n\<lparr>analog := map (\<lambda>a. a\<lparr>direction := 0\<rparr>) (analog n), hat := map (\<lambda>h. 0) (hat n)\<rparr>"

text \<open>The centre: the initial value when it is close to the middle of the range, else the middle.\<close>

definition axis_center :: "input_absinfo \<Rightarrow> int \<Rightarrow> int" where
  "axis_center info fl =
    (let span = i_maximum info - i_minimum info;
         midpoint = i_minimum info + c_div span 2;
         initial = i_value info;
         tolerance0 = maximum_i64 (fl * 4) (c_div span 20);
         tolerance = (if tolerance0 > c_div span 4 then c_div span 4 else tolerance0) in
     if initial > i_minimum info \<and> initial < i_maximum info \<and> absolute_i64 (initial - midpoint) \<le> tolerance
     then to_int32 initial else to_int32 midpoint)"

text \<open>The axis after \<open>configure\<close>, and whether it succeeded.\<close>

definition configure_axis_value :: "input_absinfo \<Rightarrow> input_navigation_axis \<times> bool" where
  "configure_axis_value info =
    (if i_maximum info \<le> i_minimum info then (zero_axis, False)
     else
       let a = zero_axis\<lparr>minimum := i_minimum info, maximum := i_maximum info,
             flat := (if i_flat info > 0 then i_flat info else 0)\<rparr>;
           span = i_maximum info - i_minimum info in
       if span < 2 then (a, False)
       else
         let a1 = a\<lparr>center := axis_center info (flat a)\<rparr>;
             a2 = configure_thresholds a1 (center a1 - minimum a1) (maximum a1 - center a1) in
         (a2\<lparr>configured := True\<rparr>, True))"

definition input_navigation_configure_axis :: "input_navigation \<Rightarrow> nat \<Rightarrow> input_absinfo option \<Rightarrow> input_navigation \<times> bool" where
  "input_navigation_configure_axis n code info =
    (case (analog_axis_index code, info) of
       (Some i, Some reported) \<Rightarrow> (case configure_axis_value reported of (a, ok) \<Rightarrow> (n\<lparr>analog := (analog n)[i := a]\<rparr>, ok))
     | _ \<Rightarrow> (n, False))"

text \<open>\<open>reader code\<close> is the axis as the driver reports it, \<open>None\<close> on an error.\<close>

fun configure_codes :: "nat list \<Rightarrow> (nat \<Rightarrow> input_absinfo option) \<Rightarrow> input_navigation \<Rightarrow> input_navigation \<times> nat" where
  "configure_codes [] reader n = (n, 0)"
| "configure_codes (code # codes) reader n =
    (case reader code of
       None \<Rightarrow> configure_codes codes reader n
     | Some info \<Rightarrow>
       (case input_navigation_configure_axis n code (Some info) of
          (n1, ok) \<Rightarrow> (case configure_codes codes reader n1 of (n2, k) \<Rightarrow> (n2, (if ok then 1 else 0) + k))))"

definition input_navigation_configure_analog_axes :: "input_navigation \<Rightarrow> (nat \<Rightarrow> input_absinfo option) option \<Rightarrow> input_navigation \<times> nat" where
  "input_navigation_configure_analog_axes n reader =
    (case reader of None \<Rightarrow> (n, 0) | Some r \<Rightarrow> configure_codes [ABS_X, ABS_Y, ABS_RX, ABS_RY] r n)"

section \<open>Events\<close>

definition analog_direction :: "input_navigation_axis \<Rightarrow> int \<Rightarrow> int" where
  "analog_direction axis v =
    (if direction axis < 0 then
       (if v < negative_release axis then - 1 else if v \<ge> positive_press axis then 1 else 0)
     else if direction axis > 0 then
       (if v > positive_release axis then 1 else if v \<le> negative_press axis then - 1 else 0)
     else if v \<le> negative_press axis then - 1
     else if v \<ge> positive_press axis then 1 else 0)"

definition mapped_direction :: "nat \<Rightarrow> int \<Rightarrow> input_navigation_direction" where
  "mapped_direction index d =
    (if index = 0 \<or> index = 2 then (if d < 0 then INPUT_NAVIGATION_LEFT else INPUT_NAVIGATION_RIGHT)
     else (if d < 0 then INPUT_NAVIGATION_UP else INPUT_NAVIGATION_DOWN))"

definition input_navigation_handle_abs :: "input_navigation \<Rightarrow> nat \<Rightarrow> int \<Rightarrow> input_navigation \<times> input_navigation_direction" where
  "input_navigation_handle_abs n code v =
    (if code = ABS_HAT0X \<or> code = ABS_HAT0Y then
       let i = (if code = ABS_HAT0X then 0 else 1);
           previous = hat n ! i;
           d = (if v < 0 then - 1 else if v > 0 then 1 else 0) in
       (n\<lparr>hat := (hat n)[i := d]\<rparr>,
        if d = 0 \<or> d = previous then INPUT_NAVIGATION_NONE else mapped_direction i d)
     else case analog_axis_index code of
         None \<Rightarrow> (n, INPUT_NAVIGATION_NONE)
       | Some i \<Rightarrow>
         let axis = analog n ! i in
         if \<not> configured axis then (n, INPUT_NAVIGATION_NONE)
         else
           let previous = direction axis; d = analog_direction axis v in
           (n\<lparr>analog := (analog n)[i := axis\<lparr>direction := d\<rparr>]\<rparr>,
            if d = 0 \<or> d = previous then INPUT_NAVIGATION_NONE else mapped_direction i d))"

definition input_navigation_abs_is_neutral :: "input_navigation \<Rightarrow> nat \<Rightarrow> int \<Rightarrow> bool" where
  "input_navigation_abs_is_neutral n code v =
    (if code = ABS_HAT0X \<or> code = ABS_HAT0Y then v = 0
     else case analog_axis_index code of
         None \<Rightarrow> True
       | Some i \<Rightarrow>
         let axis = analog n ! i in
         if \<not> configured axis then True else negative_release axis \<le> v \<and> v \<le> positive_release axis)"

section \<open>The thresholds\<close>

text \<open>What holds of every axis: it is not configured, or its thresholds are ordered.\<close>

definition thresholds_ok :: "input_navigation_axis \<Rightarrow> bool" where
  "thresholds_ok a \<longleftrightarrow> minimum a \<le> negative_press a \<and> negative_press a < negative_release a \<and> negative_release a \<le> center a \<and>
     center a \<le> positive_release a \<and> positive_release a < positive_press a \<and> positive_press a \<le> maximum a"

lemma distances:
  assumes "1 \<le> extent" "0 \<le> fl"
  shows "0 < press_distance extent fl" "press_distance extent fl \<le> extent"
    "0 \<le> release_distance extent fl" "release_distance extent fl < press_distance extent fl"
proof -
  have d: "c_div (extent + 1) 2 = (extent + 1) div 2" "c_div extent 4 = extent div 4" "0 \<le> extent div 4"
    using assms by simp_all
  show p: "0 < press_distance extent fl" "press_distance extent fl \<le> extent"
    using assms d by (auto simp: press_distance_def maximum_i64_def Let_def)
  show "0 \<le> release_distance extent fl" "release_distance extent fl < press_distance extent fl"
    using assms d p by (auto simp: release_distance_def maximum_i64_def Let_def)
qed

lemma configure_center:
  assumes "configure_axis_value info = (a, True)" "is_int32 (i_minimum info)" "is_int32 (i_maximum info)" "is_int32 (i_value info)"
  shows "\<exists>c. i_minimum info < c \<and> c < i_maximum info \<and> is_int32 c \<and>
    (\<exists>fl \<ge> 0. a = (configure_thresholds (zero_axis\<lparr>minimum := i_minimum info, maximum := i_maximum info, flat := fl, center := c\<rparr>)
      (c - i_minimum info) (i_maximum info - c))\<lparr>configured := True\<rparr>)"
proof -
  let ?fl = "if i_flat info > 0 then i_flat info else 0"
  let ?span = "i_maximum info - i_minimum info"
  from assms(1) have span: "2 \<le> ?span" by (auto simp: configure_axis_value_def Let_def split: if_splits)
  then have mid: "i_minimum info < i_minimum info + ?span div 2" "i_minimum info + ?span div 2 < i_maximum info" by linarith+
  then have mid32: "is_int32 (i_minimum info + ?span div 2)" using assms(2,3) by (auto simp: is_int32_def)
  define c where "c = axis_center info ?fl"
  have a: "a = (configure_thresholds (zero_axis\<lparr>minimum := i_minimum info, maximum := i_maximum info, flat := ?fl, center := c\<rparr>)
      (c - i_minimum info) (i_maximum info - c))\<lparr>configured := True\<rparr>"
    using assms(1) span by (simp add: configure_axis_value_def Let_def c_def)
  have "c_div ?span 2 = ?span div 2" using span by simp
  then have c: "c = i_minimum info + ?span div 2 \<or> c = i_value info \<and> i_minimum info < c \<and> c < i_maximum info"
    using assms(4) mid32 unfolding c_def axis_center_def Let_def by simp
  from c mid mid32 assms(4) have "i_minimum info < c" "c < i_maximum info" "is_int32 c" by auto
  moreover have "0 \<le> ?fl" by simp
  ultimately show ?thesis using a by blast
qed

text \<open>
  Configuring an axis never overflows: for any range, flat and initial value
  of 32-bit integers for which it succeeds, the thresholds lie in the axis'
  range in the order press, release, centre, release, press, with a gap between
  press and release on both sides.
\<close>

theorem configured_thresholds_ordered:
  assumes "configure_axis_value info = (a, True)" "is_int32 (i_minimum info)" "is_int32 (i_maximum info)" "is_int32 (i_value info)"
  shows "thresholds_ok a \<and> minimum a = i_minimum info \<and> maximum a = i_maximum info \<and> direction a = 0 \<and> configured a"
proof -
  from configure_center [OF assms] obtain c fl where c: "i_minimum info < c" "c < i_maximum info" "is_int32 c" "0 \<le> fl"
    "a = (configure_thresholds (zero_axis\<lparr>minimum := i_minimum info, maximum := i_maximum info, flat := fl, center := c\<rparr>)
      (c - i_minimum info) (i_maximum info - c))\<lparr>configured := True\<rparr>" by blast
  have e: "1 \<le> c - i_minimum info" "1 \<le> i_maximum info - c" using c by simp_all
  note n = distances [OF e(1) c(4)] and p = distances [OF e(2) c(4)]
  have "is_int32 (c - press_distance (c - i_minimum info) fl)" "is_int32 (c - release_distance (c - i_minimum info) fl)"
    "is_int32 (c + release_distance (i_maximum info - c) fl)" "is_int32 (c + press_distance (i_maximum info - c) fl)"
    using n p c assms(2,3) unfolding is_int32_def by linarith+
  then show ?thesis
    using n p c(5) by (simp add: thresholds_ok_def configure_thresholds_def zero_axis_def)
qed

theorem configured_thresholds_ordered_witness:
  "thresholds_ok (fst (configure_axis_value \<lparr>i_value = 10, i_minimum = -1800, i_maximum = 1800, i_flat = 32\<rparr>))"
proof -
  let ?info = "\<lparr>i_value = 10, i_minimum = -1800, i_maximum = 1800, i_flat = 32\<rparr>"
  have "configure_axis_value ?info = (fst (configure_axis_value ?info), True)"
    by (simp add: configure_axis_value_def Let_def)
  from configured_thresholds_ordered [OF this] show ?thesis by (simp add: is_int32_def)
qed

section \<open>Hysteresis\<close>

lemma analog_index_not_hat:
  "analog_axis_index code = Some i \<Longrightarrow> code \<noteq> ABS_HAT0X \<and> code \<noteq> ABS_HAT0Y \<and> i < INPUT_NAVIGATION_ANALOG_AXIS_COUNT"
  by (auto simp: analog_axis_index_def event_codes INPUT_NAVIGATION_ANALOG_AXIS_COUNT_def split: if_splits)

text \<open>The reports for a sequence of values of one axis.\<close>

fun reports :: "input_navigation \<Rightarrow> nat \<Rightarrow> int list \<Rightarrow> input_navigation_direction list" where
  "reports n code [] = []"
| "reports n code (v # vs) =
    (case input_navigation_handle_abs n code v of (n1, d) \<Rightarrow> d # reports n1 code vs)"

definition axis_ready :: "input_navigation \<Rightarrow> nat \<Rightarrow> nat \<Rightarrow> bool" where
  "axis_ready n code i \<longleftrightarrow> analog_axis_index code = Some i \<and> i < length (analog n) \<and> configured (analog n ! i) \<and> thresholds_ok (analog n ! i)"

lemma handle_ready:
  assumes "axis_ready n code i"
  shows "input_navigation_handle_abs n code v =
    (n\<lparr>analog := (analog n)[i := (analog n ! i)\<lparr>direction := analog_direction (analog n ! i) v\<rparr>]\<rparr>,
     if analog_direction (analog n ! i) v = 0 \<or> analog_direction (analog n ! i) v = direction (analog n ! i)
     then INPUT_NAVIGATION_NONE else mapped_direction i (analog_direction (analog n ! i) v))"
    and "axis_ready (fst (input_navigation_handle_abs n code v)) code i"
    and "analog (fst (input_navigation_handle_abs n code v)) ! i = (analog n ! i)\<lparr>direction := analog_direction (analog n ! i) v\<rparr>"
  using assms analog_index_not_hat
  by (auto simp: axis_ready_def input_navigation_handle_abs_def thresholds_ok_def Let_def)

text \<open>On one side of the centre beyond the release threshold: \<open>sgn\<close> is the side.\<close>

definition beyond :: "input_navigation_axis \<Rightarrow> int \<Rightarrow> int \<Rightarrow> bool" where
  "beyond a side v \<longleftrightarrow> (if side < 0 then v < negative_release a else positive_release a < v)"

lemma direction_beyond:
  assumes "thresholds_ok a" "beyond a side v" "side = - 1 \<or> side = 1"
  shows "direction a = side \<Longrightarrow> analog_direction a v = side" "analog_direction a v \<in> {0, side}"
  using assms by (auto simp: analog_direction_def thresholds_ok_def beyond_def)

lemma reports_held:
  assumes "axis_ready n code i" "direction (analog n ! i) = side" "side = - 1 \<or> side = 1"
    and "list_all (beyond (analog n ! i) side) vs"
  shows "list_all (\<lambda>d. d = INPUT_NAVIGATION_NONE) (reports n code vs)"
  using assms
proof (induction vs arbitrary: n)
  case (Cons v vs)
  have d: "analog_direction (analog n ! i) v = side"
    using direction_beyond(1) [of "analog n ! i" side v] Cons.prems by (simp add: axis_ready_def)
  let ?n = "fst (input_navigation_handle_abs n code v)"
  have a: "analog ?n ! i = (analog n ! i)\<lparr>direction := side\<rparr>" using handle_ready(3) [OF Cons.prems(1), of v] d by simp
  have "beyond (analog ?n ! i) side = beyond (analog n ! i) side" unfolding a by (rule ext) (simp add: beyond_def)
  with Cons.IH [of ?n] Cons.prems handle_ready [OF Cons.prems(1), of v] a d show ?case
    by simp
qed simp

lemma reports_once:
  assumes "axis_ready n code i" "side = - 1 \<or> side = 1" "list_all (beyond (analog n ! i) side) vs"
  shows "filter (\<lambda>d. d \<noteq> INPUT_NAVIGATION_NONE) (reports n code vs) \<in> {[], [mapped_direction i side]}"
  using assms
proof (induction vs arbitrary: n)
  case (Cons v vs)
  let ?n = "fst (input_navigation_handle_abs n code v)"
  note h = handle_ready [OF Cons.prems(1), of v]
  have "beyond (analog ?n ! i) side = beyond (analog n ! i) side" unfolding h(3) by (rule ext) (simp add: beyond_def)
  then have vs: "list_all (beyond (analog ?n ! i) side) vs" using Cons.prems(3) by simp
  consider "analog_direction (analog n ! i) v = 0" | "analog_direction (analog n ! i) v = side"
    using direction_beyond(2) [of "analog n ! i" side v] Cons.prems by (auto simp: axis_ready_def)
  then show ?case
  proof cases
    case 1
    with Cons.IH [OF h(2) Cons.prems(2) vs] h(1) show ?thesis by simp
  next
    case 2
    then have "list_all (\<lambda>d. d = INPUT_NAVIGATION_NONE) (reports ?n code vs)"
      using reports_held [OF h(2) _ Cons.prems(2) vs] h(3) by simp
    then have "filter (\<lambda>d. d \<noteq> INPUT_NAVIGATION_NONE) (reports ?n code vs) = []" by (simp add: filter_empty_conv list_all_iff)
    with 2 h(1) Cons.prems(2) show ?thesis by auto
  qed
qed simp

text \<open>
  A stick that is held over is one key press: for any sequence of values
  that stays on one side beyond the release threshold, whatever was before, the
  axis reports its direction at most once and no other direction; a value the
  latch calls neutral reports nothing and takes the axis back to its rest state.
\<close>

theorem held_stick_reports_once:
  assumes "axis_ready n code i" "side = - 1 \<or> side = 1" "list_all (beyond (analog n ! i) side) vs"
    and "input_navigation_abs_is_neutral n code v"
  shows "filter (\<lambda>d. d \<noteq> INPUT_NAVIGATION_NONE) (reports n code vs) \<in> {[], [mapped_direction i side]} \<and>
    snd (input_navigation_handle_abs n code v) = INPUT_NAVIGATION_NONE \<and>
    direction (analog (fst (input_navigation_handle_abs n code v)) ! i) = 0"
proof -
  have "negative_release (analog n ! i) \<le> v \<and> v \<le> positive_release (analog n ! i)"
    using assms(1,4) analog_index_not_hat by (auto simp: input_navigation_abs_is_neutral_def axis_ready_def Let_def)
  with assms(1) have "analog_direction (analog n ! i) v = 0"
    by (auto simp: axis_ready_def thresholds_ok_def analog_direction_def)
  with reports_once [OF assms(1-3)] handle_ready [OF assms(1), of v] show ?thesis by simp
qed

definition sample_navigation :: input_navigation where
  "sample_navigation = fst (input_navigation_configure_analog_axes input_navigation_init
     (Some (\<lambda>code. Some \<lparr>i_value = 0, i_minimum = -1800, i_maximum = 1800, i_flat = 32\<rparr>)))"

theorem held_stick_reports_once_witness:
  "filter (\<lambda>d. d \<noteq> INPUT_NAVIGATION_NONE) (reports sample_navigation ABS_X [-500, -1000, -1200, -600, -900])
     \<in> {[], [INPUT_NAVIGATION_LEFT]} \<and>
   snd (input_navigation_handle_abs sample_navigation ABS_X 12) = INPUT_NAVIGATION_NONE"
proof -
  have "axis_ready sample_navigation ABS_X 0"
    "list_all (beyond (analog sample_navigation ! 0) (- 1)) [-500, -1000, -1200, -600, -900]"
    "input_navigation_abs_is_neutral sample_navigation ABS_X 12" by code_simp+
  from held_stick_reports_once [OF this(1) _ this(2,3)] show ?thesis by (simp add: mapped_direction_def)
qed

end
