(* ===== verification/Input_Snapshot.thy ===== *)
theory Input_Snapshot
  imports Input_Navigation
begin

text \<open>
  Reading the whole gamepad when input is acquired again
  (\<^verbatim>\<open>components/rg40xxv-shell/src/input_latch_snapshot.c\<close>): the latch is
  started over, the pressed buttons and deflected axes become its pressed
  controls, and a device that cannot be read keeps the latch closed through a
  control of its own. A reader that is missing and one that fails are both
  \<open>None\<close>: the code treats them alike.
\<close>

definition INPUT_LATCH_EVDEV_BUTTON_BASE :: nat where "INPUT_LATCH_EVDEV_BUTTON_BASE = 0"
definition INPUT_LATCH_EVDEV_AXIS_BASE :: nat where "INPUT_LATCH_EVDEV_AXIS_BASE = 16"
definition INPUT_LATCH_EVDEV_UNKNOWN :: nat where "INPUT_LATCH_EVDEV_UNKNOWN = 127"

definition bit_is_set :: "u64 list \<Rightarrow> nat \<Rightarrow> bool" where
  "bit_is_set bits code = (bits ! (code div 64) AND push_bit (code mod 64) 1 \<noteq> 0)"

definition snapshot_codes :: "nat list" where
  "snapshot_codes = [ABS_X, ABS_Y, ABS_RX, ABS_RY, ABS_HAT0X, ABS_HAT0Y]"

text \<open>The loop over all key codes: each code that has an index sets its entry.\<close>

definition put_button :: "input_latch_evdev_profile \<Rightarrow> u64 list \<Rightarrow> bool list \<Rightarrow> nat \<Rightarrow> bool list" where
  "put_button profile key_bits buttons code =
    (case input_latch_evdev_button_index profile code of
       None \<Rightarrow> buttons
     | Some i \<Rightarrow> buttons[i := bit_is_set key_bits code])"

definition snapshot_buttons :: "input_latch_evdev_profile \<Rightarrow> u64 list \<Rightarrow> bool list" where
  "snapshot_buttons profile key_bits =
    foldl (put_button profile key_bits) (replicate INPUT_LATCH_EVDEV_BUTTON_COUNT False) [0..<KEY_CNT]"

text \<open>The loop over the axes from index \<open>i\<close> on; \<open>None\<close> when the snapshot is given up.\<close>

fun snapshot_axes :: "nat \<Rightarrow> nat list \<Rightarrow> u64 list \<Rightarrow> (nat \<Rightarrow> input_absinfo option) \<Rightarrow> input_navigation \<Rightarrow> bool list \<Rightarrow>
    input_navigation \<times> bool list option" where
  "snapshot_axes i [] abs_bits reader n axes = (n, Some axes)"
| "snapshot_axes i (code # codes) abs_bits reader n axes =
    (if \<not> bit_is_set abs_bits code then snapshot_axes (i + 1) codes abs_bits reader n axes
     else case reader code of
         None \<Rightarrow> (n, None)
       | Some info \<Rightarrow>
         let (n1, ok) = (if i < INPUT_NAVIGATION_ANALOG_AXIS_COUNT \<and> \<not> configured (analog n ! i)
               then input_navigation_configure_axis n code (Some info) else (n, True)) in
         if \<not> ok then (n1, None)
         else (case input_latch_evdev_axis_index code of
             None \<Rightarrow> (n1, None)
           | Some k \<Rightarrow>
             snapshot_axes (i + 1) codes abs_bits reader (fst (input_navigation_handle_abs n1 code (i_value info)))
               (axes[k := \<not> input_navigation_abs_is_neutral n1 code (i_value info)])))"

text \<open>Setting the controls from \<open>base\<close> on.\<close>

fun latch_controls :: "input_latch \<Rightarrow> nat \<Rightarrow> bool list \<Rightarrow> tick \<Rightarrow> input_latch" where
  "latch_controls latch base [] now = latch"
| "latch_controls latch base (a # as) now = latch_controls (input_latch_set latch base a now) (base + 1) as now"

definition snapshot_evdev :: "input_latch \<Rightarrow> input_navigation \<Rightarrow> input_latch_evdev_profile \<Rightarrow> tick \<Rightarrow> u64 list option \<Rightarrow>
    u64 list option \<Rightarrow> (nat \<Rightarrow> input_absinfo option) option \<Rightarrow> input_latch \<times> input_navigation \<times> bool" where
  "snapshot_evdev latch n profile now key_reader abs_capability_reader abs_reader =
    (case (key_reader, abs_capability_reader, abs_reader) of
       (Some key_bits, Some abs_bits, Some reader) \<Rightarrow>
         let buttons = snapshot_buttons profile key_bits in
         (case snapshot_axes 0 snapshot_codes abs_bits reader (input_navigation_reset_state n)
             (replicate INPUT_LATCH_EVDEV_AXIS_COUNT False) of
            (n1, None) \<Rightarrow> (latch, n1, False)
          | (n1, Some axes) \<Rightarrow>
            (latch_controls (latch_controls latch INPUT_LATCH_EVDEV_BUTTON_BASE buttons now)
               INPUT_LATCH_EVDEV_AXIS_BASE axes now, n1, True))
     | _ \<Rightarrow> (latch, n, False))"

definition input_latch_evdev_reacquire :: "input_navigation \<Rightarrow> input_latch_evdev_profile \<Rightarrow> tick \<Rightarrow> u32 \<Rightarrow> u64 list option \<Rightarrow>
    u64 list option \<Rightarrow> (nat \<Rightarrow> input_absinfo option) option \<Rightarrow> input_latch \<times> input_navigation \<times> bool" where
  "input_latch_evdev_reacquire n profile now interval key_reader abs_capability_reader abs_reader =
    (case snapshot_evdev (input_latch_init now interval) n profile now key_reader abs_capability_reader abs_reader of
       (l, n1, True) \<Rightarrow> (l, n1, True)
     | (l, n1, False) \<Rightarrow> (input_latch_set l INPUT_LATCH_EVDEV_UNKNOWN True now, n1, False))"

section \<open>Which controls are pressed afterwards\<close>

lemma put_button_length [simp]: "length (foldl (put_button p bits) bs codes) = length bs"
  by (induction codes arbitrary: bs) (auto simp: put_button_def split: option.splits)

lemma put_button_skip: "input_latch_evdev_button_index p c \<noteq> Some i \<Longrightarrow> put_button p bits bs c ! i = bs ! i"
  by (cases "input_latch_evdev_button_index p c") (simp_all add: put_button_def)

lemma put_button_other:
  "(\<And>c. c \<in> set codes \<Longrightarrow> input_latch_evdev_button_index p c \<noteq> Some i) \<Longrightarrow> foldl (put_button p bits) bs codes ! i = bs ! i"
proof (induction codes arbitrary: bs)
  case (Cons c codes)
  have "foldl (put_button p bits) (put_button p bits bs c) codes ! i = put_button p bits bs c ! i"
    by (rule Cons.IH) (use Cons.prems in simp)
  then show ?case using put_button_skip [OF Cons.prems, of c] by simp
qed simp

lemma put_button_own:
  assumes "c \<in> set codes" "input_latch_evdev_button_index p c = Some i" "i < length bs"
  shows "foldl (put_button p bits) bs codes ! i = bit_is_set bits c"
  using assms(1,3)
proof (induction codes arbitrary: bs)
  case (Cons d codes)
  have l: "i < length (put_button p bits bs d)" using Cons.prems(2) by (simp add: put_button_def split: option.splits)
  show ?case
  proof (cases "c \<in> set codes")
    case True
    with Cons.IH l show ?thesis by simp
  next
    case False
    then have "d = c" using Cons.prems(1) by simp
    then have "put_button p bits bs d ! i = bit_is_set bits c" using assms(2) Cons.prems(2) by (simp add: put_button_def)
    moreover have "foldl (put_button p bits) (put_button p bits bs d) codes ! i = put_button p bits bs d ! i"
    proof (rule put_button_other)
      fix e assume "e \<in> set codes"
      with False have "e \<noteq> c" by blast
      then show "input_latch_evdev_button_index p e \<noteq> Some i" using button_index_inj [OF assms(2), of e] by blast
    qed
    ultimately show ?thesis by simp
  qed
qed simp

lemma snapshot_buttons_nth:
  assumes "i < INPUT_LATCH_EVDEV_BUTTON_COUNT"
  shows "snapshot_buttons p bits ! i \<longleftrightarrow> (\<exists>c. input_latch_evdev_button_index p c = Some i \<and> bit_is_set bits c)"
proof (cases "\<exists>c. input_latch_evdev_button_index p c = Some i")
  case True
  then obtain c where c: "input_latch_evdev_button_index p c = Some i" by blast
  have "c \<in> set [0..<KEY_CNT]" using button_index_range [OF c] by simp
  from put_button_own [OF this c] assms have "snapshot_buttons p bits ! i = bit_is_set bits c" by (simp add: snapshot_buttons_def)
  moreover have "(\<exists>c. input_latch_evdev_button_index p c = Some i \<and> bit_is_set bits c) = bit_is_set bits c"
    using c button_index_inj by blast
  ultimately show ?thesis by simp
next
  case False
  then have "foldl (put_button p bits) (replicate INPUT_LATCH_EVDEV_BUTTON_COUNT False) [0..<KEY_CNT] ! i =
      replicate INPUT_LATCH_EVDEV_BUTTON_COUNT False ! i" by (intro put_button_other) blast
  with assms False show ?thesis by (simp add: snapshot_buttons_def)
qed

lemma snapshot_buttons_length: "length (snapshot_buttons p bits) = INPUT_LATCH_EVDEV_BUTTON_COUNT"
  by (simp add: snapshot_buttons_def)

lemma latch_controls_pressed:
  assumes "latch_wf l" "base + length as \<le> INPUT_LATCH_CONTROL_CAPACITY"
  shows "latch_wf (latch_controls l base as now) \<and>
    pressed (latch_controls l base as now) = pressed l - {base ..< base + length as} \<union> {base + i | i. i < length as \<and> as ! i}"
  using assms
proof (induction as arbitrary: l base)
  case (Cons a as)
  let ?l = "input_latch_set l base a now"
  have p: "pressed ?l = (if a then insert base (pressed l) else pressed l - {base})" "latch_wf ?l"
    using pressed_set [OF Cons.prems(1), of base a now] Cons.prems(2) by simp_all
  have "{base + i | i. i < length (a # as) \<and> (a # as) ! i} =
      (if a then {base} else {}) \<union> {Suc base + i | i. i < length as \<and> as ! i}"
  proof (rule set_eqI)
    fix x
    show "x \<in> {base + i | i. i < length (a # as) \<and> (a # as) ! i} \<longleftrightarrow>
      x \<in> (if a then {base} else {}) \<union> {Suc base + i | i. i < length as \<and> as ! i}"
      by (auto simp: less_Suc_eq_0_disj)
  qed
  with Cons.IH [OF p(2), of "base + 1"] Cons.prems(2) p(1) show ?case by auto
qed simp

text \<open>Handling a value and configuring another axis do not change what is neutral.\<close>

lemma list_update_at: "xs[j := y] ! i = (if i = j \<and> j < length xs then y else xs ! i)"
  by (cases "i = j"; cases "j < length xs") (simp_all add: list_update_beyond)

lemma direction_update:
  "configured (xs[j := (xs ! j)\<lparr>direction := e\<rparr>] ! i) = configured (xs ! i)"
  "negative_release (xs[j := (xs ! j)\<lparr>direction := e\<rparr>] ! i) = negative_release (xs ! i)"
  "positive_release (xs[j := (xs ! j)\<lparr>direction := e\<rparr>] ! i) = positive_release (xs ! i)"
  by (simp_all add: list_update_at)

lemma handle_analog:
  "analog (fst (input_navigation_handle_abs n c u)) = analog n \<or>
   (\<exists>i e. analog (fst (input_navigation_handle_abs n c u)) = (analog n)[i := (analog n ! i)\<lparr>direction := e\<rparr>])"
proof (cases "analog_axis_index c")
  case None
  then show ?thesis by (simp add: input_navigation_handle_abs_def Let_def)
next
  case (Some i)
  show ?thesis
  proof (cases "c = ABS_HAT0X \<or> c = ABS_HAT0Y \<or> \<not> configured (analog n ! i)")
    case True
    with Some show ?thesis by (auto simp: input_navigation_handle_abs_def Let_def)
  next
    case False
    with Some show ?thesis
      by (intro disjI2 exI [of _ i] exI [of _ "analog_direction (analog n ! i) u"]) (simp add: input_navigation_handle_abs_def Let_def)
  qed
qed

lemma neutral_handle [simp]:
  "input_navigation_abs_is_neutral (fst (input_navigation_handle_abs n c u)) d v = input_navigation_abs_is_neutral n d v"
  using handle_analog [of n c u]
  by (elim disjE exE) (simp_all add: input_navigation_abs_is_neutral_def direction_update Let_def split: option.splits)

lemma analog_index_inj: "analog_axis_index c = Some i \<Longrightarrow> analog_axis_index d = Some i \<Longrightarrow> c = d"
  by (auto simp: analog_axis_index_def split: if_splits)

lemma neutral_configure:
  assumes "c \<noteq> d"
  shows "input_navigation_abs_is_neutral (fst (input_navigation_configure_axis n c info)) d v = input_navigation_abs_is_neutral n d v"
proof (cases "analog_axis_index c")
  case (Some i)
  have "analog_axis_index d = Some j \<Longrightarrow> i \<noteq> j" for j using analog_index_inj [OF Some] assms by blast
  with Some show ?thesis
    by (cases info) (simp_all add: input_navigation_abs_is_neutral_def input_navigation_configure_axis_def Let_def split: option.splits prod.splits)
qed (simp add: input_navigation_configure_axis_def)

lemma analog_length [simp]:
  "length (analog (fst (input_navigation_handle_abs n c u))) = length (analog n)"
  "length (analog (fst (input_navigation_configure_axis n c info))) = length (analog n)"
  "length (analog (input_navigation_reset_state n)) = length (analog n)"
  by (auto simp: input_navigation_handle_abs_def input_navigation_configure_axis_def input_navigation_reset_state_def Let_def
      split: option.splits prod.splits)

text \<open>An axis that is present and away from neutral.\<close>

definition deflected :: "u64 list \<Rightarrow> (nat \<Rightarrow> input_absinfo option) \<Rightarrow> input_navigation \<Rightarrow> nat \<Rightarrow> bool" where
  "deflected abs_bits reader n code \<longleftrightarrow> bit_is_set abs_bits code \<and>
     (case reader code of None \<Rightarrow> False | Some info \<Rightarrow> \<not> input_navigation_abs_is_neutral n code (i_value info))"

lemma axis_index_inj:
  "input_latch_evdev_axis_index c = Some i \<Longrightarrow> input_latch_evdev_axis_index d = Some i \<Longrightarrow> c = d"
  by (auto simp: input_latch_evdev_axis_index_def split: if_splits)

lemma snapshot_axes_result:
  assumes "snapshot_axes i codes abs_bits reader n axes = (n1, Some axes1)" "distinct codes"
    and "length (analog n) = INPUT_NAVIGATION_ANALOG_AXIS_COUNT" "length axes = INPUT_LATCH_EVDEV_AXIS_COUNT"
  shows "length axes1 = length axes \<and>
    (\<forall>d v. d \<notin> set codes \<longrightarrow> input_navigation_abs_is_neutral n1 d v = input_navigation_abs_is_neutral n d v) \<and>
    (\<forall>d k. input_latch_evdev_axis_index d = Some k \<longrightarrow>
       axes1 ! k = (if d \<in> set codes \<and> bit_is_set abs_bits d then deflected abs_bits reader n1 d else axes ! k))"
  using assms
proof (induction i codes abs_bits reader n axes rule: snapshot_axes.induct)
  case (2 i code codes abs_bits reader n axes)
  show ?case
  proof (cases "bit_is_set abs_bits code")
    case False
    with 2 show ?thesis by auto
  next
    case True
    let ?conf = "\<lambda>info. if i < INPUT_NAVIGATION_ANALOG_AXIS_COUNT \<and> \<not> configured (analog n ! i)
      then input_navigation_configure_axis n code (Some info) else (n, True)"
    from "2.prems"(1) True obtain info n2 k where
      r: "reader code = Some info" "?conf info = (n2, True)" "input_latch_evdev_axis_index code = Some k"
      "snapshot_axes (i + 1) codes abs_bits reader (fst (input_navigation_handle_abs n2 code (i_value info)))
         (axes[k := \<not> input_navigation_abs_is_neutral n2 code (i_value info)]) = (n1, Some axes1)"
      by (auto split: option.splits prod.splits if_splits)
    let ?n = "fst (input_navigation_handle_abs n2 code (i_value info))"
    have n2: "n2 = n \<or> n2 = fst (input_navigation_configure_axis n code (Some info))" using r(2) by (auto split: if_splits)
    then have l: "length (analog n2) = INPUT_NAVIGATION_ANALOG_AXIS_COUNT" using "2.prems"(3) by auto
    have d: "d \<noteq> code \<Longrightarrow> input_navigation_abs_is_neutral n2 d v = input_navigation_abs_is_neutral n d v" for d v
      using n2 neutral_configure [of code d n "Some info" v] by auto
    have ih: "length axes1 = length axes"
      "\<And>d v. d \<notin> set codes \<Longrightarrow> input_navigation_abs_is_neutral n1 d v = input_navigation_abs_is_neutral n2 d v"
      "\<And>d k'. input_latch_evdev_axis_index d = Some k' \<Longrightarrow> axes1 ! k' = (if d \<in> set codes \<and> bit_is_set abs_bits d
         then deflected abs_bits reader n1 d else axes[k := \<not> input_navigation_abs_is_neutral n2 code (i_value info)] ! k')"
      using "2.IH"(2) [OF _ r(1) r(2) [symmetric] refl _ r(3) r(4)] True "2.prems"(2,4) l by auto
    have "k < length axes" using axis_index_range [OF r(3)] "2.prems"(4) by simp
    moreover have "deflected abs_bits reader n1 code = (\<not> input_navigation_abs_is_neutral n2 code (i_value info))"
      using True r(1) ih(2) [of code] "2.prems"(2) by (simp add: deflected_def)
    ultimately have own: "axes1 ! k' = deflected abs_bits reader n1 code" if "input_latch_evdev_axis_index code = Some k'" for k'
      using ih(3) [OF that] r(3) that "2.prems"(2) by simp
    have other: "axes1 ! k' = (if e \<in> set codes \<and> bit_is_set abs_bits e then deflected abs_bits reader n1 e else axes ! k')"
      if "input_latch_evdev_axis_index e = Some k'" "e \<noteq> code" for e k'
    proof -
      have "k \<noteq> k'" using axis_index_inj [OF r(3), of e] that by blast
      with ih(3) [OF that(1)] show ?thesis by simp
    qed
    show ?thesis
    proof (intro conjI allI impI)
      show "length axes1 = length axes" by (rule ih(1))
    next
      fix e v assume "e \<notin> set (code # codes)"
      then show "input_navigation_abs_is_neutral n1 e v = input_navigation_abs_is_neutral n e v" using ih(2) [of e v] d [of e v] by simp
    next
      fix e k' assume "input_latch_evdev_axis_index e = Some k'"
      then show "axes1 ! k' = (if e \<in> set (code # codes) \<and> bit_is_set abs_bits e then deflected abs_bits reader n1 e else axes ! k')"
        using own [of k'] other [of e k'] True by (cases "e = code") simp_all
    qed
  qed
qed auto

section \<open>Acquiring input again\<close>

lemma snapshot_codes_axis: "code \<in> set snapshot_codes \<longleftrightarrow> (\<exists>k. input_latch_evdev_axis_index code = Some k)"
  by (auto simp: snapshot_codes_def input_latch_evdev_axis_index_def)

lemma snapshot_codes_distinct: "distinct snapshot_codes"
  by (simp add: snapshot_codes_def event_codes)

lemma axis_index_onto: "k < INPUT_LATCH_EVDEV_AXIS_COUNT \<Longrightarrow> \<exists>code. input_latch_evdev_axis_index code = Some k"
proof -
  assume "k < INPUT_LATCH_EVDEV_AXIS_COUNT"
  then have "k \<in> {0, 1, 2, 3, 4, 5}" by (auto simp: INPUT_LATCH_EVDEV_AXIS_COUNT_def)
  moreover have "input_latch_evdev_axis_index ABS_X = Some 0" "input_latch_evdev_axis_index ABS_Y = Some 1"
    "input_latch_evdev_axis_index ABS_RX = Some 2" "input_latch_evdev_axis_index ABS_RY = Some 3"
    "input_latch_evdev_axis_index ABS_HAT0X = Some 4" "input_latch_evdev_axis_index ABS_HAT0Y = Some 5"
    by (simp_all add: input_latch_evdev_axis_index_def event_codes)
  ultimately show ?thesis by blast
qed

text \<open>
  C29: when the device can be read, acquiring input again leaves the latch with
  exactly the controls that are physically held: the mapped buttons whose key
  bit is set and the present axes that are away from neutral, whatever was
  remembered before; when it cannot, the latch holds the unknown control alone.
\<close>

theorem reacquire_exact:
  assumes "length (analog n) = INPUT_NAVIGATION_ANALOG_AXIS_COUNT"
    and "input_latch_evdev_reacquire n profile now interval (Some key_bits) (Some abs_bits) (Some reader) = (l, n1, ok)"
  shows "pressed l = (if ok then
      {i. \<exists>code. input_latch_evdev_button_index profile code = Some i \<and> bit_is_set key_bits code} \<union>
      {16 + k | k code. input_latch_evdev_axis_index code = Some k \<and> deflected abs_bits reader n1 code}
    else {127}) \<and> waiting l"
proof -
  let ?init = "input_latch_init now interval"
  have w: "waiting (input_latch_set l c a now) = waiting l" for l c a by (simp add: input_latch_set_def Let_def)
  have ws: "waiting (latch_controls l base as now) = waiting l" for l base as
    by (induction as arbitrary: l base) (simp_all add: w)
  have i: "waiting ?init" by (simp add: input_latch_init_def)
  let ?axes = "snapshot_axes 0 snapshot_codes abs_bits reader (input_navigation_reset_state n) (replicate INPUT_LATCH_EVDEV_AXIS_COUNT False)"
  show ?thesis
  proof (cases "snd ?axes")
    case None
    then have "l = input_latch_set ?init INPUT_LATCH_EVDEV_UNKNOWN True now" "\<not> ok"
      using assms(2) by (auto simp: input_latch_evdev_reacquire_def snapshot_evdev_def Let_def split: prod.splits option.splits)
    then show ?thesis
      using pressed_set(1) [OF latch_init_pressed(2)] latch_init_pressed(1) w i
      by (simp add: INPUT_LATCH_EVDEV_UNKNOWN_def INPUT_LATCH_CONTROL_CAPACITY_def)
  next
    case (Some axes)
    let ?b = "snapshot_buttons profile key_bits"
    let ?lb = "latch_controls ?init INPUT_LATCH_EVDEV_BUTTON_BASE ?b now"
    from Some have r: "l = latch_controls ?lb INPUT_LATCH_EVDEV_AXIS_BASE axes now" "ok" "?axes = (n1, Some axes)"
      using assms(2) by (auto simp: input_latch_evdev_reacquire_def snapshot_evdev_def Let_def split: prod.splits option.splits)
    have "length (analog (input_navigation_reset_state n)) = INPUT_NAVIGATION_ANALOG_AXIS_COUNT" using assms(1) by simp
    from snapshot_axes_result [OF r(3) snapshot_codes_distinct this]
    have ax: "length axes = INPUT_LATCH_EVDEV_AXIS_COUNT"
      "\<And>code k. input_latch_evdev_axis_index code = Some k \<Longrightarrow> axes ! k = deflected abs_bits reader n1 code"
      using axis_index_range by (auto simp: snapshot_codes_axis deflected_def)
    have pb: "latch_wf ?lb" "pressed ?lb = {i. i < 13 \<and> ?b ! i}"
      using latch_controls_pressed [OF latch_init_pressed(2), of 0 ?b now interval now] snapshot_buttons_length latch_init_pressed(1)
      by (simp_all add: INPUT_LATCH_EVDEV_BUTTON_BASE_def INPUT_LATCH_EVDEV_BUTTON_COUNT_def INPUT_LATCH_CONTROL_CAPACITY_def)
    have "pressed l = {i. i < 13 \<and> ?b ! i} - {16 ..< 22} \<union> {16 + k | k. k < 6 \<and> axes ! k}"
      using latch_controls_pressed [OF pb(1), of 16 axes now] ax(1) pb(2) r(1)
      by (simp add: INPUT_LATCH_EVDEV_AXIS_BASE_def INPUT_LATCH_EVDEV_AXIS_COUNT_def INPUT_LATCH_CONTROL_CAPACITY_def)
    moreover have "{i. i < 13 \<and> ?b ! i} - {16 ..< 22} = {i. i < 13 \<and> ?b ! i}" by auto
    moreover have "{i. i < 13 \<and> ?b ! i} =
        {i. \<exists>code. input_latch_evdev_button_index profile code = Some i \<and> bit_is_set key_bits code}"
      using snapshot_buttons_nth [of _ profile key_bits] button_index_range [of profile]
      by (auto simp: INPUT_LATCH_EVDEV_BUTTON_COUNT_def)
    moreover have "{16 + k | k. k < 6 \<and> axes ! k} =
        {16 + k | k code. input_latch_evdev_axis_index code = Some k \<and> deflected abs_bits reader n1 code}"
      using ax(2) axis_index_onto axis_index_range by (auto simp: INPUT_LATCH_EVDEV_AXIS_COUNT_def) metis
    ultimately show ?thesis using r(1,2) ws i by simp
  qed
qed

definition no_axes :: "u64 list" where "no_axes = [0]"

definition south_held :: "u64 list" where
  "south_held = (replicate 12 0)[4 := push_bit 48 1]"

theorem reacquire_exact_witness:
  "5 \<in> pressed (fst (input_latch_evdev_reacquire input_navigation_init INPUT_LATCH_EVDEV_H700_MAINLINE 7 120
     (Some south_held) (Some no_axes) (Some (\<lambda>code. None))))"
proof -
  let ?r = "input_latch_evdev_reacquire input_navigation_init INPUT_LATCH_EVDEV_H700_MAINLINE 7 120
     (Some south_held) (Some no_axes) (Some (\<lambda>code. None))"
  have "length (analog input_navigation_init) = INPUT_NAVIGATION_ANALOG_AXIS_COUNT" by (simp add: input_navigation_init_def)
  moreover have r: "?r = (fst ?r, fst (snd ?r), snd (snd ?r))" by simp
  moreover have "snd (snd ?r)"
    by (simp add: input_latch_evdev_reacquire_def snapshot_evdev_def snapshot_codes_def bit_is_set_def event_codes no_axes_def Let_def)
  moreover have "input_latch_evdev_button_index INPUT_LATCH_EVDEV_H700_MAINLINE BTN_SOUTH = Some 5" "bit_is_set south_held BTN_SOUTH"
    by (simp_all add: input_latch_evdev_button_index_def event_codes bit_is_set_def south_held_def)
  ultimately show ?thesis using reacquire_exact [of input_navigation_init, OF _ r] by auto
qed

lemma reacquire_failed:
  assumes "input_latch_evdev_reacquire n profile now interval kr ar r = (l, n1, False)"
  shows "latch_wf l \<and> INPUT_LATCH_EVDEV_UNKNOWN \<in> pressed l \<and> waiting l"
proof -
  have "l = input_latch_set (input_latch_init now interval) INPUT_LATCH_EVDEV_UNKNOWN True now"
    using assms by (auto simp: input_latch_evdev_reacquire_def snapshot_evdev_def Let_def
        split: prod.splits option.splits bool.splits)
  moreover have "waiting (input_latch_set (input_latch_init now interval) c a now)" for c a
    by (simp add: input_latch_set_def input_latch_init_def Let_def)
  ultimately show ?thesis using pressed_set [OF latch_init_pressed(2)]
    by (simp add: INPUT_LATCH_EVDEV_UNKNOWN_def INPUT_LATCH_CONTROL_CAPACITY_def)
qed

text \<open>
  A gamepad that could not be read keeps the latch closed: until the unknown
  control is released or the latch is forced, no sequence of control changes
  and polls, however long, lets input through.
\<close>

theorem unreadable_device_keeps_latch_closed:
  assumes "input_latch_evdev_reacquire n profile now interval kr ar r = (l, n1, False)"
    and "list_all (\<lambda>e. case e of Control c on t \<Rightarrow> c \<noteq> INPUT_LATCH_EVDEV_UNKNOWN \<or> on | Tick t \<Rightarrow> True | Force \<Rightarrow> False) events"
  shows "snd (input_latch_update (run latch_step l events) t) = False"
proof -
  let ?closed = "\<lambda>l. latch_wf l \<and> INPUT_LATCH_EVDEV_UNKNOWN \<in> pressed l \<and> waiting l"
  have upd: "input_latch_update l u = (l, False)" if "?closed l" for l u
    using that any_active_pressed [of l] by (auto simp: input_latch_update_def)
  have set: "?closed (input_latch_set l c on u)" if "?closed l" "c \<noteq> INPUT_LATCH_EVDEV_UNKNOWN \<or> on" for l c on u
  proof -
    have "waiting (input_latch_set l c on u) = waiting l" by (simp add: input_latch_set_def Let_def)
    with that pressed_set [of l c on u] show ?thesis by auto
  qed
  have "?closed l \<Longrightarrow> ?closed (run latch_step l events)"
    using assms(2)
  proof (induction events arbitrary: l)
    case (Cons e es)
    then have "?closed (fst (latch_step l e))" using upd set by (cases e) auto
    with Cons show ?case by simp
  qed simp
  with reacquire_failed [OF assms(1)] upd show ?thesis by simp
qed

theorem unreadable_device_keeps_latch_closed_witness:
  "snd (input_latch_update (run latch_step
     (fst (input_latch_evdev_reacquire input_navigation_init INPUT_LATCH_EVDEV_H700_MAINLINE 7 120 None None None))
     [Control 3 True 10, Control 3 False 20, Tick 5000]) 9000) = False"
proof -
  let ?r = "input_latch_evdev_reacquire input_navigation_init INPUT_LATCH_EVDEV_H700_MAINLINE 7 120 None None None"
  have "?r = (fst ?r, fst (snd ?r), False)" by (simp add: input_latch_evdev_reacquire_def snapshot_evdev_def)
  from unreadable_device_keeps_latch_closed [OF this, of "[Control 3 True 10, Control 3 False 20, Tick 5000]" 9000] show ?thesis
    by (simp add: INPUT_LATCH_EVDEV_UNKNOWN_def)
qed

end
