(* ===== verification/Frame_Scheduler.thy ===== *)
theory Frame_Scheduler
  imports Prelude
begin

text \<open>
  When the shell draws its next frame (\<^verbatim>\<open>components/rg40xxv-shell/src/frame_scheduler.c\<close>):
  the time the main loop may sleep, over wrapping 32-bit milliseconds.
\<close>

definition FRAME_SCHEDULER_ANIMATION_MS :: u32 where "FRAME_SCHEDULER_ANIMATION_MS = 16"
definition FRAME_SCHEDULER_FADE_MS :: u32 where "FRAME_SCHEDULER_FADE_MS = 33"
definition FRAME_SCHEDULER_MARQUEE_MS :: u32 where "FRAME_SCHEDULER_MARQUEE_MS = 100"
definition FRAME_SCHEDULER_STATIC_MS :: u32 where "FRAME_SCHEDULER_STATIC_MS = 1000"
definition FRAME_SCHEDULER_ACTION_FADE_WINDOW_MS :: u32 where "FRAME_SCHEDULER_ACTION_FADE_WINDOW_MS = 420"
definition FRAME_SCHEDULER_RAW_EVDEV_MAX_WAIT_MS :: int where "FRAME_SCHEDULER_RAW_EVDEV_MAX_WAIT_MS = 50"

lemmas frame_constants = FRAME_SCHEDULER_ANIMATION_MS_def FRAME_SCHEDULER_FADE_MS_def FRAME_SCHEDULER_MARQUEE_MS_def
  FRAME_SCHEDULER_STATIC_MS_def FRAME_SCHEDULER_ACTION_FADE_WINDOW_MS_def FRAME_SCHEDULER_RAW_EVDEV_MAX_WAIT_MS_def

record frame_scheduler =
  last_present :: tick
  dirty :: bool

record frame_scheduler_query =
  q_now :: tick
  action_until :: tick
  required_wake_ms :: int
  visible :: bool
  animate_60hz :: bool
  marquee_10hz :: bool
  action_active :: bool
  raw_evdev :: bool

section \<open>The scheduler\<close>

definition deadline_passed :: "tick \<Rightarrow> tick \<Rightarrow> bool" where
  "deadline_passed now deadline \<longleftrightarrow> 0 \<le> sint (now - deadline)"

definition time_until :: "tick \<Rightarrow> tick \<Rightarrow> int" where
  "time_until now deadline =
    (if deadline_passed now deadline then 0
     else let remaining = deadline - now in
       if remaining > 0x7FFFFFFF then INT_MAX else uint remaining)"

definition sooner :: "int \<Rightarrow> int \<Rightarrow> int" where
  "sooner current candidate =
    (if candidate < 0 then current else if current < 0 \<or> candidate < current then candidate else current)"

definition render_wait_ms :: "frame_scheduler \<Rightarrow> frame_scheduler_query \<Rightarrow> int" where
  "render_wait_ms s q =
    (if \<not> visible q then - 1
     else if dirty s then 0
     else
       let wait0 = time_until (q_now q) (last_present s + FRAME_SCHEDULER_STATIC_MS);
           wait1 = (if animate_60hz q then sooner wait0 (time_until (q_now q) (last_present s + FRAME_SCHEDULER_ANIMATION_MS))
             else wait0);
           wait2 = (if marquee_10hz q then sooner wait1 (time_until (q_now q) (last_present s + FRAME_SCHEDULER_MARQUEE_MS))
             else wait1) in
       if action_active q \<and> \<not> deadline_passed (last_present s) (action_until q) then
         let wait3 = sooner wait2 (time_until (q_now q) (action_until q)) in
         if \<not> deadline_passed (q_now q) (action_until q) then
           let remaining = action_until q - q_now q in
           if remaining > FRAME_SCHEDULER_ACTION_FADE_WINDOW_MS then
             sooner wait3 (to_int32 (uint (remaining - FRAME_SCHEDULER_ACTION_FADE_WINDOW_MS)))
           else sooner wait3 (time_until (q_now q) (last_present s + FRAME_SCHEDULER_FADE_MS))
         else wait3
       else wait2)"

definition frame_scheduler_init :: "tick \<Rightarrow> frame_scheduler" where
  "frame_scheduler_init now = \<lparr>last_present = now, dirty = True\<rparr>"

definition frame_scheduler_invalidate :: "frame_scheduler \<Rightarrow> frame_scheduler" where
  "frame_scheduler_invalidate s = s\<lparr>dirty := True\<rparr>"

definition frame_scheduler_clear :: "frame_scheduler \<Rightarrow> frame_scheduler" where
  "frame_scheduler_clear s = s\<lparr>dirty := False\<rparr>"

definition frame_scheduler_presented :: "frame_scheduler \<Rightarrow> tick \<Rightarrow> frame_scheduler" where
  "frame_scheduler_presented s now = s\<lparr>last_present := now, dirty := False\<rparr>"

definition frame_scheduler_render_due :: "frame_scheduler \<Rightarrow> frame_scheduler_query \<Rightarrow> bool" where
  "frame_scheduler_render_due s q \<longleftrightarrow> visible q \<and> render_wait_ms s q = 0"

definition frame_scheduler_next_wait_ms :: "frame_scheduler \<Rightarrow> frame_scheduler_query \<Rightarrow> int" where
  "frame_scheduler_next_wait_ms s q =
    (let wait = sooner (render_wait_ms s q) (required_wake_ms q);
         wait1 = (if wait < 0 then uint FRAME_SCHEDULER_STATIC_MS else wait) in
     if raw_evdev q \<and> wait1 > FRAME_SCHEDULER_RAW_EVDEV_MAX_WAIT_MS then FRAME_SCHEDULER_RAW_EVDEV_MAX_WAIT_MS else wait1)"

section \<open>Waiting times\<close>

lemma deadline_passed_tick: "deadline_passed now d = tick_passed now d"
  by (simp add: deadline_passed_def tick_passed_def sint32_nonneg)

lemma time_until_nonneg [simp]: "0 \<le> time_until now d"
  by (simp add: time_until_def INT_MAX_def Let_def)

lemma sooner_min: "0 \<le> a \<Longrightarrow> 0 \<le> b \<Longrightarrow> sooner a b = min a b"
  by (simp add: sooner_def)

text \<open>The time left, as a number: it is positive as long as the deadline is ahead.\<close>

definition ms_left :: "tick \<Rightarrow> tick \<Rightarrow> nat" where
  "ms_left now d = unat (d - now)"

lemma passed_left: "deadline_passed now d \<longleftrightarrow> ms_left now d = 0 \<or> 2 ^ 31 < ms_left now d"
proof -
  define x where "x = d - now"
  have n: "now - d = - x" by (simp add: x_def)
  have b: "0 \<le> uint x" "uint x < 2 ^ 32" using uint_lt2p [of x] by simp_all
  have "uint (- x) = (- uint x) mod 2 ^ 32" by (simp add: uint_word_ariths)
  then have u: "uint (- x) = (if uint x = 0 then 0 else 2 ^ 32 - uint x)"
    using b by (simp add: zmod_zminus1_eq_if)
  have "deadline_passed now d \<longleftrightarrow> uint (- x) < 2 ^ 31"
    by (simp add: deadline_passed_tick tick_passed_def n word_less_def)
  also have "\<dots> \<longleftrightarrow> uint x = 0 \<or> 2 ^ 31 < uint x" using u b by auto
  also have "\<dots> \<longleftrightarrow> unat x = 0 \<or> 2 ^ 31 < unat x"
  proof -
    define n where "n = unat x"
    have "uint x = int n" unfolding n_def by (rule uint_nat)
    then show ?thesis unfolding n_def [symmetric] by auto
  qed
  finally show ?thesis by (simp add: ms_left_def x_def)
qed

lemma left_later: "k \<le> ms_left now d \<Longrightarrow> ms_left (now + of_nat k) d = ms_left now d - k"
proof -
  assume k: "k \<le> ms_left now d"
  have "ms_left now d < 2 ^ 32" using unsigned_less [of "d - now", where ?'a = nat] by (simp add: ms_left_def)
  with k have u: "unat (of_nat k :: tick) = k" by (simp add: unat_of_nat)
  then have "of_nat k \<le> d - now" using k by (simp add: word_le_nat_alt ms_left_def)
  then have "unat (d - now - of_nat k) = ms_left now d - k" by (simp add: unat_sub u ms_left_def)
  then show ?thesis by (simp add: ms_left_def algebra_simps)
qed

lemma time_until_left: "\<not> deadline_passed now d \<Longrightarrow> 0 < time_until now d \<and> time_until now d \<le> int (ms_left now d)"
proof -
  assume p: "\<not> deadline_passed now d"
  then have l: "0 < ms_left now d" "ms_left now d \<le> 2 ^ 31" by (simp_all add: passed_left)
  have "uint (d - now) = int (ms_left now d)" unfolding ms_left_def by (rule uint_nat)
  moreover have "(0x7FFFFFFF < d - now) = (2 ^ 31 - 1 < ms_left now d)" by (simp add: word_less_nat_alt ms_left_def)
  ultimately show ?thesis using p l by (auto simp: time_until_def INT_MAX_def Let_def)
qed

text \<open>Until the wait is over, the deadline stays ahead.\<close>

lemma time_until_later:
  assumes "int k < time_until now d"
  shows "0 < time_until (now + of_nat k) d" "\<not> deadline_passed (now + of_nat k) d" "ms_left (now + of_nat k) d = ms_left now d - k"
proof -
  have p: "\<not> deadline_passed now d" using assms by (auto simp: time_until_def)
  note l = time_until_left [OF p]
  with assms have k: "k < ms_left now d" by linarith
  then show m: "ms_left (now + of_nat k) d = ms_left now d - k" by (intro left_later) simp
  with k p show "\<not> deadline_passed (now + of_nat k) d" by (auto simp: passed_left)
  then show "0 < time_until (now + of_nat k) d" by (simp add: time_until_left)
qed

section \<open>No frame is missed while sleeping\<close>

text \<open>The deadlines that are waited for, and the times the wait is the minimum of.\<close>

definition osd_shown :: "frame_scheduler \<Rightarrow> frame_scheduler_query \<Rightarrow> bool" where
  "osd_shown s q \<longleftrightarrow> action_active q \<and> \<not> deadline_passed (last_present s) (action_until q)"

definition fading :: "frame_scheduler_query \<Rightarrow> bool" where
  "fading q \<longleftrightarrow> \<not> deadline_passed (q_now q) (action_until q) \<and> ms_left (q_now q) (action_until q) \<le> 420"

definition fade_ahead :: "frame_scheduler_query \<Rightarrow> bool" where
  "fade_ahead q \<longleftrightarrow> \<not> deadline_passed (q_now q) (action_until q) \<and> 420 < ms_left (q_now q) (action_until q)"

definition deadlines :: "frame_scheduler \<Rightarrow> frame_scheduler_query \<Rightarrow> tick list" where
  "deadlines s q = [last_present s + FRAME_SCHEDULER_STATIC_MS] @
     (if animate_60hz q then [last_present s + FRAME_SCHEDULER_ANIMATION_MS] else []) @
     (if marquee_10hz q then [last_present s + FRAME_SCHEDULER_MARQUEE_MS] else []) @
     (if osd_shown s q then [action_until q] @ (if fading q then [last_present s + FRAME_SCHEDULER_FADE_MS] else []) else [])"

definition wait_parts :: "frame_scheduler \<Rightarrow> frame_scheduler_query \<Rightarrow> int list" where
  "wait_parts s q = map (time_until (q_now q)) (deadlines s q) @
     (if osd_shown s q \<and> fade_ahead q then [int (ms_left (q_now q) (action_until q)) - 420] else [])"

lemma fade_part:
  assumes "\<not> deadline_passed now d" "420 < ms_left now d"
  shows "to_int32 (uint (d - now - 420)) = int (ms_left now d) - 420"
proof -
  have l: "ms_left now d \<le> 2 ^ 31" using assms(1) by (simp add: passed_left)
  have "(420 :: tick) \<le> d - now" using assms(2) by (simp add: word_le_nat_alt ms_left_def)
  then have "unat (d - now - 420) = ms_left now d - 420" by (simp add: unat_sub ms_left_def)
  then have "uint (d - now - 420) = int (ms_left now d) - 420" using uint_nat [of "d - now - 420"] assms(2) by linarith
  moreover have "is_int32 (int (ms_left now d) - 420)" using l assms(2) by (simp add: is_int32_def)
  ultimately show ?thesis by simp
qed

lemma foldl_sooner: "0 \<le> a \<Longrightarrow> list_all (\<lambda>p. 0 \<le> p) ps \<Longrightarrow> foldl sooner a ps = Min (set (a # ps))"
proof (induction ps arbitrary: a)
  case (Cons p ps)
  then have "foldl sooner a (p # ps) = Min (set (min a p # ps))" by (simp add: sooner_min)
  also have "\<dots> = Min (set (a # p # ps))" by (cases "ps = []") (simp_all add: min.assoc)
  finally show ?case .
qed simp

lemma wait_parts_nonneg: "list_all (\<lambda>p. 0 \<le> p) (wait_parts s q)"
  by (auto simp: wait_parts_def fade_ahead_def list_all_iff)

lemma wait_parts_Cons: "wait_parts s q = hd (wait_parts s q) # tl (wait_parts s q)"
  by (simp add: wait_parts_def deadlines_def)

lemma render_wait_fold:
  assumes "visible q" "\<not> dirty s"
  shows "render_wait_ms s q = foldl sooner (hd (wait_parts s q)) (tl (wait_parts s q))"
proof -
  have f: "(420 < action_until q - q_now q) = (420 < ms_left (q_now q) (action_until q))"
    by (simp add: word_less_nat_alt ms_left_def)
  note fp = fade_part [of "q_now q" "action_until q"]
  show ?thesis
  proof (cases "osd_shown s q")
    case False
    then consider "\<not> action_active q" | "deadline_passed (last_present s) (action_until q)" by (auto simp: osd_shown_def)
    then show ?thesis
    proof cases
      case 1
      with assms False show ?thesis
        by (cases "animate_60hz q"; cases "marquee_10hz q") (simp_all add: render_wait_ms_def wait_parts_def deadlines_def Let_def)
    next
      case 2
      with assms False show ?thesis
        by (cases "animate_60hz q"; cases "marquee_10hz q") (simp_all add: render_wait_ms_def wait_parts_def deadlines_def Let_def)
    qed
  next
    case True
    then have osd: "action_active q" "\<not> deadline_passed (last_present s) (action_until q)" by (simp_all add: osd_shown_def)
    show ?thesis
    proof (cases "deadline_passed (q_now q) (action_until q)")
      case passed: True
      then have "\<not> fading q" "\<not> fade_ahead q" by (simp_all add: fading_def fade_ahead_def)
      with assms True osd passed show ?thesis
        by (cases "animate_60hz q"; cases "marquee_10hz q") (simp_all add: render_wait_ms_def wait_parts_def deadlines_def Let_def)
    next
      case ahead: False
      show ?thesis
      proof (cases "420 < ms_left (q_now q) (action_until q)")
        case big: True
        with ahead have "\<not> fading q" "fade_ahead q" by (simp_all add: fading_def fade_ahead_def)
        with assms True osd ahead big f fp show ?thesis
          by (cases "animate_60hz q"; cases "marquee_10hz q")
            (simp_all add: render_wait_ms_def wait_parts_def deadlines_def Let_def FRAME_SCHEDULER_ACTION_FADE_WINDOW_MS_def)
      next
        case small: False
        with ahead have "fading q" "\<not> fade_ahead q" by (simp_all add: fading_def fade_ahead_def)
        with assms True osd ahead small f show ?thesis
          by (cases "animate_60hz q"; cases "marquee_10hz q")
            (simp_all add: render_wait_ms_def wait_parts_def deadlines_def Let_def FRAME_SCHEDULER_ACTION_FADE_WINDOW_MS_def)
      qed
    qed
  qed
qed

lemma render_wait_min:
  assumes "visible q" "\<not> dirty s"
  shows "render_wait_ms s q = Min (set (wait_parts s q))"
proof -
  have "list_all (\<lambda>p. 0 \<le> p) (hd (wait_parts s q) # tl (wait_parts s q))"
    using wait_parts_nonneg [of s q] wait_parts_Cons [of s q] by metis
  then show ?thesis using foldl_sooner render_wait_fold [OF assms] wait_parts_Cons [of s q] by (metis list.pred_inject(2))
qed

lemma parts_later:
  assumes k: "\<And>p. p \<in> set (wait_parts s q) \<Longrightarrow> int k < p" and p: "p \<in> set (wait_parts s (q\<lparr>q_now := q_now q + of_nat k\<rparr>))"
  shows "0 < p"
proof -
  let ?q = "q\<lparr>q_now := q_now q + of_nat k\<rparr>" and ?n = "q_now q" and ?m = "q_now q + of_nat k"
  have osd: "osd_shown s ?q = osd_shown s q" by (simp add: osd_shown_def)
  have until: "int k < time_until ?n d" if "d \<in> set (deadlines s q)" for d using that k by (simp add: wait_parts_def)
  have left: "ms_left ?m (action_until q) = ms_left ?n (action_until q) - k \<and> \<not> deadline_passed ?n (action_until q)" if "osd_shown s q"
    using until [of "action_until q"] that time_until_later [of k ?n "action_until q"] by (auto simp: deadlines_def time_until_def)
  have ahead: "int k < int (ms_left ?n (action_until q)) - 420" if "osd_shown s q" "fade_ahead q"
    using k that by (simp add: wait_parts_def)
  have "fading q" if "osd_shown s q" "fading ?q"
  proof (rule ccontr)
    assume "\<not> fading q"
    with left that have "fade_ahead q" by (auto simp: fading_def fade_ahead_def)
    with ahead that have "int k < int (ms_left ?n (action_until q)) - 420" by simp
    moreover have "ms_left ?n (action_until q) - k \<le> 420" using that left by (simp add: fading_def)
    ultimately show False by linarith
  qed
  then have sub: "set (deadlines s ?q) \<subseteq> set (deadlines s q)" using osd by (auto simp: deadlines_def)
  have "p \<in> time_until ?m ` set (deadlines s ?q) \<or> osd_shown s q \<and> fade_ahead ?q \<and> p = int (ms_left ?m (action_until q)) - 420"
    using p osd by (auto simp: wait_parts_def split: if_splits)
  then show ?thesis
  proof
    assume "p \<in> time_until ?m ` set (deadlines s ?q)"
    then obtain d where "d \<in> set (deadlines s q)" "p = time_until ?m d" using sub by auto
    with time_until_later(1) [OF until] show ?thesis by simp
  qed (auto simp: fade_ahead_def)
qed

text \<open>
  C30: the main loop may sleep for the time the scheduler returns without missing
  a frame: for every millisecond before the end of that time no frame is due,
  for any deadlines and across the wrap-around of the clock; and the time is at
  most 50 ms while raw input is polled.
\<close>

theorem sleeping_misses_no_frame:
  assumes "int k < frame_scheduler_next_wait_ms s q"
  shows "\<not> frame_scheduler_render_due s (q\<lparr>q_now := q_now q + of_nat k\<rparr>) \<and>
    (raw_evdev q \<longrightarrow> frame_scheduler_next_wait_ms s q \<le> 50)"
proof -
  let ?q = "q\<lparr>q_now := q_now q + of_nat k\<rparr>"
  have raw: "raw_evdev q \<Longrightarrow> frame_scheduler_next_wait_ms s q \<le> 50"
    by (simp add: frame_scheduler_next_wait_ms_def frame_constants Let_def)
  show ?thesis
  proof (cases "visible q")
    case False
    with raw show ?thesis by (simp add: frame_scheduler_render_due_def)
  next
    case vis: True
    have ne: "wait_parts s q' \<noteq> []" for q' by (simp add: wait_parts_def deadlines_def)
    have nd: "\<not> dirty s"
      using assms vis by (auto simp: frame_scheduler_next_wait_ms_def render_wait_ms_def sooner_def frame_constants Let_def split: if_splits)
    have "0 \<le> render_wait_ms s q"
      using render_wait_min [OF vis nd] ne [of q] wait_parts_nonneg [of s q] by (simp add: list_all_iff)
    then have "frame_scheduler_next_wait_ms s q \<le> render_wait_ms s q"
      by (auto simp: frame_scheduler_next_wait_ms_def sooner_def frame_constants Let_def)
    with assms render_wait_min [OF vis nd] ne [of q] have "int k < p" if "p \<in> set (wait_parts s q)" for p
      using that Min_le [of "set (wait_parts s q)" p] by (auto intro: less_le_trans)
    from parts_later [OF this] have "0 < Min (set (wait_parts s ?q))" using ne [of ?q] by simp
    moreover have "render_wait_ms s ?q = Min (set (wait_parts s ?q))" using vis nd by (intro render_wait_min) simp_all
    ultimately show ?thesis using raw by (auto simp: frame_scheduler_render_due_def)
  qed
qed

definition sample_query :: frame_scheduler_query where
  "sample_query = \<lparr>q_now = 0xFFFFFFF0, action_until = 500, required_wake_ms = - 1, visible = True, animate_60hz = False,
     marquee_10hz = False, action_active = True, raw_evdev = False\<rparr>"

theorem sleeping_misses_no_frame_witness:
  "frame_scheduler_next_wait_ms (frame_scheduler_presented (frame_scheduler_init 0) 0xFFFFFFF0) sample_query = 96 \<and>
   \<not> frame_scheduler_render_due (frame_scheduler_presented (frame_scheduler_init 0) 0xFFFFFFF0)
     (sample_query\<lparr>q_now := q_now sample_query + of_nat 95\<rparr>)"
proof -
  have w: "frame_scheduler_next_wait_ms (frame_scheduler_presented (frame_scheduler_init 0) 0xFFFFFFF0) sample_query = 96" by code_simp
  with sleeping_misses_no_frame [of 95 "frame_scheduler_presented (frame_scheduler_init 0) 0xFFFFFFF0" sample_query]
  show ?thesis by simp
qed

text \<open>
  With the panel off and no raw input, the wait is as long as the next wake the
  shell asked for: the bound of a second applies only when none was asked for.
\<close>

lemma hidden_wait_unbounded:
  "frame_scheduler_next_wait_ms s (sample_query\<lparr>visible := False, required_wake_ms := 600000\<rparr>) = 600000"
  by (simp add: frame_scheduler_next_wait_ms_def render_wait_ms_def sooner_def sample_query_def)

end
