(* ===== verification/Cover_Limits.thy ===== *)
theory Cover_Limits
  imports Prelude
begin

text \<open>
  The check of a cover image before it is decoded
  (\<^verbatim>\<open>components/rg40xxv-shell/src/cover_limits.c\<close>): the dimensions are read from
  the header of a PNG, BMP or JPEG file and compared with the limits of the
  device. \<open>pread\<close> is a parameter: what the call returns at an offset for a
  number of bytes once it is not interrupted; it may return fewer bytes than
  asked for. File sizes are below 12 MiB, so the 64-bit offsets are numbers.
\<close>

section \<open>Limits\<close>

definition COVER_SOURCE_MAX_WIDTH :: nat where "COVER_SOURCE_MAX_WIDTH = 4096"
definition COVER_SOURCE_MAX_HEIGHT :: nat where "COVER_SOURCE_MAX_HEIGHT = 4096"
definition COVER_SOURCE_MAX_PIXELS :: nat where "COVER_SOURCE_MAX_PIXELS = 4194304"
definition COVER_DECODE_MAX_BYTES :: nat where "COVER_DECODE_MAX_BYTES = 16777216"
definition COVER_FILE_MAX_BYTES :: nat where "COVER_FILE_MAX_BYTES = 12582912"
definition COVER_HEADER_SCAN_MAX_BYTES :: nat where "COVER_HEADER_SCAN_MAX_BYTES = 1048576"

lemmas cover_limits = COVER_SOURCE_MAX_WIDTH_def COVER_SOURCE_MAX_HEIGHT_def COVER_SOURCE_MAX_PIXELS_def
  COVER_DECODE_MAX_BYTES_def COVER_FILE_MAX_BYTES_def COVER_HEADER_SCAN_MAX_BYTES_def

datatype cover_probe_result = COVER_PROBE_INVALID | COVER_PROBE_LIMIT | COVER_PROBE_IO

record cover_dimensions =
  width :: nat
  height :: nat
  decode_bytes :: nat

section \<open>Reading\<close>

datatype pread_answer = PreadError | PreadBytes string

type_synonym reader = "nat \<Rightarrow> nat \<Rightarrow> pread_answer"

text \<open>\<open>read_exact_at\<close> with the offset and the number of the bytes still wanted.\<close>

function read_exact_at :: "reader \<Rightarrow> nat \<Rightarrow> nat \<Rightarrow> cover_probe_result + string" where
  "read_exact_at pread offset len =
    (if len = 0 then Inr []
     else case pread offset len of
         PreadError \<Rightarrow> Inl COVER_PROBE_IO
       | PreadBytes bs \<Rightarrow>
         let got = take len bs in
         if got = [] then Inl COVER_PROBE_INVALID
         else case read_exact_at pread (offset + length got) (len - length got) of
             Inl e \<Rightarrow> Inl e
           | Inr rest \<Rightarrow> Inr (got @ rest))"
  by pat_completeness auto
termination by (relation "measure (\<lambda>(pread, offset, len). len)") auto

declare read_exact_at.simps [simp del]

definition read_be16 :: "string \<Rightarrow> nat" where
  "read_be16 v = push_bit 8 (byte (v ! 0)) OR byte (v ! 1)"

definition read_be32 :: "string \<Rightarrow> nat" where
  "read_be32 v = push_bit 24 (byte (v ! 0)) OR push_bit 16 (byte (v ! 1)) OR push_bit 8 (byte (v ! 2)) OR byte (v ! 3)"

definition read_le16 :: "string \<Rightarrow> nat" where
  "read_le16 v = push_bit 8 (byte (v ! 1)) OR byte (v ! 0)"

definition read_le32 :: "string \<Rightarrow> nat" where
  "read_le32 v = push_bit 24 (byte (v ! 3)) OR push_bit 16 (byte (v ! 2)) OR push_bit 8 (byte (v ! 1)) OR byte (v ! 0)"

definition validate_dimensions :: "nat \<Rightarrow> nat \<Rightarrow> cover_probe_result + cover_dimensions" where
  "validate_dimensions w h =
    (if w = 0 \<or> h = 0 then Inl COVER_PROBE_INVALID
     else if COVER_SOURCE_MAX_WIDTH < w \<or> COVER_SOURCE_MAX_HEIGHT < h then Inl COVER_PROBE_LIMIT
     else
       let pixels = w * h in
       if COVER_SOURCE_MAX_PIXELS < pixels \<or> COVER_DECODE_MAX_BYTES div 4 < pixels then Inl COVER_PROBE_LIMIT
       else Inr \<lparr>width = w, height = h, decode_bytes = pixels * 4\<rparr>)"

section \<open>Formats\<close>

definition png_signature :: string where
  "png_signature = [CHR 0x89, CHR ''P'', CHR ''N'', CHR ''G'', CHR 0x0D, CHR 0x0A, CHR 0x1A, CHR 0x0A]"

definition probe_png :: "reader \<Rightarrow> nat \<Rightarrow> cover_probe_result + cover_dimensions" where
  "probe_png pread file_size =
    (if file_size < 24 then Inl COVER_PROBE_INVALID
     else case read_exact_at pread 0 24 of
         Inl e \<Rightarrow> Inl e
       | Inr hdr \<Rightarrow>
         if take 8 hdr \<noteq> png_signature \<or> read_be32 (drop 8 hdr) \<noteq> 13 \<or> take 4 (drop 12 hdr) \<noteq> ''IHDR''
         then Inl COVER_PROBE_INVALID
         else validate_dimensions (read_be32 (drop 16 hdr)) (read_be32 (drop 20 hdr)))"

definition probe_bmp :: "reader \<Rightarrow> nat \<Rightarrow> cover_probe_result + cover_dimensions" where
  "probe_bmp pread file_size =
    (if file_size < 26 then Inl COVER_PROBE_INVALID
     else case read_exact_at pread 0 26 of
         Inl e \<Rightarrow> Inl e
       | Inr hdr \<Rightarrow>
         if hdr ! 0 \<noteq> CHR ''B'' \<or> hdr ! 1 \<noteq> CHR ''M'' then Inl COVER_PROBE_INVALID
         else
           let dib_size = read_le32 (drop 14 hdr) in
           if dib_size = 12 then validate_dimensions (read_le16 (drop 18 hdr)) (read_le16 (drop 20 hdr))
           else if 40 \<le> dib_size then
             let signed_width = to_int32 (int (read_le32 (drop 18 hdr)));
                 signed_height = to_int32 (int (read_le32 (drop 22 hdr))) in
             if signed_width \<le> 0 \<or> signed_height = - (2 ^ 31) then Inl COVER_PROBE_INVALID
             else validate_dimensions (nat signed_width) (if signed_height < 0 then nat (- signed_height) else nat signed_height)
           else Inl COVER_PROBE_INVALID)"

definition is_sof_marker :: "char \<Rightarrow> bool" where
  "is_sof_marker marker \<longleftrightarrow> byte marker \<in>
    {0xC0, 0xC1, 0xC2, 0xC3, 0xC5, 0xC6, 0xC7, 0xC9, 0xCA, 0xCB, 0xCD, 0xCE, 0xCF}"

text \<open>The loop over fill bytes: the marker found and the offset after it.\<close>

function jpeg_marker :: "reader \<Rightarrow> nat \<Rightarrow> nat \<Rightarrow> cover_probe_result + char \<times> nat" where
  "jpeg_marker pread file_size offset =
    (case read_exact_at pread offset 1 of
       Inl e \<Rightarrow> Inl e
     | Inr bs \<Rightarrow>
       if byte (bs ! 0) = 0xFF \<and> offset + 1 < file_size then jpeg_marker pread file_size (offset + 1)
       else Inr (bs ! 0, offset + 1))"
  by pat_completeness auto
termination by (relation "measure (\<lambda>(pread, fs, offset). fs - offset)") auto

declare jpeg_marker.simps [simp del]

lemma jpeg_marker_moves: "jpeg_marker pread fs offset = Inr (m, offset1) \<Longrightarrow> offset < offset1"
proof (induction pread fs offset rule: jpeg_marker.induct)
  case (1 pread fs offset)
  from "1.prems" obtain bs where bs: "read_exact_at pread offset 1 = Inr bs"
    by (subst (asm) jpeg_marker.simps) (auto split: sum.splits)
  show ?case
  proof (cases "byte (bs ! 0) = 0xFF \<and> offset + 1 < fs")
    case True
    with "1.prems" bs have "jpeg_marker pread fs (offset + 1) = Inr (m, offset1)" by (subst (asm) jpeg_marker.simps) simp
    from "1.IH" [OF bs True this] show ?thesis by simp
  next
    case False
    with "1.prems" bs show ?thesis by (subst (asm) jpeg_marker.simps) auto
  qed
qed

text \<open>The loop over segments.\<close>

function jpeg_scan :: "reader \<Rightarrow> nat \<Rightarrow> nat \<Rightarrow> cover_probe_result + cover_dimensions" where
  "jpeg_scan pread file_size offset =
    (if \<not> (offset + 1 < file_size \<and> offset < COVER_HEADER_SCAN_MAX_BYTES) then Inl COVER_PROBE_INVALID
     else case read_exact_at pread offset 1 of
         Inl e \<Rightarrow> Inl e
       | Inr first \<Rightarrow>
         if byte (first ! 0) \<noteq> 0xFF then jpeg_scan pread file_size (offset + 1)
         else (case jpeg_marker pread file_size (offset + 1) of
             Inl e \<Rightarrow> Inl e
           | Inr (marker, offset1) \<Rightarrow>
             if byte marker = 0 then jpeg_scan pread file_size offset1
             else if byte marker = 0xD9 \<or> byte marker = 0xDA then Inl COVER_PROBE_INVALID
             else if byte marker = 0xD8 \<or> byte marker = 0x01 \<or> (0xD0 \<le> byte marker \<and> byte marker \<le> 0xD7)
               then jpeg_scan pread file_size offset1
             else if file_size < offset1 + 2 then Inl COVER_PROBE_INVALID
             else (case read_exact_at pread offset1 2 of
                 Inl e \<Rightarrow> Inl e
               | Inr seg \<Rightarrow>
                 let segment_size = read_be16 seg; offset2 = offset1 + 2 in
                 if segment_size < 2 then Inl COVER_PROBE_INVALID
                 else
                   let payload_size = segment_size - 2 in
                   if file_size - offset2 < payload_size \<or> COVER_HEADER_SCAN_MAX_BYTES < offset2 + payload_size
                   then Inl COVER_PROBE_INVALID
                   else if is_sof_marker marker then
                     (if payload_size < 5 then Inl COVER_PROBE_INVALID
                      else case read_exact_at pread offset2 5 of
                          Inl e \<Rightarrow> Inl e
                        | Inr sof \<Rightarrow> validate_dimensions (read_be16 (drop 3 sof)) (read_be16 (drop 1 sof)))
                   else jpeg_scan pread file_size (offset2 + payload_size))))"
  by pat_completeness auto
termination
  by (relation "measure (\<lambda>(pread, fs, offset). fs - offset)") (auto dest!: jpeg_marker_moves)

declare jpeg_scan.simps [simp del]

definition probe_jpeg :: "reader \<Rightarrow> nat \<Rightarrow> cover_probe_result + cover_dimensions" where
  "probe_jpeg pread file_size =
    (if file_size < 4 then Inl COVER_PROBE_INVALID
     else case read_exact_at pread 0 2 of
         Inl e \<Rightarrow> Inl e
       | Inr bs \<Rightarrow>
         if byte (bs ! 0) \<noteq> 0xFF \<or> byte (bs ! 1) \<noteq> 0xD8 then Inl COVER_PROBE_INVALID
         else jpeg_scan pread file_size 2)"

text \<open>A null result pointer is a caller's error and left out.\<close>

definition cover_probe_fd :: "int \<Rightarrow> reader \<Rightarrow> nat \<Rightarrow> cover_probe_result + cover_dimensions" where
  "cover_probe_fd fd pread file_size =
    (if fd < 0 \<or> file_size = 0 then Inl COVER_PROBE_INVALID
     else if COVER_FILE_MAX_BYTES < file_size then Inl COVER_PROBE_LIMIT
     else case read_exact_at pread 0 2 of
         Inl e \<Rightarrow> Inl e
       | Inr sig \<Rightarrow>
         if byte (sig ! 0) = 0x89 \<and> sig ! 1 = CHR ''P'' then probe_png pread file_size
         else if sig ! 0 = CHR ''B'' \<and> sig ! 1 = CHR ''M'' then probe_bmp pread file_size
         else if byte (sig ! 0) = 0xFF \<and> byte (sig ! 1) = 0xD8 then probe_jpeg pread file_size
         else Inl COVER_PROBE_INVALID)"

section \<open>Nothing too large is decoded\<close>

definition dimensions_ok :: "cover_dimensions \<Rightarrow> bool" where
  "dimensions_ok d \<longleftrightarrow> 0 < width d \<and> width d \<le> COVER_SOURCE_MAX_WIDTH \<and> 0 < height d \<and> height d \<le> COVER_SOURCE_MAX_HEIGHT \<and>
     width d * height d \<le> COVER_SOURCE_MAX_PIXELS \<and> decode_bytes d = 4 * (width d * height d) \<and>
     decode_bytes d \<le> COVER_DECODE_MAX_BYTES"

lemma validate_dimensions_ok: "validate_dimensions w h = Inr d \<Longrightarrow> dimensions_ok d \<and> width d = w \<and> height d = h"
  by (auto simp: validate_dimensions_def dimensions_ok_def cover_limits Let_def ac_simps split: if_splits)

lemma jpeg_scan_ok: "jpeg_scan pread fs offset = Inr d \<Longrightarrow> dimensions_ok d"
proof (induction "fs - offset" arbitrary: offset rule: less_induct)
  case less
  have c: "offset + 1 < fs" "offset < COVER_HEADER_SCAN_MAX_BYTES"
    using less.prems by (subst (asm) jpeg_scan.simps; auto split: if_splits)+
  then have ih: "offset < k \<Longrightarrow> jpeg_scan pread fs k = Inr d \<Longrightarrow> dimensions_ok d" for k using less.hyps [of k] by simp
  from less.prems c obtain b where b: "read_exact_at pread offset 1 = Inr b" by (subst (asm) jpeg_scan.simps) (auto split: sum.splits)
  show ?case
  proof (cases "byte (b ! 0) = 0xFF")
    case False
    with less.prems c b have "jpeg_scan pread fs (offset + 1) = Inr d" by (subst (asm) jpeg_scan.simps) simp
    then show ?thesis by (intro ih) auto
  next
    case True
    with less.prems c b obtain m k where m: "jpeg_marker pread fs (offset + 1) = Inr (m, k)"
      by (subst (asm) jpeg_scan.simps) (auto split: sum.splits)
    note k = jpeg_marker_moves [OF m]
    from less.prems c b True m have "jpeg_scan pread fs k = Inr d \<or> (\<exists>w h. validate_dimensions w h = Inr d) \<or>
        (\<exists>j \<ge> k. jpeg_scan pread fs j = Inr d)"
      by (subst (asm) jpeg_scan.simps) (auto simp: Let_def split: if_splits sum.splits)
    then show ?thesis
    proof (elim disjE exE conjE)
      assume "jpeg_scan pread fs k = Inr d" with k show ?thesis by (intro ih [of k]) auto
    next
      fix w h assume "validate_dimensions w h = Inr d" then show ?thesis using validate_dimensions_ok by blast
    next
      fix j assume "k \<le> j" "jpeg_scan pread fs j = Inr d" with k show ?thesis by (intro ih [of j]) auto
    qed
  qed
qed

text \<open>
  C16: whatever a file holds and however its reads fail, a cover that is accepted
  has both sides between 1 and 4096, at most 4194304 pixels, and a decoded size
  of four bytes per pixel that stays within 16 MiB; and the probe always ends.
\<close>

theorem cover_probe_bounded:
  assumes "cover_probe_fd fd pread file_size = Inr d"
  shows "dimensions_ok d \<and> file_size \<le> COVER_FILE_MAX_BYTES"
proof -
  have "file_size \<le> COVER_FILE_MAX_BYTES" using assms by (auto simp: cover_probe_fd_def split: if_splits)
  moreover have "probe_png pread file_size = Inr d \<or> probe_bmp pread file_size = Inr d \<or> jpeg_scan pread file_size 2 = Inr d"
    using assms by (auto simp: cover_probe_fd_def probe_jpeg_def split: if_splits sum.splits)
  ultimately show ?thesis using validate_dimensions_ok jpeg_scan_ok
    by (auto simp: probe_png_def probe_bmp_def Let_def split: if_splits sum.splits)
qed

section \<open>Honest files\<close>

text \<open>What \<^verbatim>\<open>pread\<close> promises for a readable file: some of the bytes asked for, none only at the end.\<close>

definition pread_of :: "string \<Rightarrow> reader \<Rightarrow> bool" where
  "pread_of content pread \<longleftrightarrow> (\<forall>offset len. 0 < len \<longrightarrow> (\<exists>m. pread offset len = PreadBytes (take m (drop offset content)) \<and>
     (offset < length content \<longrightarrow> 0 < m) \<and> m \<le> len))"

lemma read_exact_content:
  assumes "pread_of content pread"
  shows "read_exact_at pread offset len =
    (if len = 0 \<or> offset + len \<le> length content then Inr (take len (drop offset content)) else Inl COVER_PROBE_INVALID)"
proof (induction len arbitrary: offset rule: less_induct)
  case (less len)
  show ?case
  proof (cases "len = 0")
    case True
    then show ?thesis by (simp add: read_exact_at.simps)
  next
    case False
    with assms obtain m where m: "pread offset len = PreadBytes (take m (drop offset content))"
      "offset < length content \<Longrightarrow> 0 < m" "m \<le> len" unfolding pread_of_def by blast
    let ?got = "take m (drop offset content)"
    show ?thesis
    proof (cases "offset < length content")
      case False
      with m \<open>len \<noteq> 0\<close> show ?thesis by (subst read_exact_at.simps) (simp add: Let_def)
    next
      case True
      have g: "?got \<noteq> []" "take len ?got = ?got" "0 < length ?got" "length ?got \<le> len"
        using m(2) [OF True] m(3) True by (simp_all add: min_def)
      have "len - length ?got < len" using g(3,4) by linarith
      from less.IH [OF this, of "offset + length ?got"] m(1) g \<open>len \<noteq> 0\<close>
      have "read_exact_at pread offset len =
          (if len - length ?got = 0 \<or> offset + length ?got + (len - length ?got) \<le> length content
           then Inr (?got @ take (len - length ?got) (drop (offset + length ?got) content)) else Inl COVER_PROBE_INVALID)"
        by (subst read_exact_at.simps) (simp add: Let_def)
      moreover have "?got @ take (len - length ?got) (drop (offset + length ?got) content) = take len (drop offset content)"
      proof -
        have "?got = take (length ?got) (drop offset content)" by (simp add: min_def)
        then have "take len (drop offset content) = ?got @ take (len - length ?got) (drop (length ?got) (drop offset content))"
          using g(4) by (metis le_add_diff_inverse take_add)
        then show ?thesis by (simp add: add.commute)
      qed
      moreover have "len - length ?got = 0 \<Longrightarrow> offset + len \<le> length content" using g(4) True by (simp add: min_def split: if_splits)
      ultimately show ?thesis using g(4) \<open>len \<noteq> 0\<close> by auto
    qed
  qed
qed

definition be16 :: "nat \<Rightarrow> string" where
  "be16 n = [char_of (n div 256), char_of (n mod 256)]"

definition be32 :: "nat \<Rightarrow> string" where
  "be32 n = [char_of (n div 16777216), char_of (n div 65536 mod 256), char_of (n div 256 mod 256), char_of (n mod 256)]"

lemma be_length [simp]: "length (be16 n) = 2" "length (be32 n) = 4"
  by (simp_all add: be16_def be32_def)

lemma byte_char_mod: "byte (char_of n) = n mod 256"
  by (simp add: byte_def)

lemma read_be16 [simp]: "n < 65536 \<Longrightarrow> read_be16 (be16 n @ r) = n"
  using push_bit_or_add [of "n mod 256" 8 "n div 256"] by (simp add: read_be16_def be16_def byte_char_mod)

lemma read_be32 [simp]: "n < 4294967296 \<Longrightarrow> read_be32 (be32 n @ r) = n"
proof -
  assume n: "n < 4294967296"
  let ?a = "n div 16777216" and ?b = "n div 65536 mod 256" and ?c = "n div 256 mod 256" and ?d = "n mod 256"
  have c: "push_bit 8 ?c OR ?d = ?c * 256 + ?d" using push_bit_or_add [of ?d 8 ?c] by simp
  have d: "?b < 256" "?c < 256" "?d < 256" by simp_all
  with c have "push_bit 8 ?c OR ?d < 2 ^ 16" by simp
  from push_bit_or_add [OF this, of ?b] c have b: "push_bit 16 ?b OR (push_bit 8 ?c OR ?d) = ?b * 65536 + (?c * 256 + ?d)" by simp
  have "?b * 65536 + (?c * 256 + ?d) < 16777216" using d by linarith
  with b have "push_bit 16 ?b OR (push_bit 8 ?c OR ?d) < 2 ^ 24" by simp
  from push_bit_or_add [OF this, of ?a] b
  have "push_bit 24 ?a OR (push_bit 16 ?b OR (push_bit 8 ?c OR ?d)) = ?a * 16777216 + (?b * 65536 + (?c * 256 + ?d))" by simp
  also have "\<dots> = n"
  proof -
    have "n mod (256 * 256) = 256 * ?c + ?d" "n mod (65536 * 256) = 65536 * ?b + n mod 65536" by (rule mod_mult2_eq)+
    moreover have "n = ?a * 16777216 + n mod 16777216" by simp
    ultimately show ?thesis by simp
  qed
  finally show ?thesis using n by (simp add: read_be32_def be32_def byte_char_mod)
qed

definition png_file :: "nat \<Rightarrow> nat \<Rightarrow> string \<Rightarrow> string" where
  "png_file w h rest = png_signature @ be32 13 @ ''IHDR'' @ be32 w @ be32 h @ rest"

lemma probe_png_exact:
  assumes "pread_of (png_file w h rest) pread" "w < 4294967296" "h < 4294967296"
  shows "probe_png pread (length (png_file w h rest)) = validate_dimensions w h"
proof -
  have l: "length (png_file w h rest) = 24 + length rest" by (simp add: png_file_def png_signature_def)
  have "read_exact_at pread 0 24 = Inr (png_signature @ be32 13 @ ''IHDR'' @ be32 w @ be32 h)"
    using read_exact_content [OF assms(1), of 0 24] l by (simp add: png_file_def png_signature_def)
  with l assms(2,3) show ?thesis
    using read_be32 [of 13 "''IHDR'' @ be32 w @ be32 h"] read_be32 [of h "[]"] read_be32 [of w "be32 h"]
    by (simp add: probe_png_def png_signature_def)
qed

lemma cover_probe_png:
  assumes "pread_of (png_file w h rest) pread" "w < 4294967296" "h < 4294967296"
    and "length (png_file w h rest) \<le> COVER_FILE_MAX_BYTES" "0 \<le> fd"
  shows "cover_probe_fd fd pread (length (png_file w h rest)) = validate_dimensions w h"
proof -
  have l: "length (png_file w h rest) = 24 + length rest" by (simp add: png_file_def png_signature_def)
  then have "read_exact_at pread 0 2 = Inr [CHR 0x89, CHR ''P'']"
    using read_exact_content [OF assms(1), of 0 2] by (simp add: png_file_def png_signature_def)
  with l assms(4,5) probe_png_exact [OF assms(1-3)] show ?thesis by (simp add: cover_probe_fd_def)
qed

text \<open>A JPEG file as the probe sees it: segments that are skipped, then a frame header.\<close>

definition skipped_segment :: "char \<times> string \<Rightarrow> bool" where
  "skipped_segment mp \<longleftrightarrow> byte (fst mp) \<notin> {0x00, 0x01, 0xD9, 0xDA, 0xFF} \<and> \<not> (0xD0 \<le> byte (fst mp) \<and> byte (fst mp) \<le> 0xD8) \<and>
     \<not> is_sof_marker (fst mp) \<and> length (snd mp) < 65534"

definition jpeg_segment :: "char \<times> string \<Rightarrow> string" where
  "jpeg_segment mp = [CHR 0xFF, fst mp] @ be16 (length (snd mp) + 2) @ snd mp"

definition jpeg_file :: "(char \<times> string) list \<Rightarrow> char \<Rightarrow> nat \<Rightarrow> nat \<Rightarrow> string \<Rightarrow> string \<Rightarrow> string" where
  "jpeg_file segs m w h tail rest =
    [CHR 0xFF, CHR 0xD8] @ concat (map jpeg_segment segs) @ jpeg_segment (m, [CHR 0x08] @ be16 h @ be16 w @ tail) @ rest"

lemma jpeg_marker_here:
  assumes "read_exact_at pread k 1 = Inr [m]" "byte m \<noteq> 0xFF"
  shows "jpeg_marker pread fs k = Inr (m, k + 1)"
  using assms by (subst jpeg_marker.simps) simp

lemma segment_reads:
  assumes "pread_of content pread" "content = pre @ jpeg_segment (m, p) @ post"
  shows "read_exact_at pread (length pre) 1 = Inr [CHR 0xFF]" "read_exact_at pread (length pre + 1) 1 = Inr [m]"
    "read_exact_at pread (length pre + 2) 2 = Inr (be16 (length p + 2))"
    "n \<le> length p \<Longrightarrow> read_exact_at pread (length pre + 4) n = Inr (take n p)"
proof -
  note r = read_exact_content [OF assms(1)]
  let ?seg = "jpeg_segment (m, p) @ post"
  have d: "drop (length pre + k) content = drop k ?seg" for k using assms(2) by simp
  have l: "length content = length pre + 4 + length p + length post" using assms(2) by (simp add: jpeg_segment_def)
  have s: "?seg = CHR 0xFF # m # be16 (length p + 2) @ p @ post" by (simp add: jpeg_segment_def)
  show "read_exact_at pread (length pre) 1 = Inr [CHR 0xFF]" using r [of "length pre" 1] d [of 0] l s by simp
  show "read_exact_at pread (length pre + 1) 1 = Inr [m]" using r [of "length pre + 1" 1] d [of 1] l s by simp
  show "read_exact_at pread (length pre + 2) 2 = Inr (be16 (length p + 2))"
    using r [of "length pre + 2" 2] d [of 2] l s by (simp add: numeral_2_eq_2)
  have "drop 4 ?seg = p @ post" using s by (simp add: be16_def)
  then show "n \<le> length p \<Longrightarrow> read_exact_at pread (length pre + 4) n = Inr (take n p)"
    using r [of "length pre + 4" n] d [of 4] l by auto
qed

lemma jpeg_scan_segment:
  assumes "pread_of content pread" "content = pre @ jpeg_segment (m, p) @ post" "length p < 65534"
    and "length pre + 4 + length p \<le> COVER_HEADER_SCAN_MAX_BYTES"
    and "byte m \<notin> {0x00, 0x01, 0xD9, 0xDA, 0xFF}" "\<not> (0xD0 \<le> byte m \<and> byte m \<le> 0xD8)"
  shows "jpeg_scan pread (length content) (length pre) =
    (if is_sof_marker m then
       (if length p < 5 then Inl COVER_PROBE_INVALID
        else validate_dimensions (read_be16 (drop 3 (take 5 p))) (read_be16 (drop 1 (take 5 p))))
     else jpeg_scan pread (length content) (length pre + 4 + length p))"
proof -
  note r = segment_reads [OF assms(1,2)]
  have l: "length content = length pre + 4 + length p + length post" using assms(2) by (simp add: jpeg_segment_def)
  have "jpeg_marker pread (length content) (length pre + 1) = Inr (m, length pre + 2)"
    using jpeg_marker_here [OF r(2)] assms(5) by simp
  moreover have "read_be16 (be16 (length p + 2)) = length p + 2" using read_be16 [of "length p + 2" "[]"] assms(3) by simp
  moreover have "\<not> (byte m = 0xD8 \<or> byte m = 0x01 \<or> (0xD0 \<le> byte m \<and> byte m \<le> 0xD7))" using assms(5,6) by auto
  moreover have "length pre + 2 + 2 = length pre + 4" by simp
  ultimately show ?thesis
    using r(1,3) r(4) [of 5] l assms(4,5) by (subst jpeg_scan.simps) (auto simp: Let_def not_less ac_simps simp del: add_2_eq_Suc add_2_eq_Suc')
qed

lemma jpeg_scan_segments:
  assumes "pread_of content pread"
  shows "content = pre @ concat (map jpeg_segment segs) @ post \<Longrightarrow> list_all skipped_segment segs \<Longrightarrow>
    length pre + length (concat (map jpeg_segment segs)) \<le> COVER_HEADER_SCAN_MAX_BYTES \<Longrightarrow>
    jpeg_scan pread (length content) (length pre) = jpeg_scan pread (length content) (length pre + length (concat (map jpeg_segment segs)))"
proof (induction segs arbitrary: pre)
  case (Cons mp segs)
  obtain m p where mp: "mp = (m, p)" by (cases mp)
  let ?pre = "pre @ jpeg_segment (m, p)"
  have len: "length ?pre = length pre + 4 + length p" by (simp add: jpeg_segment_def)
  have "jpeg_scan pread (length content) (length pre) = jpeg_scan pread (length content) (length ?pre)"
    using jpeg_scan_segment [OF assms, of pre m p] Cons.prems mp len by (auto simp: skipped_segment_def add.assoc)
  also have "\<dots> = jpeg_scan pread (length content) (length ?pre + length (concat (map jpeg_segment segs)))"
    using Cons.IH [of ?pre] Cons.prems mp by simp
  finally show ?case using mp by (simp add: add.assoc)
qed simp

lemma probe_jpeg_exact:
  assumes "pread_of (jpeg_file segs m w h tail rest) pread" "w < 65536" "h < 65536" "length tail < 65529"
    and "list_all skipped_segment segs" "is_sof_marker m"
    and "length (concat (map jpeg_segment segs)) + length tail + 11 \<le> COVER_HEADER_SCAN_MAX_BYTES"
  shows "read_exact_at pread 0 2 = Inr [CHR 0xFF, CHR 0xD8]"
    and "jpeg_scan pread (length (jpeg_file segs m w h tail rest)) 2 = validate_dimensions w h"
    and "11 \<le> length (jpeg_file segs m w h tail rest)"
proof -
  let ?c = "jpeg_file segs m w h tail rest" and ?p = "[CHR 0x08] @ be16 h @ be16 w @ tail"
  let ?pre = "[CHR 0xFF, CHR 0xD8] @ concat (map jpeg_segment segs)"
  show l: "11 \<le> length ?c" by (simp add: jpeg_file_def jpeg_segment_def)
  then show "read_exact_at pread 0 2 = Inr [CHR 0xFF, CHR 0xD8]"
    using read_exact_content [OF assms(1), of 0 2] by (simp add: jpeg_file_def)
  have c: "?c = [CHR 0xFF, CHR 0xD8] @ concat (map jpeg_segment segs) @ jpeg_segment (m, ?p) @ rest"
    "?c = ?pre @ jpeg_segment (m, ?p) @ rest" by (simp_all add: jpeg_file_def)
  have two: "length [CHR 0xFF, CHR 0xD8] = 2" by simp
  have "jpeg_scan pread (length ?c) 2 = jpeg_scan pread (length ?c) (2 + length (concat (map jpeg_segment segs)))"
    using jpeg_scan_segments [OF assms(1) c(1) assms(5)] assms(7) unfolding two by simp
  also have "2 + length (concat (map jpeg_segment segs)) = length ?pre" by simp
  also have "jpeg_scan pread (length ?c) (length ?pre) =
      validate_dimensions (read_be16 (drop 3 (take 5 ?p))) (read_be16 (drop 1 (take 5 ?p)))"
  proof -
    have lp: "length ?p < 65534" "length ?pre + 4 + length ?p \<le> COVER_HEADER_SCAN_MAX_BYTES" "\<not> length ?p < 5"
      using assms(4,7) by simp_all
    have m: "byte m \<notin> {0x00, 0x01, 0xD9, 0xDA, 0xFF}" "\<not> (0xD0 \<le> byte m \<and> byte m \<le> 0xD8)"
      using assms(6) unfolding is_sof_marker_def by auto
    show ?thesis using jpeg_scan_segment [OF assms(1) c(2) lp(1,2) m] unfolding if_P [OF assms(6)] if_not_P [OF lp(3)] .
  qed
  also have "\<dots> = validate_dimensions w h"
  proof -
    have "drop 3 (take 5 ?p) = be16 w @ []" "drop 1 (take 5 ?p) = be16 h @ be16 w" by (simp_all add: be16_def)
    then show ?thesis using read_be16 [OF assms(2)] read_be16 [OF assms(3)] by metis
  qed
  finally show "jpeg_scan pread (length ?c) 2 = validate_dimensions w h" .
qed

text \<open>
  The probe reads the true dimensions: for a PNG file whose header states
  them, and for a JPEG file with any skippable segments before its frame header
  within the first mebibyte, the answer is the check of exactly the stated
  width and height, however the reads are split.
\<close>

theorem cover_probe_reads_header:
  assumes "0 \<le> fd"
  shows "(pread_of (png_file pw ph rest) pread \<longrightarrow> pw < 4294967296 \<longrightarrow> ph < 4294967296 \<longrightarrow>
      length (png_file pw ph rest) \<le> COVER_FILE_MAX_BYTES \<longrightarrow>
      cover_probe_fd fd pread (length (png_file pw ph rest)) = validate_dimensions pw ph) \<and>
    (pread_of (jpeg_file segs m w h tail rest) pread \<longrightarrow> w < 65536 \<longrightarrow> h < 65536 \<longrightarrow> length tail < 65529 \<longrightarrow>
      list_all skipped_segment segs \<longrightarrow> is_sof_marker m \<longrightarrow>
      length (concat (map jpeg_segment segs)) + length tail + 11 \<le> COVER_HEADER_SCAN_MAX_BYTES \<longrightarrow>
      length (jpeg_file segs m w h tail rest) \<le> COVER_FILE_MAX_BYTES \<longrightarrow>
      cover_probe_fd fd pread (length (jpeg_file segs m w h tail rest)) = validate_dimensions w h)"
proof (intro conjI impI)
  assume "pread_of (png_file pw ph rest) pread" "pw < 4294967296" "ph < 4294967296" "length (png_file pw ph rest) \<le> COVER_FILE_MAX_BYTES"
  then show "cover_probe_fd fd pread (length (png_file pw ph rest)) = validate_dimensions pw ph"
    by (rule cover_probe_png [OF _ _ _ _ assms])
next
  assume a: "pread_of (jpeg_file segs m w h tail rest) pread" "w < 65536" "h < 65536" "length tail < 65529"
    "list_all skipped_segment segs" "is_sof_marker m"
    "length (concat (map jpeg_segment segs)) + length tail + 11 \<le> COVER_HEADER_SCAN_MAX_BYTES"
    "length (jpeg_file segs m w h tail rest) \<le> COVER_FILE_MAX_BYTES"
  from probe_jpeg_exact [OF a(1-7)] a(8) assms
  show "cover_probe_fd fd pread (length (jpeg_file segs m w h tail rest)) = validate_dimensions w h"
    by (auto simp: cover_probe_fd_def probe_jpeg_def)
qed

definition whole_pread :: "string \<Rightarrow> reader" where
  "whole_pread content offset len = PreadBytes (take len (drop offset content))"

lemma whole_pread_of: "pread_of content (whole_pread content)"
  by (auto simp: pread_of_def whole_pread_def)

theorem cover_probe_reads_header_witness:
  "cover_probe_fd 3 (whole_pread (png_file 160 232 [])) (length (png_file 160 232 [])) = validate_dimensions 160 232 \<and>
   cover_probe_fd 3 (whole_pread (jpeg_file [(CHR 0xE0, ''JFIF'')] (CHR 0xC0) 640 480 [] [])) (length (jpeg_file [(CHR 0xE0, ''JFIF'')] (CHR 0xC0) 640 480 [] [])) =
     validate_dimensions 640 480"
proof -
  have "length (png_file 160 232 []) \<le> COVER_FILE_MAX_BYTES"
    by (simp add: png_file_def png_signature_def COVER_FILE_MAX_BYTES_def)
  moreover have "list_all skipped_segment [(CHR 0xE0, ''JFIF'')]" "is_sof_marker (CHR 0xC0)"
    by (simp_all add: skipped_segment_def is_sof_marker_def)
  moreover have "length (concat (map jpeg_segment [(CHR 0xE0, ''JFIF'')])) + length ([] :: string) + 11 \<le> COVER_HEADER_SCAN_MAX_BYTES"
    "length (jpeg_file [(CHR 0xE0, ''JFIF'')] (CHR 0xC0) 640 480 [] []) \<le> COVER_FILE_MAX_BYTES"
    by (simp_all add: jpeg_file_def jpeg_segment_def COVER_FILE_MAX_BYTES_def COVER_HEADER_SCAN_MAX_BYTES_def)
  ultimately show ?thesis
    using cover_probe_reads_header [of 3 160 232 "[]" "whole_pread (png_file 160 232 [])"]
      cover_probe_reads_header [of 3 160 232 "[]" "whole_pread (jpeg_file [(CHR 0xE0, ''JFIF'')] (CHR 0xC0) 640 480 [] [])"
        "[(CHR 0xE0, ''JFIF'')]" "CHR 0xC0" 640 480 "[]"] whole_pread_of
    by simp
qed

theorem cover_probe_bounded_witness:
  "\<exists>d. cover_probe_fd 3 (whole_pread (png_file 160 232 [])) (length (png_file 160 232 [])) = Inr d \<and> dimensions_ok d"
proof -
  let ?d = "\<lparr>width = 160, height = 232, decode_bytes = 148480\<rparr>"
  have "cover_probe_fd 3 (whole_pread (png_file 160 232 [])) (length (png_file 160 232 [])) = Inr ?d"
    using cover_probe_png [OF whole_pread_of, of 160 232 "[]" 3]
    by (simp add: validate_dimensions_def cover_limits png_file_def png_signature_def)
  with cover_probe_bounded [OF this] show ?thesis by blast
qed

text \<open>
  The limit on the header scan does not bound the loop over fill bytes: on a
  file that is all 0xFF it reads on, one byte per call, to the end of the file,
  which may be twelve times as long.
\<close>

lemma jpeg_fill_ignores_scan_limit:
  assumes "pread_of (replicate n (CHR 0xFF)) pread"
  shows "offset < n \<Longrightarrow> jpeg_marker pread n offset = Inr (CHR 0xFF, n)"
proof (induction "n - offset" arbitrary: offset rule: less_induct)
  case less
  have r: "read_exact_at pread offset 1 = Inr [CHR 0xFF]"
    using read_exact_content [OF assms, of offset 1] less.prems by simp
  show ?case
  proof (cases "offset + 1 < n")
    case True
    with less r show ?thesis by (subst jpeg_marker.simps) simp
  next
    case False
    with less.prems have "n = offset + 1" by simp
    with r show ?thesis by (subst jpeg_marker.simps) simp
  qed
qed

end
