(* ===== verification/Catalog.thy ===== *)
theory Catalog
  imports Machines "HOL-Library.Multiset"
begin

text \<open>
  The game list of the shell (\<^verbatim>\<open>components/rg40xxv-shell/src/catalog.c\<close>): which
  games a view shows, in which order, and what stays selected when the view is
  computed again. The array of visible entries is the list of its used part; a
  missing index, \<^verbatim>\<open>SIZE_MAX\<close> in the code, is \<open>None\<close>. Whether an allocation
  succeeds and the clock are arguments. Operations that ask for a file to be
  written return the requests.
\<close>

section \<open>Data\<close>

definition SEARCH_TEXT_MAX :: nat where "SEARCH_TEXT_MAX = 128"

record game_entry =
  title :: string
  path :: string
  cover_path :: string
  system :: string
  system_label :: string
  core :: string
  frontend :: string
  runtime :: string
  fallback :: string
  content_hash :: string
  modified :: int
  last_played :: int
  favorite :: bool
  recent :: bool
  route_lock :: bool
  save_present :: bool
  save_warning :: bool
  playable :: bool

record catalog_platform_record =
  pr_name :: string
  device :: u64
  inode_number :: u64
  mtime_ns :: u64
  ctime_ns :: u64
  entry_count :: u64

record catalog_state =
  games :: "game_entry list"
  visible :: "nat list"
  visible_capacity :: nat
  systems :: "string list"
  cores :: "string list"
  platforms :: "catalog_platform_record list"
  refresh_cursor :: string
  system_filter :: nat
  core_filter :: nat
  favorites_only :: bool
  recent_only :: bool
  search_all_systems :: bool
  apps_only :: bool
  rpg_only :: bool
  query :: string
  rom_root :: string
  filter_state_path :: string
  favorites_path :: string
  stock_favorites_path :: string
  history_path :: string

text \<open>The part of \<^verbatim>\<open>struct ui\<close> the catalogue uses; the carousel positions only ever get whole numbers here.\<close>

record catalog_ui =
  catalog :: catalog_state
  game_index :: nat
  carousel_position :: nat
  carousel_from :: nat
  carousel_target :: nat
  carousel_started :: tick

datatype persistence_item_id = PERSISTENCE_FAVORITES | PERSISTENCE_FILTERS | PERSISTENCE_LOCALE | PERSISTENCE_HISTORY

record os_env =
  realloc_ok :: bool
  malloc_ok :: bool
  ticks :: tick

section \<open>Predicates\<close>

definition strcasecmp_eq :: "string \<Rightarrow> string \<Rightarrow> bool" where
  "strcasecmp_eq a b \<longleftrightarrow> map tolower a = map tolower b"

definition catalog_system_is_rpg :: "string option \<Rightarrow> bool" where
  "catalog_system_is_rpg sys = (case sys of None \<Rightarrow> False
     | Some t \<Rightarrow> strcasecmp_eq t ''EASYRPG'' \<or> strcasecmp_eq t ''RPGMV'' \<or> strcasecmp_eq t ''RPGMZ'')"

definition catalog_system_is_pending_rpg :: "string option \<Rightarrow> bool" where
  "catalog_system_is_pending_rpg sys = (case sys of None \<Rightarrow> False
     | Some t \<Rightarrow> strcasecmp_eq t ''RPGMV'' \<or> strcasecmp_eq t ''RPGMZ'')"

definition catalog_game_can_launch :: "game_entry option \<Rightarrow> bool" where
  "catalog_game_can_launch game = (case game of None \<Rightarrow> False | Some g \<Rightarrow> playable g)"

fun is_prefix :: "string \<Rightarrow> string \<Rightarrow> bool" where
  "is_prefix [] t = True"
| "is_prefix (q # qs) [] = False"
| "is_prefix (q # qs) (t # ts) = (q = t \<and> is_prefix qs ts)"

fun strstr :: "string \<Rightarrow> string \<Rightarrow> bool" where
  "strstr [] q = is_prefix q []"
| "strstr (t # ts) q = (is_prefix q (t # ts) \<or> strstr ts q)"

text \<open>The loop over the start positions, and the comparison at one of them.\<close>

fun matches_at :: "string \<Rightarrow> string \<Rightarrow> bool" where
  "matches_at [] t = True"
| "matches_at (q # qs) [] = False"
| "matches_at (q # qs) (t # ts) = (tolower t = tolower q \<and> matches_at qs ts)"

fun contains_from :: "string \<Rightarrow> string \<Rightarrow> bool" where
  "contains_from [] q = False"
| "contains_from (t # ts) q = (matches_at q (t # ts) \<or> contains_from ts q)"

definition contains_text :: "string \<Rightarrow> string \<Rightarrow> bool" where
  "contains_text t q = (if q = [] then True else if strstr t q then True else contains_from t q)"

definition game_is_visible :: "catalog_state \<Rightarrow> game_entry \<Rightarrow> bool" where
  "game_is_visible c g =
    (if apps_only c then strcasecmp_eq (system g) ''APPS''
     else if strcasecmp_eq (system g) ''APPS'' then False
     else if rpg_only c \<and> \<not> catalog_system_is_rpg (Some (system g)) then False
     else if \<not> rpg_only c \<and> 0 < system_filter c \<and> \<not> (search_all_systems c \<and> query c \<noteq> []) \<and>
             strcmp (system g) (systems c ! (system_filter c - 1)) \<noteq> 0 then False
     else if \<not> rpg_only c \<and> 0 < core_filter c \<and> strcmp (core g) (cores c ! (core_filter c - 1)) \<noteq> 0 then False
     else if favorites_only c \<and> \<not> favorite g then False
     else if recent_only c \<and> \<not> recent g then False
     else contains_text (title g) (query c))"

definition clamp_filter_indices :: "catalog_state \<Rightarrow> catalog_state" where
  "clamp_filter_indices c =
    (let c1 = (if length (systems c) < system_filter c then c\<lparr>system_filter := 0\<rparr> else c) in
     if length (cores c1) < core_filter c1 then c1\<lparr>core_filter := 0\<rparr> else c1)"

section \<open>The order of the recent view\<close>

definition played :: "catalog_state \<Rightarrow> nat \<Rightarrow> int" where
  "played c i = last_played (games c ! i)"

fun merge_recent :: "catalog_state \<Rightarrow> nat list \<Rightarrow> nat list \<Rightarrow> nat list" where
  "merge_recent c [] ys = ys"
| "merge_recent c xs [] = xs"
| "merge_recent c (x # xs) (y # ys) =
    (if played c x \<ge> played c y then x # merge_recent c xs (y # ys) else y # merge_recent c (x # xs) ys)"

text \<open>One pass: neighbouring runs of \<open>w\<close> entries are merged.\<close>

function merge_pass :: "catalog_state \<Rightarrow> nat \<Rightarrow> nat list \<Rightarrow> nat list" where
  "merge_pass c w xs =
    (if xs = [] \<or> w = 0 then xs
     else merge_recent c (take w xs) (take w (drop w xs)) @ merge_pass c w (drop (2 * w) xs))"
  by pat_completeness auto
termination by (relation "measure (\<lambda>(c, w, xs). length xs)") auto

declare merge_pass.simps [simp del]

function recent_passes :: "catalog_state \<Rightarrow> nat \<Rightarrow> nat list \<Rightarrow> nat list" where
  "recent_passes c w xs =
    (if w = 0 \<or> length xs \<le> w then xs
     else
       let ys = merge_pass c w xs in
       if length xs div 2 < w then ys else recent_passes c (w * 2) ys)"
  by pat_completeness auto

lemma merge_recent_length [simp]: "length (merge_recent c xs ys) = length xs + length ys"
  by (induction c xs ys rule: merge_recent.induct) auto

lemma merge_pass_length [simp]: "length (merge_pass c w xs) = length xs"
proof (induction c w xs rule: merge_pass.induct)
  case (1 c w xs)
  then show ?case by (subst merge_pass.simps) auto
qed

termination recent_passes
  by (relation "measure (\<lambda>(c, w, xs). length xs - w)") auto

declare recent_passes.simps [simp del]

definition sort_visible_recent :: "os_env \<Rightarrow> catalog_state \<Rightarrow> catalog_state" where
  "sort_visible_recent env c =
    (if length (visible c) < 2 \<or> \<not> malloc_ok env then c
     else c\<lparr>visible := recent_passes c 1 (visible c)\<rparr>)"

section \<open>Applying the filters\<close>

definition catalog_visible_id :: "catalog_ui \<Rightarrow> nat \<Rightarrow> nat option" where
  "catalog_visible_id ui i = (if length (visible (catalog ui)) \<le> i then None else Some (visible (catalog ui) ! i))"

definition catalog_visible_game :: "catalog_ui \<Rightarrow> nat \<Rightarrow> game_entry option" where
  "catalog_visible_game ui i = map_option (\<lambda>g. games (catalog ui) ! g) (catalog_visible_id ui i)"

text \<open>The loop over the games from \<open>i\<close> on: the visible entries so far and the place of the selected one.\<close>

fun filter_loop :: "catalog_state \<Rightarrow> nat option \<Rightarrow> nat \<Rightarrow> game_entry list \<Rightarrow> nat list \<Rightarrow> nat option \<Rightarrow> nat list \<times> nat option" where
  "filter_loop c sel i [] vis place = (vis, place)"
| "filter_loop c sel i (g # gs) vis place =
    (if game_is_visible c g
     then filter_loop c sel (i + 1) gs (vis @ [i]) (if Some i = sel then Some (length vis) else place)
     else filter_loop c sel (i + 1) gs vis place)"

fun index_of :: "nat \<Rightarrow> nat list \<Rightarrow> nat option" where
  "index_of x [] = None"
| "index_of x (y # ys) = (if y = x then Some 0 else map_option Suc (index_of x ys))"

definition catalog_apply_filters :: "os_env \<Rightarrow> catalog_ui \<Rightarrow> catalog_ui" where
  "catalog_apply_filters env ui =
    (let sel = catalog_visible_id ui (game_index ui);
         c = clamp_filter_indices (catalog ui) in
     if visible_capacity c < length (games c) \<and> \<not> realloc_ok env then ui\<lparr>catalog := c\<lparr>visible := []\<rparr>\<rparr>
     else
       let c1 = (if visible_capacity c < length (games c) then c\<lparr>visible_capacity := length (games c)\<rparr> else c);
           (vis, place) = filter_loop c1 sel 0 (games c1) [] None;
           c2 = c1\<lparr>visible := vis\<rparr>;
           c3 = (if recent_only c2 then sort_visible_recent env c2 else c2);
           place1 = (if place \<noteq> None \<and> recent_only c3 then index_of (the sel) (visible c3) else place);
           index = (case place1 of Some k \<Rightarrow> k | None \<Rightarrow> 0) in
       ui\<lparr>catalog := c3, game_index := index, carousel_position := index, carousel_from := index,
          carousel_target := index, carousel_started := ticks env\<rparr>)"

section \<open>Operations\<close>

definition catalog_set_apps_view :: "os_env \<Rightarrow> catalog_ui \<Rightarrow> bool \<Rightarrow> catalog_ui" where
  "catalog_set_apps_view env ui enabled =
    (let c = catalog ui in
     if apps_only c = enabled \<and> (\<not> enabled \<or> \<not> rpg_only c) then ui
     else
       let c1 = c\<lparr>apps_only := enabled\<rparr>; c2 = (if enabled then c1\<lparr>rpg_only := False\<rparr> else c1) in
       catalog_apply_filters env (ui\<lparr>catalog := c2\<rparr>))"

definition catalog_set_rpg_view :: "os_env \<Rightarrow> catalog_ui \<Rightarrow> bool \<Rightarrow> catalog_ui" where
  "catalog_set_rpg_view env ui enabled =
    (let c = catalog ui in
     if rpg_only c = enabled \<and> (\<not> enabled \<or> \<not> apps_only c) then ui
     else
       let c1 = c\<lparr>rpg_only := enabled\<rparr>; c2 = (if enabled then c1\<lparr>apps_only := False\<rparr> else c1) in
       catalog_apply_filters env (ui\<lparr>catalog := c2\<rparr>))"

definition cycle_index :: "nat \<Rightarrow> nat \<Rightarrow> int \<Rightarrow> nat" where
  "cycle_index current n direction =
    (if n = 0 then 0 else if direction < 0 then (if current = 0 then n - 1 else current - 1) else (current + 1) mod n)"

definition catalog_cycle_filter :: "os_env \<Rightarrow> catalog_ui \<Rightarrow> int \<Rightarrow> int \<Rightarrow> catalog_ui \<times> persistence_item_id list" where
  "catalog_cycle_filter env ui which direction =
    (let c = clamp_filter_indices (catalog ui);
         changed =
           (if which = 0 then Some (c\<lparr>system_filter := cycle_index (system_filter c) (length (systems c) + 1) direction\<rparr>)
            else if which = 1 then Some (c\<lparr>favorites_only := \<not> favorites_only c\<rparr>)
            else if which = 2 then Some (c\<lparr>recent_only := \<not> recent_only c\<rparr>)
            else if which = 3 then Some (c\<lparr>core_filter := cycle_index (core_filter c) (length (cores c) + 1) direction\<rparr>)
            else if which = 4 then Some (c\<lparr>system_filter := 0, core_filter := 0, favorites_only := False, recent_only := False,
                query := []\<rparr>)
            else None) in
     case changed of
       None \<Rightarrow> (ui\<lparr>catalog := c\<rparr>, [])
     | Some c1 \<Rightarrow> (catalog_apply_filters env (ui\<lparr>catalog := c1\<rparr>), [PERSISTENCE_FILTERS]))"

definition catalog_system_game_count :: "catalog_ui \<Rightarrow> string \<Rightarrow> nat" where
  "catalog_system_game_count ui sys = length (filter (\<lambda>g. strcmp (system g) sys = 0) (games (catalog ui)))"

definition catalog_toggle_favorite :: "os_env \<Rightarrow> catalog_ui \<Rightarrow> catalog_ui \<times> persistence_item_id list" where
  "catalog_toggle_favorite env ui =
    (case catalog_visible_id ui (game_index ui) of
       None \<Rightarrow> (ui, [])
     | Some i \<Rightarrow>
       let c = catalog ui; g = games c ! i;
           ui1 = ui\<lparr>catalog := c\<lparr>games := (games c)[i := g\<lparr>favorite := \<not> favorite g\<rparr>]\<rparr>\<rparr> in
       (if favorites_only (catalog ui1) then catalog_apply_filters env ui1 else ui1, [PERSISTENCE_FAVORITES]))"
text \<open>A catalogue of three games of one system, two of them played, and the same in the recent view.\<close>

definition sample_game :: "string \<Rightarrow> int \<Rightarrow> game_entry" where
  "sample_game name t = \<lparr>title = name, path = name, cover_path = [], system = ''GBA'', system_label = ''GBA'', core = ''mgba'',
     frontend = [], runtime = [], fallback = [], content_hash = [], modified = 0, last_played = t, favorite = False,
     recent = 0 < t, route_lock = False, save_present = False, save_warning = False, playable = True\<rparr>"

definition sample_catalog :: catalog_ui where
  "sample_catalog = \<lparr>catalog = \<lparr>games = [sample_game ''a'' 5, sample_game ''b'' 0, sample_game ''c'' 9], visible = [0, 1, 2],
     visible_capacity = 3, systems = [''GBA''], cores = [''mgba''], platforms = [], refresh_cursor = [], system_filter = 0, core_filter = 0, favorites_only = False,
     recent_only = True, search_all_systems = False, apps_only = False, rpg_only = False, query = [], rom_root = ''/roms'', filter_state_path = [],
     favorites_path = [], stock_favorites_path = [], history_path = []\<rparr>,
     game_index = 0, carousel_position = 0, carousel_from = 0, carousel_target = 0, carousel_started = 0\<rparr>"

definition sample_env :: os_env where
  "sample_env = \<lparr>realloc_ok = True, malloc_ok = True, ticks = 7\<rparr>"

section \<open>The sort is the stable sort\<close>

text \<open>Every aligned run of \<open>w\<close> entries is in order.\<close>

function sorted_runs :: "('a \<Rightarrow> int) \<Rightarrow> nat \<Rightarrow> 'a list \<Rightarrow> bool" where
  "sorted_runs f w xs =
    (if xs = [] \<or> w = 0 then True else sorted (map f (take w xs)) \<and> sorted_runs f w (drop w xs))"
  by pat_completeness auto
termination by (relation "measure (\<lambda>(f, w, xs). length xs)") auto

declare sorted_runs.simps [simp del]

definition recency :: "catalog_state \<Rightarrow> nat \<Rightarrow> int" where
  "recency c i = - played c i"

lemma merge_recent_mset [simp]: "mset (merge_recent c xs ys) = mset xs + mset ys"
  by (induction c xs ys rule: merge_recent.induct) auto

lemma merge_recent_set [simp]: "set (merge_recent c xs ys) = set xs \<union> set ys"
  by (induction c xs ys rule: merge_recent.induct) auto

lemma merge_recent_sorted:
  "sorted (map (recency c) xs) \<Longrightarrow> sorted (map (recency c) ys) \<Longrightarrow> sorted (map (recency c) (merge_recent c xs ys))"
  by (induction c xs ys rule: merge_recent.induct) (auto simp: recency_def)

lemma merge_recent_stable:
  "sorted (map (recency c) xs) \<Longrightarrow>
   filter (\<lambda>i. k = recency c i) (merge_recent c xs ys) =
   filter (\<lambda>i. k = recency c i) xs @ filter (\<lambda>i. k = recency c i) ys"
proof (induction c xs ys rule: merge_recent.induct)
  case (3 c x xs y ys)
  show ?case
  proof (cases "played c x \<ge> played c y")
    case True
    then show ?thesis using 3 by auto
  next
    case False
    then have "filter (\<lambda>i. recency c y = recency c i) (x # xs) = []"
      using "3.prems" by (auto simp: recency_def filter_empty_conv)
    then show ?thesis using 3 False by auto
  qed
qed simp_all

lemma merge_pass_mset [simp]: "mset (merge_pass c w xs) = mset xs"
proof (induction c w xs rule: merge_pass.induct)
  case (1 c w xs)
  have "mset (take w xs) + mset (take w (drop w xs)) + mset (drop (2 * w) xs) = mset xs"
    by (metis append.assoc append_take_drop_id drop_drop mset_append mult_2)
  then show ?case using 1 by (subst merge_pass.simps) (auto simp: add.assoc)
qed

lemma sorted_runs_two:
  assumes "sorted_runs f w xs" "0 < w"
  shows "sorted (map f (take w xs)) \<and> sorted (map f (take w (drop w xs))) \<and> sorted_runs f w (drop (2 * w) xs)"
proof -
  have empty: "sorted_runs f w []" by (simp add: sorted_runs.simps)
  have "drop (2 * w) xs = drop w (drop w xs)" by (simp add: mult_2)
  then show ?thesis using assms sorted_runs.simps [of f w xs] sorted_runs.simps [of f w "drop w xs"] empty
    by (cases "xs = []"; cases "drop w xs = []") (simp_all del: drop_drop drop_eq_Nil)
qed

lemma merge_pass_stable:
  "sorted_runs (recency c) w xs \<Longrightarrow>
   filter (\<lambda>i. k = recency c i) (merge_pass c w xs) = filter (\<lambda>i. k = recency c i) xs"
proof (induction c w xs rule: merge_pass.induct)
  case (1 c w xs)
  show ?case
  proof (cases "xs = [] \<or> w = 0")
    case False
    note two = sorted_runs_two [OF "1.prems"]
    have "take w xs @ take w (drop w xs) @ drop (2 * w) xs = xs"
      by (metis append_take_drop_id drop_drop mult_2)
    then have "filter (\<lambda>i. k = recency c i) xs = filter (\<lambda>i. k = recency c i) (take w xs) @
        filter (\<lambda>i. k = recency c i) (take w (drop w xs)) @ filter (\<lambda>i. k = recency c i) (drop (2 * w) xs)"
      by (metis filter_append)
    then show ?thesis using 1 False two
      by (subst merge_pass.simps) (simp add: merge_recent_stable)
  qed (subst merge_pass.simps, simp)
qed

lemma sorted_runs_merge_pass:
  "sorted_runs (recency c) w xs \<Longrightarrow> sorted_runs (recency c) (2 * w) (merge_pass c w xs)"
proof (induction c w xs rule: merge_pass.induct)
  case (1 c w xs)
  show ?case
  proof (cases "xs = [] \<or> w = 0")
    case True
    then show ?thesis by (subst merge_pass.simps) (auto simp: sorted_runs.simps)
  next
    case False
    let ?m = "merge_recent c (take w xs) (take w (drop w xs))"
    let ?r = "merge_pass c w (drop (2 * w) xs)"
    have two: "sorted (map (recency c) (take w xs))" "sorted (map (recency c) (take w (drop w xs)))"
        "sorted_runs (recency c) w (drop (2 * w) xs)"
      using sorted_runs_two [OF "1.prems"] False by auto
    have m: "sorted (map (recency c) ?m)" using two by (simp add: merge_recent_sorted)
    have r: "sorted_runs (recency c) (2 * w) ?r" using 1 False two by simp
    have len: "length ?m = min (2 * w) (length xs)" by auto
    have "take (2 * w) (?m @ ?r) = ?m \<and> drop (2 * w) (?m @ ?r) = ?r"
    proof (cases "2 * w \<le> length xs")
      case False
      then have "drop (2 * w) xs = []" by simp
      then have "?r = []" by (simp add: merge_pass.simps)
      then show ?thesis using len False by auto
    qed (use len in auto)
    then have "sorted_runs (recency c) (2 * w) (?m @ ?r)"
      using m r by (subst sorted_runs.simps) auto
    then show ?thesis using False by (subst merge_pass.simps) simp
  qed
qed

lemma sorted_runs_whole: "sorted_runs f w xs \<Longrightarrow> 0 < w \<Longrightarrow> length xs \<le> w \<Longrightarrow> sorted (map f xs)"
  using sorted_runs.simps [of f w xs] by (cases "xs = []") auto

lemma sorted_runs_one: "sorted_runs f 1 xs"
proof (induction xs)
  case (Cons x xs)
  then show ?case by (subst sorted_runs.simps) simp
qed (simp add: sorted_runs.simps)

lemma recent_passes_correct:
  "sorted_runs (recency c) w xs \<Longrightarrow> 0 < w \<Longrightarrow>
   mset (recent_passes c w xs) = mset xs \<and> sorted (map (recency c) (recent_passes c w xs)) \<and>
   (\<forall>k. filter (\<lambda>i. k = recency c i) (recent_passes c w xs) = filter (\<lambda>i. k = recency c i) xs)"
proof (induction c w xs rule: recent_passes.induct)
  case (1 c w xs)
  let ?ys = "merge_pass c w xs"
  have runs: "sorted_runs (recency c) (2 * w) ?ys" using "1.prems" by (simp add: sorted_runs_merge_pass)
  consider "length xs \<le> w" | "w < length xs" "length xs div 2 < w" | "w < length xs" "w \<le> length xs div 2"
    by linarith
  then show ?case
  proof cases
    case 1
    then show ?thesis using "1.prems" by (subst (1 2 3) recent_passes.simps) (simp add: sorted_runs_whole)
  next
    case 2
    then have "length ?ys \<le> 2 * w" by simp
    then show ?thesis using 2 "1.prems" sorted_runs_whole [OF runs]
      by (subst (1 2 3) recent_passes.simps) (simp add: merge_pass_stable)
  next
    case 3
    then have "recent_passes c w xs = recent_passes c (w * 2) ?ys"
      using "1.prems" by (subst recent_passes.simps) (simp add: Let_def)
    then show ?thesis using 3 "1.prems" "1.IH" [of ?ys] runs by (simp add: merge_pass_stable mult.commute)
  qed
qed

lemma recent_passes_sort: "recent_passes c 1 xs = sort_key (recency c) xs"
proof (rule properties_for_sort_key [symmetric])
  note correct = recent_passes_correct [OF sorted_runs_one zero_less_one, of c xs]
  show "mset (recent_passes c 1 xs) = mset xs" using correct by blast
  show "sorted (map (recency c) (recent_passes c 1 xs))" using correct by blast
  show "filter (\<lambda>x. recency c k = recency c x) (recent_passes c 1 xs) = filter (\<lambda>x. recency c k = recency c x) xs" for k
    using correct by blast
qed

lemma sort_visible_recent_sort:
  "sort_visible_recent env c = (if malloc_ok env then c\<lparr>visible := sort_key (recency c) (visible c)\<rparr> else c)"
proof (cases "length (visible c) < 2")
  case True
  then have "sort_key (recency c) (visible c) = visible c"
    using recent_passes_sort [of c "visible c"] recent_passes.simps [of c 1 "visible c"] by simp
  then show ?thesis using True by (simp add: sort_visible_recent_def)
qed (simp add: sort_visible_recent_def recent_passes_sort del: One_nat_def)

text \<open>
  C37: The bottom-up merge sort of the recent view is the stable sort by the
  time last played, latest first: whenever its scratch array can be allocated
  the visible entries become exactly the list the library's stable sort gives,
  so games with equal times keep their order.
\<close>

theorem recent_sort_is_stable_sort:
  "malloc_ok env \<Longrightarrow> visible (sort_visible_recent env c) = sort_key (\<lambda>i. - played c i) (visible c)"
  by (simp add: sort_visible_recent_sort recency_def [abs_def])

theorem recent_sort_is_stable_sort_witness:
  "malloc_ok sample_env \<and> visible (sort_visible_recent sample_env (catalog sample_catalog)) = [2, 0, 1]"
proof -
  have ok: "malloc_ok sample_env" by code_simp
  have "sort_key (\<lambda>i. - played (catalog sample_catalog) i) (visible (catalog sample_catalog)) = [2, 0, 1]" by code_simp
  then show ?thesis using recent_sort_is_stable_sort [OF ok, of "catalog sample_catalog"] ok by simp
qed

section \<open>What a computed view shows\<close>

definition shown :: "catalog_state \<Rightarrow> nat list" where
  "shown c = filter (\<lambda>i. game_is_visible c (games c ! i)) [0..<length (games c)]"

lemma filter_loop_visible:
  "i \<le> length (games c) \<Longrightarrow>
   fst (filter_loop c sel i (drop i (games c)) vis place) =
     vis @ filter (\<lambda>j. game_is_visible c (games c ! j)) [i..<length (games c)]"
proof (induction "length (games c) - i" arbitrary: i vis place)
  case (Suc n)
  then have i: "i < length (games c)" by simp
  have "drop i (games c) = games c ! i # drop (Suc i) (games c)" using i by (simp add: Cons_nth_drop_Suc)
  moreover have "[i..<length (games c)] = i # [Suc i..<length (games c)]" using i by (simp add: upt_conv_Cons)
  ultimately show ?case using Suc by simp
qed simp

definition place_ok :: "nat option \<Rightarrow> nat list \<Rightarrow> nat option \<Rightarrow> bool" where
  "place_ok sel vis place = (case place of Some k \<Rightarrow> k < length vis \<and> sel = Some (vis ! k) | None \<Rightarrow> sel \<notin> Some ` set vis)"

lemma filter_loop_place:
  "place_ok sel vis place \<Longrightarrow>
   place_ok sel (fst (filter_loop c sel i gs vis place)) (snd (filter_loop c sel i gs vis place))"
proof (induction c sel i gs vis place rule: filter_loop.induct)
  case (2 c sel i g gs vis place)
  have "place_ok sel (vis @ [i]) (if Some i = sel then Some (length vis) else place)"
    using "2.prems" by (auto simp: place_ok_def nth_append split: option.splits)
  then show ?case using 2 by simp
qed simp

lemma index_of_place: "place_ok (Some x) ys (index_of x ys)"
  by (induction ys) (auto simp: place_ok_def split: option.splits)

lemma game_is_visible_frame [simp]:
  "game_is_visible (c\<lparr>visible := v\<rparr>) g = game_is_visible c g"
  "game_is_visible (c\<lparr>visible_capacity := n\<rparr>) g = game_is_visible c g"
  by (simp_all add: game_is_visible_def)

lemma played_frame [simp]: "played (c\<lparr>visible := v\<rparr>) = played c" "played (c\<lparr>visible_capacity := n\<rparr>) = played c"
  by (simp_all add: played_def fun_eq_iff)

lemma recency_frame [simp]:
  "recency (c\<lparr>visible := v\<rparr>) = recency c" "recency (c\<lparr>visible_capacity := n\<rparr>) = recency c"
  by (simp_all add: recency_def fun_eq_iff)

lemma shown_frame [simp]: "shown (c\<lparr>visible := v\<rparr>) = shown c" "shown (c\<lparr>visible_capacity := n\<rparr>) = shown c"
  by (simp_all add: shown_def)

lemma clamp_filter_indices_frame [simp]:
  "games (clamp_filter_indices c) = games c" "recent_only (clamp_filter_indices c) = recent_only c"
  "visible (clamp_filter_indices c) = visible c" "visible_capacity (clamp_filter_indices c) = visible_capacity c"
  "systems (clamp_filter_indices c) = systems c" "cores (clamp_filter_indices c) = cores c"
  by (simp_all add: clamp_filter_indices_def Let_def)

text \<open>The successful path in one equation: the array has room, or the allocation gave it.\<close>

definition view_room :: "os_env \<Rightarrow> catalog_state \<Rightarrow> bool" where
  "view_room env c \<longleftrightarrow> length (games c) \<le> visible_capacity c \<or> realloc_ok env"

definition view_order :: "os_env \<Rightarrow> catalog_state \<Rightarrow> nat list \<Rightarrow> nat list" where
  "view_order env c xs = (if recent_only c \<and> malloc_ok env then sort_key (recency c) xs else xs)"

lemma view_order_set [simp]: "set (view_order env c xs) = set xs"
  by (simp add: view_order_def)

lemma view_order_length [simp]: "length (view_order env c xs) = length xs"
  by (simp add: view_order_def)

lemma catalog_apply_filters_result:
  fixes ui env
  defines "c \<equiv> clamp_filter_indices (catalog ui)" and "sel \<equiv> catalog_visible_id ui (game_index ui)"
    and "ui' \<equiv> catalog_apply_filters env ui"
  assumes room: "view_room env c"
  shows "catalog ui' = c\<lparr>visible_capacity := max (visible_capacity c) (length (games c)),
            visible := view_order env c (shown c)\<rparr>"
    and "\<exists>place. place_ok sel (visible (catalog ui')) place \<and>
            game_index ui' = (case place of Some k \<Rightarrow> k | None \<Rightarrow> 0)"
proof -
  define c1 where "c1 = c\<lparr>visible_capacity := max (visible_capacity c) (length (games c))\<rparr>"
  have c1: "(if visible_capacity c < length (games c) then c\<lparr>visible_capacity := length (games c)\<rparr> else c) = c1"
    by (simp add: c1_def max_def)
  obtain vis place where loop: "filter_loop c1 sel 0 (games c1) [] None = (vis, place)" by fastforce
  have vis: "vis = shown c" using filter_loop_visible [of 0 c1 sel "[]" None] loop by (simp add: shown_def c1_def)
  have place: "place_ok sel vis place"
    using filter_loop_place [of sel "[]" None c1 0 "games c1"] loop by (simp add: place_ok_def)
  define c3 where "c3 = c1\<lparr>visible := view_order env c vis\<rparr>"
  have c3: "(if recent_only (c1\<lparr>visible := vis\<rparr>) then sort_visible_recent env (c1\<lparr>visible := vis\<rparr>) else c1\<lparr>visible := vis\<rparr>) = c3"
    by (simp add: c3_def c1_def view_order_def sort_visible_recent_sort)
  define place1 where "place1 = (if place \<noteq> None \<and> recent_only c3 then index_of (the sel) (visible c3) else place)"
  have cond: "(visible_capacity c < length (games c) \<and> \<not> realloc_ok env) = False" using room by (auto simp: view_room_def)
  have result: "ui' = ui\<lparr>catalog := c3, game_index := (case place1 of Some k \<Rightarrow> k | None \<Rightarrow> 0),
      carousel_position := (case place1 of Some k \<Rightarrow> k | None \<Rightarrow> 0), carousel_from := (case place1 of Some k \<Rightarrow> k | None \<Rightarrow> 0),
      carousel_target := (case place1 of Some k \<Rightarrow> k | None \<Rightarrow> 0), carousel_started := ticks env\<rparr>"
    unfolding ui'_def catalog_apply_filters_def Let_def c_def [symmetric] sel_def [symmetric] cond if_False c1 loop prod.case c3
      place1_def ..
  have "place_ok sel (visible c3) place1"
  proof (cases "place \<noteq> None \<and> recent_only c3")
    case True
    then obtain g where "sel = Some g" using place by (auto simp: place_ok_def split: option.splits)
    then show ?thesis using True index_of_place by (simp add: place1_def)
  next
    case False
    then show ?thesis using place
      by (auto simp: place1_def c3_def c1_def view_order_def place_ok_def split: option.splits)
  qed
  then show "\<exists>place. place_ok sel (visible (catalog ui')) place \<and>
            game_index ui' = (case place of Some k \<Rightarrow> k | None \<Rightarrow> 0)"
    unfolding result by auto
  show "catalog ui' = c\<lparr>visible_capacity := max (visible_capacity c) (length (games c)),
            visible := view_order env c (shown c)\<rparr>"
    unfolding result by (simp add: c3_def c1_def vis)
qed

lemma catalog_apply_filters_no_room:
  "\<not> view_room env (clamp_filter_indices (catalog ui)) \<Longrightarrow>
   catalog_apply_filters env ui = ui\<lparr>catalog := (clamp_filter_indices (catalog ui))\<lparr>visible := []\<rparr>\<rparr>"
  by (simp add: catalog_apply_filters_def view_room_def Let_def)

text \<open>
  Applying the filters again is a refresh, not a navigation. Whenever the
  array of visible entries has room or can be grown, the selected game stays
  the selected one if the new view shows it, wherever the filters and the sort
  have moved it; only if it is not shown, or nothing was selected, the first
  entry is selected.
\<close>

theorem refresh_keeps_selection:
  assumes "view_room env (clamp_filter_indices (catalog ui))"
  shows "catalog_visible_id (catalog_apply_filters env ui) (game_index (catalog_apply_filters env ui)) =
    (case catalog_visible_id ui (game_index ui) of
       Some g \<Rightarrow> if g \<in> set (shown (clamp_filter_indices (catalog ui))) then Some g
                 else catalog_visible_id (catalog_apply_filters env ui) 0
     | None \<Rightarrow> catalog_visible_id (catalog_apply_filters env ui) 0)"
proof -
  note result = catalog_apply_filters_result [OF assms]
  obtain place where place: "place_ok (catalog_visible_id ui (game_index ui)) (visible (catalog (catalog_apply_filters env ui))) place"
    and index: "game_index (catalog_apply_filters env ui) = (case place of Some k \<Rightarrow> k | None \<Rightarrow> 0)"
    using result(2) by blast
  have set: "set (visible (catalog (catalog_apply_filters env ui))) = set (shown (clamp_filter_indices (catalog ui)))"
    by (simp add: result(1))
  show ?thesis
  proof (cases place)
    case None
    then have "case catalog_visible_id ui (game_index ui) of Some g \<Rightarrow> g \<notin> set (shown (clamp_filter_indices (catalog ui))) | None \<Rightarrow> True"
      using place by (auto simp: place_ok_def set split: option.splits)
    then show ?thesis using None by (simp add: index split: option.splits)
  next
    case (Some k)
    let ?v = "visible (catalog (catalog_apply_filters env ui))"
    have "k < length ?v" "catalog_visible_id ui (game_index ui) = Some (?v ! k)"
      using place Some by (simp_all add: place_ok_def)
    moreover then have "?v ! k \<in> set (shown (clamp_filter_indices (catalog ui)))" using set nth_mem by blast
    ultimately show ?thesis using Some by (simp add: index catalog_visible_id_def [of "catalog_apply_filters env ui"])
  qed
qed

theorem refresh_keeps_selection_witness:
  "view_room sample_env (clamp_filter_indices (catalog sample_catalog)) \<and>
   catalog_visible_id sample_catalog (game_index sample_catalog) = Some 0 \<and>
   catalog_visible_id (catalog_apply_filters sample_env sample_catalog)
     (game_index (catalog_apply_filters sample_env sample_catalog)) = Some 0"
proof -
  have room: "view_room sample_env (clamp_filter_indices (catalog sample_catalog))" by code_simp
  have sel: "catalog_visible_id sample_catalog (game_index sample_catalog) = Some 0" by code_simp
  have shown: "0 \<in> set (shown (clamp_filter_indices (catalog sample_catalog)))" by code_simp
  show ?thesis using refresh_keeps_selection [OF room] room sel shown by simp
qed

text \<open>
  C5: What a view shows. When the memory it asks for is there, the visible
  entries are exactly the games that pass the filters, each once; they are in
  catalogue order, and in the recent view sorted by the time last played,
  latest first, with games of the same time in catalogue order.
\<close>

theorem view_is_filtered_and_sorted:
  assumes "realloc_ok env" "malloc_ok env"
  shows "let c = catalog (catalog_apply_filters env ui) in
    visible c = (if recent_only c then sort_key (\<lambda>i. - played c i) else id)
      (filter (\<lambda>i. game_is_visible c (games c ! i)) [0..<length (games c)])"
proof -
  have "view_room env (clamp_filter_indices (catalog ui))" using assms by (simp add: view_room_def)
  note result = catalog_apply_filters_result(1) [OF this]
  show ?thesis using assms(2)
    by (simp add: Let_def result view_order_def shown_def recency_def [abs_def])
qed

theorem view_is_filtered_and_sorted_witness:
  "realloc_ok sample_env \<and> malloc_ok sample_env \<and> visible (catalog (catalog_apply_filters sample_env sample_catalog)) = [2, 0]"
proof -
  have ok: "realloc_ok sample_env" "malloc_ok sample_env" by code_simp+
  let ?c = "catalog (catalog_apply_filters sample_env sample_catalog)"
  have "(if recent_only ?c then sort_key (\<lambda>i. - played ?c i) else id)
      (filter (\<lambda>i. game_is_visible ?c (games ?c ! i)) [0..<length (games ?c)]) = [2, 0]"
    by code_simp
  then show ?thesis using view_is_filtered_and_sorted [OF ok, of sample_catalog] ok by (simp add: Let_def)
qed

section \<open>The invariant of the catalogue\<close>

definition catalog_ok :: "catalog_ui \<Rightarrow> bool" where
  "catalog_ok ui \<longleftrightarrow>
     system_filter (catalog ui) \<le> length (systems (catalog ui)) \<and> core_filter (catalog ui) \<le> length (cores (catalog ui)) \<and>
     length (visible (catalog ui)) \<le> visible_capacity (catalog ui) \<and>
     (\<forall>i\<in>set (visible (catalog ui)). i < length (games (catalog ui))) \<and>
     (visible (catalog ui) = [] \<or> game_index ui < length (visible (catalog ui)))"

lemma clamp_filter_indices_bounds [simp]:
  "system_filter (clamp_filter_indices c) \<le> length (systems c)" "core_filter (clamp_filter_indices c) \<le> length (cores c)"
  by (simp_all add: clamp_filter_indices_def Let_def)

lemma shown_bounded: "i \<in> set (shown c) \<Longrightarrow> i < length (games c)"
  by (simp add: shown_def)

lemma shown_length: "length (shown c) \<le> length (games c)"
  unfolding shown_def by (metis diff_zero length_filter_le length_upt)

lemma catalog_apply_filters_ok: "catalog_ok (catalog_apply_filters env ui)"
proof (cases "view_room env (clamp_filter_indices (catalog ui))")
  case False
  then show ?thesis by (simp add: catalog_ok_def catalog_apply_filters_no_room)
next
  case True
  note result = catalog_apply_filters_result [OF True]
  obtain place where place: "place_ok (catalog_visible_id ui (game_index ui)) (visible (catalog (catalog_apply_filters env ui))) place"
    and index: "game_index (catalog_apply_filters env ui) = (case place of Some k \<Rightarrow> k | None \<Rightarrow> 0)"
    using result(2) by blast
  have "length (shown (clamp_filter_indices (catalog ui))) \<le> length (games (catalog ui))"
    using shown_length [of "clamp_filter_indices (catalog ui)"] by simp
  moreover have "visible (catalog (catalog_apply_filters env ui)) = [] \<or>
      game_index (catalog_apply_filters env ui) < length (visible (catalog (catalog_apply_filters env ui)))"
    using place by (auto simp: index place_ok_def split: option.splits)
  ultimately show ?thesis using shown_bounded [of _ "clamp_filter_indices (catalog ui)"]
    by (auto simp: catalog_ok_def result(1) le_max_iff_disj)
qed

datatype catalog_event = Apps_View bool | Rpg_View bool | Cycle_Filter int int | Toggle_Favorite | Refresh

fun catalog_step :: "catalog_ui \<Rightarrow> os_env \<times> catalog_event \<Rightarrow> catalog_ui \<times> persistence_item_id list" where
  "catalog_step ui (env, Apps_View on) = (catalog_set_apps_view env ui on, [])"
| "catalog_step ui (env, Rpg_View on) = (catalog_set_rpg_view env ui on, [])"
| "catalog_step ui (env, Cycle_Filter which direction) = catalog_cycle_filter env ui which direction"
| "catalog_step ui (env, Toggle_Favorite) = catalog_toggle_favorite env ui"
| "catalog_step ui (env, Refresh) = (catalog_apply_filters env ui, [])"

lemma clamp_filter_indices_ok: "catalog_ok ui \<Longrightarrow> catalog_ok (ui\<lparr>catalog := clamp_filter_indices (catalog ui)\<rparr>)"
  by (simp add: catalog_ok_def)

lemma catalog_step_ok: "catalog_ok ui \<Longrightarrow> catalog_ok (fst (catalog_step ui e))"
  by (cases "(ui, e)" rule: catalog_step.cases)
     (auto simp: catalog_set_apps_view_def catalog_set_rpg_view_def catalog_cycle_filter_def catalog_toggle_favorite_def
        Let_def catalog_apply_filters_ok clamp_filter_indices_ok catalog_ok_def [of "_\<lparr>catalog := _\<lparr>games := _\<rparr>\<rparr>"]
        catalog_ok_def [of ui] split: option.splits)

interpretation catalog_machine: machine_inv catalog_step catalog_ok
  by unfold_locales (rule catalog_step_ok)

text \<open>
  C38: No use of the catalogue reads outside its arrays. After any sequence of
  view changes, filter changes, favourite toggles and refreshes, with any
  allocations failing, the chosen system and core are entries of their tables,
  the visible entries fit in the allocated array and are games, and the
  selected index is a visible entry unless the view is empty.
\<close>

theorem catalog_indices_valid: "catalog_ok ui \<Longrightarrow> catalog_ok (run catalog_step ui es)"
  by (rule catalog_machine.run_invar)

theorem catalog_indices_valid_witness:
  "catalog_ok sample_catalog \<and>
   catalog_ok (run catalog_step sample_catalog [(sample_env, Cycle_Filter 2 1), (sample_env, Toggle_Favorite)])"
proof -
  have "catalog_ok sample_catalog" by code_simp
  then show ?thesis using catalog_indices_valid by blast
qed

end
