(* ===== verification/Library_State.thy ===== *)
theory Library_State
  imports Catalog Lines
begin

text \<open>
  What the shell keeps of the library between two runs: the favourites, the
  launch history and the filters (\<^verbatim>\<open>favorites.c\<close>, \<^verbatim>\<open>history.c\<close>, \<^verbatim>\<open>filter_state.c\<close> and the
  payload builders of \<^verbatim>\<open>persistence.c\<close> under
  \<^verbatim>\<open>components/rg40xxv-shell/src\<close>). A file is the string of its bytes; a missing
  or unreadable one is \<open>None\<close>. Builders return \<open>None\<close> where the code returns
  without a payload.
\<close>

section \<open>Favourites\<close>

fun favorites_size :: "nat \<Rightarrow> game_entry list \<Rightarrow> nat option" where
  "favorites_size n [] = Some n"
| "favorites_size n (g # gs) =
    (if favorite g then
       let add = length (path g) + length (content_hash g) + 2 in
       if SIZE_MAX - n < add then None else favorites_size (n + add) gs
     else favorites_size n gs)"

fun favorites_copy :: "game_entry list \<Rightarrow> string" where
  "favorites_copy [] = []"
| "favorites_copy (g # gs) =
    (if favorite g then path g @ [TAB] @ content_hash g @ [LF] @ favorites_copy gs else favorites_copy gs)"

definition favorites_payload :: "os_env \<Rightarrow> game_entry list \<Rightarrow> string option" where
  "favorites_payload env gs =
    (case favorites_size 1 gs of None \<Rightarrow> None
     | Some room \<Rightarrow> if malloc_ok env then Some (favorites_copy gs) else None)"

fun mark_path :: "string \<Rightarrow> string \<Rightarrow> game_entry list \<Rightarrow> game_entry list \<times> bool" where
  "mark_path p h [] = ([], False)"
| "mark_path p h (g # gs) =
    (if strcmp (path g) p = 0 \<or> h \<noteq> [] \<and> content_hash g \<noteq> [] \<and> strcmp (content_hash g) h = 0
     then (g\<lparr>favorite := True\<rparr> # gs, True)
     else (let (gs', found) = mark_path p h gs in (g # gs', found)))"

text \<open>
  \<^verbatim>\<open>strchr\<close> looks for the tab before the line end is cut off, so a carriage
  return in front of the tab leaves the part after it as it is.
\<close>

definition canonical_fields :: "string \<Rightarrow> string \<times> string" where
  "canonical_fields line =
    (if TAB \<notin> set line then (strip_line_end line, [])
     else
       let before = takeWhile (\<lambda>c. c \<noteq> TAB) line; after = tl (dropWhile (\<lambda>c. c \<noteq> TAB) line) in
       (strip_line_end before, if strip_line_end before = before then strip_line_end after else after))"

definition canonical_line :: "game_entry list \<Rightarrow> string \<Rightarrow> game_entry list" where
  "canonical_line gs line = (let (p, h) = canonical_fields line in fst (mark_path p h gs))"

definition load_canonical :: "string option \<Rightarrow> game_entry list \<Rightarrow> game_entry list" where
  "load_canonical contents gs =
    (case contents of None \<Rightarrow> gs | Some s \<Rightarrow> foldl canonical_line gs (fgets_lines (PATH_MAX + 80) s))"

definition basename :: "string \<Rightarrow> string" where
  "basename p = rev (takeWhile (\<lambda>c. c \<noteq> CHR ''/'') (rev p))"

fun mark_stock_entry :: "string \<Rightarrow> string \<Rightarrow> game_entry list \<Rightarrow> game_entry list" where
  "mark_stock_entry name sys [] = []"
| "mark_stock_entry name sys (g # gs) =
    (if strcmp (system g) sys = 0 \<and> strcmp (basename (path g)) name = 0 then g\<lparr>favorite := True\<rparr> # gs
     else g # mark_stock_entry name sys gs)"

definition stock_line :: "game_entry list \<Rightarrow> string \<Rightarrow> game_entry list" where
  "stock_line gs line =
    (if take 8 line = ''Version='' then gs
     else case split_on (CHR '':'') line of
         name # sys # rest # others \<Rightarrow> mark_stock_entry name sys gs
       | _ \<Rightarrow> gs)"

definition import_stock :: "string option \<Rightarrow> game_entry list \<Rightarrow> game_entry list" where
  "import_stock contents gs =
    (case contents of None \<Rightarrow> gs | Some s \<Rightarrow> foldl stock_line gs (fgets_lines 1024 s))"

definition with_games :: "(game_entry list \<Rightarrow> game_entry list) \<Rightarrow> catalog_ui \<Rightarrow> catalog_ui" where
  "with_games f ui = ui\<lparr>catalog := (catalog ui)\<lparr>games := f (games (catalog ui))\<rparr>\<rparr>"

definition favorites_load :: "os_env \<Rightarrow> (string \<Rightarrow> string option) \<Rightarrow> catalog_ui \<Rightarrow> string \<Rightarrow> string \<Rightarrow> catalog_ui" where
  "favorites_load env files ui favorites stock =
    (let ui1 = ui\<lparr>catalog := (catalog ui)\<lparr>favorites_path := snprintf_s PATH_MAX favorites,
           stock_favorites_path := snprintf_s PATH_MAX stock\<rparr>\<rparr>;
         ui2 = with_games (load_canonical (files favorites)) ui1;
         ui3 = with_games (import_stock (files stock)) ui2 in
     catalog_apply_filters env ui3)"

section \<open>History\<close>

definition HISTORY_MAX :: nat where "HISTORY_MAX = 64"

text \<open>
  The inner loop: the entries from \<open>position\<close> down that are older than the game
  move one place up, then the game takes the free place.
\<close>

fun history_shift :: "game_entry list \<Rightarrow> int \<Rightarrow> nat \<Rightarrow> nat list \<Rightarrow> nat \<times> nat list" where
  "history_shift gs t 0 ids = (0, ids)"
| "history_shift gs t (Suc p) ids =
    (if last_played (gs ! (ids ! p)) < t
     then history_shift gs t p (if Suc p < HISTORY_MAX then ids[Suc p := ids ! p] else ids)
     else (Suc p, ids))"

text \<open>\<open>ids\<close> is the whole array, \<open>n\<close> the number of entries in use.\<close>

definition history_add :: "game_entry list \<Rightarrow> nat list \<times> nat \<Rightarrow> nat \<Rightarrow> nat list \<times> nat" where
  "history_add gs st game_id =
    (let (ids, n) = st; g = gs ! game_id in
     if \<not> recent g \<or> last_played g \<le> 0 then st
     else
       let start = (if HISTORY_MAX - 1 < n then HISTORY_MAX - 1 else n);
           (pos, ids1) = history_shift gs (last_played g) start ids;
           ids2 = (if pos < HISTORY_MAX then ids1[pos := game_id] else ids1) in
       (ids2, if n < HISTORY_MAX then n + 1 else n))"

definition history_ids :: "game_entry list \<Rightarrow> nat list" where
  "history_ids gs = (let (ids, n) = foldl (history_add gs) (replicate HISTORY_MAX 0, 0) [0..<length gs] in take n ids)"

definition history_line :: "game_entry \<Rightarrow> string" where
  "history_line g = print_int (last_played g) @ [TAB] @ path g"

fun history_size :: "nat \<Rightarrow> game_entry list \<Rightarrow> nat option" where
  "history_size n [] = Some n"
| "history_size n (g # gs) =
    (let add = length (path g) + 32 in if SIZE_MAX - n < add then None else history_size (n + add) gs)"

text \<open>The copy loop gives up when a line does not fit in what is left of the buffer.\<close>

fun history_copy :: "nat \<Rightarrow> game_entry list \<Rightarrow> string option" where
  "history_copy left [] = Some []"
| "history_copy left (g # gs) =
    (let written = history_line g @ [LF] in
     if left \<le> length written then None
     else map_option (\<lambda>rest. written @ rest) (history_copy (left - length written) gs))"

definition history_payload :: "os_env \<Rightarrow> game_entry list \<Rightarrow> string option" where
  "history_payload env gs =
    (let chosen = map (\<lambda>i. gs ! i) (history_ids gs) in
     case history_size 1 chosen of None \<Rightarrow> None
     | Some room \<Rightarrow> if malloc_ok env then history_copy room chosen else None)"

fun mark_history_path :: "string \<Rightarrow> int \<Rightarrow> game_entry list \<Rightarrow> game_entry list" where
  "mark_history_path p t [] = []"
| "mark_history_path p t (g # gs) =
    (if strcmp (path g) p = 0
     then (let g1 = g\<lparr>recent := True\<rparr> in if last_played g1 < t then g1\<lparr>last_played := t\<rparr> else g1) # gs
     else g # mark_history_path p t gs)"

definition history_load_line :: "game_entry list \<Rightarrow> string \<Rightarrow> game_entry list" where
  "history_load_line gs line =
    (if TAB \<notin> set line then gs
     else
       let field = takeWhile (\<lambda>c. c \<noteq> TAB) line; separator = strip_line_end (tl (dropWhile (\<lambda>c. c \<noteq> TAB) line));
           (stamp, err, rest) = strtol field in
       if err \<or> rest = field \<or> rest \<noteq> [] \<or> stamp \<le> 0 then gs else mark_history_path separator stamp gs)"

definition history_load :: "os_env \<Rightarrow> (string \<Rightarrow> string option) \<Rightarrow> catalog_ui \<Rightarrow> string \<Rightarrow> catalog_ui" where
  "history_load env files ui p =
    (let ui1 = ui\<lparr>catalog := (catalog ui)\<lparr>history_path := snprintf_s PATH_MAX p\<rparr>\<rparr> in
     case files p of None \<Rightarrow> ui1
     | Some s \<Rightarrow> catalog_apply_filters env (with_games (\<lambda>gs. foldl history_load_line gs (fgets_lines (PATH_MAX + 48) s)) ui1))"

definition history_mark_launched :: "int \<Rightarrow> catalog_ui \<Rightarrow> nat \<Rightarrow> catalog_ui" where
  "history_mark_launched now ui game_id =
    (if length (games (catalog ui)) \<le> game_id then ui
     else with_games (\<lambda>gs. gs[game_id := (gs ! game_id)\<lparr>recent := True, last_played := now\<rparr>]) ui)"

section \<open>Filters\<close>

definition chosen_name :: "nat \<Rightarrow> string list \<Rightarrow> string" where
  "chosen_name i names = (if i = 0 \<or> length names < i then [] else names ! (i - 1))"

definition filters_payload :: "os_env \<Rightarrow> catalog_state \<Rightarrow> string option" where
  "filters_payload env c =
    (let sys = chosen_name (system_filter c) (systems c); cor = chosen_name (core_filter c) (cores c);
         room = length sys + length cor + 96 in
     if malloc_ok env then
       Some (snprintf_s room (''system='' @ sys @ [LF] @ ''core='' @ cor @ [LF] @ ''favorites=0'' @ [LF] @ ''recent=0'' @ [LF] @
         ''search_scope='' @ (if search_all_systems c then ''all'' else ''current'') @ [LF]))
     else None)"

fun named_filter :: "nat \<Rightarrow> string list \<Rightarrow> string \<Rightarrow> nat" where
  "named_filter i [] name = 0"
| "named_filter i (v # vs) name = (if strcmp v name = 0 then i + 1 else named_filter (i + 1) vs name)"

definition filter_line :: "catalog_state \<Rightarrow> string \<Rightarrow> catalog_state" where
  "filter_line c buffer =
    (let line = strip_line_end buffer in
     if take 7 line = ''system='' then c\<lparr>system_filter := named_filter 0 (systems c) (drop 7 line)\<rparr>
     else if take 5 line = ''core='' then c\<lparr>core_filter := named_filter 0 (cores c) (drop 5 line)\<rparr>
     else if strcmp line ''search_scope=all'' = 0 then c\<lparr>search_all_systems := True\<rparr>
     else c)"

definition filter_state_load :: "os_env \<Rightarrow> (string \<Rightarrow> string option) \<Rightarrow> catalog_ui \<Rightarrow> string \<Rightarrow> catalog_ui" where
  "filter_state_load env files ui p =
    (let c = (catalog ui)\<lparr>filter_state_path := snprintf_s PATH_MAX p\<rparr> in
     case files p of None \<Rightarrow> ui\<lparr>catalog := c\<rparr>
     | Some s \<Rightarrow>
       let c1 = foldl filter_line c (fgets_lines 256 s) in
       catalog_apply_filters env (ui\<lparr>catalog := c1\<lparr>favorites_only := False, recent_only := False\<rparr>\<rparr>))"

section \<open>Favourites survive a restart\<close>

definition clean_name :: "string \<Rightarrow> bool" where
  "clean_name t \<longleftrightarrow> TAB \<notin> set t \<and> CR \<notin> set t \<and> LF \<notin> set t \<and> NUL \<notin> set t"

lemma clean_name_line: "clean_name t \<Longrightarrow> clean_line t"
  by (simp add: clean_name_def clean_line_def)

lemma takeWhile_tab: "TAB \<notin> set p \<Longrightarrow> takeWhile (\<lambda>c. c \<noteq> TAB) (p @ TAB # r) = p"
  by (subst takeWhile_append2) auto

lemma dropWhile_tab: "TAB \<notin> set p \<Longrightarrow> dropWhile (\<lambda>c. c \<noteq> TAB) (p @ TAB # r) = TAB # r"
  by (subst dropWhile_append2) auto

definition favorite_line :: "game_entry \<Rightarrow> string" where
  "favorite_line g = path g @ TAB # content_hash g"

lemma canonical_fields_line:
  "clean_name (path g) \<Longrightarrow> clean_name (content_hash g) \<Longrightarrow>
   canonical_fields (favorite_line g @ [LF]) = (path g, content_hash g)"
  by (simp add: canonical_fields_def favorite_line_def clean_name_def takeWhile_tab dropWhile_tab Let_def strip_line_end_id)

lemma favorites_copy_lines: "favorites_copy gs = lines_text (map favorite_line (filter favorite gs))"
  by (induction gs) (simp_all add: favorite_line_def)

text \<open>A library in which a favourite can be told apart: no two games share a path, or a known content hash.\<close>

definition distinct_games :: "game_entry list \<Rightarrow> bool" where
  "distinct_games gs \<longleftrightarrow> distinct (map path gs) \<and> distinct (filter (\<lambda>h. h \<noteq> []) (map content_hash gs))"

definition storable_game :: "game_entry \<Rightarrow> bool" where
  "storable_game g \<longleftrightarrow> clean_name (path g) \<and> clean_name (content_hash g) \<and> length (path g) < PATH_MAX \<and> length (content_hash g) \<le> 64"

lemma hash_identifies:
  "distinct (filter (\<lambda>h. h \<noteq> []) (map content_hash gs)) \<Longrightarrow> g \<in> set gs \<Longrightarrow> g' \<in> set gs \<Longrightarrow>
   content_hash g = content_hash g' \<Longrightarrow> content_hash g \<noteq> [] \<Longrightarrow> g = g'"
  by (induction gs) (auto simp: image_iff split: if_splits)

lemma mark_path_map:
  "distinct (map path gs) \<Longrightarrow> (\<And>g. g \<in> set gs \<Longrightarrow> h \<noteq> [] \<Longrightarrow> content_hash g = h \<Longrightarrow> path g = p) \<Longrightarrow>
   fst (mark_path p h gs) = map (\<lambda>g. if path g = p then g\<lparr>favorite := True\<rparr> else g) gs"
proof (induction gs)
  case (Cons g gs)
  have IH: "fst (mark_path p h gs) = map (\<lambda>g. if path g = p then g\<lparr>favorite := True\<rparr> else g) gs"
    using Cons by simp
  have "map (\<lambda>g. if path g = p then g\<lparr>favorite := True\<rparr> else g) gs = gs" if "path g = p"
    using Cons.prems(1) that by (intro map_idI) (auto simp: image_iff)
  moreover have "path g = p" if "h \<noteq> []" "content_hash g = h" using Cons.prems(2) [of g] that by simp
  ultimately show ?case using IH by (auto split: prod.splits)
qed simp

definition marked :: "string set \<Rightarrow> game_entry list \<Rightarrow> game_entry list" where
  "marked ps gs = map (\<lambda>g. if path g \<in> ps then g\<lparr>favorite := True\<rparr> else g) gs"

lemma marked_keys [simp]: "map path (marked ps gs) = map path gs" "map content_hash (marked ps gs) = map content_hash gs"
  by (simp_all add: marked_def)

lemma load_lines_marked:
  assumes "distinct_games gs" "set fs \<subseteq> set gs" "list_all storable_game fs"
  shows "foldl canonical_line (marked ps gs) (map (\<lambda>g. favorite_line g @ [LF]) fs) = marked (ps \<union> path ` set fs) gs"
  using assms(2,3)
proof (induction fs arbitrary: ps)
  case (Cons f fs)
  have key: "path g = path f" if g: "g \<in> set (marked ps gs)" and h: "content_hash f \<noteq> []" "content_hash g = content_hash f" for g
  proof -
    obtain g0 where g0: "g0 \<in> set gs" "path g = path g0" "content_hash g = content_hash g0"
      using g by (auto simp: marked_def split: if_splits)
    have "distinct (filter (\<lambda>h. h \<noteq> []) (map content_hash gs))" "f \<in> set gs"
      using assms(1) Cons.prems(1) by (simp_all add: distinct_games_def)
    then have "g0 = f" using g0 h by (intro hash_identifies [of gs]) simp_all
    then show ?thesis using g0 by simp
  qed
  have "distinct (map path (marked ps gs))" using assms(1) by (simp add: distinct_games_def)
  then have "fst (mark_path (path f) (content_hash f) (marked ps gs)) =
      map (\<lambda>g. if path g = path f then g\<lparr>favorite := True\<rparr> else g) (marked ps gs)"
    by (rule mark_path_map) (rule key)
  also have "\<dots> = marked (insert (path f) ps) gs" by (auto simp: marked_def)
  finally have "canonical_line (marked ps gs) (favorite_line f @ [LF]) = marked (insert (path f) ps) gs"
    using Cons.prems(2) by (simp add: canonical_line_def canonical_fields_line storable_game_def)
  then show ?case using Cons by simp
qed simp

definition unmarked :: "game_entry \<Rightarrow> game_entry" where
  "unmarked g = g\<lparr>favorite := False\<rparr>"

lemma unmarked_keys [simp]: "path (unmarked g) = path g" "content_hash (unmarked g) = content_hash g"
  by (simp_all add: unmarked_def)

lemma favorite_line_fits: "storable_game g \<Longrightarrow> length (favorite_line g) \<le> 4160"
  by (simp add: storable_game_def favorite_line_def PATH_MAX_def)

lemma favorite_line_clean: "storable_game g \<Longrightarrow> clean_line (favorite_line g)"
  by (simp add: storable_game_def favorite_line_def clean_name_line)

lemma marked_restores:
  assumes "distinct (map path gs)"
  shows "marked (path ` set (filter favorite gs)) (map unmarked gs) = gs"
proof -
  have iff: "path g \<in> path ` set (filter favorite gs) \<longleftrightarrow> favorite g" if g: "g \<in> set gs" for g
  proof
    assume "path g \<in> path ` set (filter favorite gs)"
    then obtain f where f: "f \<in> set gs" "favorite f" "path g = path f" by auto
    then have "g = f" using assms g by (meson distinct_map inj_on_def)
    then show "favorite g" using f by simp
  qed (use g in simp)
  have "(if path g \<in> path ` set (filter favorite gs) then (unmarked g)\<lparr>favorite := True\<rparr> else unmarked g) = g"
    if "g \<in> set gs" for g using iff [OF that] by (simp add: unmarked_def)
  then show ?thesis unfolding marked_def map_map comp_def unmarked_keys by (rule map_idI)
qed

text \<open>Reading back the file that was written for the games marks exactly the games that were favourites.\<close>

lemma canonical_restored:
  assumes "distinct_games gs" "list_all storable_game gs" "favorites_payload env gs = Some text"
  shows "load_canonical (Some text) (map unmarked gs) = gs"
proof -
  let ?fs = "filter favorite gs"
  have ok: "list_all storable_game ?fs" using assms(2) by (simp add: list_all_iff)
  have written: "text = lines_text (map favorite_line ?fs)"
    using assms(3) by (auto simp: favorites_payload_def favorites_copy_lines split: option.splits if_splits)
  have lines: "fgets_lines (PATH_MAX + 80) text = map (\<lambda>l. l @ [LF]) (map favorite_line ?fs)"
    unfolding written using ok by (intro fgets_lines_text) (fastforce simp: list_all_iff favorite_line_clean PATH_MAX_def dest: favorite_line_fits)+
  have d: "distinct_games (map unmarked gs)" using assms(1) by (simp add: distinct_games_def unmarked_def comp_def)
  let ?us = "map unmarked ?fs"
  have us: "map (\<lambda>g. favorite_line g @ [LF]) ?us = map (\<lambda>l. l @ [LF]) (map favorite_line ?fs)"
    by (simp add: favorite_line_def unmarked_def)
  have "foldl canonical_line (marked {} (map unmarked gs)) (map (\<lambda>g. favorite_line g @ [LF]) ?us) =
      marked ({} \<union> path ` set ?us) (map unmarked gs)"
    by (rule load_lines_marked [OF d]) (use ok in \<open>auto simp: list_all_iff storable_game_def unmarked_def\<close>)
  moreover have "marked {} (map unmarked gs) = map unmarked gs" by (simp add: marked_def)
  moreover have "path ` set ?us = path ` set ?fs" by (simp add: image_image)
  ultimately have "load_canonical (Some text) (map unmarked gs) = marked (path ` set ?fs) (map unmarked gs)"
    by (simp add: load_canonical_def lines us [symmetric] del: map_map)
  then show ?thesis using marked_restores [of gs] assms(1) by (simp add: distinct_games_def)
qed

text \<open>The import of the vendor's list only adds marks.\<close>

definition more_marks :: "game_entry list \<Rightarrow> game_entry list \<Rightarrow> bool" where
  "more_marks = list_all2 (\<lambda>g g'. unmarked g' = unmarked g \<and> (favorite g \<longrightarrow> favorite g'))"

lemma more_marks_refl: "more_marks gs gs"
  by (simp add: more_marks_def list.rel_refl)

lemma more_marks_trans: "more_marks gs hs \<Longrightarrow> more_marks hs ks \<Longrightarrow> more_marks gs ks"
  by (auto simp: more_marks_def list_all2_conv_all_nth)

lemma stock_entry_marks: "more_marks gs (mark_stock_entry name sys gs)"
  by (induction gs) (auto simp: more_marks_def unmarked_def list.rel_refl)

lemma stock_line_marks: "more_marks gs (stock_line gs line)"
  by (simp add: stock_line_def stock_entry_marks more_marks_refl split: list.split)

lemma import_stock_marks: "more_marks gs (import_stock contents gs)"
proof -
  have "more_marks gs (foldl stock_line gs ls)" for ls
    by (induction ls arbitrary: gs) (auto simp: more_marks_refl intro: more_marks_trans [OF stock_line_marks])
  then show ?thesis by (simp add: import_stock_def more_marks_refl split: option.split)
qed

lemma apply_filters_games [simp]: "games (catalog (catalog_apply_filters env ui)) = games (catalog ui)"
  by (cases "view_room env (clamp_filter_indices (catalog ui))")
     (simp_all add: catalog_apply_filters_result(1) catalog_apply_filters_no_room)

text \<open>
  C39: Favourites survive a restart, for a library in which no two games share a
  path or a known content hash, paths and hashes have no tab, CR, LF or NUL,
  paths are shorter than PATH_MAX and hashes have at most 64 characters. If
  the favourites file is the one that was written for these games, then loading
  it into the same library with no marks gives the games with exactly their old
  marks, to which the vendor's list only adds: without such a list the library
  is restored exactly, and with one every other field is unchanged and every
  favourite is still one. With two copies of one game this is false; see the
  lemma favorite_moves_to_first_copy.
\<close>

theorem favorites_restored:
  assumes "distinct_games gs" "list_all storable_game gs" "favorites_payload env gs = Some text"
    and "files favorites = Some text" "games (catalog ui) = map unmarked gs"
  shows "games (catalog (favorites_load env' files ui favorites stock)) = import_stock (files stock) gs \<and>
    (files stock = None \<longrightarrow> games (catalog (favorites_load env' files ui favorites stock)) = gs) \<and>
    list_all2 (\<lambda>g g'. unmarked g' = unmarked g \<and> (favorite g \<longrightarrow> favorite g'))
      gs (games (catalog (favorites_load env' files ui favorites stock)))"
proof -
  have load: "games (catalog (favorites_load env' files ui favorites stock)) = import_stock (files stock) gs"
    using canonical_restored [OF assms(1-3)] assms(4,5) by (simp add: favorites_load_def with_games_def Let_def)
  have "files stock = None \<Longrightarrow> import_stock (files stock) gs = gs" by (simp add: import_stock_def)
  then show ?thesis using import_stock_marks [of gs "files stock"] unfolding load more_marks_def by blast
qed

theorem favorites_restored_witness:
  "let gs = [sample_game ''a'' 5, (sample_game ''b'' 0)\<lparr>favorite := True\<rparr>];
       ui = sample_catalog\<lparr>catalog := (catalog sample_catalog)\<lparr>games := map unmarked gs\<rparr>\<rparr> in
   distinct_games gs \<and>
   games (catalog (favorites_load sample_env [''/f'' \<mapsto> ''b'' @ [TAB, LF]] ui ''/f'' ''/s'')) = gs"
proof -
  let ?gs = "[sample_game ''a'' 5, (sample_game ''b'' 0)\<lparr>favorite := True\<rparr>]"
  let ?ui = "sample_catalog\<lparr>catalog := (catalog sample_catalog)\<lparr>games := map unmarked ?gs\<rparr>\<rparr>"
  have d: "distinct_games ?gs" by code_simp
  have s: "list_all storable_game ?gs" by (simp add: storable_game_def sample_game_def clean_name_def PATH_MAX_def)
  have p: "favorites_payload sample_env ?gs = Some (''b'' @ [TAB, LF])"
    by (simp add: favorites_payload_def sample_game_def sample_env_def SIZE_MAX_def)
  have f: "[''/f'' \<mapsto> ''b'' @ [TAB, LF]] ''/f'' = Some (''b'' @ [TAB, LF])" "[''/f'' \<mapsto> ''b'' @ [TAB, LF]] ''/s'' = None" by simp_all
  have u: "games (catalog ?ui) = map unmarked ?gs" by simp
  show ?thesis using favorites_restored [where files = "[''/f'' \<mapsto> ''b'' @ [TAB, LF]]" and favorites = "''/f''" and stock = "''/s''"
        and env' = sample_env, OF d s p f(1) u] d f(2) unfolding Let_def by blast
qed

text \<open>
  With two copies of the same game the mark can move: only the second is a
  favourite, and after reading the file back the first one is, because a line
  is matched against path or hash game by game.
\<close>

lemma favorite_moves_to_first_copy:
  fixes a b :: game_entry
  defines "a \<equiv> (sample_game ''a'' 0)\<lparr>content_hash := ''h''\<rparr>" and "b \<equiv> (sample_game ''b'' 0)\<lparr>content_hash := ''h'', favorite := True\<rparr>"
  shows "load_canonical (favorites_payload sample_env [a, b]) (map unmarked [a, b]) = [a\<lparr>favorite := True\<rparr>, unmarked b]"
proof -
  have payload: "favorites_payload sample_env [a, b] = Some (lines_text [favorite_line b])"
    by (simp add: favorites_payload_def a_def b_def sample_game_def sample_env_def SIZE_MAX_def favorite_line_def)
  have "storable_game b" by (simp add: b_def storable_game_def sample_game_def clean_name_def PATH_MAX_def)
  then have "fgets_lines (PATH_MAX + 80) (lines_text [favorite_line b]) = [favorite_line b @ [LF]]"
    "canonical_fields (favorite_line b @ [LF]) = (path b, content_hash b)"
    using fgets_lines_text [of "[favorite_line b]" "PATH_MAX + 80"] favorite_line_fits [of b] favorite_line_clean [of b]
    by (simp_all add: canonical_fields_line storable_game_def PATH_MAX_def)
  then have "load_canonical (favorites_payload sample_env [a, b]) (map unmarked [a, b]) =
      fst (mark_path (path b) (content_hash b) [unmarked a, unmarked b])"
    unfolding payload load_canonical_def by (simp add: canonical_line_def)
  then show ?thesis by (simp add: unmarked_def a_def b_def sample_game_def)
qed

section \<open>Which games the history keeps\<close>

text \<open>Insertion behind the entries that are not older, as a list function.\<close>

fun insert_recent :: "('a \<Rightarrow> int) \<Rightarrow> 'a \<Rightarrow> 'a list \<Rightarrow> 'a list" where
  "insert_recent f x [] = [x]"
| "insert_recent f x (y # ys) = (if f y \<le> f x then y # insert_recent f x ys else x # y # ys)"

lemma insert_recent_length [simp]: "length (insert_recent f x ys) = Suc (length ys)"
  by (induction ys) auto

lemma insert_recent_mset: "mset (insert_recent f x ys) = add_mset x (mset ys)"
  by (induction ys) auto

lemma insert_recent_set [simp]: "set (insert_recent f x ys) = insert x (set ys)"
  by (induction ys) auto

lemma insert_recent_sorted: "sorted (map f ys) \<Longrightarrow> sorted (map f (insert_recent f x ys))"
  by (induction ys) auto

lemma insert_recent_stable:
  "sorted (map f ys) \<Longrightarrow> filter (\<lambda>y. k = f y) (insert_recent f x ys) = filter (\<lambda>y. k = f y) (ys @ [x])"
proof (induction ys)
  case (Cons y ys)
  show ?case
  proof (cases "f y \<le> f x")
    case False
    then have "filter (\<lambda>z. f x = f z) (y # ys) = []"
      using Cons.prems by (auto simp: filter_empty_conv)
    then show ?thesis using False by auto
  qed (use Cons in auto)
qed simp

lemma sort_key_snoc: "sort_key f (xs @ [x]) = insert_recent f x (sort_key f xs)"
proof (rule properties_for_sort_key)
  show "mset (insert_recent f x (sort_key f xs)) = mset (xs @ [x])" by (simp add: insert_recent_mset)
  show "sorted (map f (insert_recent f x (sort_key f xs)))" by (simp add: insert_recent_sorted)
  show "filter (\<lambda>y. f k = f y) (insert_recent f x (sort_key f xs)) = filter (\<lambda>y. f k = f y) (xs @ [x])" for k
  proof -
    have "filter (\<lambda>y. f k = f y) (sort_key f xs) = filter (\<lambda>y. f k = f y) xs"
      using sort_key_stable [of f "f k" xs] by (simp add: eq_commute [of "f k"])
    then show ?thesis by (simp add: insert_recent_stable)
  qed
qed

lemma insert_recent_take: "take n (insert_recent f x (take n ys)) = take n (insert_recent f x ys)"
proof (induction ys arbitrary: n)
  case (Cons y ys)
  then show ?case by (cases n) (auto simp: take_Cons')
qed simp

lemma insert_recent_snoc:
  "sorted (map f (ys @ [y])) \<Longrightarrow>
   insert_recent f x (ys @ [y]) = (if f x < f y then insert_recent f x ys @ [y] else ys @ [y, x])"
  by (induction ys) (auto simp: sorted_append)

definition age :: "game_entry list \<Rightarrow> nat \<Rightarrow> int" where
  "age gs i = - last_played (gs ! i)"

text \<open>The loop over the array does that insertion in the part below \<open>p\<close>.\<close>

lemma history_shift_insert:
  "length ids = HISTORY_MAX \<Longrightarrow> p < HISTORY_MAX \<Longrightarrow> sorted (map (age gs) (take p ids)) \<Longrightarrow>
   history_shift gs (last_played (gs ! x)) p ids = (q, ids') \<Longrightarrow>
   length ids' = HISTORY_MAX \<and> q \<le> p \<and> take (Suc p) (ids'[q := x]) = insert_recent (age gs) x (take p ids) \<and>
   drop (Suc p) ids' = drop (Suc p) ids"
proof (induction p arbitrary: ids q ids')
  case 0
  then show ?case by (cases ids) (auto simp: HISTORY_MAX_def)
next
  case (Suc p)
  have split: "take (Suc p) ids = take p ids @ [ids ! p]" using Suc.prems by (simp add: take_Suc_conv_app_nth)
  have sorted: "sorted (map (age gs) (take p ids))" using Suc.prems(3) by (simp add: split sorted_append)
  have snoc: "insert_recent (age gs) x (take (Suc p) ids) = (if age gs x < age gs (ids ! p)
      then insert_recent (age gs) x (take p ids) @ [ids ! p] else take p ids @ [ids ! p, x])"
    using insert_recent_snoc Suc.prems(3) by (simp only: split)
  show ?case
  proof (cases "last_played (gs ! (ids ! p)) < last_played (gs ! x)")
    case True
    let ?ids1 = "ids[Suc p := ids ! p]"
    have run: "history_shift gs (last_played (gs ! x)) p ?ids1 = (q, ids')" using Suc.prems True by simp
    have IH: "length ids' = HISTORY_MAX" "q \<le> p" "take (Suc p) (ids'[q := x]) = insert_recent (age gs) x (take p ids)"
      "drop (Suc p) ids' = drop (Suc p) ?ids1"
      using Suc.IH [OF _ _ _ run] Suc.prems sorted by simp_all
    have at: "ids' ! Suc p = ids ! p"
      using IH(1,4) Suc.prems hd_drop_conv_nth [of "Suc p" ids'] hd_drop_conv_nth [of "Suc p" ?ids1] by simp
    have "take (Suc (Suc p)) (ids'[q := x]) = take (Suc p) (ids'[q := x]) @ [ids' ! Suc p]"
      using IH(1,2) Suc.prems by (subst take_Suc_conv_app_nth) auto
    also have "\<dots> = insert_recent (age gs) x (take (Suc p) ids)"
      using True IH(3) at by (simp add: snoc age_def)
    finally have "take (Suc (Suc p)) (ids'[q := x]) = insert_recent (age gs) x (take (Suc p) ids)" .
    moreover have "drop (Suc (Suc p)) ids' = drop (Suc (Suc p)) ids"
      using arg_cong [OF IH(4), of "drop 1"] Suc.prems(1,2) by (simp add: drop_update_swap)
    ultimately show ?thesis using IH(1,2) by simp
  next
    case False
    then have q: "q = Suc p" "ids' = ids" using Suc.prems by simp_all
    have "take (Suc (Suc p)) (ids[Suc p := x]) = take (Suc p) ids @ [x]"
      using Suc.prems(1,2) by (subst take_Suc_conv_app_nth) auto
    also have "\<dots> = insert_recent (age gs) x (take (Suc p) ids)" unfolding snoc using False by (simp add: split age_def)
    finally show ?thesis using q Suc.prems(1) by simp
  qed
qed

definition in_history :: "game_entry list \<Rightarrow> nat \<Rightarrow> bool" where
  "in_history gs i \<longleftrightarrow> recent (gs ! i) \<and> 0 < last_played (gs ! i)"

definition by_recency :: "game_entry list \<Rightarrow> nat list \<Rightarrow> nat list" where
  "by_recency gs is = sort_key (age gs) (filter (in_history gs) is)"

definition history_inv :: "game_entry list \<Rightarrow> nat list \<Rightarrow> nat list \<times> nat \<Rightarrow> bool" where
  "history_inv gs seen st = (case st of (ids, n) \<Rightarrow>
     length ids = HISTORY_MAX \<and> n = min HISTORY_MAX (length (by_recency gs seen)) \<and>
     take (HISTORY_MAX - 1) (take n ids) = take (HISTORY_MAX - 1) (by_recency gs seen) \<and>
     (length (by_recency gs seen) \<le> HISTORY_MAX \<longrightarrow> take n ids = by_recency gs seen) \<and>
     set (take n ids) \<subseteq> set (by_recency gs seen))"

lemma history_add_inv:
  assumes inv: "history_inv gs seen (ids, n)"
  shows "history_inv gs (seen @ [x]) (history_add gs (ids, n) x)"
proof (cases "in_history gs x")
  case False
  then have "by_recency gs (seen @ [x]) = by_recency gs seen" by (simp add: by_recency_def)
  moreover have "history_add gs (ids, n) x = (ids, n)" using False by (auto simp: history_add_def in_history_def)
  ultimately show ?thesis using inv by (simp only: history_inv_def)
next
  case True
  let ?S = "by_recency gs seen" and ?k = "min n (HISTORY_MAX - 1)"
  have S: "by_recency gs (seen @ [x]) = insert_recent (age gs) x ?S" using True by (simp add: by_recency_def sort_key_snoc)
  have sorted: "sorted (map (age gs) ?S)" by (simp add: by_recency_def)
  have len: "length ids = HISTORY_MAX" and n: "n = min HISTORY_MAX (length ?S)"
    and pre: "take (HISTORY_MAX - 1) (take n ids) = take (HISTORY_MAX - 1) ?S"
    and all: "length ?S \<le> HISTORY_MAX \<longrightarrow> take n ids = ?S"
    using inv unfolding history_inv_def prod.case by blast+
  have k: "take ?k ids = take (HISTORY_MAX - 1) ?S" using pre by (simp add: min.commute)
  obtain q ids' where run: "history_shift gs (last_played (gs ! x)) ?k ids = (q, ids')" by fastforce
  have "sorted (map (age gs) (take ?k ids))" unfolding k take_map [symmetric] using sorted by (rule sorted_wrt_take)
  then have shift: "length ids' = HISTORY_MAX" "q \<le> ?k" "take (Suc ?k) (ids'[q := x]) = insert_recent (age gs) x (take ?k ids)"
    using history_shift_insert [OF len _ _ run] by (simp_all add: HISTORY_MAX_def)
  have start: "(if HISTORY_MAX - 1 < n then HISTORY_MAX - 1 else n) = ?k" by simp
  have q: "q < HISTORY_MAX" using shift(2) by (simp add: HISTORY_MAX_def)
  have step: "history_add gs (ids, n) x = (ids'[q := x], min HISTORY_MAX (Suc n))"
    using True run q n unfolding history_add_def Let_def prod.case start by (simp add: in_history_def run)
  have take: "take (min HISTORY_MAX (Suc n)) (ids'[q := x]) = insert_recent (age gs) x (take (HISTORY_MAX - 1) ?S)"
  proof -
    have "min HISTORY_MAX (Suc n) = Suc ?k" using n by (simp add: HISTORY_MAX_def min_def)
    then show ?thesis using shift(3) k by simp
  qed
  show ?thesis
    using shift(1) n insert_recent_take [of "HISTORY_MAX - 1" "age gs" x ?S]
    unfolding history_inv_def step prod.case S take by (auto simp: HISTORY_MAX_def dest: in_set_takeD)
qed

lemma history_ids_inv: "\<exists>ids n. history_inv gs [0..<length gs] (ids, n) \<and> history_ids gs = take n ids"
proof -
  have "history_inv gs [0..<m] (foldl (history_add gs) (replicate HISTORY_MAX 0, 0) [0..<m])" for m
  proof (induction m)
    case 0
    then show ?case by (simp add: history_inv_def by_recency_def)
  next
    case (Suc m)
    then show ?case by (cases "foldl (history_add gs) (replicate HISTORY_MAX 0, 0) [0..<m]") (simp add: history_add_inv)
  qed
  note all = this [of "length gs"]
  obtain ids n where st: "foldl (history_add gs) (replicate HISTORY_MAX 0, 0) [0..<length gs] = (ids, n)" by fastforce
  then have "history_ids gs = take n ids" by (simp add: history_ids_def)
  then show ?thesis using all st by auto
qed

text \<open>
  C40: The history file lists the games most recently played. With up to 64
  played games they are all listed, latest first and games of the same time in
  catalogue order; with more, there are 64 entries and the first 63 of them are
  the 63 latest.
\<close>

theorem history_keeps_latest:
  "length (history_ids gs) = min HISTORY_MAX (length (by_recency gs [0..<length gs])) \<and>
   take (HISTORY_MAX - 1) (history_ids gs) = take (HISTORY_MAX - 1) (by_recency gs [0..<length gs]) \<and>
   (HISTORY_MAX < length (by_recency gs [0..<length gs]) \<or> history_ids gs = by_recency gs [0..<length gs])"
proof -
  let ?S = "by_recency gs [0..<length gs]"
  obtain ids n where "length ids = HISTORY_MAX" "n = min HISTORY_MAX (length ?S)"
    "take (HISTORY_MAX - 1) (take n ids) = take (HISTORY_MAX - 1) ?S" "length ?S \<le> HISTORY_MAX \<longrightarrow> take n ids = ?S"
    "history_ids gs = take n ids"
    using history_ids_inv [of gs] unfolding history_inv_def prod.case by blast
  moreover then have "HISTORY_MAX < length ?S \<or> history_ids gs = ?S" by (metis not_less)
  ultimately show ?thesis by (metis length_take min.absorb2 min.cobounded1)
qed


text \<open>
  The last of the 64 places is not the 64th latest game: once the list is full, a
  game older than all listed ones still replaces the last entry.
\<close>

lemma history_full_takes_older:
  assumes "length ids = HISTORY_MAX" "in_history gs x" "last_played (gs ! x) \<le> last_played (gs ! (ids ! 62))"
  shows "fst (history_add gs (ids, HISTORY_MAX) x) = ids[63 := x]"
proof -
  have "history_shift gs (last_played (gs ! x)) 63 ids = (63, ids)"
    using assms history_shift.simps(2) [of gs "last_played (gs ! x)" 62 ids] by simp
  then show ?thesis using assms by (simp add: history_add_def in_history_def HISTORY_MAX_def)
qed

section \<open>The history survives a restart\<close>

definition forgotten :: "game_entry \<Rightarrow> game_entry" where
  "forgotten g = g\<lparr>recent := False, last_played := 0\<rparr>"

lemma forgotten_path [simp]: "path (forgotten g) = path g"
  by (simp add: forgotten_def)

text \<open>The library in which exactly the games of \<open>hs\<close> are remembered.\<close>

definition remembered :: "game_entry list \<Rightarrow> game_entry list \<Rightarrow> game_entry list" where
  "remembered hs gs = map (\<lambda>g. if g \<in> set hs then g else forgotten g) gs"

lemma mark_history_path_map:
  "distinct (map path gs) \<Longrightarrow>
   mark_history_path p t gs =
     map (\<lambda>g. if path g = p then g\<lparr>recent := True, last_played := max (last_played g) t\<rparr> else g) gs"
proof (induction gs)
  case (Cons g gs)
  have "map (\<lambda>g. if path g = p then g\<lparr>recent := True, last_played := max (last_played g) t\<rparr> else g) gs = gs" if "path g = p"
    using Cons.prems that by (intro map_idI) (auto simp: image_iff)
  then show ?case using Cons by (auto simp: Let_def max_def)
qed simp

definition history_storable :: "game_entry \<Rightarrow> bool" where
  "history_storable g \<longleftrightarrow> clean_name (path g) \<and> length (path g) < PATH_MAX \<and> last_played g < 2 ^ 63"

lemma print_int_no_tab: "TAB \<notin> set (print_int i)"
  using print_int_clean [of TAB i] by auto

lemma print_int_length: "0 \<le> i \<Longrightarrow> i < 2 ^ 63 \<Longrightarrow> length (print_int i) \<le> 19"
  using length_print_nat [of "nat i" 18] by (simp add: print_int_def)

lemma history_load_line_written:
  assumes "history_storable g" "0 < last_played g"
  shows "history_load_line gs (history_line g @ [LF]) = mark_history_path (path g) (last_played g) gs"
  using assms print_int_no_tab [of "last_played g"]
  by (simp add: history_load_line_def history_line_def history_storable_def clean_name_def Let_def takeWhile_tab dropWhile_tab
      print_int_nonempty [THEN not_sym])

lemma history_size_sum: "history_size n hs = Some m \<Longrightarrow> m = n + sum_list (map (\<lambda>g. length (path g) + 32) hs)"
  by (induction n hs rule: history_size.induct) (auto simp: Let_def split: if_splits)

lemma history_line_length: "history_storable g \<Longrightarrow> 0 < last_played g \<Longrightarrow> length (history_line g) \<le> length (path g) + 20"
  using print_int_length [of "last_played g"] by (simp add: history_line_def history_storable_def)

lemma history_copy_fits:
  "list_all (\<lambda>g. history_storable g \<and> 0 < last_played g) hs \<Longrightarrow> sum_list (map (\<lambda>g. length (path g) + 32) hs) < left \<Longrightarrow>
   history_copy left hs = Some (lines_text (map history_line hs))"
proof (induction hs arbitrary: left)
  case (Cons g hs)
  then have "length (history_line g) \<le> length (path g) + 20" using history_line_length [of g] by simp
  then show ?case using Cons by simp
qed simp

lemma history_line_clean: "history_storable g \<Longrightarrow> clean_line (history_line g)"
  using clean_print_int [of "last_played g"] by (simp add: history_line_def history_storable_def clean_name_line clean_line_field)

text \<open>Reading back lines of games of the library remembers those games.\<close>

lemma history_lines_remembered:
  assumes "distinct (map path gs)" "set hs \<subseteq> set gs" "list_all (\<lambda>g. history_storable g \<and> recent g \<and> 0 < last_played g) hs"
  shows "foldl history_load_line (remembered ks gs) (map (\<lambda>g. history_line g @ [LF]) hs) = remembered (ks @ hs) gs"
  using assms(2,3)
proof (induction hs arbitrary: ks)
  case (Cons h hs)
  have d: "distinct (map path (remembered ks gs))"
    using assms(1) by (simp add: remembered_def comp_def if_distrib [of path] cong: if_cong)
  have same: "g = h" if "g \<in> set gs" "path g = path h" for g
    using assms(1) Cons.prems(1) that by (auto simp: distinct_map inj_on_def)
  have step: "(let r = (if g \<in> set ks then g else forgotten g) in
      if path r = path h then r\<lparr>recent := True, last_played := max (last_played r) (last_played h)\<rparr> else r) =
      (if g \<in> set (ks @ [h]) then g else forgotten g)" if g: "g \<in> set gs" for g
    using same [OF g] Cons.prems(2) by (auto simp: Let_def forgotten_def)
  have "history_load_line (remembered ks gs) (history_line h @ [LF]) =
      mark_history_path (path h) (last_played h) (remembered ks gs)"
    using Cons.prems(2) by (simp add: history_load_line_written)
  also have "\<dots> = remembered (ks @ [h]) gs"
    unfolding mark_history_path_map [OF d] unfolding remembered_def map_map comp_def
    using step by (intro map_cong) (simp_all add: Let_def)
  finally show ?case using Cons by simp
qed simp

lemma history_ids_valid: "i \<in> set (history_ids gs) \<Longrightarrow> i < length gs \<and> in_history gs i"
  using history_ids_inv [of gs] unfolding history_inv_def prod.case by (auto simp: by_recency_def)

text \<open>
  The launch history survives a restart. If no two games share a path and
  the paths are free of tabs and line ends, then loading the history file that
  was written for the games into a library that remembers nothing makes exactly
  the listed games recent, each with its time.
\<close>

theorem history_restored:
  assumes "distinct (map path gs)" "list_all history_storable gs" "history_payload env gs = Some text"
    "files p = Some text" "games (catalog ui) = map forgotten gs"
  shows "games (catalog (history_load env files ui p)) = remembered (map (\<lambda>i. gs ! i) (history_ids gs)) gs"
proof -
  let ?hs = "map (\<lambda>i. gs ! i) (history_ids gs)"
  have sub: "set ?hs \<subseteq> set gs" using history_ids_valid by auto
  have ok: "list_all (\<lambda>g. history_storable g \<and> recent g \<and> 0 < last_played g) ?hs"
    using sub assms(2) history_ids_valid [of _ gs] by (fastforce simp: list_all_iff in_history_def)
  obtain n where n: "history_size 1 ?hs = Some n" "history_copy n ?hs = Some text"
    using assms(3) by (auto simp: history_payload_def Let_def split: option.splits if_splits)
  have written: "text = lines_text (map history_line ?hs)"
    using n history_size_sum [OF n(1)] history_copy_fits [of ?hs n] ok by (auto simp: list_all_iff simp del: map_map)
  have short: "length (history_line g) + 1 < PATH_MAX + 48" if "g \<in> set ?hs" for g
    using history_line_length [of g] ok that by (auto simp: list_all_iff history_storable_def PATH_MAX_def)
  have "fgets_lines (PATH_MAX + 48) text = map (\<lambda>l. l @ [LF]) (map history_line ?hs)"
    unfolding written using ok short
    by (intro fgets_lines_text) (auto simp: list_all_iff history_line_clean simp del: map_map)
  then have lines: "fgets_lines (PATH_MAX + 48) text = map (\<lambda>g. history_line g @ [LF]) ?hs" by simp
  have "map forgotten gs = remembered [] gs" by (simp add: remembered_def)
  then have "foldl history_load_line (map forgotten gs) (fgets_lines (PATH_MAX + 48) text) = remembered ([] @ ?hs) gs"
    unfolding lines using history_lines_remembered [OF assms(1) sub ok, of "[]"] by simp
  then show ?thesis using assms(4,5) by (simp add: history_load_def with_games_def Let_def)
qed

section \<open>The filters survive a restart\<close>

lemma named_filter_index:
  "distinct names \<Longrightarrow> k < length names \<Longrightarrow> named_filter i names (names ! k) = i + k + 1"
proof (induction names arbitrary: i k)
  case (Cons v vs)
  then show ?case by (cases k) (auto simp: nth_mem)
qed simp

lemma named_filter_none: "name \<notin> set names \<Longrightarrow> named_filter i names name = 0"
  by (induction names arbitrary: i) auto

text \<open>Names that fit a line of the file: different, not empty, without line ends, and short.\<close>

definition filter_names :: "nat \<Rightarrow> string list \<Rightarrow> bool" where
  "filter_names limit names \<longleftrightarrow> distinct names \<and> [] \<notin> set names \<and>
     list_all (\<lambda>t. CR \<notin> set t \<and> LF \<notin> set t \<and> NUL \<notin> set t \<and> length t \<le> limit) names"

lemma chosen_name_found: "filter_names limit names \<Longrightarrow> i \<le> length names \<Longrightarrow> named_filter 0 names (chosen_name i names) = i"
  by (auto simp: chosen_name_def filter_names_def named_filter_none named_filter_index)

lemma chosen_name_clean:
  "filter_names limit names \<Longrightarrow>
   CR \<notin> set (chosen_name i names) \<and> LF \<notin> set (chosen_name i names) \<and> NUL \<notin> set (chosen_name i names) \<and>
   length (chosen_name i names) \<le> limit"
  by (auto simp: chosen_name_def filter_names_def list_all_iff dest!: bspec [where x = "names ! (i - 1)"])

definition filter_lines :: "catalog_state \<Rightarrow> string list" where
  "filter_lines c = [''system='' @ chosen_name (system_filter c) (systems c), ''core='' @ chosen_name (core_filter c) (cores c),
     ''favorites=0'', ''recent=0'', ''search_scope='' @ (if search_all_systems c then ''all'' else ''current'')]"

lemma filters_payload_lines: "malloc_ok env \<Longrightarrow> filters_payload env c = Some (lines_text (filter_lines c))"
  by (simp add: filters_payload_def filter_lines_def snprintf_s_def Let_def)

lemma apply_filters_kept:
  assumes "system_filter (catalog ui) \<le> length (systems (catalog ui))" "core_filter (catalog ui) \<le> length (cores (catalog ui))"
  shows "\<exists>v n. catalog (catalog_apply_filters env ui) = (catalog ui)\<lparr>visible_capacity := n, visible := v\<rparr>"
proof -
  have clamp: "clamp_filter_indices (catalog ui) = catalog ui" using assms by (simp add: clamp_filter_indices_def)
  show ?thesis
  proof (cases "view_room env (clamp_filter_indices (catalog ui))")
    case True
    show ?thesis unfolding catalog_apply_filters_result(1) [OF True] clamp by blast
  next
    case False
    then have "catalog (catalog_apply_filters env ui) = (catalog ui)\<lparr>visible_capacity := visible_capacity (catalog ui), visible := []\<rparr>"
      by (simp add: catalog_apply_filters_no_room clamp)
    then show ?thesis by blast
  qed
qed

lemma filter_line_written:
  "CR \<notin> set t \<Longrightarrow> LF \<notin> set t \<Longrightarrow> filter_line c ((''system='' @ t) @ [LF]) = c\<lparr>system_filter := named_filter 0 (systems c) t\<rparr>"
  "CR \<notin> set t \<Longrightarrow> LF \<notin> set t \<Longrightarrow> filter_line c ((''core='' @ t) @ [LF]) = c\<lparr>core_filter := named_filter 0 (cores c) t\<rparr>"
  "filter_line c (''favorites=0'' @ [LF]) = c" "filter_line c (''recent=0'' @ [LF]) = c"
  "filter_line c ((''search_scope='' @ (if all then ''all'' else ''current'')) @ [LF]) = (if all then c\<lparr>search_all_systems := True\<rparr> else c)"
  by (simp_all add: filter_line_def strip_line_end_def strip_line_end_line [unfolded strip_line_end_def] Let_def)

lemma fold_filter_lines:
  assumes "filter_names 247 (systems c)" "filter_names 249 (cores c)" "system_filter c \<le> length (systems c)"
    "core_filter c \<le> length (cores c)" "systems c0 = systems c" "cores c0 = cores c" "\<not> search_all_systems c0"
  shows "foldl filter_line c0 (fgets_lines 256 (lines_text (filter_lines c))) =
    c0\<lparr>system_filter := system_filter c, core_filter := core_filter c, search_all_systems := search_all_systems c\<rparr>"
proof -
  note clean = chosen_name_clean [OF assms(1), of "system_filter c"] chosen_name_clean [OF assms(2), of "core_filter c"]
  have "list_all clean_line (filter_lines c)" using clean by (simp add: filter_lines_def clean_line_def)
  moreover have "list_all (\<lambda>l. length l + 1 < 256) (filter_lines c)" using clean by (simp add: filter_lines_def)
  ultimately have "fgets_lines 256 (lines_text (filter_lines c)) = map (\<lambda>l. l @ [LF]) (filter_lines c)"
    by (rule fgets_lines_text)
  moreover have "foldl filter_line c0 (map (\<lambda>l. l @ [LF]) (filter_lines c)) =
    c0\<lparr>system_filter := system_filter c, core_filter := core_filter c, search_all_systems := search_all_systems c\<rparr>"
    using clean assms unfolding filter_lines_def list.map foldl.simps
    by (subst filter_line_written | simp add: chosen_name_found)+
  ultimately show ?thesis by simp
qed

text \<open>
  The filters survive a restart, the pages do not. Loading the file written
  for a catalogue with valid filter choices restores the chosen system, the
  chosen core and the search scope, and leaves the favourites and recent pages
  off whatever they were.
\<close>

theorem filters_restored:
  assumes "filter_names 247 (systems c)" "filter_names 249 (cores c)" "system_filter c \<le> length (systems c)"
    "core_filter c \<le> length (cores c)" "filters_payload env c = Some text" "files p = Some text"
    "systems (catalog ui) = systems c" "cores (catalog ui) = cores c" "\<not> search_all_systems (catalog ui)"
  shows "let c' = catalog (filter_state_load env files ui p) in
    system_filter c' = system_filter c \<and> core_filter c' = core_filter c \<and>
    search_all_systems c' = search_all_systems c \<and> \<not> favorites_only c' \<and> \<not> recent_only c'"
proof -
  let ?c0 = "(catalog ui)\<lparr>filter_state_path := snprintf_s PATH_MAX p\<rparr>"
  let ?c1 = "?c0\<lparr>system_filter := system_filter c, core_filter := core_filter c, search_all_systems := search_all_systems c\<rparr>"
  have "text = lines_text (filter_lines c)"
    using assms(5) filters_payload_lines [of env c] by (cases "malloc_ok env") (simp_all add: filters_payload_def Let_def)
  then have "foldl filter_line ?c0 (fgets_lines 256 text) = ?c1"
    using fold_filter_lines [of c ?c0] assms by simp
  then have load: "filter_state_load env files ui p =
      catalog_apply_filters env (ui\<lparr>catalog := ?c1\<lparr>favorites_only := False, recent_only := False\<rparr>\<rparr>)"
    using assms(6) by (simp add: filter_state_load_def Let_def)
  show ?thesis
    using apply_filters_kept [of "ui\<lparr>catalog := ?c1\<lparr>favorites_only := False, recent_only := False\<rparr>\<rparr>" env] assms
    unfolding load Let_def by auto
qed

theorem history_restored_witness:
  "distinct (map path [sample_game ''a'' 5, sample_game ''b'' 0]) \<and>
   history_payload sample_env [sample_game ''a'' 5, sample_game ''b'' 0] = Some (''5'' @ [TAB] @ ''a'' @ [LF]) \<and>
   games (catalog (history_load sample_env (\<lambda>p. Some (''5'' @ [TAB] @ ''a'' @ [LF]))
     (with_games (\<lambda>_. map forgotten [sample_game ''a'' 5, sample_game ''b'' 0]) sample_catalog) ''/h'')) =
     [sample_game ''a'' 5, sample_game ''b'' 0]"
proof -
  let ?gs = "[sample_game ''a'' 5, sample_game ''b'' 0]" and ?text = "''5'' @ [TAB] @ ''a'' @ [LF]"
  let ?ui = "with_games (\<lambda>_. map forgotten ?gs) sample_catalog"
  have d: "distinct (map path ?gs)" by code_simp
  have s: "list_all history_storable ?gs" by (simp add: history_storable_def sample_game_def clean_name_def PATH_MAX_def)
  have ids: "history_ids ?gs = [0]" by code_simp
  have five: "print_nat 5 = ''5''" by code_simp
  have p: "history_payload sample_env ?gs = Some ?text"
    unfolding history_payload_def ids by (simp add: sample_game_def sample_env_def SIZE_MAX_def history_line_def print_int_def five Let_def)
  have g: "games (catalog ?ui) = map forgotten ?gs" by (simp add: with_games_def)
  have "games (catalog (history_load sample_env (\<lambda>p. Some ?text) ?ui ''/h'')) = remembered (map (\<lambda>i. ?gs ! i) (history_ids ?gs)) ?gs"
    by (rule history_restored [OF d s p _ g]) simp
  moreover have "remembered (map (\<lambda>i. ?gs ! i) (history_ids ?gs)) ?gs = ?gs"
    unfolding ids by (simp add: remembered_def forgotten_def sample_game_def)
  ultimately show ?thesis using d p by simp
qed

theorem filters_restored_witness:
  "filter_names 247 (systems (catalog sample_catalog)) \<and> filter_names 249 (cores (catalog sample_catalog)) \<and>
   (let c = (catalog sample_catalog)\<lparr>system_filter := 1\<rparr>;
        c' = catalog (filter_state_load sample_env (\<lambda>p. filters_payload sample_env c) sample_catalog ''/f'') in
    system_filter c' = 1 \<and> core_filter c' = 0 \<and> \<not> recent_only c')"
proof -
  let ?c = "(catalog sample_catalog)\<lparr>system_filter := 1\<rparr>"
  have names: "filter_names 247 (systems ?c)" "filter_names 249 (cores ?c)"
    by (simp_all add: filter_names_def sample_catalog_def)
  have valid: "system_filter ?c \<le> length (systems ?c)" "core_filter ?c \<le> length (cores ?c)"
    by (simp_all add: sample_catalog_def)
  have p: "filters_payload sample_env ?c = Some (lines_text (filter_lines ?c))"
    by (rule filters_payload_lines) (simp add: sample_env_def)
  have same: "systems (catalog sample_catalog) = systems ?c" "cores (catalog sample_catalog) = cores ?c"
    "\<not> search_all_systems (catalog sample_catalog)" by (simp_all add: sample_catalog_def)
  have "let c' = catalog (filter_state_load sample_env (\<lambda>p. filters_payload sample_env ?c) sample_catalog ''/f'') in
    system_filter c' = system_filter ?c \<and> core_filter c' = core_filter ?c \<and>
    search_all_systems c' = search_all_systems ?c \<and> \<not> favorites_only c' \<and> \<not> recent_only c'"
    by (rule filters_restored [OF names valid p _ same]) (rule p)
  moreover have "system_filter ?c = 1" "core_filter ?c = 0" by (simp_all add: sample_catalog_def)
  ultimately show ?thesis using names by (simp add: Let_def)
qed

end
