(* ===== verification/Persistence.thy ===== *)
theory Persistence
  imports Library_State Netstream_Files
begin

text \<open>
  The background writer of the shell (\<^verbatim>\<open>components/rg40xxv-shell/src/persistence.c\<close>).
  Requests are handed over as payloads, one slot per kind, and a thread writes
  what is pending after a quiet period, replacing each file atomically.

  The disk is a map from paths to inodes. How the system calls of one save turn
  out is a record; a list of transfers that runs out means that the rest is
  moved at once. A save also returns the disk after every call that changes it.
\<close>

section \<open>Replacing a file\<close>

text \<open>The contents of the temporary file after each \<^verbatim>\<open>write\<close>, and whether all was written.\<close>

function write_all :: "io list \<Rightarrow> string \<Rightarrow> string \<Rightarrow> string list \<times> bool" where
  "write_all ios sofar left =
    (if left = [] then ([], True)
     else case ios of
         [] \<Rightarrow> ([sofar @ left], True)
       | IoErr e # rest \<Rightarrow> if e = EINTR then write_all rest sofar left else ([], False)
       | Io n # rest \<Rightarrow>
         if n = 0 then ([], False)
         else let (states, ok) = write_all rest (sofar @ take n left) (drop n left) in ((sofar @ take n left) # states, ok))"
  by pat_completeness auto
termination by (relation "measure (\<lambda>(ios, sofar, left). length ios)") auto

declare write_all.simps [simp del]

record save_env =
  sv_euid :: nat
  sv_open_read :: "errno option"
  sv_fstat :: bool
  sv_reads :: "io list"
  sv_open :: bool
  sv_writes :: "io list"
  sv_fsync :: bool
  sv_close :: bool
  sv_rename :: bool
  sv_remove :: bool

text \<open>The comparison loop: the bytes of the file and of the payload from the offset on, in blocks of 4096.\<close>

function match_loop :: "io list \<Rightarrow> string \<Rightarrow> string \<Rightarrow> bool" where
  "match_loop ios bs left =
    (if left = [] then True
     else
       let requested = min 4096 (length left) in
       case ios of
         [] \<Rightarrow>
           let got = min requested (length bs) in
           if got = 0 then False else take got bs = take got left \<and> match_loop [] (drop got bs) (drop got left)
       | IoErr e # rest \<Rightarrow> if e = EINTR then match_loop rest bs left else False
       | Io n # rest \<Rightarrow>
         let got = min n (min requested (length bs)) in
         if got = 0 then False else take got bs = take got left \<and> match_loop rest (drop got bs) (drop got left))"
  by pat_completeness auto
termination by (relation "measure (\<lambda>(ios, bs, left). length ios + length left)") auto

declare match_loop.simps [simp del]

definition payload_matches_file :: "save_env \<Rightarrow> dir \<Rightarrow> string \<Rightarrow> string \<Rightarrow> bool" where
  "payload_matches_file env d name payload =
    (case open_nofollow (sv_open_read env) d name of
       Inl e \<Rightarrow> False
     | Inr f \<Rightarrow>
       if \<not> sv_fstat env \<or> kind f \<noteq> Regular \<or> st_uid f \<noteq> sv_euid env \<or> st_nlink f \<noteq> 1 \<or> length (fdata f) \<noteq> length payload
       then False else match_loop (sv_reads env) (fdata f) payload)"

text \<open>
  \<^verbatim>\<open>open\<close> with \<open>O_CREAT | O_TRUNC\<close> follows symbolic links; the target of one is
  its contents. The name the call ends at, and what is there afterwards.
\<close>

fun follow :: "nat \<Rightarrow> dir \<Rightarrow> string \<Rightarrow> string option" where
  "follow 0 d name = None"
| "follow (Suc n) d name =
    (case d name of Some f \<Rightarrow> if kind f = Symlink then follow n d (fdata f) else Some name | None \<Rightarrow> Some name)"

definition open_truncate :: "save_env \<Rightarrow> dir \<Rightarrow> string \<Rightarrow> (string \<times> inode) option" where
  "open_truncate env d name =
    (if \<not> sv_open env then None
     else case follow 40 d name of
         None \<Rightarrow> None
       | Some target \<Rightarrow> (case d target of
             None \<Rightarrow> Some (target, \<lparr>fdata = [], kind = Regular, st_uid = sv_euid env, st_nlink = 1, st_mode = MODE_0600\<rparr>)
           | Some f \<Rightarrow> if kind f = Regular then Some (target, f\<lparr>fdata := []\<rparr>)
               else if kind f = Directory then None else Some (target, f)))"

definition remove_temporary :: "save_env \<Rightarrow> dir \<Rightarrow> string \<Rightarrow> dir list" where
  "remove_temporary env d name = (if sv_remove env then [d(name := None)] else [])"

text \<open>The disk after each change, and the result.\<close>

definition save_file :: "save_env \<Rightarrow> dir \<Rightarrow> string \<Rightarrow> string \<Rightarrow> dir list \<times> int" where
  "save_file env d name payload =
    (let temporary = name @ ''.tmp'' in
     if name = [] \<or> PATH_MAX \<le> length temporary then ([], - 1)
     else if payload_matches_file env d name payload then ([], 0)
     else case open_truncate env d temporary of
         None \<Rightarrow> ([], - 1)
       | Some (target, f) \<Rightarrow>
         let d0 = d(target \<mapsto> f);
             (contents, written) = write_all (sv_writes env) [] payload;
             states = d0 # map (\<lambda>c. d0(target \<mapsto> f\<lparr>fdata := c\<rparr>)) contents;
             d1 = last states in
         if written \<and> sv_fsync env \<and> sv_close env \<and> sv_rename env
         then (states @ [d1(name := d1 temporary, temporary := None)], 0)
         else (states @ remove_temporary env d1 temporary, - 1))"

section \<open>The queue and the thread\<close>

record persistence_item =
  item_path :: string
  payload :: "string option"

record persistence_worker =
  mutex :: bool
  thread :: bool
  items :: "persistence_item_id \<Rightarrow> persistence_item"
  deadline :: tick
  write_failures :: u32
  running :: bool
  dirty :: bool

definition no_item :: persistence_item where
  "no_item = \<lparr>item_path = [], payload = None\<rparr>"

definition all_items :: "persistence_item_id list" where
  "all_items = [PERSISTENCE_FAVORITES, PERSISTENCE_FILTERS, PERSISTENCE_LOCALE, PERSISTENCE_HISTORY]"

definition empty_worker :: persistence_worker where
  "empty_worker = \<lparr>mutex = False, thread = False, items = (\<lambda>_. no_item), deadline = 0, write_failures = 0, running = False, dirty = False\<rparr>"

text \<open>The arguments tell which of the three objects could be created.\<close>

definition persistence_start :: "bool \<Rightarrow> bool \<Rightarrow> bool \<Rightarrow> persistence_worker \<times> int" where
  "persistence_start mutex_ok cond_ok thread_ok =
    (if \<not> mutex_ok \<or> \<not> cond_ok \<or> \<not> thread_ok then (empty_worker, - 1)
     else (empty_worker\<lparr>mutex := True, running := True, thread := True\<rparr>, 0))"

definition queue_payload ::
  "tick \<Rightarrow> persistence_worker \<Rightarrow> persistence_item_id \<Rightarrow> string \<Rightarrow> string option \<Rightarrow> persistence_worker" where
  "queue_payload now w i p content =
    (if content = None \<or> p = [] \<or> \<not> mutex w then w
     else w\<lparr>items := (items w)(i := \<lparr>item_path = snprintf_s PATH_MAX p, payload = content\<rparr>), dirty := True, deadline := now + 200\<rparr>)"

definition persistence_request_favorites :: "os_env \<Rightarrow> tick \<Rightarrow> catalog_state \<Rightarrow> persistence_worker \<Rightarrow> persistence_worker" where
  "persistence_request_favorites env now c w =
    (case favorites_payload env (games c) of None \<Rightarrow> w
     | Some t \<Rightarrow> queue_payload now w PERSISTENCE_FAVORITES (favorites_path c) (Some t))"

definition persistence_request_filters :: "os_env \<Rightarrow> tick \<Rightarrow> catalog_state \<Rightarrow> persistence_worker \<Rightarrow> persistence_worker" where
  "persistence_request_filters env now c w =
    (case filters_payload env c of None \<Rightarrow> w
     | Some t \<Rightarrow> queue_payload now w PERSISTENCE_FILTERS (filter_state_path c) (Some t))"

definition persistence_request_history :: "os_env \<Rightarrow> tick \<Rightarrow> catalog_state \<Rightarrow> persistence_worker \<Rightarrow> persistence_worker" where
  "persistence_request_history env now c w =
    (case history_payload env (games c) of None \<Rightarrow> w
     | Some t \<Rightarrow> queue_payload now w PERSISTENCE_HISTORY (history_path c) (Some t))"

record locale_settings =
  zh_tw :: bool
  settings_path :: string
  screen_lock_enabled :: bool
  auto_screen_off_minutes :: int
  backlight_percent :: int
  joystick_rgb_brightness :: int
  usb_debug_enabled :: bool

definition locale_payload :: "locale_settings \<Rightarrow> string" where
  "locale_payload s = snprintf_s 224
    (''language='' @ (if zh_tw s then ''zh_TW'' else ''en'') @ [LF] @
     ''screen_lock='' @ print_int (if screen_lock_enabled s then 1 else 0) @ [LF] @
     ''auto_screen_off='' @ print_int (auto_screen_off_minutes s) @ [LF] @
     ''brightness='' @ print_int (backlight_percent s) @ [LF] @
     ''joystick_rgb='' @ print_int (joystick_rgb_brightness s) @ [LF] @
     ''usb_debug='' @ print_int (if usb_debug_enabled s then 1 else 0) @ [LF] @
     ''boot_target=custom'' @ [LF])"

definition persistence_request_locale :: "os_env \<Rightarrow> tick \<Rightarrow> locale_settings \<Rightarrow> persistence_worker \<Rightarrow> persistence_worker" where
  "persistence_request_locale env now s w =
    queue_payload now w PERSISTENCE_LOCALE (settings_path s) (if malloc_ok env then Some (locale_payload s) else None)"

definition sdl_ticks_passed :: "tick \<Rightarrow> tick \<Rightarrow> bool" where
  "sdl_ticks_passed now d \<longleftrightarrow> sint (d - now) \<le> 0"

text \<open>
  One round of the thread up to where it lets the mutex go: it waits for a
  signal, ends, sleeps for a number of milliseconds, or takes the pending items.
  The clock is read twice.
\<close>

datatype round = Wait_Signal | Leave | Sleep u32 | Take "(persistence_item_id \<times> persistence_item) list"

definition persistence_round :: "tick \<Rightarrow> tick \<Rightarrow> persistence_worker \<Rightarrow> persistence_worker \<times> round" where
  "persistence_round now1 now2 w =
    (if running w \<and> \<not> dirty w then (w, Wait_Signal)
     else if \<not> running w \<and> \<not> dirty w then (w, Leave)
     else if running w \<and> \<not> sdl_ticks_passed now1 (deadline w) then (w, Sleep (deadline w - now2))
     else (w\<lparr>items := (\<lambda>_. no_item), dirty := False\<rparr>, Take (map (\<lambda>i. (i, items w i)) all_items)))"

definition persistence_stop_request :: "persistence_worker \<Rightarrow> persistence_worker" where
  "persistence_stop_request w = (if mutex w then w\<lparr>running := False\<rparr> else w)"

text \<open>
  The writer as a whole: the worker's shared state, the items the thread took
  and has not written yet, the disk, whether the thread has ended, and the
  saves attempted so far.
\<close>

record writer =
  worker :: persistence_worker
  writing :: "(persistence_item_id \<times> persistence_item) list"
  disk :: dir
  ended :: bool
  attempts :: "(persistence_item_id \<times> string \<times> string) list"

datatype writer_event = Queue persistence_item_id string "string option" tick | Run_Thread tick tick save_env | Stop

definition write_item :: "save_env \<Rightarrow> persistence_item_id \<Rightarrow> persistence_item \<Rightarrow> writer \<Rightarrow> writer" where
  "write_item env i item s =
    (case payload item of None \<Rightarrow> s
     | Some t \<Rightarrow>
       let (states, result) = save_file env (disk s) (item_path item) t in
       s\<lparr>disk := (if states = [] then disk s else last states), attempts := attempts s @ [(i, item_path item, t)],
         worker := (if result \<noteq> 0 then (worker s)\<lparr>write_failures := write_failures (worker s) + 1\<rparr> else worker s)\<rparr>)"

definition persistence_thread :: "tick \<Rightarrow> tick \<Rightarrow> save_env \<Rightarrow> writer \<Rightarrow> writer" where
  "persistence_thread now1 now2 env s =
    (if ended s then s
     else case writing s of
         (i, item) # rest \<Rightarrow> write_item env i item (s\<lparr>writing := rest\<rparr>)
       | [] \<Rightarrow> (case persistence_round now1 now2 (worker s) of
             (w, Leave) \<Rightarrow> s\<lparr>worker := w, ended := True\<rparr>
           | (w, Take pending) \<Rightarrow> s\<lparr>worker := w, writing := pending\<rparr>
           | (w, _) \<Rightarrow> s\<lparr>worker := w\<rparr>))"

fun writer_step :: "writer \<Rightarrow> writer_event \<Rightarrow> writer \<times> unit" where
  "writer_step s (Queue i p content now) = (s\<lparr>worker := queue_payload now (worker s) i p content\<rparr>, ())"
| "writer_step s (Run_Thread now1 now2 env) = (persistence_thread now1 now2 env s, ())"
| "writer_step s Stop = (s\<lparr>worker := persistence_stop_request (worker s)\<rparr>, ())"


section \<open>A save replaces the file or leaves it\<close>

lemma write_all_complete: "write_all ios sofar left = (states, True) \<Longrightarrow> last ((sofar # states)) = sofar @ left"
proof (induction ios arbitrary: sofar left states)
  case Nil
  then show ?case using write_all.simps [of "[]" sofar left] by (auto split: if_splits)
next
  case (Cons x ios)
  show ?case
  proof (cases x)
    case (IoErr e)
    then have "write_all (x # ios) sofar left =
        (if left = [] then ([], True) else if e = EINTR then write_all ios sofar left else ([], False))"
      by (subst write_all.simps) simp
    then show ?thesis using Cons.prems Cons.IH [of sofar left states] by (auto split: if_splits)
  next
    case (Io n)
    show ?thesis
    proof (cases "left = [] \<or> n = 0")
      case True
      then show ?thesis using Io Cons.prems write_all.simps [of "x # ios" sofar left] by (auto split: if_splits)
    next
      case False
      obtain ss ok where rec: "write_all ios (sofar @ take n left) (drop n left) = (ss, ok)" by fastforce
      then have "states = (sofar @ take n left) # ss" "ok" using Io False Cons.prems write_all.simps [of "x # ios" sofar left] by simp_all
      then show ?thesis using Cons.IH [of "sofar @ take n left" "drop n left" ss] rec by simp
    qed
  qed
qed

lemma match_loop_sound: "match_loop ios bs left \<Longrightarrow> length bs = length left \<Longrightarrow> bs = left"
proof (induction "length ios + length left" arbitrary: ios bs left rule: less_induct)
  case less
  have block: "bs = left"
    if "0 < n" "n \<le> length left" "take n bs = take n left" "match_loop rest (drop n bs) (drop n left)" "length rest \<le> length ios"
    for n rest
  proof -
    have "drop n bs = drop n left" by (rule less.hyps [OF _ that(4)]) (use that less.prems(2) in simp_all)
    then show ?thesis using that(3) by (metis append_take_drop_id)
  qed
  show ?case
  proof (cases "left = []")
    case False
    note unfold = match_loop.simps [of ios bs left] less.prems(1)
    show ?thesis
    proof (cases ios)
      case Nil
      then show ?thesis using unfold False block [of "min (min 4096 (length left)) (length bs)" "[]"]
        by (auto simp: Let_def split: if_splits)
    next
      case (Cons x rest)
      show ?thesis
      proof (cases x)
        case (IoErr e)
        then have "match_loop rest bs left" using unfold False Cons by (simp split: if_splits)
        then show ?thesis using less.hyps [of rest left bs] Cons less.prems(2) by simp
      next
        case (Io n)
        then show ?thesis using unfold False Cons block [of "min n (min (min 4096 (length left)) (length bs))" rest]
          by (simp add: Let_def split: if_splits)
      qed
    qed
  qed (use less in simp)
qed

lemma payload_matches_sound:
  "payload_matches_file env d name t \<Longrightarrow> \<exists>f. d name = Some f \<and> kind f = Regular \<and> fdata f = t"
  by (auto simp: payload_matches_file_def open_nofollow_def match_loop_sound split: option.splits sum.splits if_splits)

text \<open>
  The temporary file is opened without \<open>O_EXCL\<close> and \<open>O_NOFOLLOW\<close>, so what is
  there already matters. A plain temporary name is free or that of a regular
  file with no other link, such as an earlier save that was cut off leaves.
\<close>

definition plain_temporary :: "dir \<Rightarrow> string \<Rightarrow> bool" where
  "plain_temporary d name = (case d (name @ ''.tmp'') of None \<Rightarrow> True | Some f \<Rightarrow> kind f = Regular \<and> st_nlink f = 1)"

lemma open_truncate_plain:
  "plain_temporary d name \<Longrightarrow> open_truncate env d (name @ ''.tmp'') = Some (target, f) \<Longrightarrow>
   target = name @ ''.tmp'' \<and> kind f = Regular \<and> st_nlink f = 1"
  by (auto simp: plain_temporary_def open_truncate_def numeral_eq_Suc split: option.splits if_splits)

definition holds_text :: "dir \<Rightarrow> string \<Rightarrow> string \<Rightarrow> bool" where
  "holds_text d name t \<longleftrightarrow> (\<exists>f. d name = Some f \<and> kind f = Regular \<and> fdata f = t)"

text \<open>The cases of a save, with what is on the disk in each.\<close>

lemma save_file_cases:
  assumes "plain_temporary d name" "save_file env d name t = (states, result)"
  obtains (nothing) "states = []" "result = - 1"
  | (same) "states = []" "result = 0" "holds_text d name t"
  | (kept) "result = - 1" "\<And>d' p. d' \<in> set states \<Longrightarrow> p \<noteq> name @ ''.tmp'' \<Longrightarrow> d' p = d p"
      "plain_temporary (last (d # states)) name"
  | (replaced) before after where "result = 0" "states = before @ [after]" "holds_text after name t"
      "\<And>d' p. d' \<in> set before \<Longrightarrow> p \<noteq> name @ ''.tmp'' \<Longrightarrow> d' p = d p"
      "\<And>p. p \<noteq> name \<Longrightarrow> p \<noteq> name @ ''.tmp'' \<Longrightarrow> after p = d p" "plain_temporary after name"
proof -
  let ?tmp = "name @ ''.tmp''"
  consider (none) "states = []" "result = - 1" | (match) "states = []" "result = 0" "payload_matches_file env d name t"
    | (run) target f where "open_truncate env d ?tmp = Some (target, f)" "\<not> payload_matches_file env d name t"
        "\<not> (name = [] \<or> PATH_MAX \<le> length ?tmp)"
    using assms(2) by (auto simp: save_file_def Let_def split: if_splits option.splits prod.splits)
  then show thesis
  proof cases
    case none
    then show thesis by (rule nothing)
  next
    case match
    then show thesis using payload_matches_sound same by (simp add: holds_text_def)
  next
    case run
    have target: "target = ?tmp" "kind f = Regular" "st_nlink f = 1" using open_truncate_plain [OF assms(1) run(1)] by simp_all
    obtain contents written where w: "write_all (sv_writes env) [] t = (contents, written)" by fastforce
    define before where "before = d(?tmp \<mapsto> f) # map (\<lambda>c. d(?tmp \<mapsto> f\<lparr>fdata := c\<rparr>)) contents"
    have local: "d' p = d p" if "d' \<in> set before" "p \<noteq> ?tmp" for d' p using that by (auto simp: before_def)
    have "before \<noteq> []" by (simp add: before_def)
    then have last_in: "last before \<in> set before" by (rule last_in_set)
    have plain: "plain_temporary d' name" if "d' \<in> set before" for d'
      using that target by (auto simp: before_def plain_temporary_def)
    have save: "save_file env d name t =
        (if written \<and> sv_fsync env \<and> sv_close env \<and> sv_rename env
         then (before @ [(last before)(name := last before ?tmp, ?tmp := None)], 0)
         else (before @ remove_temporary env (last before) ?tmp, - 1))"
      using run target w unfolding save_file_def Let_def by (simp add: before_def)
    show thesis
    proof (cases "written \<and> sv_fsync env \<and> sv_close env \<and> sv_rename env")
      case True
      have "last ([] # contents) = t" using write_all_complete [of "sv_writes env" "[]" t contents] w True by simp
      then have data: "\<exists>g. last before ?tmp = Some g \<and> kind g = Regular \<and> (contents = [] \<or> fdata g = t)"
        using target(2) by (auto simp: before_def last_map)
      have "fdata f = t" if "contents = []"
      proof -
        have "t = []" using \<open>last ([] # contents) = t\<close> that by simp
        moreover have "fdata f = []" using run(1) target(2)
          by (auto simp: open_truncate_def split: if_splits option.splits)
        ultimately show ?thesis by simp
      qed
      then have "holds_text ((last before)(name := last before ?tmp, ?tmp := None)) name t"
        using data target(2) by (auto simp: holds_text_def before_def)
      moreover have "states = before @ [(last before)(name := last before ?tmp, ?tmp := None)]" "result = 0"
        using True save assms(2) by simp_all
      moreover have "((last before)(name := last before ?tmp, ?tmp := None)) p = d p" if "p \<noteq> name" "p \<noteq> ?tmp" for p
        using that local [OF last_in] by simp
      moreover have "plain_temporary ((last before)(name := last before ?tmp, ?tmp := None)) name" by (simp add: plain_temporary_def)
      ultimately show thesis using local by (intro replaced) assumption+
    next
      case False
      have states: "states = before @ remove_temporary env (last before) ?tmp" "result = - 1"
        using assms(2) unfolding save if_not_P [OF False] by simp_all
      have "d' p = d p" if "d' \<in> set states" "p \<noteq> ?tmp" for d' p
        using that local [OF _ that(2)] local [OF last_in that(2)] by (auto simp: states(1) remove_temporary_def split: if_splits)
      moreover have "plain_temporary (last (d # states)) name"
        using plain [OF last_in] \<open>before \<noteq> []\<close> by (auto simp: states(1) remove_temporary_def plain_temporary_def)
      ultimately show thesis using states(2) kept by blast
    qed
  qed
qed

text \<open>
  C36: A save replaces the file or leaves it alone, provided that the temporary
  name is free or belongs to a regular file with a single link. Then, whichever
  system calls fail, transfer less or are interrupted, and wherever the sequence
  of disk changes is cut off, the file is the old one or holds exactly the
  payload, and no name but the file's and the temporary one is touched. A result
  of zero means that the file holds the payload; any other result means that it
  is unchanged. With a symbolic link at the temporary name this is false; see
  the lemma linked_temporary_written_through.
\<close>

theorem save_all_or_nothing:
  assumes "plain_temporary d name" "save_file env d name t = (states, result)"
  shows "(\<forall>d'\<in>set states. (d' name = d name \<or> holds_text d' name t) \<and>
            (\<forall>p. p \<noteq> name \<and> p \<noteq> name @ ''.tmp'' \<longrightarrow> d' p = d p)) \<and>
    (if result = 0 then holds_text (last (d # states)) name t else last (d # states) name = d name)"
  using assms
proof (cases rule: save_file_cases)
  case nothing
  then show ?thesis by simp
next
  case same
  then show ?thesis by simp
next
  case kept
  then show ?thesis by (cases "states = []") auto
next
  case (replaced before after)
  then show ?thesis by auto
qed

definition quiet_save :: save_env where
  "quiet_save = \<lparr>sv_euid = 0, sv_open_read = None, sv_fstat = True, sv_reads = [], sv_open = True, sv_writes = [IoErr EINTR, Io 2],
     sv_fsync = True, sv_close = True, sv_rename = True, sv_remove = True\<rparr>"

theorem save_all_or_nothing_witness:
  "plain_temporary Map.empty ''/s'' \<and> snd (save_file quiet_save Map.empty ''/s'' ''abc'') = 0 \<and>
   holds_text (last (Map.empty # fst (save_file quiet_save Map.empty ''/s'' ''abc''))) ''/s'' ''abc''"
proof -
  have plain: "plain_temporary Map.empty ''/s''" by (simp add: plain_temporary_def)
  have "snd (save_file quiet_save Map.empty ''/s'' ''abc'') = 0"
    by (simp add: save_file_def payload_matches_file_def open_nofollow_def quiet_save_def open_truncate_def write_all.simps
        PATH_MAX_def numeral_eq_Suc Let_def)
  moreover obtain states result where "save_file quiet_save Map.empty ''/s'' ''abc'' = (states, result)" by fastforce
  ultimately show ?thesis using save_all_or_nothing [OF plain, of quiet_save "''abc''" states result] plain by simp
qed

text \<open>A save none of whose system calls fails; writes may be short or interrupted.\<close>

definition io_works :: "io \<Rightarrow> bool" where
  "io_works x = (case x of IoErr e \<Rightarrow> e = EINTR | Io n \<Rightarrow> n \<noteq> 0)"

definition save_works :: "save_env \<Rightarrow> bool" where
  "save_works env \<longleftrightarrow> sv_open env \<and> list_all io_works (sv_writes env) \<and> sv_fsync env \<and> sv_close env \<and> sv_rename env"

lemma write_all_works: "list_all io_works ios \<Longrightarrow> snd (write_all ios sofar left)"
proof (induction ios arbitrary: sofar left)
  case (Cons x ios)
  note unfold = write_all.simps [of "x # ios" sofar left]
  show ?case
  proof (cases x)
    case (IoErr e)
    then show ?thesis using Cons unfold by (simp add: io_works_def)
  next
    case (Io n)
    then show ?thesis using Cons.prems Cons.IH [of "sofar @ take n left" "drop n left"] unfold
      by (simp add: io_works_def split_beta)
  qed
qed (subst write_all.simps, simp)

lemma save_file_works:
  assumes "save_works env" "plain_temporary d name" "name \<noteq> []" "length (name @ ''.tmp'') < PATH_MAX"
  shows "snd (save_file env d name t) = 0"
proof -
  obtain r where "open_truncate env d (name @ ''.tmp'') = Some r"
    using assms(1,2) by (cases "d (name @ ''.tmp'')") (simp_all add: open_truncate_def save_works_def plain_temporary_def numeral_eq_Suc)
  moreover obtain contents where "write_all (sv_writes env) [] t = (contents, True)"
    using write_all_works [of "sv_writes env" "[]" t] assms(1) by (cases "write_all (sv_writes env) [] t") (auto simp: save_works_def)
  ultimately show ?thesis using assms by (cases r) (simp add: save_file_def save_works_def Let_def)
qed

text \<open>
  With a symbolic link at the temporary name a save that reports success has
  overwritten the file the link points to and left the link in place of the
  state file.
\<close>

lemma linked_temporary_written_through:
  assumes "save_works env" "name \<noteq> []" "length (name @ ''.tmp'') < PATH_MAX" "\<not> payload_matches_file env d name t"
    "d (name @ ''.tmp'') = Some l" "kind l = Symlink" "d (fdata l) = Some g" "kind g = Regular" "fdata l \<noteq> name"
    "save_file env d name t = (states, result)"
  shows "result = 0 \<and> last states name = Some l \<and> holds_text (last states) (fdata l) t"
proof -
  let ?tmp = "name @ ''.tmp''" and ?d0 = "d(fdata l \<mapsto> g\<lparr>fdata := []\<rparr>)"
  have ne: "fdata l \<noteq> ?tmp" using assms(5-8) by auto
  have "open_truncate env d ?tmp = Some (fdata l, g\<lparr>fdata := []\<rparr>)"
    using assms(1,5-8) by (simp add: open_truncate_def save_works_def numeral_eq_Suc)
  moreover obtain contents where w: "write_all (sv_writes env) [] t = (contents, True)"
    using write_all_works [of "sv_writes env" "[]" t] assms(1) by (cases "write_all (sv_writes env) [] t") (auto simp: save_works_def)
  moreover define before where "before = ?d0 # map (\<lambda>c. ?d0(fdata l \<mapsto> g\<lparr>fdata := c\<rparr>)) contents"
  ultimately have save: "states = before @ [(last before)(name := last before ?tmp, ?tmp := None)]" "result = 0"
    using assms unfolding save_file_def Let_def by (simp_all add: save_works_def del: fun_upd_apply last.simps)
  have "last ([] # contents) = t" using write_all_complete [OF w] by simp
  then have "last before = d(fdata l \<mapsto> g\<lparr>fdata := t\<rparr>)" by (auto simp: before_def last_map)
  then show ?thesis using save ne assms(5,8,9) by (simp add: holds_text_def)
qed

section \<open>Nothing requested is lost\<close>

text \<open>
  Every request is an entry that moves on without overtaking: from its slot to
  the items being written, and from there to the saves attempted.
\<close>

fun entry :: "persistence_item_id \<times> persistence_item \<Rightarrow> (persistence_item_id \<times> string \<times> string) list" where
  "entry (i, item) = (case payload item of None \<Rightarrow> [] | Some t \<Rightarrow> [(i, item_path item, t)])"

definition entries :: "writer \<Rightarrow> (persistence_item_id \<times> string \<times> string) list" where
  "entries s = attempts s @ concat (map entry (writing s)) @ concat (map (\<lambda>i. entry (i, items (worker s) i)) all_items)"

definition last_for :: "'i \<Rightarrow> ('i \<times> 'a) list \<Rightarrow> 'a option" where
  "last_for i xs = (let ys = filter (\<lambda>x. fst x = i) xs in if ys = [] then None else Some (snd (last ys)))"

fun request :: "writer_event \<Rightarrow> (persistence_item_id \<times> string \<times> string) list" where
  "request (Queue i p (Some t) now) = (if p = [] then [] else [(i, snprintf_s PATH_MAX p, t)])"
| "request _ = []"

definition requests :: "writer_event list \<Rightarrow> (persistence_item_id \<times> string \<times> string) list" where
  "requests es = concat (map request es)"

lemma last_for_Nil [simp]: "last_for i [] = None"
  by (simp add: last_for_def)

lemma last_for_append: "last_for i (xs @ ys) = (case last_for i ys of None \<Rightarrow> last_for i xs | Some r \<Rightarrow> Some r)"
  by (auto simp: last_for_def Let_def)

lemma last_for_single: "last_for i [(j, r)] = (if i = j then Some r else None)"
  by (simp add: last_for_def)

lemma last_for_slots:
  "last_for i (concat (map (\<lambda>i. entry (i, its i)) all_items)) = map_option (\<lambda>t. (item_path (its i), t)) (payload (its i))"
  by (cases i) (auto simp: all_items_def last_for_append last_for_single split: option.splits)

lemma last_for_entries:
  "last_for i (entries s) =
    (case payload (items (worker s) i) of Some t \<Rightarrow> Some (item_path (items (worker s) i), t)
     | None \<Rightarrow> last_for i (attempts s @ concat (map entry (writing s))))"
  unfolding entries_def append_assoc [symmetric]
  by (simp only: last_for_append [of i "attempts s @ concat (map entry (writing s))"] last_for_slots) (simp split: option.splits)

definition started :: "writer \<Rightarrow> bool" where
  "started s \<longleftrightarrow> worker s = empty_worker\<lparr>mutex := True, running := True, thread := True\<rparr> \<and> writing s = [] \<and> \<not> ended s \<and> attempts s = []"

definition writer_hist :: "writer_event list \<Rightarrow> writer \<Rightarrow> bool" where
  "writer_hist es s \<longleftrightarrow>
     mutex (worker s) \<and> (\<forall>i. payload (items (worker s) i) \<noteq> None \<longrightarrow> dirty (worker s)) \<and> length (writing s) \<le> 4 \<and>
     (Stop \<in> set es \<or> running (worker s) \<and> \<not> ended s) \<and>
     (\<forall>i. last_for i (entries s) = last_for i (requests es))"

lemma writer_hist_started: "started s \<Longrightarrow> writer_hist [] s"
  by (simp add: started_def writer_hist_def empty_worker_def no_item_def entries_def requests_def all_items_def)

lemma write_item_frame:
  "writing (write_item env i item s) = writing s" "ended (write_item env i item s) = ended s"
  "items (worker (write_item env i item s)) = items (worker s)" "dirty (worker (write_item env i item s)) = dirty (worker s)"
  "running (worker (write_item env i item s)) = running (worker s)" "mutex (worker (write_item env i item s)) = mutex (worker s)"
  by (auto simp: write_item_def Let_def split: option.splits prod.splits)

lemma write_item_attempts: "attempts (write_item env i item s) = attempts s @ entry (i, item)"
  by (auto simp: write_item_def Let_def split: option.splits prod.splits)

lemma write_item_entries: "entries (write_item env i item s) = attempts s @ entry (i, item) @ drop (length (attempts s)) (entries s)"
  unfolding entries_def write_item_attempts write_item_frame by simp

text \<open>The cases of a thread step.\<close>

lemma persistence_thread_ended: "ended s \<Longrightarrow> persistence_thread now1 now2 env s = s"
  by (simp add: persistence_thread_def)

lemma persistence_thread_write:
  "\<not> ended s \<Longrightarrow> writing s = (i, item) # rest \<Longrightarrow>
   persistence_thread now1 now2 env s = write_item env i item (s\<lparr>writing := rest\<rparr>)"
  by (simp add: persistence_thread_def)

lemma persistence_thread_idle:
  "\<not> ended s \<Longrightarrow> writing s = [] \<Longrightarrow> persistence_thread now1 now2 env s =
    (if \<not> dirty (worker s) then (if running (worker s) then s else s\<lparr>ended := True\<rparr>)
     else if running (worker s) \<and> \<not> sdl_ticks_passed now1 (deadline (worker s)) then s
     else s\<lparr>worker := (worker s)\<lparr>items := (\<lambda>_. no_item), dirty := False\<rparr>, writing := map (\<lambda>i. (i, items (worker s) i)) all_items\<rparr>)"
  by (simp add: persistence_thread_def persistence_round_def)

lemmas persistence_thread_simps = persistence_thread_ended persistence_thread_write persistence_thread_idle write_item_frame

lemma thread_cases:
  fixes s :: writer
  obtains (ended) "ended s" | (save) i item rest where "\<not> ended s" "writing s = (i, item) # rest" | (idle) "\<not> ended s" "writing s = []"
  by (cases "ended s"; cases "writing s") auto

text \<open>A step of the thread moves entries on and never changes their sequence.\<close>

lemma persistence_thread_entries: "entries (persistence_thread now1 now2 env s) = entries s"
proof (cases s rule: thread_cases)
  case (save i item rest)
  then show ?thesis by (simp add: persistence_thread_write write_item_entries) (simp add: entries_def)
next
  case idle
  moreover have "entry (i, no_item) = []" for i by (simp add: no_item_def)
  ultimately show ?thesis by (simp add: persistence_thread_idle entries_def comp_def del: entry.simps)
qed (simp add: persistence_thread_ended)

lemma persistence_thread_frame:
  "mutex (worker (persistence_thread now1 now2 env s)) = mutex (worker s)"
  "running (worker (persistence_thread now1 now2 env s)) = running (worker s)"
  "running (worker s) \<Longrightarrow> ended (persistence_thread now1 now2 env s) = ended s"
  "length (writing s) \<le> 4 \<Longrightarrow> length (writing (persistence_thread now1 now2 env s)) \<le> 4"
  by (cases s rule: thread_cases; simp add: persistence_thread_simps all_items_def)+

lemma persistence_thread_dirty:
  assumes "\<And>i. payload (items (worker s) i) \<noteq> None \<Longrightarrow> dirty (worker s)"
    "payload (items (worker (persistence_thread now1 now2 env s)) i) \<noteq> None"
  shows "dirty (worker (persistence_thread now1 now2 env s))"
  using assms by (cases s rule: thread_cases) (auto simp: persistence_thread_simps no_item_def split: if_splits)

lemma writer_step_hist: "writer_hist es s \<Longrightarrow> writer_hist (es @ [e]) (fst (writer_step s e))"
proof (cases e)
  case (Queue i p content now)
  assume hist: "writer_hist es s"
  show ?thesis
  proof (cases "content = None \<or> p = []")
    case True
    then have "request e = []" using Queue by (cases content) auto
    then show ?thesis using hist True Queue by (simp add: writer_hist_def queue_payload_def requests_def)
  next
    case False
    then obtain t where t: "content = Some t" by auto
    have "last_for j (entries (fst (writer_step s e))) = last_for j (requests (es @ [e]))" for j
    proof -
      have old: "last_for j (entries s) = last_for j (requests es)" and m: "mutex (worker s)"
        using hist by (simp_all add: writer_hist_def)
      have "requests (es @ [e]) = requests es @ [(i, snprintf_s PATH_MAX p, t)]" using False t Queue by (simp add: requests_def)
      then show ?thesis using old m False t Queue
        by (cases "j = i") (simp_all add: last_for_entries last_for_append last_for_single queue_payload_def cong: option.case_cong)
    qed
    then show ?thesis using hist False t Queue by (simp add: writer_hist_def queue_payload_def)
  qed
next
  case (Run_Thread now1 now2 env)
  assume hist: "writer_hist es s"
  then have d: "\<And>i. payload (items (worker s) i) \<noteq> None \<Longrightarrow> dirty (worker s)" unfolding writer_hist_def by blast
  show ?thesis using hist Run_Thread persistence_thread_dirty [OF d]
    by (auto simp: writer_hist_def persistence_thread_frame persistence_thread_entries requests_def)
next
  case Stop
  assume hist: "writer_hist es s"
  have "entries (s\<lparr>worker := persistence_stop_request (worker s)\<rparr>) = entries s"
    by (simp add: entries_def persistence_stop_request_def del: entry.simps)
  then show ?thesis using hist Stop by (simp add: writer_hist_def persistence_stop_request_def requests_def)
qed

interpretation writer: machine_history writer_step started writer_hist
  by unfold_locales (simp_all add: writer_hist_started writer_step_hist)


definition run_threads :: "(tick \<times> tick \<times> save_env) list \<Rightarrow> writer_event list" where
  "run_threads ts = map (\<lambda>(now1, now2, env). Run_Thread now1 now2 env) ts"

text \<open>How many steps the thread still needs once it was told to stop.\<close>

definition rounds_left :: "writer \<Rightarrow> nat" where
  "rounds_left s = (if ended s then 0 else length (writing s) + (if dirty (worker s) then 6 else 1))"

lemma stopped_thread_progress:
  assumes "\<not> running (worker s)" "0 < rounds_left s"
  shows "rounds_left (persistence_thread now1 now2 env s) < rounds_left s"
  using assms by (cases s rule: thread_cases) (auto simp: rounds_left_def persistence_thread_simps all_items_def split: if_splits)

definition drained :: "writer \<Rightarrow> bool" where
  "drained s \<longleftrightarrow> (ended s \<longrightarrow> writing s = [] \<and> \<not> dirty (worker s))"

lemma thread_drained: "drained s \<Longrightarrow> drained (persistence_thread now1 now2 env s)"
  by (cases s rule: thread_cases) (auto simp: drained_def persistence_thread_simps)

lemma stopped_threads_end:
  "\<not> running (worker s) \<Longrightarrow> drained s \<Longrightarrow> rounds_left s \<le> length ts \<Longrightarrow>
   ended (run writer_step s (run_threads ts)) \<and> drained (run writer_step s (run_threads ts))"
proof (induction ts arbitrary: s)
  case Nil
  then show ?case by (simp add: run_threads_def rounds_left_def split: if_splits)
next
  case (Cons t ts)
  obtain now1 now2 env where t: "t = (now1, now2, env)" by (cases t)
  let ?s = "persistence_thread now1 now2 env s"
  have "rounds_left ?s \<le> length ts"
    using stopped_thread_progress [of s now1 now2 env] Cons.prems
    by (cases "rounds_left s = 0") (simp_all add: persistence_thread_def rounds_left_def split: if_splits)
  then have "ended (run writer_step ?s (run_threads ts)) \<and> drained (run writer_step ?s (run_threads ts))"
    using Cons.IH [of ?s] Cons.prems by (simp add: persistence_thread_frame thread_drained)
  then show ?case by (simp add: run_threads_def t)
qed

section \<open>What is on the disk\<close>

text \<open>
  The requests of one kind all name one path. The paths are usable and
  different, and none is the temporary name of another.
\<close>

definition tidy_paths :: "(persistence_item_id \<Rightarrow> string) \<Rightarrow> bool" where
  "tidy_paths path_of \<longleftrightarrow>
     (\<forall>i. path_of i \<noteq> [] \<and> length (path_of i @ ''.tmp'') < PATH_MAX) \<and>
     (\<forall>i j. i \<noteq> j \<longrightarrow> path_of i \<noteq> path_of j) \<and> (\<forall>i j. path_of i \<noteq> path_of j @ ''.tmp'')"

fun event_works :: "writer_event \<Rightarrow> bool" where
  "event_works (Run_Thread now1 now2 env) = save_works env"
| "event_works _ = True"

text \<open>
  The disk after a history of events: every file is the old one or holds a
  requested text, and if no save met a failing call it holds the text of the
  last attempt.
\<close>

definition file_hist :: "dir \<Rightarrow> string \<Rightarrow> (string \<times> string) option \<Rightarrow> dir \<Rightarrow> bool" where
  "file_hist d0 name r d = (case r of None \<Rightarrow> d name = d0 name | Some (p, t) \<Rightarrow> holds_text d name t)"

definition disk_hist :: "(persistence_item_id \<Rightarrow> string) \<Rightarrow> dir \<Rightarrow> writer_event list \<Rightarrow> writer \<Rightarrow> bool" where
  "disk_hist path_of d0 es s \<longleftrightarrow> tidy_paths path_of \<and>
     set (entries s) \<subseteq> set (requests es) \<and> ((\<forall>r\<in>set (requests es). fst (snd r) = path_of (fst r)) \<longrightarrow>
     (\<forall>i. plain_temporary (disk s) (path_of i) \<and>
       (disk s (path_of i) = d0 (path_of i) \<or> (\<exists>t. (i, path_of i, t) \<in> set (requests es) \<and> holds_text (disk s) (path_of i) t)) \<and>
       (list_all event_works es \<longrightarrow> file_hist d0 (path_of i) (last_for i (attempts s)) (disk s))))"

definition fresh :: "(persistence_item_id \<Rightarrow> string) \<Rightarrow> dir \<Rightarrow> writer \<Rightarrow> bool" where
  "fresh path_of d0 s \<longleftrightarrow> started s \<and> tidy_paths path_of \<and> disk s = d0 \<and> (\<forall>i. plain_temporary d0 (path_of i))"

text \<open>One save, seen from the file it is for and from another one.\<close>

lemma save_own_file:
  assumes "plain_temporary d name" "save_file env d name t = (states, result)"
  shows "plain_temporary (last (d # states)) name"
    and "last (d # states) name = d name \<or> holds_text (last (d # states)) name t"
    and "result = 0 \<Longrightarrow> holds_text (last (d # states)) name t"
  using assms by (cases rule: save_file_cases; force)+

lemma save_other_file:
  assumes "plain_temporary d name" "save_file env d name t = (states, result)" "p \<noteq> name" "p \<noteq> name @ ''.tmp''"
  shows "last (d # states) p = d p"
  using assms(1,2)
proof (cases rule: save_file_cases)
  case kept
  then show ?thesis using assms(4) by (cases "states = []") auto
qed (use assms(3,4) in auto)

lemma write_item_disk:
  "payload item = Some t \<Longrightarrow> save_file env (disk s) (item_path item) t = (states, result) \<Longrightarrow>
   disk (write_item env i item s) = last (disk s # states)"
  by (simp add: write_item_def)

lemma write_item_none: "payload item = None \<Longrightarrow> write_item env i item s = s"
  by (simp add: write_item_def)

lemma requests_snoc: "requests (es @ [e]) = requests es @ request e"
  by (simp add: requests_def)

lemma disk_hist_fresh: "fresh path_of d0 s \<Longrightarrow> disk_hist path_of d0 [] s"
  using writer_hist_started [of s]
  by (auto simp: fresh_def disk_hist_def started_def entries_def requests_def file_hist_def empty_worker_def no_item_def all_items_def)

lemma disk_hist_quiet:
  assumes "disk_hist path_of d0 es s" "disk s' = disk s" "attempts s' = attempts s"
    "set (entries s') \<subseteq> set (requests (es @ [e]))"
  shows "disk_hist path_of d0 (es @ [e]) s'"
  unfolding disk_hist_def
proof (intro conjI impI allI)
  fix i
  assume "\<forall>r\<in>set (requests (es @ [e])). fst (snd r) = path_of (fst r)"
  then have paths: "\<forall>r\<in>set (requests es). fst (snd r) = path_of (fst r)" by (simp add: requests_snoc)
  show "plain_temporary (disk s') (path_of i)" using assms(1,2) paths by (simp add: disk_hist_def)
  show "disk s' (path_of i) = d0 (path_of i) \<or>
      (\<exists>t. (i, path_of i, t) \<in> set (requests (es @ [e])) \<and> holds_text (disk s') (path_of i) t)"
    using assms(1,2) paths unfolding disk_hist_def requests_snoc by fastforce
  assume "list_all event_works (es @ [e])"
  then show "file_hist d0 (path_of i) (last_for i (attempts s')) (disk s')" using assms(1-3) paths by (simp add: disk_hist_def)
qed (use assms in \<open>auto simp: disk_hist_def\<close>)

lemma save_step_file:
  assumes "tidy_paths path_of" "\<And>j. plain_temporary d (path_of j)" "save_file env d (path_of i) t = (states, result)"
  shows "plain_temporary (last (d # states)) (path_of j)"
    and "j \<noteq> i \<Longrightarrow> last (d # states) (path_of j) = d (path_of j)"
    and "save_works env \<Longrightarrow> result = 0"
proof -
  have ne: "path_of j @ ''.tmp'' \<noteq> path_of i" "path_of j \<noteq> path_of i @ ''.tmp''" using assms(1) unfolding tidy_paths_def by metis+
  show other: "last (d # states) (path_of j) = d (path_of j)" if "j \<noteq> i"
    by (rule save_other_file [OF assms(2,3)]) (use assms(1) that ne in \<open>simp_all add: tidy_paths_def\<close>)
  show "plain_temporary (last (d # states)) (path_of j)"
  proof (cases "j = i")
    case True
    then show ?thesis using save_own_file(1) [OF assms(2,3)] by simp
  next
    case False
    then have "path_of j @ ''.tmp'' \<noteq> path_of i @ ''.tmp''" using assms(1) by (simp add: tidy_paths_def)
    then have "last (d # states) (path_of j @ ''.tmp'') = d (path_of j @ ''.tmp'')" by (rule save_other_file [OF assms(2,3) ne(1)])
    then show ?thesis using assms(2) [of j] by (simp add: plain_temporary_def del: last.simps)
  qed
  show "result = 0" if "save_works env"
    using save_file_works [OF that assms(2), of i t] assms(1,3) by (simp add: tidy_paths_def)
qed

lemma disk_hist_save:
  assumes hist: "disk_hist path_of d0 es s" and e: "e = Run_Thread now1 now2 env"
    and t: "payload item = Some t" "(i, item_path item, t) \<in> set (requests es)"
    and s': "disk s' = disk (write_item env i item s)" "attempts s' = attempts s @ [(i, item_path item, t)]"
      "set (entries s') \<subseteq> set (requests (es @ [e]))"
  shows "disk_hist path_of d0 (es @ [e]) s'"
  unfolding disk_hist_def
proof (intro conjI impI allI)
  fix j
  have req: "requests (es @ [e]) = requests es" by (simp add: requests_snoc e)
  assume "\<forall>r\<in>set (requests (es @ [e])). fst (snd r) = path_of (fst r)"
  then have paths: "\<forall>r\<in>set (requests es). fst (snd r) = path_of (fst r)" by (simp add: req)
  then have item: "item_path item = path_of i" using t(2) by fastforce
  note old = hist [unfolded disk_hist_def, THEN conjunct2, THEN conjunct2, rule_format, OF paths [rule_format]]
  have tidy: "tidy_paths path_of" using hist by (simp add: disk_hist_def)
  obtain states result where save: "save_file env (disk s) (path_of i) t = (states, result)" by fastforce
  have disk: "disk s' = last (disk s # states)" using write_item_disk [OF t(1)] save s'(1) item by simp
  have plain: "plain_temporary (disk s) (path_of k)" for k using old by blast
  note saved = save_step_file [OF tidy plain save] and own = save_own_file [OF plain save]
  show "plain_temporary (disk s') (path_of j)" unfolding disk by (rule saved(1))
  show "disk s' (path_of j) = d0 (path_of j) \<or> (\<exists>t. (j, path_of j, t) \<in> set (requests (es @ [e])) \<and> holds_text (disk s') (path_of j) t)"
  proof (cases "j = i")
    case True
    then show ?thesis using own(2) old [of i] t(2) item unfolding disk req holds_text_def by metis
  next
    case False
    then show ?thesis using saved(2) old [of j] unfolding disk req holds_text_def by metis
  qed
  assume "list_all event_works (es @ [e])"
  then have works: "save_works env" "file_hist d0 (path_of j) (last_for j (attempts s)) (disk s)" using old [of j] e by simp_all
  then show "file_hist d0 (path_of j) (last_for j (attempts s')) (disk s')"
    using saved(2) [of j] own(3) [OF saved(3)] unfolding s'(2) disk
    by (cases "j = i") (simp_all add: file_hist_def last_for_append last_for_single holds_text_def del: last.simps split: option.splits prod.splits)
qed (use assms in \<open>auto simp: disk_hist_def\<close>)

lemma disk_hist_step: "disk_hist path_of d0 es s \<Longrightarrow> disk_hist path_of d0 (es @ [e]) (fst (writer_step s e))"
proof (cases e)
  case (Queue i p content now)
  assume hist: "disk_hist path_of d0 es s"
  let ?s = "fst (writer_step s e)" and ?slots = "\<lambda>w. concat (map (\<lambda>i. entry (i, items w i)) all_items)"
  have "set (?slots (queue_payload now (worker s) i p content)) \<subseteq> set (?slots (worker s)) \<union> set (request e)"
    using Queue by (cases content) (auto simp: queue_payload_def all_items_def split: option.splits if_splits)
  then have "set (entries ?s) \<subseteq> set (entries s) \<union> set (request e)" using Queue by (auto simp: entries_def)
  then show ?thesis using disk_hist_quiet [OF hist, of ?s e] Queue hist by (auto simp: requests_snoc disk_hist_def)
next
  case (Run_Thread now1 now2 env)
  assume hist: "disk_hist path_of d0 es s"
  let ?s = "persistence_thread now1 now2 env s"
  have sub: "set (entries s) \<subseteq> set (requests es)" using hist by (simp add: disk_hist_def)
  then have entries: "set (entries ?s) \<subseteq> set (requests (es @ [e]))" by (auto simp: persistence_thread_entries requests_snoc)
  note quiet = disk_hist_quiet [OF hist _ _ entries]
  show ?thesis
  proof (cases s rule: thread_cases)
    case (save i item rest)
    note w = persistence_thread_write [OF save, of now1 now2 env]
    show ?thesis
    proof (cases "payload item")
      case None
      then show ?thesis using quiet Run_Thread w by (simp add: write_item_none)
    next
      case (Some t)
      have "(i, item_path item, t) \<in> set (requests es)" using sub save Some by (auto simp: entries_def)
      moreover have "attempts ?s = attempts s @ [(i, item_path item, t)]" using w Some by (simp add: write_item_attempts)
      moreover have "disk ?s = disk (write_item env i item s)" unfolding w write_item_def by (simp add: Some split: prod.split)
      ultimately show ?thesis using disk_hist_save [OF hist Run_Thread Some _ _ _ entries] Run_Thread by simp
    qed
  qed (use quiet Run_Thread in \<open>simp_all add: persistence_thread_ended persistence_thread_idle\<close>)
next
  case Stop
  assume hist: "disk_hist path_of d0 es s"
  let ?s = "s\<lparr>worker := persistence_stop_request (worker s)\<rparr>"
  have "entries ?s = entries s" by (simp add: entries_def persistence_stop_request_def del: entry.simps)
  then show ?thesis using disk_hist_quiet [OF hist, of ?s e] Stop hist by (simp add: requests_snoc disk_hist_def)
qed

interpretation disk: machine_history writer_step "fresh path_of d0" "disk_hist path_of d0" for path_of d0
  by unfold_locales (simp_all add: disk_hist_fresh disk_hist_step)

text \<open>
  After any sequence of requests and rounds of the thread since the start, once
  the thread is told to stop it ends within ten rounds, whatever the clock says
  and whichever saves fail; and for every kind of file the last save attempted
  was the one requested last, with its path and its contents.
\<close>

lemma stop_attempts_last_requests:
  assumes "started s" "Stop \<notin> set es" "10 \<le> length ts"
  shows "ended (run writer_step s (es @ [Stop] @ run_threads ts))"
    and "last_for i (attempts (run writer_step s (es @ [Stop] @ run_threads ts))) = last_for i (requests es)"
    and "requests (es @ [Stop] @ run_threads ts) = requests es"
proof -
  let ?s1 = "run writer_step s (es @ [Stop])" and ?s' = "run writer_step s (es @ [Stop] @ run_threads ts)"
  have h0: "writer_hist es (run writer_step s es)" by (rule writer.run_hist [OF assms(1)])
  have h': "writer_hist (es @ [Stop] @ run_threads ts) ?s'" by (rule writer.run_hist [OF assms(1)])
  have s1: "\<not> running (worker ?s1)" "drained ?s1" "rounds_left ?s1 \<le> 10"
    using h0 assms(2) by (auto simp: writer_hist_def persistence_stop_request_def drained_def rounds_left_def)
  have "?s' = run writer_step ?s1 (run_threads ts)" by simp
  then show e: "ended ?s'" using stopped_threads_end [OF s1(1,2), of ts] s1(3) assms(3) by simp
  have d: "drained ?s'" using \<open>?s' = _\<close> stopped_threads_end [OF s1(1,2), of ts] s1(3) assms(3) by simp
  have "payload (items (worker ?s') i) = None" for i using h' e d by (auto simp: writer_hist_def drained_def)
  then have "entries ?s' = attempts ?s'" using e d by (simp add: entries_def drained_def all_items_def)
  moreover show r: "requests (es @ [Stop] @ run_threads ts) = requests es"
    by (induction ts) (auto simp: requests_def run_threads_def)
  ultimately show "last_for i (attempts ?s') = last_for i (requests es)" using h' by (simp add: writer_hist_def)
qed

text \<open>
  C4: Stopping saves what was requested. The requests of each kind name one
  path, the paths are different and short enough, none is the temporary name
  ".tmp" of another, and at the start the temporary names are free or
  belong to regular files with one link. Then, after any sequence of requests
  and rounds of the thread, once the thread is told to stop it ends within ten
  rounds, having attempted the last request of every kind last; every file is
  still the one there was at the start or holds a text requested for it; and if
  no open, write, fsync, close or rename failed (short and interrupted writes
  are allowed), every file holds exactly the text requested last, and a file
  nothing was requested for is unchanged.
\<close>

theorem stop_saves_last_requests:
  assumes "started s" "Stop \<notin> set es" "10 \<le> length ts"
    and "tidy_paths path_of" "\<And>i. plain_temporary (disk s) (path_of i)"
    and "\<And>r. r \<in> set (requests es) \<Longrightarrow> fst (snd r) = path_of (fst r)"
  shows "let s' = run writer_step s (es @ [Stop] @ run_threads ts) in
    ended s' \<and> (\<forall>i. last_for i (attempts s') = last_for i (requests es)) \<and>
    (\<forall>i. disk s' (path_of i) = disk s (path_of i) \<or>
       (\<exists>t. (i, path_of i, t) \<in> set (requests es) \<and> holds_text (disk s') (path_of i) t)) \<and>
    (list_all event_works (es @ run_threads ts) \<longrightarrow>
       (\<forall>i. case last_for i (requests es) of
              None \<Rightarrow> disk s' (path_of i) = disk s (path_of i)
            | Some (p, t) \<Rightarrow> holds_text (disk s') (path_of i) t))"
proof -
  let ?all = "es @ [Stop] @ run_threads ts"
  note stop = stop_attempts_last_requests [OF assms(1-3)]
  have "fresh path_of (disk s) s" using assms(1,4,5) by (simp add: fresh_def)
  then have "disk_hist path_of (disk s) ?all (run writer_step s ?all)" by (rule disk.run_hist)
  then have "\<forall>i. (disk (run writer_step s ?all) (path_of i) = disk s (path_of i) \<or>
        (\<exists>t. (i, path_of i, t) \<in> set (requests es) \<and> holds_text (disk (run writer_step s ?all)) (path_of i) t)) \<and>
      (list_all event_works ?all \<longrightarrow> file_hist (disk s) (path_of i) (last_for i (requests es)) (disk (run writer_step s ?all)))"
    unfolding disk_hist_def stop(2,3) using assms(6) by blast
  moreover have "list_all event_works (es @ run_threads ts) \<Longrightarrow> list_all event_works ?all" by simp
  ultimately show ?thesis using stop(1,2) unfolding Let_def file_hist_def by blast
qed

definition sample_writer :: writer where
  "sample_writer = \<lparr>worker = fst (persistence_start True True True), writing = [], disk = Map.empty, ended = False, attempts = []\<rparr>"

fun sample_path :: "persistence_item_id \<Rightarrow> string" where
  "sample_path PERSISTENCE_FAVORITES = ''/f''"
| "sample_path PERSISTENCE_FILTERS = ''/s''"
| "sample_path PERSISTENCE_LOCALE = ''/l''"
| "sample_path PERSISTENCE_HISTORY = ''/h''"

lemma sample_path_tidy: "tidy_paths sample_path"
proof -
  have len: "length (sample_path i) = 2" for i by (cases i) simp_all
  then have "sample_path i \<noteq> []" "sample_path i \<noteq> sample_path j @ ''.tmp''" for i j
    by (metis length_0_conv zero_neq_numeral) (metis add_eq_self_zero len length_0_conv length_append list.distinct(1))
  moreover have "i \<noteq> j \<Longrightarrow> sample_path i \<noteq> sample_path j" for i j by (cases i; cases j) simp_all
  ultimately show ?thesis by (simp add: tidy_paths_def len PATH_MAX_def)
qed

theorem stop_saves_last_requests_witness:
  "started sample_writer \<and> tidy_paths sample_path \<and>
   holds_text (disk (run writer_step sample_writer
     ([Queue PERSISTENCE_LOCALE ''/l'' (Some ''a'') 0, Queue PERSISTENCE_LOCALE ''/l'' (Some ''b'') 1] @
      [Stop] @ run_threads (replicate 10 (0, 0, quiet_save))))) ''/l'' ''b''"
proof -
  let ?es = "[Queue PERSISTENCE_LOCALE ''/l'' (Some ''a'') 0, Queue PERSISTENCE_LOCALE ''/l'' (Some ''b'') 1]"
    and ?ts = "replicate 10 (0, 0, quiet_save)"
  have s: "started sample_writer" by (simp add: started_def sample_writer_def persistence_start_def)
  have q: "requests ?es = [(PERSISTENCE_LOCALE, ''/l'', ''a''), (PERSISTENCE_LOCALE, ''/l'', ''b'')]"
    by (simp add: requests_def snprintf_s_def PATH_MAX_def)
  have plain: "plain_temporary (disk sample_writer) (sample_path i)" for i by (simp add: plain_temporary_def sample_writer_def)
  have p: "fst (snd r) = sample_path (fst r)" if "r \<in> set (requests ?es)" for r using that unfolding q by auto
  have works: "list_all event_works (?es @ run_threads ?ts)"
    by (simp add: run_threads_def list_all_iff save_works_def quiet_save_def io_works_def)
  have r: "last_for PERSISTENCE_LOCALE (requests ?es) = Some (''/l'', ''b'')" by (simp add: q last_for_def)
  have "case last_for PERSISTENCE_LOCALE (requests ?es) of
      None \<Rightarrow> disk (run writer_step sample_writer (?es @ [Stop] @ run_threads ?ts)) (sample_path PERSISTENCE_LOCALE) =
        disk sample_writer (sample_path PERSISTENCE_LOCALE)
    | Some (p, t) \<Rightarrow> holds_text (disk (run writer_step sample_writer (?es @ [Stop] @ run_threads ?ts))) (sample_path PERSISTENCE_LOCALE) t"
    using stop_saves_last_requests [where s = sample_writer and es = ?es and ts = ?ts and path_of = sample_path,
        OF s _ _ sample_path_tidy plain p, unfolded Let_def] works
    by simp
  then show ?thesis using s sample_path_tidy unfolding r by simp
qed

text \<open>
  The thread reads the clock twice. If the deadline passes between the readings,
  the difference wraps around and the sleep asked for is longer than 24 days.
\<close>

lemma sleep_wraps:
  assumes "running w" "dirty w" "\<not> sdl_ticks_passed now1 (deadline w)" "now2 = deadline w + late" "0 < late" "late < 0x80000000"
  shows "\<exists>ms. persistence_round now1 now2 w = (w, Sleep ms) \<and> 0x80000000 < ms"
proof -
  have "persistence_round now1 now2 w = (w, Sleep (- late))" using assms by (simp add: persistence_round_def)
  moreover have "0x80000000 < - late" using assms(5,6) by (simp add: word_less_def uint_word_ariths zmod_zminus1_eq_if)
  ultimately show ?thesis by blast
qed

end
