(* ===== verification/Volume_Mixer.thy ===== *)
theory Volume_Mixer
  imports Machines
begin

text \<open>
  The volume daemon's access to the sound card
  (\<^verbatim>\<open>components/device-control/volume/rg40xxv-volume-daemon.c\<close>), in the build
  without the test fixture. The daemon's state is extended by what it acts on:
  the registers of the card, the two directories it writes to, and the current
  \<open>errno\<close>. The script says how the next system calls turn out, one entry for
  each; when it is used up, calls succeed.
\<close>

section \<open>State and environment\<close>

datatype control_index = CONTROL_DAC_VOLUME | CONTROL_LINE_VOLUME | CONTROL_LINE_SWITCH | CONTROL_DAC_SWITCH
  | CONTROL_DAC_REVERSED_SWITCH | CONTROL_LINE_SOURCE_ROUTE | CONTROL_SPEAKER_SWITCH

definition all_controls :: "control_index list" where
  "all_controls = [CONTROL_DAC_VOLUME, CONTROL_LINE_VOLUME, CONTROL_LINE_SWITCH, CONTROL_DAC_SWITCH,
     CONTROL_DAC_REVERSED_SWITCH, CONTROL_LINE_SOURCE_ROUTE, CONTROL_SPEAKER_SWITCH]"

datatype elem_type = TYPE_BOOLEAN | TYPE_INTEGER | TYPE_ENUMERATED | TYPE_OTHER

record control_definition =
  alsa_name :: string
  ctl_type :: elem_type
  minimum_count :: nat
  minimum :: int
  maximum :: int

fun control_definitions :: "control_index \<Rightarrow> control_definition" where
  "control_definitions CONTROL_DAC_VOLUME = \<lparr>alsa_name = ''DAC Playback Volume'', ctl_type = TYPE_INTEGER, minimum_count = 1, minimum = 0, maximum = 63\<rparr>"
| "control_definitions CONTROL_LINE_VOLUME = \<lparr>alsa_name = ''Line Out Playback Volume'', ctl_type = TYPE_INTEGER, minimum_count = 1, minimum = 0, maximum = 31\<rparr>"
| "control_definitions CONTROL_LINE_SWITCH = \<lparr>alsa_name = ''Line Out Playback Switch'', ctl_type = TYPE_BOOLEAN, minimum_count = 1, minimum = 0, maximum = 1\<rparr>"
| "control_definitions CONTROL_DAC_SWITCH = \<lparr>alsa_name = ''DAC Playback Switch'', ctl_type = TYPE_BOOLEAN, minimum_count = 1, minimum = 0, maximum = 1\<rparr>"
| "control_definitions CONTROL_DAC_REVERSED_SWITCH = \<lparr>alsa_name = ''DAC Reversed Playback Switch'', ctl_type = TYPE_BOOLEAN, minimum_count = 1, minimum = 0, maximum = 1\<rparr>"
| "control_definitions CONTROL_LINE_SOURCE_ROUTE = \<lparr>alsa_name = ''Line Out Source Playback Route'', ctl_type = TYPE_ENUMERATED, minimum_count = 1, minimum = 0, maximum = 0\<rparr>"
| "control_definitions CONTROL_SPEAKER_SWITCH = \<lparr>alsa_name = ''Speaker Switch'', ctl_type = TYPE_BOOLEAN, minimum_count = 1, minimum = 0, maximum = 1\<rparr>"

record control_handle =
  ch_count :: nat
  ch_minimum :: int
  ch_maximum :: int

datatype vol_errno = EINTR | EINVAL | ENOENT | EEXIST | ERANGE | EIO | ENODEV | EAGAIN | EOVERFLOW | EACCES | E2BIG | EOTHER nat

text \<open>
  A call succeeds, fails, moves a number of bytes only, or stores something else
  than was asked for.
\<close>

datatype outcome = Done | Fail vol_errno | Moved nat | Stored "int list"

record vol_file =
  vf_data :: string
  vf_regular :: bool
  vf_uid :: nat
  vf_mode :: nat

record daemon_state =
  volume_percent :: int
  muted :: int
  last_nonzero :: int
  initialized :: bool
  marker_sequence :: u32
  persistent_sequence :: u32
  controls :: "control_index \<Rightarrow> control_handle"

record vol = daemon_state +
  regs :: "control_index \<Rightarrow> int list"
  persistent_dir :: "string \<rightharpoonup> vol_file"
  ui_dir :: "string \<rightharpoonup> vol_file"
  errno :: vol_errno
  script :: "outcome list"
  pid :: int
  euid :: nat

text \<open>The outcome of the next call, and a call that can only succeed or fail.\<close>

definition next_outcome :: "vol \<Rightarrow> outcome \<times> vol" where
  "next_outcome v = (case script v of [] \<Rightarrow> (Done, v) | x # xs \<Rightarrow> (x, v\<lparr>script := xs\<rparr>))"

definition sys_call :: "vol \<Rightarrow> vol \<times> bool" where
  "sys_call v = (case next_outcome v of (Fail e, v1) \<Rightarrow> (v1\<lparr>errno := e\<rparr>, False) | (_, v1) \<Rightarrow> (v1, True))"

section \<open>Controls\<close>

definition reg_values :: "nat \<Rightarrow> int list \<Rightarrow> int list" where
  "reg_values n xs = map (\<lambda>k. if k < length xs then xs ! k else 0) [0..<n]"

definition mixer_read_control :: "vol \<Rightarrow> control_index \<Rightarrow> vol \<times> int list option" where
  "mixer_read_control v i =
    (case sys_call v of (v1, ok) \<Rightarrow> (v1, if ok then Some (reg_values (ch_count (controls v1 i)) (regs v1 i)) else None))"

definition mixer_write_control :: "vol \<Rightarrow> control_index \<Rightarrow> int list \<Rightarrow> vol \<times> bool" where
  "mixer_write_control v i values =
    (let c = controls v i in
     if list_ex (\<lambda>x. x < ch_minimum c \<or> ch_maximum c < x) (take (ch_count c) values) then (v\<lparr>errno := ERANGE\<rparr>, False)
     else case next_outcome v of
         (Fail e, v1) \<Rightarrow> (v1\<lparr>errno := e\<rparr>, False)
       | (Stored xs, v1) \<Rightarrow> (v1\<lparr>regs := (regs v1)(i := xs)\<rparr>, True)
       | (_, v1) \<Rightarrow> (v1\<lparr>regs := (regs v1)(i := take (ch_count c) values)\<rparr>, True))"

type_synonym control_snapshot = "control_index \<Rightarrow> int list"

fun snapshot_loop :: "control_index list \<Rightarrow> control_snapshot \<Rightarrow> vol \<Rightarrow> vol \<times> control_snapshot option" where
  "snapshot_loop [] s v = (v, Some s)"
| "snapshot_loop (i # cs) s v =
    (case mixer_read_control v i of (v1, None) \<Rightarrow> (v1, None) | (v1, Some xs) \<Rightarrow> snapshot_loop cs (s(i := xs)) v1)"

definition snapshot_controls :: "vol \<Rightarrow> vol \<times> control_snapshot option" where
  "snapshot_controls v = snapshot_loop all_controls (\<lambda>_. []) v"

fun restore_loop :: "control_index list \<Rightarrow> control_snapshot \<Rightarrow> vol \<Rightarrow> vol \<times> bool" where
  "restore_loop [] s v = (v, True)"
| "restore_loop (i # cs) s v =
    (let (v1, ok) = mixer_write_control v i (s i); (v2, rest) = restore_loop cs s v1 in (v2, ok \<and> rest))"

definition restore_controls :: "control_snapshot \<Rightarrow> vol \<Rightarrow> vol \<times> bool" where
  "restore_controls s v = restore_loop (rev all_controls) s v"

definition percent_to_line_raw :: "int \<Rightarrow> int" where
  "percent_to_line_raw percent =
    (if percent \<le> 0 then 0 else let raw = c_div (percent * 31 + 50) 100 in if raw < 2 then 2 else raw)"

definition fill_values :: "control_handle \<Rightarrow> int \<Rightarrow> int list" where
  "fill_values c desired = replicate (ch_count c) desired"

definition write_and_verify :: "vol \<Rightarrow> control_index \<Rightarrow> int \<Rightarrow> vol \<times> bool" where
  "write_and_verify v i desired =
    (case mixer_write_control v i (fill_values (controls v i) desired) of
       (v1, False) \<Rightarrow> (v1, False)
     | (v1, True) \<Rightarrow> (case mixer_read_control v1 i of
           (v2, None) \<Rightarrow> (v2, False)
         | (v2, Some readback) \<Rightarrow>
           if list_ex (\<lambda>x. x \<noteq> desired) (take (ch_count (controls v2 i)) readback) then (v2\<lparr>errno := EIO\<rparr>, False) else (v2, True)))"

definition mute_order :: "control_index list" where
  "mute_order = [CONTROL_SPEAKER_SWITCH, CONTROL_LINE_SWITCH, CONTROL_LINE_VOLUME, CONTROL_DAC_VOLUME, CONTROL_DAC_SWITCH,
     CONTROL_DAC_REVERSED_SWITCH, CONTROL_LINE_SOURCE_ROUTE]"

definition unmute_order :: "control_index list" where
  "unmute_order = [CONTROL_DAC_VOLUME, CONTROL_LINE_VOLUME, CONTROL_DAC_SWITCH, CONTROL_DAC_REVERSED_SWITCH,
     CONTROL_LINE_SOURCE_ROUTE, CONTROL_LINE_SWITCH, CONTROL_SPEAKER_SWITCH]"

fun desired_value :: "int \<Rightarrow> int \<Rightarrow> control_index \<Rightarrow> int" where
  "desired_value vp m CONTROL_DAC_VOLUME = 63"
| "desired_value vp m CONTROL_LINE_VOLUME = percent_to_line_raw vp"
| "desired_value vp m CONTROL_LINE_SWITCH = (if m \<noteq> 0 then 0 else 1)"
| "desired_value vp m CONTROL_DAC_SWITCH = 1"
| "desired_value vp m CONTROL_DAC_REVERSED_SWITCH = 0"
| "desired_value vp m CONTROL_LINE_SOURCE_ROUTE = 0"
| "desired_value vp m CONTROL_SPEAKER_SWITCH = (if m \<noteq> 0 then 0 else 1)"

fun apply_loop :: "control_index list \<Rightarrow> (control_index \<Rightarrow> int) \<Rightarrow> vol \<Rightarrow> vol \<times> bool" where
  "apply_loop [] desired v = (v, True)"
| "apply_loop (i # cs) desired v =
    (case write_and_verify v i (desired i) of (v1, False) \<Rightarrow> (v1, False) | (v1, True) \<Rightarrow> apply_loop cs desired v1)"

definition apply_controls :: "int \<Rightarrow> int \<Rightarrow> vol \<Rightarrow> vol \<times> bool" where
  "apply_controls vp m v = apply_loop (if m \<noteq> 0 then mute_order else unmute_order) (desired_value vp m) v"

section \<open>Faults\<close>

text \<open>
  \<open>calm\<close>: nothing unexpected is still to come. \<open>one_fault\<close>: at most one call
  from here on does not simply succeed. An operation is \<open>tolerant\<close> in the states
  \<open>P\<close> if it can only fail by using up that fault.
\<close>

definition calm :: "vol \<Rightarrow> bool" where
  "calm v \<longleftrightarrow> set (script v) \<subseteq> {Done}"

fun one_fault_list :: "outcome list \<Rightarrow> bool" where
  "one_fault_list [] = True"
| "one_fault_list (x # xs) = (if x = Done then one_fault_list xs else set xs \<subseteq> {Done})"

definition one_fault :: "vol \<Rightarrow> bool" where
  "one_fault v = one_fault_list (script v)"

definition tolerant :: "(vol \<Rightarrow> bool) \<Rightarrow> (vol \<Rightarrow> vol \<times> bool) \<Rightarrow> bool" where
  "tolerant P f \<longleftrightarrow> (\<forall>v. P v \<and> one_fault v \<longrightarrow> P (fst (f v)) \<and> (calm v \<longrightarrow> snd (f v) \<and> calm (fst (f v))) \<and>
     one_fault (fst (f v)) \<and> (snd (f v) \<or> calm (fst (f v))))"

definition andthen :: "(vol \<Rightarrow> vol \<times> bool) \<Rightarrow> (vol \<Rightarrow> vol \<times> bool) \<Rightarrow> vol \<Rightarrow> vol \<times> bool" where
  "andthen f g v = (case f v of (v1, False) \<Rightarrow> (v1, False) | (v1, True) \<Rightarrow> g v1)"

lemma calm_list: "set xs \<subseteq> {Done} \<Longrightarrow> one_fault_list xs"
  by (induction xs) auto

lemma calm_one_fault: "calm v \<Longrightarrow> one_fault v"
  by (simp add: calm_def one_fault_def calm_list)

lemma tolerantI:
  assumes "\<And>v. P v \<Longrightarrow> one_fault v \<Longrightarrow> P (fst (f v))"
    "\<And>v. P v \<Longrightarrow> calm v \<Longrightarrow> snd (f v) \<and> calm (fst (f v))"
    "\<And>v. P v \<Longrightarrow> one_fault v \<Longrightarrow> one_fault (fst (f v)) \<and> (snd (f v) \<or> calm (fst (f v)))"
  shows "tolerant P f"
  using assms by (simp add: tolerant_def)

lemma tolerantD:
  assumes "tolerant P f" "P v"
  shows "one_fault v \<Longrightarrow> P (fst (f v))" "calm v \<Longrightarrow> snd (f v) \<and> calm (fst (f v))"
    "one_fault v \<Longrightarrow> one_fault (fst (f v)) \<and> (snd (f v) \<or> calm (fst (f v)))"
  using assms calm_one_fault [of v] by (simp_all add: tolerant_def)

lemma tolerant_andthen:
  assumes f: "tolerant P f" and g: "tolerant P g"
  shows "tolerant P (andthen f g)"
proof (rule tolerantI)
  fix v assume P: "P v"
  obtain v1 ok where run: "f v = (v1, ok)" by fastforce
  note F = tolerantD [OF f P, unfolded run, simplified]
  note G = tolerantD [OF g, of v1]
  show "P (fst (andthen f g v))" if "one_fault v" using that run F G by (cases ok) (simp_all add: andthen_def)
  show "snd (andthen f g v) \<and> calm (fst (andthen f g v))" if "calm v"
    using that run F(1,2) G(2) calm_one_fault by (simp add: andthen_def)
  show "one_fault (fst (andthen f g v)) \<and> (snd (andthen f g v) \<or> calm (fst (andthen f g v)))" if "one_fault v"
    using that run F G by (cases ok) (auto simp: andthen_def)
qed

lemma next_outcome_cases:
  assumes "next_outcome v = (x, v')"
  shows "v' = v\<lparr>script := script v'\<rparr>" "calm v \<Longrightarrow> x = Done \<and> calm v'" "one_fault v \<Longrightarrow> one_fault v' \<and> (x = Done \<or> calm v')"
  using assms by (auto simp: next_outcome_def calm_def one_fault_def calm_list
      split: list.splits if_splits)

text \<open>An operation works on the mixer only, or on the files only.\<close>

definition mixer_frame :: "vol \<Rightarrow> vol \<Rightarrow> bool" where
  "mixer_frame v v' \<longleftrightarrow> controls v' = controls v \<and> persistent_dir v' = persistent_dir v \<and> ui_dir v' = ui_dir v \<and>
     volume_percent v' = volume_percent v \<and> muted v' = muted v \<and> last_nonzero v' = last_nonzero v \<and> initialized v' = initialized v \<and>
     pid v' = pid v \<and> euid v' = euid v \<and> marker_sequence v' = marker_sequence v \<and> persistent_sequence v' = persistent_sequence v"

lemma mixer_frame_refl [simp]: "mixer_frame v v"
  by (simp add: mixer_frame_def)

lemma mixer_frame_trans: "mixer_frame u v \<Longrightarrow> mixer_frame v w \<Longrightarrow> mixer_frame u w"
  by (simp add: mixer_frame_def)

lemma mixer_frame_updates [simp]:
  "mixer_frame v (v'\<lparr>errno := e\<rparr>) = mixer_frame v v'" "mixer_frame v (v'\<lparr>regs := r\<rparr>) = mixer_frame v v'"
  "mixer_frame v (v'\<lparr>script := s\<rparr>) = mixer_frame v v'"
  by (simp_all add: mixer_frame_def)

lemma mixer_frame_fields:
  assumes "mixer_frame v v'"
  shows "controls v' = controls v" "persistent_dir v' = persistent_dir v" "ui_dir v' = ui_dir v" "volume_percent v' = volume_percent v"
    "muted v' = muted v" "last_nonzero v' = last_nonzero v" "initialized v' = initialized v" "pid v' = pid v" "euid v' = euid v"
    "marker_sequence v' = marker_sequence v" "persistent_sequence v' = persistent_sequence v"
  using assms by (simp_all add: mixer_frame_def)

lemma next_outcome_frame: "mixer_frame v (snd (next_outcome v))" "regs (snd (next_outcome v)) = regs v"
  by (simp_all add: next_outcome_def split: list.split)

lemma sys_call_frame: "mixer_frame v (fst (sys_call v))" "regs (fst (sys_call v)) = regs v"
  using next_outcome_frame [of v] by (auto simp: sys_call_def split: prod.splits outcome.splits)

lemma mixer_read_frame: "mixer_frame v (fst (mixer_read_control v i))" "regs (fst (mixer_read_control v i)) = regs v"
  using sys_call_frame [of v] by (auto simp: mixer_read_control_def split: prod.splits)

lemma mixer_write_frame:
  "mixer_frame v (fst (mixer_write_control v i xs))" "j \<noteq> i \<Longrightarrow> regs (fst (mixer_write_control v i xs)) j = regs v j"
  using next_outcome_frame [of v] by (auto simp: mixer_write_control_def Let_def split: prod.splits outcome.splits)

lemma write_and_verify_frame:
  "mixer_frame v (fst (write_and_verify v i x))" "j \<noteq> i \<Longrightarrow> regs (fst (write_and_verify v i x)) j = regs v j"
proof -
  let ?xs = "fill_values (controls v i) x"
  obtain v1 ok where w: "mixer_write_control v i ?xs = (v1, ok)" by fastforce
  obtain v2 rb where r: "mixer_read_control v1 i = (v2, rb)" by fastforce
  have f: "mixer_frame v v1" "mixer_frame v v2"
    using mixer_write_frame(1) [of v i ?xs] mixer_read_frame(1) [of v1 i] w r by (auto intro: mixer_frame_trans)
  have g: "j \<noteq> i \<Longrightarrow> regs v1 j = regs v j" "regs v2 = regs v1"
    using mixer_write_frame(2) [of j i v ?xs] mixer_read_frame(2) [of v1 i] w r by simp_all
  show "mixer_frame v (fst (write_and_verify v i x))"
    using f w r by (cases ok; cases rb) (simp_all add: write_and_verify_def)
  show "j \<noteq> i \<Longrightarrow> regs (fst (write_and_verify v i x)) j = regs v j"
    using g w r by (cases ok; cases rb) (simp_all add: write_and_verify_def)
qed

text \<open>What the card shows: every channel of a control has the value.\<close>

definition shows_value :: "vol \<Rightarrow> control_index \<Rightarrow> int \<Rightarrow> bool" where
  "shows_value v i x \<longleftrightarrow> reg_values (ch_count (controls v i)) (regs v i) = replicate (ch_count (controls v i)) x"

lemma all_equal_replicate: "\<not> list_ex (\<lambda>y. y \<noteq> x) ys \<longleftrightarrow> ys = replicate (length ys) x"
  by (induction ys) auto

lemma length_reg_values [simp]: "length (reg_values n xs) = n"
  by (simp add: reg_values_def)

lemma write_and_verify_shows: "snd (write_and_verify v i x) \<Longrightarrow> shows_value (fst (write_and_verify v i x)) i x"
  using mixer_read_frame(2)
  by (auto simp: write_and_verify_def mixer_read_control_def shows_value_def all_equal_replicate
      split: prod.splits bool.splits option.splits if_splits)

lemma apply_loop_frame: "mixer_frame v (fst (apply_loop cs d v))"
proof (induction cs arbitrary: v)
  case (Cons i cs)
  obtain v1 ok where w: "write_and_verify v i (d i) = (v1, ok)" by fastforce
  then have "mixer_frame v v1" using write_and_verify_frame(1) [of v i "d i"] by simp
  then show ?case using w Cons.IH [of v1] mixer_frame_trans by (cases ok) simp_all
qed simp

lemma apply_loop_regs: "j \<notin> set cs \<Longrightarrow> regs (fst (apply_loop cs d v)) j = regs v j"
proof (induction cs arbitrary: v)
  case (Cons i cs)
  obtain v1 ok where w: "write_and_verify v i (d i) = (v1, ok)" by fastforce
  then show ?case using Cons.prems Cons.IH [of v1] write_and_verify_frame(2) [of j i v "d i"] by (cases ok) simp_all
qed simp

lemma apply_loop_shows:
  "distinct cs \<Longrightarrow> snd (apply_loop cs d v) \<Longrightarrow> i \<in> set cs \<Longrightarrow> shows_value (fst (apply_loop cs d v)) i (d i)"
proof (induction cs arbitrary: v)
  case (Cons k cs)
  obtain v1 ok where w: "write_and_verify v k (d k) = (v1, ok)" by fastforce
  then have ok: ok using Cons.prems by (cases ok) auto
  show ?case
  proof (cases "i = k")
    case True
    have "shows_value v1 k (d k)" using write_and_verify_shows [of v k "d k"] w ok by simp
    moreover have "regs (fst (apply_loop cs d v1)) k = regs v1 k" "controls (fst (apply_loop cs d v1)) = controls v1"
      using apply_loop_frame [of v1 cs d] apply_loop_regs [of k cs d v1] Cons.prems(1) mixer_frame_fields(1) by simp_all
    ultimately show ?thesis using True w ok by (simp add: shows_value_def)
  next
    case False
    then show ?thesis using Cons w ok by simp
  qed
qed simp

definition shows_volume :: "vol \<Rightarrow> int \<Rightarrow> int \<Rightarrow> bool" where
  "shows_volume v vp m \<longleftrightarrow> (\<forall>i. shows_value v i (desired_value vp m i))"

lemma orders: "distinct mute_order" "distinct unmute_order" "set mute_order = UNIV" "set unmute_order = UNIV"
  "distinct all_controls" "set all_controls = UNIV"
proof -
  have all: "(UNIV :: control_index set) = set all_controls"
    by (auto simp: all_controls_def) (metis control_index.exhaust)
  show "distinct mute_order" "distinct unmute_order" "distinct all_controls"
    by (simp_all add: mute_order_def unmute_order_def all_controls_def)
  show "set mute_order = UNIV" "set unmute_order = UNIV" "set all_controls = UNIV"
    unfolding all by (auto simp: mute_order_def unmute_order_def all_controls_def)
qed

lemma apply_controls_shows: "snd (apply_controls vp m v) \<Longrightarrow> shows_volume (fst (apply_controls vp m v)) vp m"
  unfolding shows_volume_def apply_controls_def using orders by (intro allI apply_loop_shows) auto

section \<open>Applying, saving and restoring under faults\<close>

definition handles_ok :: "vol \<Rightarrow> bool" where
  "handles_ok v \<longleftrightarrow> (\<forall>i. 1 \<le> ch_count (controls v i) \<and> ch_count (controls v i) \<le> 128 \<and> ch_minimum (controls v i) = 0 \<and>
     maximum (control_definitions i) \<le> ch_maximum (controls v i))"

definition in_range :: "vol \<Rightarrow> control_index \<Rightarrow> int list \<Rightarrow> bool" where
  "in_range v i xs \<longleftrightarrow> list_all (\<lambda>x. ch_minimum (controls v i) \<le> x \<and> x \<le> ch_maximum (controls v i)) xs"

lemma handles_ok_frame: "mixer_frame v v' \<Longrightarrow> handles_ok v' = handles_ok v"
  by (simp add: handles_ok_def mixer_frame_fields)

lemma mixer_write_in_range:
  assumes "in_range v i xs" "length xs = ch_count (controls v i)"
  shows "mixer_write_control v i xs = (case next_outcome v of
         (Fail e, v1) \<Rightarrow> (v1\<lparr>errno := e\<rparr>, False)
       | (Stored ys, v1) \<Rightarrow> (v1\<lparr>regs := (regs v1)(i := ys)\<rparr>, True)
       | (_, v1) \<Rightarrow> (v1\<lparr>regs := (regs v1)(i := xs)\<rparr>, True))"
proof -
  have "\<not> list_ex (\<lambda>x. x < ch_minimum (controls v i) \<or> ch_maximum (controls v i) < x) xs"
    using assms(1) by (auto simp: in_range_def list_all_iff list_ex_iff)
  then show ?thesis using assms(2) by (simp add: mixer_write_control_def Let_def split: prod.split outcome.split)
qed

lemma calm_updates [simp]:
  "calm (v\<lparr>errno := e\<rparr>) = calm v" "calm (v\<lparr>regs := r\<rparr>) = calm v"
  "one_fault (v\<lparr>errno := e\<rparr>) = one_fault v" "one_fault (v\<lparr>regs := r\<rparr>) = one_fault v"
  by (simp_all add: calm_def one_fault_def)

lemma sys_call_faults:
  "calm v \<Longrightarrow> snd (sys_call v) \<and> calm (fst (sys_call v))"
  "one_fault v \<Longrightarrow> one_fault (fst (sys_call v)) \<and> (snd (sys_call v) \<or> calm (fst (sys_call v)))"
proof -
  obtain x v1 where n: "next_outcome v = (x, v1)" by fastforce
  note c = next_outcome_cases(2,3) [OF n]
  show "calm v \<Longrightarrow> snd (sys_call v) \<and> calm (fst (sys_call v))" using c n by (simp add: sys_call_def)
  show "one_fault v \<Longrightarrow> one_fault (fst (sys_call v)) \<and> (snd (sys_call v) \<or> calm (fst (sys_call v)))"
    using c n by (cases x) (auto simp: sys_call_def)
qed

lemma tolerant_sys_call: "(\<And>v v'. mixer_frame v v' \<Longrightarrow> P v \<Longrightarrow> P v') \<Longrightarrow> tolerant P sys_call"
  using sys_call_frame(1) sys_call_faults by (intro tolerantI) blast+

lemma mixer_write_faults:
  assumes "in_range v i xs" "length xs = ch_count (controls v i)"
  shows "calm v \<Longrightarrow> snd (mixer_write_control v i xs) \<and> calm (fst (mixer_write_control v i xs)) \<and> regs (fst (mixer_write_control v i xs)) i = xs"
    and "one_fault v \<Longrightarrow> one_fault (fst (mixer_write_control v i xs)) \<and>
      (calm (fst (mixer_write_control v i xs)) \<or> snd (mixer_write_control v i xs) \<and> regs (fst (mixer_write_control v i xs)) i = xs)"
proof -
  obtain x v1 where n: "next_outcome v = (x, v1)" by fastforce
  note c = next_outcome_cases(2,3) [OF n] and w = mixer_write_in_range [OF assms]
  show "calm v \<Longrightarrow> snd (mixer_write_control v i xs) \<and> calm (fst (mixer_write_control v i xs)) \<and> regs (fst (mixer_write_control v i xs)) i = xs"
    using c n by (simp add: w)
  show "one_fault v \<Longrightarrow> one_fault (fst (mixer_write_control v i xs)) \<and>
      (calm (fst (mixer_write_control v i xs)) \<or> snd (mixer_write_control v i xs) \<and> regs (fst (mixer_write_control v i xs)) i = xs)"
    using c n by (cases x) (auto simp: w)
qed

lemma reg_values_id: "length xs = n \<Longrightarrow> reg_values n xs = xs"
  by (rule nth_equalityI) (simp_all add: reg_values_def)

lemma fill_values_in_range:
  "handles_ok v \<Longrightarrow> 0 \<le> x \<Longrightarrow> x \<le> maximum (control_definitions i) \<Longrightarrow> in_range v i (fill_values (controls v i) x)"
  by (auto simp: in_range_def list_all_iff fill_values_def handles_ok_def intro: order_trans)

lemma read_faults:
  "calm v \<Longrightarrow> snd (mixer_read_control v i) = Some (reg_values (ch_count (controls v i)) (regs v i)) \<and> calm (fst (mixer_read_control v i))"
  "one_fault v \<Longrightarrow> one_fault (fst (mixer_read_control v i)) \<and> (snd (mixer_read_control v i) = None \<longrightarrow> calm (fst (mixer_read_control v i)))"
  "snd (mixer_read_control v i) = Some xs \<Longrightarrow> xs = reg_values (ch_count (controls v i)) (regs v i)"
  using sys_call_faults [of v] sys_call_frame [of v] mixer_frame_fields(1) [of v "fst (sys_call v)"]
  by (auto simp: mixer_read_control_def split: prod.splits if_splits)

lemma tolerant_write_and_verify:
  assumes "0 \<le> x" "x \<le> maximum (control_definitions i)"
  shows "tolerant handles_ok (\<lambda>v. write_and_verify v i x)"
proof (rule tolerantI)
  fix v assume P: "handles_ok v"
  let ?xs = "fill_values (controls v i) x"
  show "handles_ok (fst (write_and_verify v i x))" using P write_and_verify_frame(1) handles_ok_frame by blast
  have ok: "in_range v i ?xs" "length ?xs = ch_count (controls v i)"
    using fill_values_in_range [OF P assms] by (simp_all add: fill_values_def)
  obtain v1 w where w: "mixer_write_control v i ?xs = (v1, w)" by fastforce
  obtain v2 rb where r: "mixer_read_control v1 i = (v2, rb)" by fastforce
  have ctl: "controls v1 = controls v" "controls v2 = controls v"
    using mixer_write_frame(1) [of v i ?xs] mixer_read_frame(1) [of v1 i] w r by (simp_all add: mixer_frame_fields)
  note W = mixer_write_faults [OF ok, unfolded w, simplified] and R = read_faults [of v1 i, unfolded r, simplified]
  have good: "\<not> list_ex (\<lambda>y. y \<noteq> x) (take (ch_count (controls v2 i)) ys)" if "rb = Some ys" "regs v1 i = ?xs" for ys
    using R(3) [OF that(1)] that(2) ok(2) ctl by (simp add: reg_values_id all_equal_replicate fill_values_def)
  show "snd (write_and_verify v i x) \<and> calm (fst (write_and_verify v i x))" if "calm v"
    using W(1) [OF that] R(1) good w r by (simp add: write_and_verify_def)
  show "one_fault (fst (write_and_verify v i x)) \<and> (snd (write_and_verify v i x) \<or> calm (fst (write_and_verify v i x)))" if "one_fault v"
    using W(2) [OF that] R(1,2) good w r calm_one_fault
    by (cases w; cases rb) (auto simp: write_and_verify_def)
qed

lemma line_raw_bounds: "vp \<le> 100 \<Longrightarrow> 0 \<le> percent_to_line_raw vp \<and> percent_to_line_raw vp \<le> 31"
  by (auto simp: percent_to_line_raw_def Let_def)

lemma desired_in_range: "vp \<le> 100 \<Longrightarrow> 0 \<le> desired_value vp m i \<and> desired_value vp m i \<le> maximum (control_definitions i)"
  using line_raw_bounds [of vp] by (cases i) simp_all

lemma tolerant_apply_loop:
  assumes "\<And>i. 0 \<le> d i \<and> d i \<le> maximum (control_definitions i)"
  shows "tolerant handles_ok (apply_loop cs d)"
proof (induction cs)
  case Nil
  then show ?case by (simp add: tolerant_def)
next
  case (Cons i cs)
  have "apply_loop (i # cs) d = andthen (\<lambda>v. write_and_verify v i (d i)) (apply_loop cs d)"
    by (rule ext) (simp add: andthen_def)
  then show ?case using Cons tolerant_andthen [OF tolerant_write_and_verify] assms by simp
qed

lemma tolerant_apply_controls: "vp \<le> 100 \<Longrightarrow> tolerant handles_ok (apply_controls vp m)"
  unfolding apply_controls_def using desired_in_range by (intro tolerant_apply_loop) blast

lemma apply_controls_frame: "mixer_frame v (fst (apply_controls vp m v))"
  by (simp add: apply_controls_def apply_loop_frame)

definition card_values :: "vol \<Rightarrow> control_snapshot" where
  "card_values v = (\<lambda>i. reg_values (ch_count (controls v i)) (regs v i))"

lemma snapshot_loop_spec:
  "mixer_frame v (fst (snapshot_loop cs s v)) \<and> regs (fst (snapshot_loop cs s v)) = regs v \<and>
   (calm v \<longrightarrow> snd (snapshot_loop cs s v) \<noteq> None \<and> calm (fst (snapshot_loop cs s v))) \<and>
   (one_fault v \<longrightarrow> one_fault (fst (snapshot_loop cs s v))) \<and>
   (\<forall>t. snd (snapshot_loop cs s v) = Some t \<longrightarrow> t = (\<lambda>i. if i \<in> set cs then card_values v i else s i))"
proof (induction cs arbitrary: s v)
  case (Cons i cs)
  obtain v1 xs where r: "mixer_read_control v i = (v1, xs)" by fastforce
  note R = read_faults [of v i, unfolded r, simplified]
  have f: "mixer_frame v v1" "regs v1 = regs v" using mixer_read_frame [of v i] r by simp_all
  have same: "card_values v1 = card_values v" using f by (simp add: card_values_def mixer_frame_fields)
  show ?case
  proof (cases xs)
    case None
    then show ?thesis using r f R by auto
  next
    case (Some ys)
    then have ys: "ys = card_values v i" using R(3) by (simp add: card_values_def)
    have eq: "snapshot_loop (i # cs) s v = snapshot_loop cs (s(i := ys)) v1" using r Some by simp
    note IH = Cons.IH [of v1 "s(i := ys)"]
    show ?thesis unfolding eq
    proof (intro conjI allI impI)
      show "mixer_frame v (fst (snapshot_loop cs (s(i := ys)) v1))" using IH mixer_frame_trans [OF f(1)] by blast
      show "regs (fst (snapshot_loop cs (s(i := ys)) v1)) = regs v" using IH f(2) by metis
      show "snd (snapshot_loop cs (s(i := ys)) v1) \<noteq> None" "calm (fst (snapshot_loop cs (s(i := ys)) v1))" if "calm v"
        using that IH R(1) by blast+
      show "one_fault (fst (snapshot_loop cs (s(i := ys)) v1))" if "one_fault v" using that IH R(2) by blast
      show "t = (\<lambda>k. if k \<in> set (i # cs) then card_values v k else s k)" if "snd (snapshot_loop cs (s(i := ys)) v1) = Some t" for t
      proof -
        have "t = (\<lambda>k. if k \<in> set cs then card_values v1 k else (s(i := ys)) k)" using IH that by blast
        then show ?thesis by (auto simp: same ys)
      qed
    qed
  qed
qed simp

lemma snapshot_controls_spec:
  assumes "snapshot_controls v = (v', r)"
  shows "mixer_frame v v'" "regs v' = regs v" "one_fault v \<Longrightarrow> one_fault v'" "calm v \<Longrightarrow> calm v' \<and> r = Some (card_values v)"
    "r = Some t \<Longrightarrow> t = card_values v"
  using snapshot_loop_spec [of v all_controls "\<lambda>_. []"] assms by (auto simp: snapshot_controls_def orders)

lemma restore_loop_frame: "mixer_frame v (fst (restore_loop cs s v)) \<and> (\<forall>j. j \<notin> set cs \<longrightarrow> regs (fst (restore_loop cs s v)) j = regs v j)"
proof (induction cs arbitrary: v)
  case (Cons i cs)
  obtain v1 ok where w: "mixer_write_control v i (s i) = (v1, ok)" by fastforce
  obtain v2 rest where r: "restore_loop cs s v1 = (v2, rest)" by fastforce
  have "mixer_frame v v1" "\<And>j. j \<noteq> i \<Longrightarrow> regs v1 j = regs v j" using mixer_write_frame(1) [of v i "s i"] mixer_write_frame(2) [of _ i v "s i"] w by simp_all
  then show ?case using w r Cons.IH [of v1] mixer_frame_trans by simp
qed simp

lemma restore_loop_calm:
  "calm v \<Longrightarrow> distinct cs \<Longrightarrow> (\<And>i. in_range v i (s i) \<and> length (s i) = ch_count (controls v i)) \<Longrightarrow>
   snd (restore_loop cs s v) \<and> calm (fst (restore_loop cs s v)) \<and> (\<forall>i\<in>set cs. regs (fst (restore_loop cs s v)) i = s i)"
proof (induction cs arbitrary: v)
  case (Cons i cs)
  obtain v1 ok where w: "mixer_write_control v i (s i) = (v1, ok)" by fastforce
  obtain v2 rest where r: "restore_loop cs s v1 = (v2, rest)" by fastforce
  have W: "ok" "calm v1" "regs v1 i = s i"
    using mixer_write_faults(1) [of v i "s i"] Cons.prems(1,3) w by simp_all
  have ctl: "controls v1 = controls v" using mixer_write_frame(1) [of v i "s i"] w by (simp add: mixer_frame_fields)
  have "snd (restore_loop cs s v1) \<and> calm (fst (restore_loop cs s v1)) \<and> (\<forall>i\<in>set cs. regs (fst (restore_loop cs s v1)) i = s i)"
    using Cons.prems W ctl by (intro Cons.IH) (simp_all add: in_range_def)
  then show ?case using w r W restore_loop_frame [of v1 cs s] Cons.prems(2) by auto
qed simp

text \<open>The values on the card are ones that can be written back.\<close>

definition card_ok :: "vol \<Rightarrow> bool" where
  "card_ok v \<longleftrightarrow> (\<forall>i. in_range v i (card_values v i))"

lemma restore_controls_calm:
  assumes "calm v" "card_ok u" "controls v = controls u"
  shows "snd (restore_controls (card_values u) v) \<and> calm (fst (restore_controls (card_values u) v)) \<and>
    card_values (fst (restore_controls (card_values u) v)) = card_values u"
proof -
  let ?v = "fst (restore_loop (rev all_controls) (card_values u) v)"
  have "snd (restore_loop (rev all_controls) (card_values u) v) \<and> calm ?v \<and> (\<forall>i\<in>set (rev all_controls). regs ?v i = card_values u i)"
    using assms by (intro restore_loop_calm) (simp_all add: orders card_ok_def in_range_def card_values_def)
  moreover have "controls ?v = controls u" using restore_loop_frame [of v "rev all_controls" "card_values u"] assms(3) mixer_frame_fields(1) by auto
  ultimately have "snd (restore_loop (rev all_controls) (card_values u) v)" "calm ?v" "\<And>i. regs ?v i = card_values u i"
    "controls ?v = controls u" by (simp_all add: orders)
  moreover then have "card_values ?v i = card_values u i" for i
    unfolding card_values_def [of ?v] by (simp add: reg_values_id card_values_def)
  ultimately show ?thesis by (simp add: restore_controls_def fun_eq_iff)
qed

lemma restore_controls_frame: "mixer_frame v (fst (restore_controls s v))"
  using restore_loop_frame by (simp add: restore_controls_def)

end
