(* ===== verification/Scanf.thy ===== *)
theory Scanf
  imports Prelude
begin

text \<open>
  \<^verbatim>\<open>sscanf\<close> with the directives the program uses: literal text, white space that
  matches any amount of it, \<^verbatim>\<open>%d\<close>, \<^verbatim>\<open>%u\<close>, \<^verbatim>\<open>%zu\<close> or \<^verbatim>\<open>%llu\<close>, and \<^verbatim>\<open>%n\<close>. The result is
  the numbers converted, and the rest of the text if \<^verbatim>\<open>%n\<close> was reached.
\<close>

datatype directive = Literal string | Blank | Number | Unsigned32 | Unsigned64 | Consumed

fun sscanf :: "directive list \<Rightarrow> string \<Rightarrow> int list \<times> string option" where
  "sscanf [] t = ([], None)"
| "sscanf (Literal l # ds) t = (if take (length l) t = l then sscanf ds (drop (length l) t) else ([], None))"
| "sscanf (Blank # ds) t = sscanf ds (dropWhile isspace t)"
| "sscanf (Number # ds) t =
    (let u = dropWhile isspace t; (x, err, rest) = strtol u in
     if rest = u then ([], None) else (let (xs, r) = sscanf ds rest in (to_int32 x # xs, r)))"
| "sscanf (Unsigned32 # ds) t =
    (let u = dropWhile isspace t; (x, err, rest) = strtoul u in
     if rest = u then ([], None) else (let (xs, r) = sscanf ds rest in (int (x mod 2 ^ 32) # xs, r)))"
| "sscanf (Unsigned64 # ds) t =
    (let u = dropWhile isspace t; (x, err, rest) = strtoul u in
     if rest = u then ([], None) else (let (xs, r) = sscanf ds rest in (int x # xs, r)))"
| "sscanf (Consumed # ds) t = (let (xs, r) = sscanf ds t in (xs, Some (case r of None \<Rightarrow> t | Some u \<Rightarrow> u)))"

declare sscanf.simps(4-6) [simp del]

text \<open>Numbers that were printed are read back if no further digit follows them.\<close>

definition stops_number :: "string \<Rightarrow> bool" where
  "stops_number r \<longleftrightarrow> r = [] \<or> \<not> isdigit (hd r)"

lemma stops_number_simps [simp]: "stops_number (c # r) \<longleftrightarrow> \<not> isdigit c" "stops_number []"
  by (simp_all add: stops_number_def)

lemma print_nat_stops:
  assumes "stops_number r"
  shows "dropWhile isspace (print_nat n @ r) = print_nat n @ r" "split_sign (print_nat n @ r) = (False, print_nat n @ r)"
    "takeWhile isdigit (print_nat n @ r) = print_nat n" "dropWhile isdigit (print_nat n @ r) = r"
proof -
  obtain c cs where ds: "print_nat n = c # cs" "isdigit c" using print_nat_Cons by blast
  show "dropWhile isspace (print_nat n @ r) = print_nat n @ r" using ds isdigit_not_space by simp
  show "split_sign (print_nat n @ r) = (False, print_nat n @ r)" using ds isdigit_not_sign by (simp add: split_sign_def)
  have r: "takeWhile isdigit r = []" "dropWhile isdigit r = r" using assms by (cases r; simp)+
  show "takeWhile isdigit (print_nat n @ r) = print_nat n" "dropWhile isdigit (print_nat n @ r) = r"
    using print_nat_digits r by (subst takeWhile_append2 dropWhile_append2; auto)+
qed

lemma strtol_print_int_stops:
  "stops_number r \<Longrightarrow> 0 \<le> i \<Longrightarrow> i < 2 ^ 63 \<Longrightarrow> strtol (print_int i @ r) = (i, False, r)"
  by (simp add: strtol_def print_int_def print_nat_stops)

lemma strtoul_print_nat_stops: "stops_number r \<Longrightarrow> n < 2 ^ 64 \<Longrightarrow> strtoul (print_nat n @ r) = (n, False, r)"
  by (simp add: strtoul_def print_nat_stops)

lemma sscanf_number:
  "stops_number r \<Longrightarrow> 0 \<le> i \<Longrightarrow> i < 2 ^ 31 \<Longrightarrow> sscanf (Number # ds) (print_int i @ r) = (let (xs, rest) = sscanf ds r in (i # xs, rest))"
proof -
  assume r: "stops_number r" and i: "0 \<le> i" "i < 2 ^ 31"
  have p: "print_int i = print_nat (nat i)" using i by (simp add: print_int_def)
  have "strtol (print_nat (nat i) @ r) = (i, False, r)" using strtol_print_int_stops [OF r i(1)] i(2) p by simp
  then show ?thesis using r i by (simp add: sscanf.simps(4) p print_nat_stops is_int32_def Let_def)
qed

lemma sscanf_unsigned:
  "stops_number r \<Longrightarrow> n < 2 ^ 64 \<Longrightarrow> sscanf (Unsigned64 # ds) (print_nat n @ r) = (let (xs, rest) = sscanf ds r in (int n # xs, rest))"
  "stops_number r \<Longrightarrow> n < 2 ^ 32 \<Longrightarrow> sscanf (Unsigned32 # ds) (print_nat n @ r) = (let (xs, rest) = sscanf ds r in (int n # xs, rest))"
  by (simp_all add: sscanf.simps(5,6) strtoul_print_nat_stops print_nat_stops(1) split: prod.splits)

end
