(* ===== verification/Volume_State.thy ===== *)
theory Volume_State
  imports Volume_Mixer Lines Scanf
begin

text \<open>
  The transactions of the volume daemon: the durable state file, the runtime
  marker, and the commit that brings card, file and marker to a new volume
  together or takes all of them back.
\<close>

section \<open>The state file\<close>

definition PERSISTENT_STATE_NAME :: string where "PERSISTENT_STATE_NAME = ''volume.v1''"
definition MARKER_NAME :: string where "MARKER_NAME = ''alsa-volume''"
definition DEFAULT_VOLUME_PERCENT :: int where "DEFAULT_VOLUME_PERCENT = 60"

definition state_format :: "directive list" where
  "state_format = [Literal ''RG40XXV_VOLUME_V1'', Blank, Literal ''volume_percent='', Number, Blank, Literal ''muted='', Number,
     Blank, Literal ''last_nonzero='', Number, Blank, Consumed]"

definition volume_text :: "int \<Rightarrow> int \<Rightarrow> int \<Rightarrow> string" where
  "volume_text vp m l = ''RG40XXV_VOLUME_V1'' @ [LF] @ ''volume_percent='' @ print_int vp @ [LF] @ ''muted='' @ print_int m @ [LF] @
     ''last_nonzero='' @ print_int l @ [LF]"

definition parse_persistent_state :: "string \<Rightarrow> (int \<times> int \<times> int) option" where
  "parse_persistent_state contents =
    (let n = length contents in
     if n = 0 \<or> 128 \<le> n then None
     else case sscanf state_format (cstr contents) of
         ([vp, m, l], Some rest) \<Rightarrow>
           if length (cstr contents) - length rest \<noteq> n \<or> vp < 0 \<or> 100 < vp \<or> (m \<noteq> 0 \<and> m \<noteq> 1) \<or> l < 1 \<or> 100 < l \<or>
             (vp = 0 \<and> m \<noteq> 1) \<or> (0 < vp \<and> l \<noteq> vp) then None
           else if length (snprintf_s 128 (volume_text vp m l)) \<noteq> n \<or> snprintf_s 128 (volume_text vp m l) \<noteq> contents then None
           else Some (vp, m, l)
       | _ \<Rightarrow> None)"

section \<open>Directories\<close>

datatype place = Persistent | Ui

fun dir_of :: "place \<Rightarrow> vol \<Rightarrow> string \<Rightarrow> vol_file option" where
  "dir_of Persistent v = persistent_dir v"
| "dir_of Ui v = ui_dir v"

fun set_dir :: "place \<Rightarrow> (string \<Rightarrow> vol_file option) \<Rightarrow> vol \<Rightarrow> vol" where
  "set_dir Persistent d v = v\<lparr>persistent_dir := d\<rparr>"
| "set_dir Ui d v = v\<lparr>ui_dir := d\<rparr>"

fun sequence_of :: "place \<Rightarrow> vol \<Rightarrow> u32" where
  "sequence_of Persistent v = persistent_sequence v"
| "sequence_of Ui v = marker_sequence v"

fun bump :: "place \<Rightarrow> vol \<Rightarrow> vol" where
  "bump Persistent v = v\<lparr>persistent_sequence := persistent_sequence v + 1\<rparr>"
| "bump Ui v = v\<lparr>marker_sequence := marker_sequence v + 1\<rparr>"

fun temporary_prefix :: "place \<Rightarrow> string" where
  "temporary_prefix Persistent = ''.volume.v1.''"
| "temporary_prefix Ui = ''.alsa-volume.''"

fun create_mode :: "place \<Rightarrow> nat" where
  "create_mode Persistent = 6 * 64"
| "create_mode Ui = 6 * 64 + 4 * 8 + 4"

definition temporary_file :: "place \<Rightarrow> vol \<Rightarrow> nat \<Rightarrow> string" where
  "temporary_file w v attempt = snprintf_s 64 (temporary_prefix w @ print_int (pid v) @ ''.'' @ print_nat (unat (sequence_of w v)) @ ''.'' @
     print_nat attempt)"

text \<open>The loop of at most 16 attempts; the argument counts the ones left.\<close>

fun open_exclusive :: "place \<Rightarrow> nat \<Rightarrow> vol \<Rightarrow> vol \<times> string option" where
  "open_exclusive w 0 v = (v, None)"
| "open_exclusive w (Suc n) v =
    (let name = temporary_file w v (15 - n); v1 = bump w v in
     case next_outcome v1 of
       (Fail e, v2) \<Rightarrow> if e \<noteq> EEXIST then (v2\<lparr>errno := e\<rparr>, None) else open_exclusive w n (v2\<lparr>errno := e\<rparr>)
     | (_, v2) \<Rightarrow>
       if dir_of w v2 name \<noteq> None then open_exclusive w n (v2\<lparr>errno := EEXIST\<rparr>)
       else (set_dir w ((dir_of w v2)(name \<mapsto> \<lparr>vf_data = [], vf_regular = True, vf_uid = euid v2, vf_mode = create_mode w\<rparr>)) v2, Some name))"

text \<open>Changing the open file, which is still linked under its name.\<close>

definition change_file :: "place \<Rightarrow> string \<Rightarrow> (vol_file \<Rightarrow> vol_file) \<Rightarrow> vol \<Rightarrow> vol" where
  "change_file w name f v = set_dir w ((dir_of w v)(name := map_option f (dir_of w v name))) v"

definition fchmod_file :: "place \<Rightarrow> string \<Rightarrow> vol \<Rightarrow> vol \<times> bool" where
  "fchmod_file w name v =
    (case sys_call v of (v1, ok) \<Rightarrow> (if ok then change_file w name (\<lambda>f. f\<lparr>vf_mode := create_mode w\<rparr>) v1 else v1, ok))"

definition fstat_file :: "place \<Rightarrow> string \<Rightarrow> vol \<Rightarrow> vol \<times> bool" where
  "fstat_file w name v =
    (case sys_call v of (v1, ok) \<Rightarrow>
       (v1, ok \<and> (case dir_of w v1 name of None \<Rightarrow> False | Some f \<Rightarrow> vf_regular f \<and> vf_uid f = euid v1)))"

lemma next_outcome_shorter: "next_outcome v = (x, v') \<Longrightarrow> x \<noteq> Done \<Longrightarrow> length (script v') < length (script v)"
  by (auto simp: next_outcome_def split: list.splits)

function write_file :: "place \<Rightarrow> string \<Rightarrow> string \<Rightarrow> vol \<Rightarrow> vol \<times> bool" where
  "write_file w name left v =
    (if left = [] then (v, True)
     else case next_outcome v of
         (Fail e, v1) \<Rightarrow> if e = EINTR then write_file w name left (v1\<lparr>errno := e\<rparr>) else (v1\<lparr>errno := e\<rparr>, False)
       | (Moved n, v1) \<Rightarrow>
         if n = 0 then (v1, False)
         else write_file w name (drop n left) (change_file w name (\<lambda>f. f\<lparr>vf_data := vf_data f @ take n left\<rparr>) v1)
       | (_, v1) \<Rightarrow> (change_file w name (\<lambda>f. f\<lparr>vf_data := vf_data f @ left\<rparr>) v1, True))"
  by pat_completeness auto
termination
proof (relation "measure (\<lambda>(w, name, left, v). length (script v))")
  fix w name left v x v1 n
  assume "(x, v1) = next_outcome v" "x = Moved n"
  then have "length (script v1) < length (script v)" using next_outcome_shorter [of v x v1] by simp
  moreover have "script (change_file w name g v1) = script v1" for g by (cases w) (simp_all add: change_file_def)
  ultimately show "((w, name, drop n left, change_file w name (\<lambda>f. f\<lparr>vf_data := vf_data f @ take n left\<rparr>) v1), w, name, left, v)
      \<in> measure (\<lambda>(w, name, left, v). length (script v))" by simp
qed (auto dest: next_outcome_shorter [OF sym])

declare write_file.simps [simp del]

definition unlink_file :: "place \<Rightarrow> string \<Rightarrow> vol \<Rightarrow> vol \<times> bool" where
  "unlink_file w name v =
    (case sys_call v of (v1, ok) \<Rightarrow>
       if \<not> ok then (v1, False)
       else if dir_of w v1 name = None then (v1\<lparr>errno := ENOENT\<rparr>, False)
       else (set_dir w ((dir_of w v1)(name := None)) v1, True))"

definition rename_file :: "place \<Rightarrow> string \<Rightarrow> string \<Rightarrow> vol \<Rightarrow> vol \<times> bool" where
  "rename_file w name target v =
    (case sys_call v of (v1, ok) \<Rightarrow>
       (if ok then set_dir w ((dir_of w v1)(target := dir_of w v1 name, name := None)) v1 else v1, ok))"

text \<open>Both failure paths close the file, remove it and keep the error.\<close>

definition discard_open :: "place \<Rightarrow> string \<Rightarrow> vol \<Rightarrow> vol" where
  "discard_open w name v = (fst (unlink_file w name (fst (sys_call v))))\<lparr>errno := errno v\<rparr>"

definition discard :: "place \<Rightarrow> string \<Rightarrow> vol \<Rightarrow> vol" where
  "discard w name v = (fst (unlink_file w name v))\<lparr>errno := errno v\<rparr>"

definition persist_state :: "int \<Rightarrow> int \<Rightarrow> int \<Rightarrow> vol \<Rightarrow> vol \<times> bool" where
  "persist_state vp m l v =
    (let contents = volume_text vp m l in
     if 128 \<le> length contents then (v\<lparr>errno := EOVERFLOW\<rparr>, False)
     else case open_exclusive Persistent 16 v of
         (v1, None) \<Rightarrow> (v1, False)
       | (v1, Some name) \<Rightarrow>
         (case andthen (fstat_file Persistent name) (andthen (fchmod_file Persistent name)
             (andthen (write_file Persistent name contents) sys_call)) v1 of
            (v2, False) \<Rightarrow> (discard_open Persistent name v2, False)
          | (v2, True) \<Rightarrow> (case sys_call v2 of
              (v3, False) \<Rightarrow> (discard Persistent name v3, False)
            | (v3, True) \<Rightarrow> (case rename_file Persistent name PERSISTENT_STATE_NAME v3 of
                (v4, False) \<Rightarrow> (discard Persistent name v4, False)
              | (v4, True) \<Rightarrow> sys_call v4))))"

definition marker_text :: "int \<Rightarrow> int \<Rightarrow> string" where
  "marker_text vp m = ''volume_percent='' @ print_int vp @ [LF] @ ''muted='' @ print_int m @ [LF]"

definition publish_state :: "int \<Rightarrow> int \<Rightarrow> vol \<Rightarrow> vol \<times> bool" where
  "publish_state vp m v =
    (let contents = marker_text vp m in
     if 64 \<le> length contents then (v\<lparr>errno := EOVERFLOW\<rparr>, False)
     else case open_exclusive Ui 16 v of
         (v1, None) \<Rightarrow> (v1, False)
       | (v1, Some name) \<Rightarrow>
         (case andthen (fchmod_file Ui name) (andthen (write_file Ui name contents) (andthen sys_call sys_call)) v1 of
            (v2, False) \<Rightarrow> (discard_open Ui name v2, False)
          | (v2, True) \<Rightarrow> (case andthen (rename_file Ui name MARKER_NAME) sys_call v2 of
              (v3, False) \<Rightarrow> (discard Ui name v3, False)
            | (v3, True) \<Rightarrow> (v3, True))))"

section \<open>The transaction\<close>

definition next_last :: "int \<Rightarrow> vol \<Rightarrow> int" where
  "next_last vp v = (let l = (if 0 < vp then vp else last_nonzero v) in if l < 1 \<or> 100 < l then DEFAULT_VOLUME_PERCENT else l)"

definition undo_marker :: "vol \<Rightarrow> vol \<Rightarrow> vol" where
  "undo_marker old v =
    (if initialized old then fst (publish_state (volume_percent old) (muted old) v)
     else fst (sys_call (fst (unlink_file Ui MARKER_NAME v))))"

definition undo_file :: "vol \<Rightarrow> vol \<Rightarrow> vol" where
  "undo_file old v =
    (if initialized old then fst (persist_state (volume_percent old) (muted old) (last_nonzero old) v)
     else case unlink_file Persistent PERSISTENT_STATE_NAME v of
         (v1, ok) \<Rightarrow> if \<not> ok \<and> errno v1 \<noteq> ENOENT then v1 else fst (sys_call v1))"

definition rollback :: "vol \<Rightarrow> control_snapshot \<Rightarrow> bool \<Rightarrow> bool \<Rightarrow> vol \<Rightarrow> vol" where
  "rollback old s marker_published persistence_attempted v =
    (let v1 = fst (restore_controls s v);
         v2 = (if marker_published then undo_marker old v1 else v1);
         v3 = (if persistence_attempted then undo_file old v2 else v2) in
     v3\<lparr>errno := errno v\<rparr>)"

definition commit_state :: "int \<Rightarrow> int \<Rightarrow> vol \<Rightarrow> vol \<times> bool" where
  "commit_state vp m0 v =
    (if vp < 0 \<or> 100 < vp \<or> (m0 \<noteq> 0 \<and> m0 \<noteq> 1) then (v\<lparr>errno := EINVAL\<rparr>, False)
     else
       let m = (if vp = 0 then 1 else m0); l = next_last vp v in
       case snapshot_controls v of
         (v1, None) \<Rightarrow> (v1, False)
       | (v1, Some s) \<Rightarrow> (case apply_controls vp m v1 of
           (v2, False) \<Rightarrow> (rollback v s False False v2, False)
         | (v2, True) \<Rightarrow> (case persist_state vp m l v2 of
             (v3, False) \<Rightarrow> (rollback v s False True v3, False)
           | (v3, True) \<Rightarrow> (case publish_state vp m v3 of
               (v4, False) \<Rightarrow> (rollback v s True True v4, False)
             | (v4, True) \<Rightarrow> (v4\<lparr>volume_percent := vp, muted := m, last_nonzero := l, initialized := True\<rparr>, True)))))"

section \<open>Loading and commands\<close>

datatype persistent_load_result = PERSISTENT_LOAD_VALID int int int | PERSISTENT_LOAD_MISSING | PERSISTENT_LOAD_INVALID

text \<open>The reading loop; an error other than an interruption, or an early end, gives up.\<close>

function read_file :: "string \<Rightarrow> nat \<Rightarrow> vol \<Rightarrow> vol \<times> string option" where
  "read_file bs wanted v =
    (if wanted = 0 then (v, Some [])
     else case next_outcome v of
         (Fail e, v1) \<Rightarrow> if e = EINTR then read_file bs wanted (v1\<lparr>errno := e\<rparr>) else (v1\<lparr>errno := EIO\<rparr>, None)
       | (Moved n, v1) \<Rightarrow>
         (let got = min n (min wanted (length bs)) in
          if got = 0 then (v1\<lparr>errno := EIO\<rparr>, None)
          else (case read_file (drop got bs) (wanted - got) v1 of
              (v2, None) \<Rightarrow> (v2, None) | (v2, Some rest) \<Rightarrow> (v2, Some (take got bs @ rest))))
       | (_, v1) \<Rightarrow>
         (let got = min wanted (length bs) in
          if got = 0 then (v1\<lparr>errno := EIO\<rparr>, None)
          else (case read_file (drop got bs) (wanted - got) v1 of
              (v2, None) \<Rightarrow> (v2, None) | (v2, Some rest) \<Rightarrow> (v2, Some (take got bs @ rest)))))"
  by pat_completeness auto
termination
proof (relation "measure (\<lambda>(bs, wanted, v). length (script v) + wanted)")
  have keep: "length (script v1) \<le> length (script v)" if "(x, v1) = next_outcome v" for x v v1
    using that by (auto simp: next_outcome_def split: list.splits)
  show "((drop got bs, wanted - got, v1), bs, wanted, v) \<in> measure (\<lambda>(bs, wanted, v). length (script v) + wanted)"
    if "wanted \<noteq> 0" "(x, v1) = next_outcome v" "got \<noteq> 0" for bs wanted v x v1 got
    using that keep [OF that(2)] by simp
qed (auto dest: next_outcome_shorter [OF sym])

declare read_file.simps [simp del]

definition load_persistent_state :: "vol \<Rightarrow> vol \<times> persistent_load_result" where
  "load_persistent_state v =
    (case sys_call v of
       (v1, False) \<Rightarrow> (v1, if errno v1 = ENOENT then PERSISTENT_LOAD_MISSING else PERSISTENT_LOAD_INVALID)
     | (v1, True) \<Rightarrow> (case persistent_dir v1 PERSISTENT_STATE_NAME of
         None \<Rightarrow> (v1\<lparr>errno := ENOENT\<rparr>, PERSISTENT_LOAD_MISSING)
       | Some f \<Rightarrow> (case sys_call v1 of (v2, ok) \<Rightarrow>
           if \<not> ok \<or> \<not> vf_regular f \<or> vf_uid f \<noteq> euid v2 \<or> vf_mode f \<noteq> 6 * 64 \<or> length (vf_data f) \<le> 0 \<or> 128 \<le> length (vf_data f)
           then ((fst (sys_call v2))\<lparr>errno := EINVAL\<rparr>, PERSISTENT_LOAD_INVALID)
           else (case read_file (vf_data f) (length (vf_data f)) v2 of
               (v3, None) \<Rightarrow> ((fst (sys_call v3))\<lparr>errno := EIO\<rparr>, PERSISTENT_LOAD_INVALID)
             | (v3, Some contents) \<Rightarrow> (case sys_call v3 of
                 (v4, False) \<Rightarrow> (v4, PERSISTENT_LOAD_INVALID)
               | (v4, True) \<Rightarrow> (case parse_persistent_state contents of
                   None \<Rightarrow> (v4\<lparr>errno := EINVAL\<rparr>, PERSISTENT_LOAD_INVALID)
                 | Some (vp, m, l) \<Rightarrow> (v4, PERSISTENT_LOAD_VALID vp m l)))))))"

definition initialize_audio_state :: "vol \<Rightarrow> vol \<times> bool" where
  "initialize_audio_state v =
    (case load_persistent_state v of
       (v1, PERSISTENT_LOAD_VALID vp m l) \<Rightarrow> commit_state vp m (v1\<lparr>last_nonzero := l\<rparr>)
     | (v1, _) \<Rightarrow> commit_state DEFAULT_VOLUME_PERCENT 0 (v1\<lparr>last_nonzero := DEFAULT_VOLUME_PERCENT\<rparr>))"

text \<open>The loop over the digits stops as soon as the number exceeds 100, so it never wraps.\<close>

fun set_digits :: "string \<Rightarrow> u32 \<Rightarrow> u32 option" where
  "set_digits [] x = Some x"
| "set_digits (c # cs) x =
    (if byte c < 48 \<or> 57 < byte c then None
     else let y = x * 10 + of_nat (byte c - 48) in if 100 < y then None else set_digits cs y)"

definition parse_set_request :: "string \<Rightarrow> int option" where
  "parse_set_request request =
    (if take 4 request \<noteq> ''set '' \<or> drop 4 request = [] then None else map_option uint (set_digits (drop 4 request) 0))"

definition process_command :: "vol \<Rightarrow> string \<Rightarrow> vol \<times> bool" where
  "process_command v request =
    (let vp = volume_percent v; m = muted v in
     if request = ''get'' then (v, True)
     else if request = ''up'' then
       (let vp1 = (if 95 < vp then 100 else vp + 5) in commit_state vp1 (if vp1 = 0 then 1 else 0) v)
     else if request = ''down'' then
       (let vp1 = (if vp < 5 then 0 else vp - 5) in commit_state vp1 (if vp1 = 0 then 1 else 0) v)
     else if request = ''mute-toggle'' then
       (if m \<noteq> 0 then commit_state (if vp = 0 then last_nonzero v else vp) 0 v else commit_state vp 1 v)
     else case parse_set_request request of
         Some vp1 \<Rightarrow> commit_state vp1 (if vp1 = 0 then 1 else 0) v
       | None \<Rightarrow> (v\<lparr>errno := EINVAL\<rparr>, False))"

section \<open>The state file is read back exactly\<close>

definition state_ok :: "int \<Rightarrow> int \<Rightarrow> int \<Rightarrow> bool" where
  "state_ok vp m l \<longleftrightarrow> 0 \<le> vp \<and> vp \<le> 100 \<and> (m = 0 \<or> m = 1) \<and> 1 \<le> l \<and> l \<le> 100 \<and> (vp = 0 \<longrightarrow> m = 1) \<and> (0 < vp \<longrightarrow> l = vp)"

lemma sscanf_volume_text:
  assumes "state_ok vp m l"
  shows "sscanf state_format (volume_text vp m l) = ([vp, m, l], Some [])"
proof -
  have sp: "isspace LF" "\<not> isspace (CHR ''v'')" "\<not> isspace (CHR ''m'')" "\<not> isspace (CHR ''l'')" by (simp_all add: isspace_def)
  have b: "0 \<le> vp" "vp \<le> 100" "0 \<le> m" "m \<le> 100" "0 \<le> l" "l \<le> 100" using assms by (auto simp: state_ok_def)
  show ?thesis
    unfolding state_format_def volume_text_def
    using b by (simp add: sscanf_number sp isdigit_def del: print_nat.simps)
qed

lemma volume_text_length: "state_ok vp m l \<Longrightarrow> length (volume_text vp m l) < 128"
proof -
  assume ok: "state_ok vp m l"
  have "length (print_int i) \<le> 3" if "0 \<le> i" "i \<le> 100" for i
    using that length_print_nat [of "nat i" 2] by (simp add: print_int_def)
  then have "length (print_int vp) \<le> 3" "length (print_int m) \<le> 3" "length (print_int l) \<le> 3"
    using ok by (auto simp: state_ok_def)
  then show ?thesis by (simp add: volume_text_def)
qed

lemma volume_text_no_nul: "NUL \<notin> set (volume_text vp m l)"
  using print_int_clean [of NUL] by (auto simp: volume_text_def)

lemma parse_volume_text:
  "parse_persistent_state t = Some (vp, m, l) \<longleftrightarrow> state_ok vp m l \<and> t = volume_text vp m l"
proof
  assume ok: "state_ok vp m l \<and> t = volume_text vp m l"
  have "t \<noteq> []" using ok by (simp add: volume_text_def)
  then show "parse_persistent_state t = Some (vp, m, l)"
    using ok volume_text_length [of vp m l] volume_text_no_nul [of vp m l]
    by (auto simp: parse_persistent_state_def sscanf_volume_text snprintf_s_def Let_def state_ok_def)
next
  assume parse: "parse_persistent_state t = Some (vp, m, l)"
  obtain xs r where scan: "sscanf state_format (cstr t) = (xs, r)" by fastforce
  show "state_ok vp m l \<and> t = volume_text vp m l"
  proof -
    obtain rest where xs: "xs = [vp, m, l]" "r = Some rest" "t = snprintf_s 128 (volume_text vp m l)" and ok: "state_ok vp m l"
      using parse scan by (auto simp: parse_persistent_state_def Let_def state_ok_def split: list.splits option.splits if_splits)
    then show ?thesis using volume_text_length [OF ok] by (simp add: snprintf_s_def)
  qed
qed

text \<open>
  C34: The state file is read strictly. A text is accepted exactly if it is the
  text written for a valid state, and then that state is the result; nothing
  else, not even another spelling of the same numbers, is accepted.
\<close>

theorem volume_file_exact:
  "parse_persistent_state t = Some (vp, m, l) \<longleftrightarrow> state_ok vp m l \<and> t = volume_text vp m l"
  by (rule parse_volume_text)

section \<open>Replacing a file under faults\<close>

definition file_frame :: "place \<Rightarrow> vol \<Rightarrow> vol \<Rightarrow> bool" where
  "file_frame w v v' \<longleftrightarrow> regs v' = regs v \<and> controls v' = controls v \<and> volume_percent v' = volume_percent v \<and> muted v' = muted v \<and>
     last_nonzero v' = last_nonzero v \<and> initialized v' = initialized v \<and> pid v' = pid v \<and> euid v' = euid v \<and>
     (\<forall>u. u \<noteq> w \<longrightarrow> dir_of u v' = dir_of u v)"

lemma dir_set_dir [simp]: "dir_of w (set_dir u d v) = (if u = w then d else dir_of w v)"
  by (cases w; cases u) simp_all

lemma dir_updates [simp]:
  "dir_of w (v\<lparr>errno := e\<rparr>) = dir_of w v" "dir_of w (v\<lparr>script := s\<rparr>) = dir_of w v" "dir_of w (v\<lparr>regs := r\<rparr>) = dir_of w v"
  "dir_of w (bump u v) = dir_of w v"
  by (cases w; cases u; simp)+

lemma set_dir_fields [simp]:
  "regs (set_dir w d v) = regs v" "controls (set_dir w d v) = controls v" "volume_percent (set_dir w d v) = volume_percent v"
  "muted (set_dir w d v) = muted v" "last_nonzero (set_dir w d v) = last_nonzero v" "initialized (set_dir w d v) = initialized v"
  "pid (set_dir w d v) = pid v" "euid (set_dir w d v) = euid v" "script (set_dir w d v) = script v" "errno (set_dir w d v) = errno v"
  by (cases w; simp)+

lemma bump_fields [simp]:
  "regs (bump w v) = regs v" "controls (bump w v) = controls v" "volume_percent (bump w v) = volume_percent v"
  "muted (bump w v) = muted v" "last_nonzero (bump w v) = last_nonzero v" "initialized (bump w v) = initialized v"
  "pid (bump w v) = pid v" "euid (bump w v) = euid v" "script (bump w v) = script v"
  by (cases w; simp)+

lemma file_frame_refl [simp]: "file_frame w v v"
  by (simp add: file_frame_def)

lemma file_frame_trans: "file_frame w u v \<Longrightarrow> file_frame w v v' \<Longrightarrow> file_frame w u v'"
  by (simp add: file_frame_def)

lemma file_frame_updates [simp]:
  "file_frame w v (v'\<lparr>errno := e\<rparr>) = file_frame w v v'" "file_frame w v (v'\<lparr>script := s\<rparr>) = file_frame w v v'"
  "file_frame w v (set_dir w d v') = file_frame w v v'" "file_frame w v (bump w v') = file_frame w v v'"
  by (auto simp: file_frame_def)

lemma calm_set_dir [simp]:
  "calm (set_dir w d v) = calm v" "one_fault (set_dir w d v) = one_fault v" "calm (bump w v) = calm v" "one_fault (bump w v) = one_fault v"
  by (simp_all add: calm_def one_fault_def)

lemma next_outcome_file:
  assumes "next_outcome v = (x, v')"
  shows "file_frame w v v'" "dir_of w v' = dir_of w v" "euid v' = euid v"
proof -
  obtain ss where "v' = v\<lparr>script := ss\<rparr>" using next_outcome_cases(1) [OF assms] by blast
  then show "file_frame w v v'" "dir_of w v' = dir_of w v" "euid v' = euid v" by simp_all
qed

lemma sys_call_file:
  "file_frame w v (fst (sys_call v))" "dir_of w (fst (sys_call v)) = dir_of w v" "euid (fst (sys_call v)) = euid v"
proof -
  obtain x v1 where n: "next_outcome v = (x, v1)" by fastforce
  show "file_frame w v (fst (sys_call v))" "dir_of w (fst (sys_call v)) = dir_of w v" "euid (fst (sys_call v)) = euid v"
    using next_outcome_file [OF n] n by (cases x; simp add: sys_call_def)+
qed

text \<open>No temporary file is left over.\<close>

definition no_temporaries :: "place \<Rightarrow> vol \<Rightarrow> bool" where
  "no_temporaries w v \<longleftrightarrow> (\<forall>name. take (length (temporary_prefix w)) name = temporary_prefix w \<longrightarrow> dir_of w v name = None)"

lemma temporary_file_prefix: "take (length (temporary_prefix w)) (temporary_file w v n) = temporary_prefix w"
  by (cases w) (simp_all add: temporary_file_def snprintf_s_def)

definition fresh_file :: "place \<Rightarrow> vol \<Rightarrow> vol_file" where
  "fresh_file w v = \<lparr>vf_data = [], vf_regular = True, vf_uid = euid v, vf_mode = create_mode w\<rparr>"

lemma open_exclusive_effect:
  "open_exclusive w n v = (v1, r) \<Longrightarrow>
   file_frame w v v1 \<and> (case r of None \<Rightarrow> dir_of w v1 = dir_of w v
     | Some name \<Rightarrow> dir_of w v name = None \<and> dir_of w v1 = (dir_of w v)(name \<mapsto> fresh_file w v) \<and>
         take (length (temporary_prefix w)) name = temporary_prefix w)"
proof (induction n arbitrary: v)
  case (Suc n)
  let ?name = "temporary_file w v (15 - n)"
  obtain x v2 where x: "next_outcome (bump w v) = (x, v2)" by fastforce
  have f: "file_frame w v v2" "dir_of w v2 = dir_of w v" "euid v2 = euid v"
    using next_outcome_file [OF x] file_frame_trans [of w v "bump w v" v2] by simp_all
  have again: ?case if "open_exclusive w n (v2\<lparr>errno := e\<rparr>) = (v1, r)" for e
    using Suc.IH [OF that] f file_frame_trans [of w v "v2\<lparr>errno := e\<rparr>" v1]
    by (auto simp: fresh_file_def split: option.splits)
  show ?case
  proof (cases "\<exists>e. x = Fail e")
    case True
    then show ?thesis using Suc.prems x f again by (auto simp: Let_def split: if_splits)
  next
    case False
    then have "open_exclusive w (Suc n) v = (if dir_of w v2 ?name \<noteq> None then open_exclusive w n (v2\<lparr>errno := EEXIST\<rparr>)
        else (set_dir w ((dir_of w v2)(?name \<mapsto> fresh_file w v2)) v2, Some ?name))"
      using x by (cases x) (simp_all add: Let_def fresh_file_def)
    then show ?thesis using Suc.prems f again temporary_file_prefix [of w v]
      by (auto simp: fresh_file_def split: if_splits)
  qed
qed simp

lemma open_exclusive_faults:
  assumes "no_temporaries w v"
  shows "calm v \<Longrightarrow> snd (open_exclusive w (Suc n) v) \<noteq> None \<and> calm (fst (open_exclusive w (Suc n) v))"
    and "one_fault v \<Longrightarrow> one_fault (fst (open_exclusive w (Suc (Suc n)) v)) \<and>
      (snd (open_exclusive w (Suc (Suc n)) v) \<noteq> None \<or> calm (fst (open_exclusive w (Suc (Suc n)) v)))"
proof -
  have opened: "open_exclusive w (Suc k) u = (set_dir w ((dir_of w u2)(temporary_file w u (15 - k) \<mapsto> fresh_file w u2)) u2,
      Some (temporary_file w u (15 - k)))"
    if "no_temporaries w u" "next_outcome (bump w u) = (x, u2)" "\<nexists>e. x = Fail e" for u u2 x k
  proof -
    have "dir_of w u2 (temporary_file w u (15 - k)) = None"
      using that(1) next_outcome_file(2) [OF that(2), of w] temporary_file_prefix [of w u "15 - k"] by (simp add: no_temporaries_def)
    then show ?thesis using that by (cases x) (simp_all add: Let_def fresh_file_def)
  qed
  have calm: "snd (open_exclusive w (Suc k) u) \<noteq> None \<and> calm (fst (open_exclusive w (Suc k) u))" if "no_temporaries w u" "calm u" for u k
  proof -
    obtain x u2 where x: "next_outcome (bump w u) = (x, u2)" by fastforce
    then have "x = Done" "calm u2" using next_outcome_cases(2) [OF x] that(2) by simp_all
    then show ?thesis using opened [OF that(1) x, of k] by (simp del: open_exclusive.simps)
  qed
  show "calm v \<Longrightarrow> snd (open_exclusive w (Suc n) v) \<noteq> None \<and> calm (fst (open_exclusive w (Suc n) v))" by (rule calm [OF assms])
  assume one: "one_fault v"
  obtain x v2 where x: "next_outcome (bump w v) = (x, v2)" by fastforce
  have c: "one_fault v2" "x = Done \<or> calm v2" using next_outcome_cases(3) [OF x] one by simp_all
  show "one_fault (fst (open_exclusive w (Suc (Suc n)) v)) \<and>
      (snd (open_exclusive w (Suc (Suc n)) v) \<noteq> None \<or> calm (fst (open_exclusive w (Suc (Suc n)) v)))"
  proof (cases "\<exists>e. x = Fail e")
    case True
    then obtain e where e: "x = Fail e" by blast
    then have v2: "calm v2" using c by simp
    have "no_temporaries w (v2\<lparr>errno := e\<rparr>)" using assms next_outcome_file(2) [OF x, of w] by (simp add: no_temporaries_def)
    then show ?thesis using calm [of "v2\<lparr>errno := e\<rparr>" n] v2 x e calm_one_fault by (auto simp: Let_def)
  next
    case False
    then show ?thesis using opened [OF assms x, of "Suc n"] c by (simp del: open_exclusive.simps)
  qed
qed

text \<open>The temporary file is open, and the rest of the directory is \<open>d\<close>.\<close>

definition open_file :: "place \<Rightarrow> string \<Rightarrow> (string \<Rightarrow> vol_file option) \<Rightarrow> vol \<Rightarrow> bool" where
  "open_file w name d v \<longleftrightarrow> (\<exists>f. dir_of w v = d(name \<mapsto> f) \<and> vf_regular f \<and> vf_uid f = euid v)"

lemma mixer_frame_dir: "mixer_frame v v' \<Longrightarrow> dir_of w v' = dir_of w v"
  by (cases w) (simp_all add: mixer_frame_fields)

lemma tolerant_sys_call_open: "tolerant (open_file w name d) sys_call"
  by (rule tolerant_sys_call) (simp add: open_file_def mixer_frame_dir mixer_frame_fields)

lemma change_file_open: "dir_of w v = d(name \<mapsto> f) \<Longrightarrow> dir_of w (change_file w name g v) = d(name \<mapsto> g f)"
  by (simp add: change_file_def)

lemma change_file_fields [simp]:
  "file_frame w v (change_file w name g v') = file_frame w v v'" "euid (change_file w name g v') = euid v'"
  "calm (change_file w name g v') = calm v'" "one_fault (change_file w name g v') = one_fault v'"
  by (simp_all add: change_file_def)

lemma fchmod_file_effect:
  "file_frame w v (fst (fchmod_file w name v))"
  "dir_of w v = d(name \<mapsto> f) \<Longrightarrow> dir_of w (fst (fchmod_file w name v)) = d(name \<mapsto> (if snd (fchmod_file w name v) then f\<lparr>vf_mode := create_mode w\<rparr> else f))"
  using sys_call_file(1,2) [of w v] sys_call_file(3) [of v] by (auto simp: fchmod_file_def change_file_open split: prod.splits)

lemma tolerant_fchmod: "tolerant (open_file w name d) (fchmod_file w name)"
proof (rule tolerantI)
  fix v assume P: "open_file w name d v"
  then obtain f where f: "dir_of w v = d(name \<mapsto> f)" "vf_regular f" "vf_uid f = euid v" by (auto simp: open_file_def)
  show "open_file w name d (fst (fchmod_file w name v))"
    using f fchmod_file_effect(2) [OF f(1)] fchmod_file_effect(1) [of w v name] by (auto simp: open_file_def file_frame_def)
  show "snd (fchmod_file w name v) \<and> calm (fst (fchmod_file w name v))" if "calm v"
    using sys_call_faults(1) [OF that] by (auto simp: fchmod_file_def split: prod.splits)
  show "one_fault (fst (fchmod_file w name v)) \<and> (snd (fchmod_file w name v) \<or> calm (fst (fchmod_file w name v)))" if "one_fault v"
    using sys_call_faults(2) [OF that] by (auto simp: fchmod_file_def split: prod.splits)
qed

lemma fstat_file_effect:
  "file_frame w v (fst (fstat_file w name v))" "dir_of w (fst (fstat_file w name v)) = dir_of w v"
  using sys_call_file(1,2) [of w v] sys_call_file(3) [of v] by (auto simp: fstat_file_def split: prod.splits)

lemma tolerant_fstat: "tolerant (open_file w name d) (fstat_file w name)"
proof (rule tolerantI)
  fix v assume P: "open_file w name d v"
  then show P': "open_file w name d (fst (fstat_file w name v))"
    using fstat_file_effect(1) [of w v name] fstat_file_effect(2) [of w name v] by (auto simp: open_file_def file_frame_def)
  have same: "snd (fstat_file w name v) = snd (sys_call v)" "fst (fstat_file w name v) = fst (sys_call v)"
    using P sys_call_file(1,2) [of w v] sys_call_file(3) [of v] by (auto simp: fstat_file_def open_file_def split: prod.splits)
  show "snd (fstat_file w name v) \<and> calm (fst (fstat_file w name v))" if "calm v"
    unfolding same by (rule sys_call_faults(1) [OF that])
  show "one_fault (fst (fstat_file w name v)) \<and> (snd (fstat_file w name v) \<or> calm (fst (fstat_file w name v)))" if "one_fault v"
    unfolding same by (rule sys_call_faults(2) [OF that])
qed

lemma write_file_effect:
  "dir_of w v = d(name \<mapsto> f) \<Longrightarrow>
   file_frame w v (fst (write_file w name left v)) \<and>
   (\<exists>t. dir_of w (fst (write_file w name left v)) = d(name \<mapsto> f\<lparr>vf_data := vf_data f @ t\<rparr>) \<and> (snd (write_file w name left v) \<longrightarrow> t = left))"
proof (induction "length (script v)" arbitrary: v f left rule: less_induct)
  case less
  show ?case
  proof (cases "left = []")
    case True
    then show ?thesis using less.prems by (intro conjI exI [of _ "[]"]) (simp_all add: write_file.simps)
  next
    case False
    obtain x v1 where x: "next_outcome v = (x, v1)" by fastforce
    have v1: "file_frame w v v1" "dir_of w v1 = d(name \<mapsto> f)" using next_outcome_file [OF x] less.prems by simp_all
    consider (interrupt) "x = Fail EINTR" | (fail) e where "x = Fail e" "e \<noteq> EINTR" | (part) n where "x = Moved n" "n \<noteq> 0"
      | (stop) "x = Moved 0" | (all) "x = Done \<or> (\<exists>ys. x = Stored ys)"
      by (cases x) auto
    then show ?thesis
    proof cases
      case interrupt
      then have run: "write_file w name left v = write_file w name left (v1\<lparr>errno := EINTR\<rparr>)"
        using False x by (simp add: write_file.simps [of w name left v])
      have "length (script v1) < length (script v)" using next_outcome_shorter [OF x] interrupt by simp
      then show ?thesis unfolding run using less.hyps [of "v1\<lparr>errno := EINTR\<rparr>" f left] v1 file_frame_trans [of w v "v1\<lparr>errno := EINTR\<rparr>"] by simp
    next
      case fail
      then have "write_file w name left v = (v1\<lparr>errno := e\<rparr>, False)" using False x by (simp add: write_file.simps)
      then show ?thesis using v1 by (intro conjI exI [of _ "[]"]) simp_all
    next
      case stop
      then have "write_file w name left v = (v1, False)" using False x by (simp add: write_file.simps)
      then show ?thesis using v1 by (intro conjI exI [of _ "[]"]) simp_all
    next
      case all
      then have "write_file w name left v = (change_file w name (\<lambda>f. f\<lparr>vf_data := vf_data f @ left\<rparr>) v1, True)"
        using False x by (auto simp: write_file.simps)
      then show ?thesis using v1 change_file_open [OF v1(2)] by (intro conjI exI [of _ left]) simp_all
    next
      case part
      let ?v2 = "change_file w name (\<lambda>f. f\<lparr>vf_data := vf_data f @ take n left\<rparr>) v1"
      have run: "write_file w name left v = write_file w name (drop n left) ?v2"
        using False x part by (simp add: write_file.simps [of w name left v])
      have "length (script ?v2) < length (script v)" using next_outcome_shorter [OF x] part by (simp add: change_file_def)
      then have IH: "file_frame w ?v2 (fst (write_file w name left v)) \<and>
          (\<exists>t. dir_of w (fst (write_file w name left v)) = d(name \<mapsto> f\<lparr>vf_data := (vf_data f @ take n left) @ t\<rparr>) \<and>
            (snd (write_file w name left v) \<longrightarrow> t = drop n left))"
        unfolding run using less.hyps [of ?v2 "f\<lparr>vf_data := vf_data f @ take n left\<rparr>" "drop n left"] change_file_open [OF v1(2)] by simp
      then obtain t where t: "dir_of w (fst (write_file w name left v)) = d(name \<mapsto> f\<lparr>vf_data := vf_data f @ take n left @ t\<rparr>)"
        "snd (write_file w name left v) \<longrightarrow> t = drop n left" by auto
      have "file_frame w v (fst (write_file w name left v))" using IH file_frame_trans [of w v ?v2] v1 by simp
      then show ?thesis using t by (intro conjI exI [of _ "take n left @ t"]) simp_all
    qed
  qed
qed

lemma write_file_calm: "calm v \<Longrightarrow> snd (write_file w name left v) \<and> calm (fst (write_file w name left v))"
proof -
  assume c: "calm v"
  obtain x v1 where x: "next_outcome v = (x, v1)" by fastforce
  then have "x = Done" "calm v1" using next_outcome_cases(2) [OF x] c by simp_all
  then show ?thesis using x c by (simp add: write_file.simps)
qed

lemma write_file_faults:
  "one_fault v \<Longrightarrow> one_fault (fst (write_file w name left v)) \<and> (snd (write_file w name left v) \<or> calm (fst (write_file w name left v)))"
proof -
  assume one: "one_fault v"
  obtain x v1 where x: "next_outcome v = (x, v1)" by fastforce
  have v1: "one_fault v1" "x = Done \<or> calm v1" using next_outcome_cases(3) [OF x] one by simp_all
  show ?thesis
  proof (cases "left = [] \<or> x = Done")
    case True
    then show ?thesis using one x v1 by (auto simp: write_file.simps)
  next
    case False
    then have c: "calm v1" using v1 by simp
    have go: "one_fault (fst (write_file w name l u)) \<and> (snd (write_file w name l u) \<or> calm (fst (write_file w name l u)))" if "calm u" for l u
      using write_file_calm [OF that] calm_one_fault by blast
    show ?thesis using False x c calm_one_fault [OF c] go by (cases x) (simp_all add: write_file.simps [of w name left v])
  qed
qed

lemma tolerant_write: "tolerant (open_file w name d) (write_file w name left)"
proof (rule tolerantI)
  fix v assume "open_file w name d v"
  then obtain f where f: "dir_of w v = d(name \<mapsto> f)" "vf_regular f" "vf_uid f = euid v" by (auto simp: open_file_def)
  show "open_file w name d (fst (write_file w name left v))"
    using f write_file_effect [OF f(1), of left] by (auto simp: open_file_def file_frame_def)
qed (simp_all add: write_file_calm write_file_faults)

lemmas tolerant_ops = tolerant_andthen tolerant_sys_call_open tolerant_fchmod tolerant_fstat tolerant_write

text \<open>An operation turns the open file from \<open>f\<close> to \<open>g\<close> when it succeeds.\<close>

definition fills :: "place \<Rightarrow> string \<Rightarrow> (string \<Rightarrow> vol_file option) \<Rightarrow> vol_file \<Rightarrow> vol_file \<Rightarrow> (vol \<Rightarrow> vol \<times> bool) \<Rightarrow> bool" where
  "fills w name d f g op \<longleftrightarrow> (\<forall>v. dir_of w v = d(name \<mapsto> f) \<longrightarrow> file_frame w v (fst (op v)) \<and>
     (\<exists>h. dir_of w (fst (op v)) = d(name \<mapsto> h) \<and> (snd (op v) \<longrightarrow> h = g)))"

lemma fills_andthen:
  assumes "fills w name d f g op" "fills w name d g h op'"
  shows "fills w name d f h (andthen op op')"
  unfolding fills_def
proof (intro allI impI)
  fix v assume v: "dir_of w v = d(name \<mapsto> f)"
  obtain v1 ok where run: "op v = (v1, ok)" by fastforce
  have 1: "file_frame w v v1" "\<exists>h. dir_of w v1 = d(name \<mapsto> h) \<and> (ok \<longrightarrow> h = g)"
    using assms(1) [unfolded fills_def, rule_format, OF v] run by simp_all
  show "file_frame w v (fst (andthen op op' v)) \<and>
     (\<exists>k. dir_of w (fst (andthen op op' v)) = d(name \<mapsto> k) \<and> (snd (andthen op op' v) \<longrightarrow> k = h))"
  proof (cases ok)
    case True
    then have run': "andthen op op' v = op' v1" and d: "dir_of w v1 = d(name \<mapsto> g)" using run 1 by (auto simp: andthen_def)
    then show ?thesis using assms(2) [unfolded fills_def, rule_format, OF d] 1(1) file_frame_trans [of w v v1] by simp
  next
    case False
    then show ?thesis using run 1 by (auto simp: andthen_def)
  qed
qed

lemma fills_sys_call: "fills w name d f f sys_call"
  using sys_call_file(1,2) [of w] by (auto simp: fills_def)

lemma fills_fstat: "fills w name d f f (fstat_file w name)"
  using fstat_file_effect(1) [of w _ name] fstat_file_effect(2) [of w name] by (auto simp: fills_def)

lemma fills_fchmod: "fills w name d f (f\<lparr>vf_mode := create_mode w\<rparr>) (fchmod_file w name)"
  using fchmod_file_effect(1) [of w _ name] fchmod_file_effect(2) [of w _ d name f] by (auto simp: fills_def)

lemma fills_write: "fills w name d f (f\<lparr>vf_data := vf_data f @ left\<rparr>) (write_file w name left)"
  using write_file_effect [of w _ d name f left] by (fastforce simp: fills_def)

lemma unlink_file_effect:
  "file_frame w v (fst (unlink_file w name v))"
  "calm v \<Longrightarrow> calm (fst (unlink_file w name v)) \<and> dir_of w (fst (unlink_file w name v)) = (dir_of w v)(name := None)"
proof -
  obtain v1 ok where c: "sys_call v = (v1, ok)" by fastforce
  have v1: "file_frame w v v1" "dir_of w v1 = dir_of w v" "calm v \<Longrightarrow> ok \<and> calm v1"
    using sys_call_file(1,2) [of w v] sys_call_faults(1) [of v] c by simp_all
  show "file_frame w v (fst (unlink_file w name v))" using v1 c by (auto simp: unlink_file_def)
  show "calm v \<Longrightarrow> calm (fst (unlink_file w name v)) \<and> dir_of w (fst (unlink_file w name v)) = (dir_of w v)(name := None)"
    using v1 c by (auto simp: unlink_file_def)
qed

lemma discard_effect:
  "file_frame w v (discard w name v)" "file_frame w v (discard_open w name v)"
  "calm v \<Longrightarrow> calm (discard w name v) \<and> dir_of w (discard w name v) = (dir_of w v)(name := None)"
  "calm v \<Longrightarrow> calm (discard_open w name v) \<and> dir_of w (discard_open w name v) = (dir_of w v)(name := None)"
  using unlink_file_effect(1) [of w v name] unlink_file_effect(1) [of w "fst (sys_call v)" name] sys_call_file(1,2) [of w v]
    unlink_file_effect(2) [of v w name] unlink_file_effect(2) [of "fst (sys_call v)" w name] sys_call_faults(1) [of v]
    file_frame_trans [of w v "fst (sys_call v)"]
  by (simp_all add: discard_def discard_open_def)

text \<open>The contract of replacing a file: what the commit relies on.\<close>

definition replaces :: "place \<Rightarrow> string \<Rightarrow> vol_file \<Rightarrow> vol \<Rightarrow> vol \<times> bool \<Rightarrow> bool" where
  "replaces w target f v r \<longleftrightarrow>
     file_frame w v (fst r) \<and> (snd r \<longrightarrow> dir_of w (fst r) = (dir_of w v)(target \<mapsto> f)) \<and>
     (no_temporaries w v \<longrightarrow> (calm v \<longrightarrow> snd r \<and> calm (fst r)) \<and>
        (one_fault v \<longrightarrow> one_fault (fst r) \<and> (snd r \<or> calm (fst r)) \<and>
           (dir_of w (fst r) = dir_of w v \<or> dir_of w (fst r) = (dir_of w v)(target \<mapsto> f))))"

text \<open>What is known once the temporary file was opened and filled.\<close>

lemma filled_file:
  assumes "open_exclusive w 16 v = (v1, Some name)" "op v1 = (v2, ok)"
    and t: "tolerant (open_file w name (dir_of w v)) op" and f: "fills w name (dir_of w v) (fresh_file w v) g op"
  shows "file_frame w v v2" "dir_of w v name = None" "take (length (temporary_prefix w)) name = temporary_prefix w"
    "\<exists>h. dir_of w v2 = (dir_of w v)(name \<mapsto> h) \<and> (ok \<longrightarrow> h = g)"
    "no_temporaries w v \<Longrightarrow> calm v \<Longrightarrow> ok \<and> calm v2"
    "no_temporaries w v \<Longrightarrow> one_fault v \<Longrightarrow> one_fault v2 \<and> (ok \<or> calm v2)"
proof -
  note o = open_exclusive_effect [OF assms(1), simplified]
  then have d: "dir_of w v1 = (dir_of w v)(name \<mapsto> fresh_file w v)" and "file_frame w v v1" by simp_all
  then have P: "open_file w name (dir_of w v) v1" by (auto simp: open_file_def fresh_file_def file_frame_def)
  note F = f [unfolded fills_def, rule_format, OF d] and T = tolerantD [OF t P]
  show "file_frame w v v2" using F assms(2) \<open>file_frame w v v1\<close> file_frame_trans [of w v v1] by simp
  show "dir_of w v name = None" "take (length (temporary_prefix w)) name = temporary_prefix w" using o by simp_all
  show "\<exists>h. dir_of w v2 = (dir_of w v)(name \<mapsto> h) \<and> (ok \<longrightarrow> h = g)" using F assms(2) by simp
  have n16: "(16 :: nat) = Suc (Suc 14)" by simp
  show "ok \<and> calm v2" if "no_temporaries w v" "calm v"
    using open_exclusive_faults(1) [OF that, of 15] assms(1,2) T(2) by (simp add: numeral_eq_Suc del: open_exclusive.simps)
  show "one_fault v2 \<and> (ok \<or> calm v2)" if "no_temporaries w v" "one_fault v"
    using open_exclusive_faults(2) [OF that, of 14] assms(1,2) T(3) by (simp add: numeral_eq_Suc del: open_exclusive.simps)
qed

lemma rename_file_effect:
  assumes "rename_file w name target v = (v', ok)"
  shows "file_frame w v v'" "dir_of w v' = (if ok then (dir_of w v)(target := dir_of w v name, name := None) else dir_of w v)"
    "calm v \<Longrightarrow> ok \<and> calm v'" "one_fault v \<Longrightarrow> one_fault v' \<and> (ok \<or> calm v')"
  using assms sys_call_file(1,2) [of w v] sys_call_faults [of v] by (auto simp: rename_file_def split: prod.splits if_splits)

definition saved_file :: "place \<Rightarrow> string \<Rightarrow> nat \<Rightarrow> vol_file" where
  "saved_file w t uid = \<lparr>vf_data = t, vf_regular = True, vf_uid = uid, vf_mode = create_mode w\<rparr>"

lemma open_failed:
  assumes "open_exclusive w 16 v = (v1, None)"
  shows "replaces w target f v (v1, False)"
  using open_exclusive_effect [OF assms] open_exclusive_faults(1) [of w v 15] open_exclusive_faults(2) [of w v 14] assms
  by (auto simp: replaces_def numeral_eq_Suc simp del: open_exclusive.simps)

lemma fresh_saved: "(fresh_file w v)\<lparr>vf_mode := create_mode w, vf_data := vf_data ((fresh_file w v)\<lparr>vf_mode := create_mode w\<rparr>) @ t\<rparr> =
    saved_file w t (euid v)"
  by (simp add: fresh_file_def saved_file_def)

lemma persist_state_replaces:
  assumes "state_ok vp m l"
  shows "replaces Persistent PERSISTENT_STATE_NAME (saved_file Persistent (volume_text vp m l) (euid v)) v (persist_state vp m l v)"
proof -
  let ?w = Persistent and ?T = PERSISTENT_STATE_NAME and ?t = "volume_text vp m l"
  let ?g = "saved_file ?w ?t (euid v)" and ?d = "dir_of ?w v"
  obtain v1 r where o: "open_exclusive ?w 16 v = (v1, r)" by fastforce
  show ?thesis
  proof (cases r)
    case None
    then have "persist_state vp m l v = (v1, False)" using o volume_text_length [OF assms] by (simp add: persist_state_def del: open_exclusive.simps)
    then show ?thesis using open_failed o None by simp
  next
    case (Some name)
    let ?op = "andthen (fstat_file ?w name) (andthen (fchmod_file ?w name) (andthen (write_file ?w name ?t) sys_call))"
    obtain v2 ok where run: "?op v1 = (v2, ok)" by fastforce
    have "fills ?w name ?d (fresh_file ?w v) ?g ?op"
      unfolding fresh_saved [symmetric]
      by (rule fills_andthen [OF fills_fstat fills_andthen [OF fills_fchmod fills_andthen [OF fills_write fills_sys_call]]])
    note F = filled_file [OF o [unfolded Some] run tolerant_andthen [OF tolerant_fstat tolerant_andthen [OF tolerant_fchmod
        tolerant_andthen [OF tolerant_write tolerant_sys_call_open]]] this]
    have other: "name \<noteq> ?T" using F(3) by (auto simp: PERSISTENT_STATE_NAME_def)
    obtain h where h: "dir_of ?w v2 = ?d(name \<mapsto> h)" "ok \<Longrightarrow> h = ?g" using F(4) by blast
    obtain v3 ok3 where c3: "sys_call v2 = (v3, ok3)" by fastforce
    obtain v4 ok4 where c4: "rename_file ?w name ?T v3 = (v4, ok4)" by fastforce
    obtain v5 ok5 where c5: "sys_call v4 = (v5, ok5)" by fastforce
    note R = rename_file_effect [OF c4]
    have s3: "file_frame ?w v2 v3" "dir_of ?w v3 = dir_of ?w v2" "calm v2 \<Longrightarrow> ok3 \<and> calm v3" "one_fault v2 \<Longrightarrow> one_fault v3 \<and> (ok3 \<or> calm v3)"
      using sys_call_file(1,2) [of ?w v2] sys_call_faults [of v2] c3 by simp_all
    have s5: "file_frame ?w v4 v5" "dir_of ?w v5 = dir_of ?w v4" "calm v4 \<Longrightarrow> ok5 \<and> calm v5" "one_fault v4 \<Longrightarrow> one_fault v5 \<and> (ok5 \<or> calm v5)"
      using sys_call_file(1,2) [of ?w v4] sys_call_faults [of v4] c5 by simp_all
    have result: "persist_state vp m l v =
        (if \<not> ok then (discard_open ?w name v2, False) else if \<not> ok3 then (discard ?w name v3, False)
         else if \<not> ok4 then (discard ?w name v4, False) else (v5, ok5))"
      using o Some run c3 c4 c5 volume_text_length [OF assms]
      by (simp add: persist_state_def del: open_exclusive.simps)
    have unlinked: "(?d(name \<mapsto> k))(name := None) = ?d" for k using F(2) by auto
    have moved: "(?d(name \<mapsto> ?g))(?T := Some ?g, name := None) = ?d(?T \<mapsto> ?g)" using F(2) other by auto
    have f3: "file_frame ?w v v3" "file_frame ?w v v4" "file_frame ?w v v5"
      using F(1) s3(1) R(1) s5(1) file_frame_trans by blast+
    consider (fill) "\<not> ok" | (close) ok "\<not> ok3" | (rename) ok ok3 "\<not> ok4" | (sync) ok ok3 ok4 by blast
    then show ?thesis
    proof cases
      case fill
      then show ?thesis unfolding result replaces_def
        using F(1,5,6) h discard_effect(2) [of ?w v2 name] discard_effect(4) [of v2 ?w name] unlinked calm_one_fault file_frame_trans [of ?w v v2]
        by auto
    next
      case close
      then show ?thesis unfolding result replaces_def
        using F(5,6) h s3 f3 discard_effect(1) [of ?w v3 name] discard_effect(3) [of v3 ?w name] unlinked calm_one_fault file_frame_trans [of ?w v v3]
        by auto
    next
      case rename
      then show ?thesis unfolding result replaces_def
        using F(5,6) h s3 f3 R discard_effect(1) [of ?w v4 name] discard_effect(3) [of v4 ?w name] unlinked calm_one_fault file_frame_trans [of ?w v v4]
        by auto
    next
      case sync
      then show ?thesis unfolding result replaces_def
        using F(5,6) h s3 s5 f3 R moved other by auto
    qed
  qed
qed

lemma marker_text_length: "0 \<le> vp \<Longrightarrow> vp \<le> 100 \<Longrightarrow> m = 0 \<or> m = 1 \<Longrightarrow> length (marker_text vp m) < 64"
proof -
  assume "0 \<le> vp" "vp \<le> 100" "m = 0 \<or> m = 1"
  then have "length (print_int vp) \<le> 3" "length (print_int m) \<le> 3"
    using length_print_nat [of "nat vp" 2] length_print_nat [of "nat m" 2] by (auto simp: print_int_def)
  then show ?thesis by (simp add: marker_text_def)
qed

lemma publish_state_replaces:
  assumes "0 \<le> vp" "vp \<le> 100" "m = 0 \<or> m = 1"
  shows "replaces Ui MARKER_NAME (saved_file Ui (marker_text vp m) (euid v)) v (publish_state vp m v)"
proof -
  let ?w = Ui and ?T = MARKER_NAME and ?t = "marker_text vp m"
  let ?g = "saved_file ?w ?t (euid v)" and ?d = "dir_of ?w v"
  note short = marker_text_length [OF assms]
  obtain v1 r where o: "open_exclusive ?w 16 v = (v1, r)" by fastforce
  show ?thesis
  proof (cases r)
    case None
    then have "publish_state vp m v = (v1, False)" using o short by (simp add: publish_state_def del: open_exclusive.simps)
    then show ?thesis using open_failed o None by simp
  next
    case (Some name)
    let ?op = "andthen (fchmod_file ?w name) (andthen (write_file ?w name ?t) (andthen sys_call sys_call))"
    obtain v2 ok where run: "?op v1 = (v2, ok)" by fastforce
    have "fills ?w name ?d (fresh_file ?w v) ?g ?op"
      unfolding fresh_saved [symmetric]
      by (rule fills_andthen [OF fills_fchmod fills_andthen [OF fills_write fills_andthen [OF fills_sys_call fills_sys_call]]])
    note F = filled_file [OF o [unfolded Some] run tolerant_andthen [OF tolerant_fchmod
        tolerant_andthen [OF tolerant_write tolerant_andthen [OF tolerant_sys_call_open tolerant_sys_call_open]]] this]
    have other: "name \<noteq> ?T" using F(3) by (auto simp: MARKER_NAME_def)
    obtain h where h: "dir_of ?w v2 = ?d(name \<mapsto> h)" "ok \<Longrightarrow> h = ?g" using F(4) by blast
    obtain v4 ok4 where c4: "rename_file ?w name ?T v2 = (v4, ok4)" by fastforce
    obtain v5 ok5 where c5: "sys_call v4 = (v5, ok5)" by fastforce
    note R = rename_file_effect [OF c4]
    have s5: "file_frame ?w v4 v5" "dir_of ?w v5 = dir_of ?w v4" "calm v4 \<Longrightarrow> ok5 \<and> calm v5" "one_fault v4 \<Longrightarrow> one_fault v5 \<and> (ok5 \<or> calm v5)"
      using sys_call_file(1,2) [of ?w v4] sys_call_faults [of v4] c5 by simp_all
    have result: "publish_state vp m v =
        (if \<not> ok then (discard_open ?w name v2, False) else if \<not> ok4 then (discard ?w name v4, False)
         else if \<not> ok5 then (discard ?w name v5, False) else (v5, True))"
      using o Some run c4 c5 short by (simp add: publish_state_def andthen_def [of "rename_file ?w name ?T"] del: open_exclusive.simps)
    have unlinked: "(?d(name \<mapsto> k))(name := None) = ?d" for k using F(2) by auto
    have moved: "(?d(name \<mapsto> ?g))(?T := Some ?g, name := None) = ?d(?T \<mapsto> ?g)" "(?d(?T \<mapsto> ?g))(name := None) = ?d(?T \<mapsto> ?g)"
      using F(2) other by auto
    have f3: "file_frame ?w v v4" "file_frame ?w v v5" using F(1) R(1) s5(1) file_frame_trans by blast+
    consider (fill) "\<not> ok" | (rename) ok "\<not> ok4" | (sync) ok ok4 "\<not> ok5" | (ok) ok ok4 ok5 by blast
    then show ?thesis
    proof cases
      case fill
      then show ?thesis unfolding result replaces_def
        using F(1,5,6) h discard_effect(2) [of ?w v2 name] discard_effect(4) [of v2 ?w name] unlinked calm_one_fault file_frame_trans [of ?w v v2]
        by auto
    next
      case rename
      then show ?thesis unfolding result replaces_def
        using F(5,6) h f3 R discard_effect(1) [of ?w v4 name] discard_effect(3) [of v4 ?w name] unlinked calm_one_fault file_frame_trans [of ?w v v4]
        by auto
    next
      case sync
      then show ?thesis unfolding result replaces_def
        using F(5,6) h f3 R s5 moved discard_effect(1) [of ?w v5 name] discard_effect(3) [of v5 ?w name] calm_one_fault file_frame_trans [of ?w v v5]
        by auto
    next
      case ok
      then show ?thesis unfolding result replaces_def using F(5,6) h s5 f3 R moved by auto
    qed
  qed
qed

section \<open>The commit is atomic\<close>

text \<open>Card, file and marker all say the same as the daemon.\<close>

definition committed :: "vol \<Rightarrow> bool" where
  "committed v \<longleftrightarrow> initialized v \<and> state_ok (volume_percent v) (muted v) (last_nonzero v) \<and>
     shows_volume v (volume_percent v) (muted v) \<and>
     persistent_dir v PERSISTENT_STATE_NAME = Some (saved_file Persistent (volume_text (volume_percent v) (muted v) (last_nonzero v)) (euid v)) \<and>
     ui_dir v MARKER_NAME = Some (saved_file Ui (marker_text (volume_percent v) (muted v)) (euid v))"

definition settled :: "vol \<Rightarrow> bool" where
  "settled v \<longleftrightarrow> handles_ok v \<and> card_ok v \<and> no_temporaries Persistent v \<and> no_temporaries Ui v"

lemma next_last_ok:
  assumes "0 \<le> vp" "vp \<le> 100" "m = 0 \<or> m = 1" "vp = 0 \<longrightarrow> m = 1"
  shows "state_ok vp m (next_last vp v)"
  using assms by (auto simp: state_ok_def next_last_def Let_def DEFAULT_VOLUME_PERCENT_def)

text \<open>What a commit is given: the volume and mute flag after normalisation.\<close>

definition commit_mute :: "int \<Rightarrow> int \<Rightarrow> int" where
  "commit_mute vp m = (if vp = 0 then 1 else m)"

lemma shows_volume_frame: "file_frame w v v' \<Longrightarrow> shows_volume v' vp m = shows_volume v vp m"
  by (simp add: shows_volume_def shows_value_def file_frame_def)

lemma mixer_frame_no_temporaries: "mixer_frame v v' \<Longrightarrow> no_temporaries w v' = no_temporaries w v"
  by (simp add: no_temporaries_def mixer_frame_dir)

text \<open>A successful commit, whatever faults happened on the way.\<close>

lemma commit_state_success:
  assumes "commit_state vp m v = (v', True)"
  shows "committed v' \<and> volume_percent v' = vp \<and> muted v' = commit_mute vp m \<and> last_nonzero v' = next_last vp v \<and>
    controls v' = controls v \<and> euid v' = euid v \<and>
    (\<exists>f. persistent_dir v' = (persistent_dir v)(PERSISTENT_STATE_NAME \<mapsto> f)) \<and> (\<exists>f. ui_dir v' = (ui_dir v)(MARKER_NAME \<mapsto> f))"
proof -
  let ?m = "commit_mute vp m" and ?l = "next_last vp v"
  obtain v1 s where s: "snapshot_controls v = (v1, s)" by fastforce
  obtain v2 ok2 where a: "apply_controls vp ?m v1 = (v2, ok2)" by fastforce
  obtain v3 ok3 where p: "persist_state vp ?m ?l v2 = (v3, ok3)" by fastforce
  obtain v4 ok4 where u: "publish_state vp ?m v3 = (v4, ok4)" by fastforce
  have args: "0 \<le> vp" "vp \<le> 100" "m = 0 \<or> m = 1"
    using assms by (auto simp: commit_state_def split: if_splits)
  have path: "s \<noteq> None" ok2 ok3 ok4 "v' = v4\<lparr>volume_percent := vp, muted := ?m, last_nonzero := ?l, initialized := True\<rparr>"
    using assms args s a p u by (auto simp: commit_state_def Let_def commit_mute_def split: option.splits bool.splits)
  have m: "?m = 0 \<or> ?m = 1" "vp = 0 \<longrightarrow> ?m = 1" using args by (auto simp: commit_mute_def)
  have ok: "state_ok vp ?m ?l" by (rule next_last_ok [OF args(1,2) m])
  have P: "file_frame Persistent v2 v3" "persistent_dir v3 = (persistent_dir v2)(PERSISTENT_STATE_NAME \<mapsto> saved_file Persistent (volume_text vp ?m ?l) (euid v2))"
    using persist_state_replaces [OF ok, of v2] p path(3) by (simp_all add: replaces_def)
  have U: "file_frame Ui v3 v4" "ui_dir v4 = (ui_dir v3)(MARKER_NAME \<mapsto> saved_file Ui (marker_text vp ?m) (euid v3))"
    using publish_state_replaces [OF args(1,2) m(1), of v3] u path(4) by (simp_all add: replaces_def)
  have same: "persistent_dir v4 = persistent_dir v3" "euid v4 = euid v2" "euid v3 = euid v2"
    using U(1) P(1) unfolding file_frame_def by (metis dir_of.simps(1) place.distinct(1))+
  have "shows_volume v2 vp ?m" using apply_controls_shows [of vp ?m v1] a path(2) by simp
  then have "shows_volume v4 vp ?m" using shows_volume_frame P(1) U(1) by blast
  then have "shows_volume v' vp ?m" using path(5) by (simp add: shows_volume_def shows_value_def)
  then have c: "committed v'" "volume_percent v' = vp" "muted v' = ?m" "last_nonzero v' = ?l"
    using path(5) ok P(2) U(2) same by (simp_all add: committed_def)
  have f: "mixer_frame v v2"
    using snapshot_controls_spec(1) [OF s] apply_controls_frame [of v1 vp ?m] a mixer_frame_trans by (metis fst_conv)
  have "ui_dir v3 = ui_dir v2" using P(1) by (auto simp: file_frame_def dest: spec [of _ Ui])
  then have d: "persistent_dir v' = (persistent_dir v)(PERSISTENT_STATE_NAME \<mapsto> saved_file Persistent (volume_text vp ?m ?l) (euid v2))"
    "ui_dir v' = (ui_dir v)(MARKER_NAME \<mapsto> saved_file Ui (marker_text vp ?m) (euid v3))"
    using path(5) P(2) U(2) same(1) f by (simp_all add: mixer_frame_fields)
  have "controls v' = controls v" "euid v' = euid v"
    using path(5) f P(1) U(1) by (simp_all add: mixer_frame_fields file_frame_def)
  then show ?thesis using c d by blast
qed

definition same_daemon :: "vol \<Rightarrow> vol \<Rightarrow> bool" where
  "same_daemon v u \<longleftrightarrow> controls u = controls v \<and> euid u = euid v \<and> volume_percent u = volume_percent v \<and> muted u = muted v \<and>
     last_nonzero u = last_nonzero v \<and> initialized u = initialized v"

lemma same_daemon_frames:
  "same_daemon v v" "mixer_frame v u \<Longrightarrow> same_daemon v u" "file_frame w v u \<Longrightarrow> same_daemon v u"
  "same_daemon v u \<Longrightarrow> same_daemon u x \<Longrightarrow> same_daemon v x"
  by (simp_all add: same_daemon_def mixer_frame_fields file_frame_def)

lemma same_daemon_errno [simp]: "same_daemon v (u\<lparr>errno := e\<rparr>) = same_daemon v u"
  by (simp add: same_daemon_def)

lemma card_values_frame: "file_frame w v u \<Longrightarrow> card_values u = card_values v"
  by (simp add: card_values_def file_frame_def)

lemma file_frame_other:
  "file_frame Ui v v' \<Longrightarrow> persistent_dir v' = persistent_dir v" "file_frame Persistent v v' \<Longrightarrow> ui_dir v' = ui_dir v"
  "file_frame w v v' \<Longrightarrow> euid v' = euid v"
  by (auto simp: file_frame_def dest: spec [of _ Persistent] spec [of _ Ui])

text \<open>In calm states the rollback undoes whatever of the three steps was done.\<close>

lemma rollback_restores:
  assumes old: "committed old" "settled old" and u: "calm u" "same_daemon old u"
    and p: "persistent_dir u = persistent_dir old \<or> pe \<and> persistent_dir u = (persistent_dir old)(PERSISTENT_STATE_NAME \<mapsto> x)"
    and q: "ui_dir u = ui_dir old \<or> mk \<and> ui_dir u = (ui_dir old)(MARKER_NAME \<mapsto> y)"
  shows "let v = rollback old (card_values old) mk pe u in
    calm v \<and> same_daemon old v \<and> card_values v = card_values old \<and> persistent_dir v = persistent_dir old \<and> ui_dir v = ui_dir old"
proof -
  let ?v1 = "fst (restore_controls (card_values old) u)"
  let ?v2 = "if mk then undo_marker old ?v1 else ?v1"
  let ?v3 = "if pe then undo_file old ?v2 else ?v2"
  have ok: "state_ok (volume_percent old) (muted old) (last_nonzero old)" "initialized old" using old(1) by (simp_all add: committed_def)
  have pm: "0 \<le> volume_percent old" "volume_percent old \<le> 100" "muted old = 0 \<or> muted old = 1" using ok(1) by (auto simp: state_ok_def)
  have f1: "mixer_frame u ?v1" by (rule restore_controls_frame)
  have v1: "calm ?v1" "card_values ?v1 = card_values old"
    using restore_controls_calm [of u old] u old(2) by (simp_all add: settled_def same_daemon_def)
  have nt: "no_temporaries Ui ?v1" "no_temporaries Persistent ?v1"
    using old(2) p q mixer_frame_dir [OF f1, of Ui] mixer_frame_dir [OF f1, of Persistent]
    by (auto simp: settled_def no_temporaries_def MARKER_NAME_def PERSISTENT_STATE_NAME_def)
  have e1: "euid ?v1 = euid old" "same_daemon old ?v1" using u(2) f1 same_daemon_frames by (auto simp: same_daemon_def mixer_frame_fields)
  have R2: "replaces Ui MARKER_NAME (saved_file Ui (marker_text (volume_percent old) (muted old)) (euid ?v1)) ?v1
      (publish_state (volume_percent old) (muted old) ?v1)"
    by (rule publish_state_replaces [OF pm])
  have v2: "calm ?v2" "file_frame Ui ?v1 ?v2" "ui_dir ?v2 = ui_dir old"
    using R2 v1(1) nt(1) q ok(2) mixer_frame_dir [OF f1, of Ui] old(1) e1(1)
    by (auto simp: undo_marker_def replaces_def committed_def fun_eq_iff)
  have nt2: "no_temporaries Persistent ?v2" "euid ?v2 = euid old" "persistent_dir ?v2 = persistent_dir u"
    using file_frame_other(1,3) [OF v2(2)] nt(2) e1(1) mixer_frame_dir [OF f1, of Persistent] by (simp_all add: no_temporaries_def)
  have R3: "replaces Persistent PERSISTENT_STATE_NAME
      (saved_file Persistent (volume_text (volume_percent old) (muted old) (last_nonzero old)) (euid ?v2)) ?v2
      (persist_state (volume_percent old) (muted old) (last_nonzero old) ?v2)"
    by (rule persist_state_replaces [OF ok(1)])
  have v3: "calm ?v3" "file_frame Persistent ?v2 ?v3" "persistent_dir ?v3 = persistent_dir old"
    using R3 v2(1) nt2 p ok(2) old(1) by (auto simp: undo_file_def replaces_def committed_def fun_eq_iff)
  have "ui_dir ?v3 = ui_dir old" using file_frame_other(2) [OF v3(2)] v2(3) by simp
  moreover have "card_values ?v3 = card_values old" using v1(2) card_values_frame [OF v2(2)] card_values_frame [OF v3(2)] by simp
  moreover have "same_daemon old ?v3" using same_daemon_frames(4) [OF same_daemon_frames(4) [OF e1(2) same_daemon_frames(3) [OF v2(2)]] same_daemon_frames(3) [OF v3(2)]] .
  ultimately obtain v3 where "v3 = ?v3" "calm v3" "same_daemon old v3" "card_values v3 = card_values old"
    "persistent_dir v3 = persistent_dir old" "ui_dir v3 = ui_dir old" using v3 by blast
  moreover from this(1) have "rollback old (card_values old) mk pe u = v3\<lparr>errno := errno u\<rparr>" unfolding rollback_def Let_def by blast
  ultimately show ?thesis by (simp add: card_values_def)
qed

lemma settled_same:
  "settled v \<Longrightarrow> same_daemon v u \<Longrightarrow> card_values u = card_values v \<Longrightarrow> persistent_dir u = persistent_dir v \<Longrightarrow> ui_dir u = ui_dir v \<Longrightarrow> settled u"
proof -
  assume v: "settled v" "same_daemon v u" "card_values u = card_values v" "persistent_dir u = persistent_dir v" "ui_dir u = ui_dir v"
  then have c: "controls u = controls v" by (simp add: same_daemon_def)
  have "handles_ok u = handles_ok v" by (simp add: handles_ok_def c)
  moreover have "card_ok u = card_ok v" by (simp add: card_ok_def in_range_def c v(3))
  moreover have "no_temporaries Persistent u = no_temporaries Persistent v" "no_temporaries Ui u = no_temporaries Ui v"
    by (simp_all add: no_temporaries_def v(4,5))
  ultimately show ?thesis using v(1) by (simp add: settled_def)
qed

lemma committed_same:
  "committed v \<Longrightarrow> same_daemon v u \<Longrightarrow> card_values u = card_values v \<Longrightarrow> persistent_dir u = persistent_dir v \<Longrightarrow> ui_dir u = ui_dir v \<Longrightarrow> committed u"
  by (simp add: committed_def same_daemon_def shows_volume_def shows_value_def card_values_def fun_eq_iff)

text \<open>The exits of a commit with acceptable arguments.\<close>

lemma commit_state_paths:
  assumes "0 \<le> vp" "vp \<le> 100" "m = 0 \<or> m = 1" "snapshot_controls v = (v1, s)" "apply_controls vp (commit_mute vp m) v1 = (v2, ok2)"
    "persist_state vp (commit_mute vp m) (next_last vp v) v2 = (v3, ok3)" "publish_state vp (commit_mute vp m) v3 = (v4, ok4)"
  shows "commit_state vp m v = (case s of None \<Rightarrow> (v1, False) | Some t \<Rightarrow>
      if \<not> ok2 then (rollback v t False False v2, False) else if \<not> ok3 then (rollback v t False True v3, False)
      else if \<not> ok4 then (rollback v t True True v4, False)
      else (v4\<lparr>volume_percent := vp, muted := commit_mute vp m, last_nonzero := next_last vp v, initialized := True\<rparr>, True))"
  using assms by (auto simp: commit_state_def Let_def commit_mute_def split: option.splits bool.splits)

lemma commit_state_failure:
  assumes fail: "commit_state vp m v = (v', False)" and v: "settled v" "committed v" "one_fault v"
  shows "same_daemon v v' \<and> card_values v' = card_values v \<and> persistent_dir v' = persistent_dir v \<and> ui_dir v' = ui_dir v"
proof (cases "vp < 0 \<or> 100 < vp \<or> (m \<noteq> 0 \<and> m \<noteq> 1)")
  case True
  then show ?thesis using fail by (auto simp: commit_state_def same_daemon_frames(1) card_values_def)
next
  case False
  let ?m = "commit_mute vp m" and ?l = "next_last vp v"
  have m: "0 \<le> vp" "vp \<le> 100" "?m = 0 \<or> ?m = 1" "vp = 0 \<longrightarrow> ?m = 1" using False by (auto simp: commit_mute_def)
  have ok: "state_ok vp ?m ?l" by (rule next_last_ok [OF m])
  obtain v1 s where s: "snapshot_controls v = (v1, s)" by fastforce
  obtain v2 ok2 where a: "apply_controls vp ?m v1 = (v2, ok2)" by fastforce
  obtain v3 ok3 where p: "persist_state vp ?m ?l v2 = (v3, ok3)" by fastforce
  obtain v4 ok4 where u: "publish_state vp ?m v3 = (v4, ok4)" by fastforce
  have result: "commit_state vp m v = (case s of None \<Rightarrow> (v1, False) | Some t \<Rightarrow>
      if \<not> ok2 then (rollback v t False False v2, False) else if \<not> ok3 then (rollback v t False True v3, False)
      else if \<not> ok4 then (rollback v t True True v4, False)
      else (v4\<lparr>volume_percent := vp, muted := ?m, last_nonzero := ?l, initialized := True\<rparr>, True))"
    by (rule commit_state_paths) (use False s a p u in auto)
  note S = snapshot_controls_spec [OF s]
  show ?thesis
  proof (cases s)
    case None
    then have "v' = v1" using fail result by simp
    then show ?thesis using S(1,2) mixer_frame_dir [OF S(1), of Persistent] mixer_frame_dir [OF S(1), of Ui]
      by (simp add: same_daemon_frames(2) card_values_def mixer_frame_fields)
  next
    case (Some t)
    then have t: "t = card_values v" using S(5) by simp
    have h1: "handles_ok v1" using v(1) handles_ok_frame [OF S(1)] by (simp add: settled_def)
    have f2: "mixer_frame v v2" using S(1) apply_controls_frame [of v1 vp ?m] a mixer_frame_trans by (metis fst_conv)
    have c2: "one_fault v2" "ok2 \<or> calm v2"
      using tolerantD(3) [OF tolerant_apply_controls [OF m(2), of ?m] h1] S(3) v(3) a by simp_all
    have d2: "persistent_dir v2 = persistent_dir v" "ui_dir v2 = ui_dir v"
      using mixer_frame_dir [OF f2, of Persistent] mixer_frame_dir [OF f2, of Ui] by simp_all
    have nt2: "no_temporaries Persistent v2" using v(1) d2 by (simp add: settled_def no_temporaries_def)
    note P = persist_state_replaces [OF ok, of v2, unfolded p replaces_def fst_conv snd_conv]
    have s2: "same_daemon v v2" by (rule same_daemon_frames(2) [OF f2])
    have s3: "same_daemon v v3" using P s2 same_daemon_frames(3,4) by blast
    have d3: "ui_dir v3 = ui_dir v" using P d2 file_frame_other(2) by metis
    have nt3: "no_temporaries Ui v3" using v(1) d3 by (simp add: settled_def no_temporaries_def)
    note U = publish_state_replaces [OF m(1,2,3), of v3, unfolded u replaces_def fst_conv snd_conv]
    have s4: "same_daemon v v4" using U s3 same_daemon_frames(3,4) by blast
    have c3: "one_fault v3" "ok3 \<or> calm v3" using P nt2 c2 by blast+
    have c4: "ok4 \<or> calm v4" using U nt3 c3 by blast
    have q3: "persistent_dir v3 = persistent_dir v \<or> persistent_dir v3 = (persistent_dir v)(PERSISTENT_STATE_NAME \<mapsto> saved_file Persistent (volume_text vp ?m ?l) (euid v2))"
      using P nt2 c2 d2 by auto
    have q4: "persistent_dir v4 = persistent_dir v3" using U file_frame_other(1) by blast
    have r4: "ui_dir v4 = ui_dir v \<or> ui_dir v4 = (ui_dir v)(MARKER_NAME \<mapsto> saved_file Ui (marker_text vp ?m) (euid v3))"
      using U nt3 c3 d3 by auto
    consider (mixer) "\<not> ok2" | (persist) ok2 "\<not> ok3" | (publish) ok2 ok3 "\<not> ok4" using fail result Some by (cases ok2; cases ok3; cases ok4) auto
    then show ?thesis
    proof cases
      case mixer
      then have "v' = rollback v (card_values v) False False v2" "calm v2" using fail result Some t c2 by auto
      then show ?thesis using rollback_restores [OF v(2,1), of v2 False _ False] s2 d2 by (simp add: Let_def)
    next
      case persist
      then have "v' = rollback v (card_values v) False True v3" "calm v3" using fail result Some t c3 by auto
      then show ?thesis using rollback_restores [OF v(2,1), of v3 True _ False] s3 d3 q3 by (auto simp: Let_def)
    next
      case publish
      then have "v' = rollback v (card_values v) True True v4" "calm v4" using fail result Some t c4 by auto
      then show ?thesis using rollback_restores [OF v(2,1), of v4 True _ True] s4 q3 q4 r4 by (auto simp: Let_def)
    qed
  qed
qed

lemma shows_card_ok: "handles_ok v \<Longrightarrow> shows_volume v vp m \<Longrightarrow> vp \<le> 100 \<Longrightarrow> card_ok v"
proof -
  assume h: "handles_ok v" and s: "shows_volume v vp m" and vp: "vp \<le> 100"
  have "card_values v i = fill_values (controls v i) (desired_value vp m i)" for i
    using s by (simp add: card_values_def shows_volume_def shows_value_def fill_values_def)
  then show ?thesis using fill_values_in_range [OF h] desired_in_range [OF vp] by (simp add: card_ok_def)
qed

lemma commit_state_settled:
  assumes "commit_state vp m v = (v', True)" "settled v"
  shows "settled v'"
proof -
  note S = commit_state_success [OF assms(1)]
  have h: "handles_ok v'" using S assms(2) by (simp add: settled_def handles_ok_def)
  have "no_temporaries Persistent v'" "no_temporaries Ui v'"
    using S assms(2) by (auto simp: settled_def no_temporaries_def PERSISTENT_STATE_NAME_def MARKER_NAME_def)
  moreover have "card_ok v'" using shows_card_ok [OF h] S by (auto simp: committed_def state_ok_def)
  ultimately show ?thesis using h by (simp add: settled_def)
qed

text \<open>
  C2: Changing the volume is a transaction over the sound card, the durable file
  and the runtime marker. From a state in which all three agree with the daemon
  and with at most one fault anywhere in the sequence of system calls (an error,
  an interruption, a short write, or a register that stores something else), a
  commit either succeeds and all three show the new volume, or fails and the
  daemon, the card, the file and the marker are as before.
\<close>

theorem commit_all_or_nothing:
  assumes "settled v" "committed v" "one_fault v" "commit_state vp m v = (v', ok)"
  shows "settled v' \<and> committed v' \<and>
    (if ok then volume_percent v' = vp \<and> muted v' = commit_mute vp m
     else same_daemon v v' \<and> card_values v' = card_values v \<and> persistent_dir v' = persistent_dir v \<and> ui_dir v' = ui_dir v)"
proof (cases ok)
  case True
  then show ?thesis using commit_state_success [of vp m v v'] commit_state_settled [of vp m v v'] assms by simp
next
  case False
  then have f: "same_daemon v v' \<and> card_values v' = card_values v \<and> persistent_dir v' = persistent_dir v \<and> ui_dir v' = ui_dir v"
    using commit_state_failure [OF _ assms(1,2,3)] assms(4) by simp
  then show ?thesis using False settled_same [OF assms(1)] committed_same [OF assms(2)] by simp
qed

text \<open>A running daemon at volume 60, whose second system call will fail.\<close>

definition example_vol :: vol where
  "example_vol = \<lparr>volume_percent = 60, muted = 0, last_nonzero = 60, initialized = True, marker_sequence = 1, persistent_sequence = 1,
     controls = (\<lambda>i. \<lparr>ch_count = 1, ch_minimum = 0, ch_maximum = maximum (control_definitions i)\<rparr>),
     regs = (\<lambda>i. [desired_value 60 0 i]),
     persistent_dir = [PERSISTENT_STATE_NAME \<mapsto> saved_file Persistent (volume_text 60 0 60) 0],
     ui_dir = [MARKER_NAME \<mapsto> saved_file Ui (marker_text 60 0) 0],
     errno = EIO, script = [Done, Fail EIO], pid = 7, euid = 0\<rparr>"

lemma example_vol_ready: "settled example_vol" "committed example_vol" "one_fault example_vol"
proof -
  have h: "handles_ok example_vol" by (simp add: handles_ok_def example_vol_def)
  have s: "shows_volume example_vol 60 0" by (simp add: shows_volume_def shows_value_def reg_values_def example_vol_def)
  show "settled example_vol"
    using h shows_card_ok [OF h s]
    by (simp add: settled_def no_temporaries_def example_vol_def PERSISTENT_STATE_NAME_def MARKER_NAME_def)
  show "committed example_vol" using s by (simp add: committed_def state_ok_def example_vol_def)
  show "one_fault example_vol" by (simp add: one_fault_def example_vol_def)
qed

theorem commit_all_or_nothing_witness:
  "settled example_vol \<and> committed example_vol \<and> one_fault example_vol \<and> \<not> calm example_vol \<and>
   committed (fst (commit_state 30 0 example_vol))"
  using commit_all_or_nothing [OF example_vol_ready prod.collapse [symmetric], of 30 0] example_vol_ready
  by (simp add: calm_def example_vol_def)

text \<open>With no fault at all a valid commit succeeds.\<close>

lemma commit_state_calm:
  assumes "settled v" "calm v" "0 \<le> vp" "vp \<le> 100" "m = 0 \<or> m = 1"
  shows "snd (commit_state vp m v) \<and> calm (fst (commit_state vp m v))"
proof -
  let ?m = "commit_mute vp m" and ?l = "next_last vp v"
  have m: "?m = 0 \<or> ?m = 1" "vp = 0 \<longrightarrow> ?m = 1" using assms(5) by (auto simp: commit_mute_def)
  have ok: "state_ok vp ?m ?l" by (rule next_last_ok [OF assms(3,4) m])
  obtain v1 s where s: "snapshot_controls v = (v1, s)" by fastforce
  obtain v2 ok2 where a: "apply_controls vp ?m v1 = (v2, ok2)" by fastforce
  obtain v3 ok3 where p: "persist_state vp ?m ?l v2 = (v3, ok3)" by fastforce
  obtain v4 ok4 where u: "publish_state vp ?m v3 = (v4, ok4)" by fastforce
  note S = snapshot_controls_spec [OF s]
  have h1: "handles_ok v1" using assms(1) handles_ok_frame [OF S(1)] by (simp add: settled_def)
  have 2: "ok2" "calm v2" using tolerantD(2) [OF tolerant_apply_controls [OF assms(4), of ?m] h1] S(4) assms(2) a by simp_all
  have f2: "mixer_frame v v2" using S(1) apply_controls_frame [of v1 vp ?m] a mixer_frame_trans by (metis fst_conv)
  have nt: "no_temporaries Persistent v2" "no_temporaries Ui v2"
    using assms(1) mixer_frame_no_temporaries [OF f2] by (simp_all add: settled_def)
  note P = persist_state_replaces [OF ok, of v2, unfolded p replaces_def fst_conv snd_conv]
  have 3: "ok3" "calm v3" "no_temporaries Ui v3" using P nt 2 file_frame_other(2) [of v2 v3] by (simp_all add: no_temporaries_def)
  have 4: "ok4" "calm v4"
    using publish_state_replaces [OF assms(3,4) m(1), of v3, unfolded u replaces_def fst_conv snd_conv] 3 by simp_all
  have "commit_state vp m v = (v4\<lparr>volume_percent := vp, muted := ?m, last_nonzero := ?l, initialized := True\<rparr>, True)"
    using assms(3-5) s a p u 2 3 4 S(4) assms(2) by (auto simp: commit_state_def Let_def commit_mute_def)
  then show ?thesis using 4(2) by (simp add: calm_def)
qed

end
