(* ===== verification/Volume_Daemon.thy ===== *)
theory Volume_Daemon
  imports Volume_State "HOL-Library.Multiset"
begin

text \<open>
  The volume daemon around its transactions: finding the input device and the
  controls of the sound card, the commands, clients and keys, and the slots of
  the event loop. What the kernel answers (directory entries, control
  information, credentials, packets, input events, accepted connections) is
  given by the arguments.
\<close>

section \<open>Finding the devices\<close>

definition MAX_INPUT_ENTRIES :: nat where "MAX_INPUT_ENTRIES = 64"
definition MAX_CONTROL_ELEMENTS :: nat where "MAX_CONTROL_ELEMENTS = 256"
definition MAX_CLIENTS :: nat where "MAX_CLIENTS = 8"
definition REQUEST_SIZE :: nat where "REQUEST_SIZE = 64"

definition event_entry_name :: "string \<Rightarrow> bool" where
  "event_entry_name name \<longleftrightarrow> take 5 name = ''event'' \<and> drop 5 name \<noteq> [] \<and> list_all (\<lambda>c. 48 \<le> byte c \<and> byte c \<le> 57) (drop 5 name)"

text \<open>
  What the device behind a descriptor answers: whether it is a character device,
  the bytes of its name, and the bits of its event types and keys. The buffers
  are cleared before, so what is not written reads as zero.
\<close>

record input_device =
  chardev :: bool
  dev_name :: "string option"
  event_bits :: "u64 list option"
  key_bits :: "u64 list option"

definition INPUT_DEVICE_NAME :: string where "INPUT_DEVICE_NAME = ''gpio-keys-volume''"
definition EV_KEY :: nat where "EV_KEY = 1"
definition KEY_VOLUMEDOWN :: nat where "KEY_VOLUMEDOWN = 114"
definition KEY_VOLUMEUP :: nat where "KEY_VOLUMEUP = 115"

definition test_bit_set :: "u64 list \<Rightarrow> nat \<Rightarrow> bool" where
  "test_bit_set bits n = bit (if n div 64 < length bits then bits ! (n div 64) else 0) (n mod 64)"

definition validate_production_input :: "input_device \<Rightarrow> bool" where
  "validate_production_input d =
    (chardev d \<and>
     (case dev_name d of None \<Rightarrow> False | Some name \<Rightarrow>
        (NUL \<in> set (take 256 name) \<or> length name < 256) \<and> cstr name = INPUT_DEVICE_NAME) \<and>
     (case event_bits d of None \<Rightarrow> False | Some bits \<Rightarrow> test_bit_set bits EV_KEY) \<and>
     (case key_bits d of None \<Rightarrow> False | Some bits \<Rightarrow> test_bit_set bits KEY_VOLUMEUP \<and> test_bit_set bits KEY_VOLUMEDOWN))"

text \<open>An entry: its name, the descriptor if it can be opened, and the device.\<close>

record input_entry =
  d_name :: string
  opened :: "int option"
  device :: input_device

text \<open>The directory stream ends, or fails after some entries. The last list is the descriptors closed.\<close>

fun input_loop :: "input_entry list \<Rightarrow> vol_errno option \<Rightarrow> nat \<Rightarrow> int option \<Rightarrow> int list \<Rightarrow> (vol_errno + int option) \<times> int list" where
  "input_loop [] fault seen selected closed =
    (case fault of None \<Rightarrow> (Inr selected, closed) | Some e \<Rightarrow> (Inl e, closed @ (case selected of None \<Rightarrow> [] | Some fd \<Rightarrow> [fd])))"
| "input_loop (d # ds) fault seen selected closed =
    (if d_name d = ''.'' \<or> d_name d = ''..'' then input_loop ds fault seen selected closed
     else if MAX_INPUT_ENTRIES < seen + 1 then (Inl E2BIG, closed @ (case selected of None \<Rightarrow> [] | Some fd \<Rightarrow> [fd]))
     else if \<not> event_entry_name (d_name d) then input_loop ds fault (seen + 1) selected closed
     else case opened d of
         None \<Rightarrow> input_loop ds fault (seen + 1) selected closed
       | Some fd \<Rightarrow>
         if \<not> validate_production_input (device d) then input_loop ds fault (seen + 1) selected (closed @ [fd])
         else (case selected of
             Some old \<Rightarrow> (Inl EEXIST, closed @ [fd, old])
           | None \<Rightarrow> input_loop ds fault (seen + 1) (Some fd) closed))"

definition open_volume_input :: "input_entry list \<Rightarrow> vol_errno option \<Rightarrow> (vol_errno + int) \<times> int list" where
  "open_volume_input entries fault =
    (case input_loop entries fault 0 None [] of
       (Inl e, closed) \<Rightarrow> (Inl e, closed)
     | (Inr None, closed) \<Rightarrow> (Inl ENODEV, closed)
     | (Inr (Some fd), closed) \<Rightarrow> (Inr fd, closed))"

record elem_info =
  info_type :: elem_type
  info_count :: nat
  info_readwrite :: bool
  info_min :: int
  info_max :: int
  info_items :: nat

definition validate_control_info :: "control_definition \<Rightarrow> elem_info \<Rightarrow> bool" where
  "validate_control_info def info =
    (if info_type info \<noteq> ctl_type def \<or> info_count info < minimum_count def \<or> 128 < info_count info \<or> \<not> info_readwrite info then False
     else if info_type info = TYPE_INTEGER \<and> (info_min info \<noteq> minimum def \<or> info_max info \<noteq> maximum def) then False
     else if info_type info = TYPE_ENUMERATED \<and> info_items info < 1 then False
     else True)"

definition handle_of :: "elem_info \<Rightarrow> control_handle" where
  "handle_of info =
    (if info_type info = TYPE_INTEGER then \<lparr>ch_count = info_count info, ch_minimum = info_min info, ch_maximum = info_max info\<rparr>
     else \<lparr>ch_count = info_count info, ch_minimum = 0,
       ch_maximum = (if info_type info = TYPE_ENUMERATED then int (info_items info) - 1 else 1)\<rparr>)"

text \<open>An element of the list: its name if it is terminated, and the answer to the information request.\<close>

type_synonym elem = "string option \<times> elem_info option"

type_synonym found_controls = "control_index \<Rightarrow> control_handle option"

text \<open>The inner loop over the definitions, for one element.\<close>

fun match_controls :: "control_index list \<Rightarrow> string \<Rightarrow> elem_info option \<Rightarrow> found_controls \<Rightarrow> vol_errno + found_controls" where
  "match_controls [] name info found = Inr found"
| "match_controls (i # cs) name info found =
    (if name \<noteq> alsa_name (control_definitions i) then match_controls cs name info found
     else if found i \<noteq> None then Inl EEXIST
     else case info of
         None \<Rightarrow> Inl EINVAL
       | Some answer \<Rightarrow>
         if \<not> validate_control_info (control_definitions i) answer then Inl EINVAL
         else match_controls cs name info (found(i \<mapsto> handle_of answer)))"

fun match_elements :: "elem list \<Rightarrow> found_controls \<Rightarrow> vol_errno + found_controls" where
  "match_elements [] found = Inr found"
| "match_elements ((None, info) # es) found = match_elements es found"
| "match_elements ((Some name, info) # es) found =
    (case match_controls all_controls name info found of Inl e \<Rightarrow> Inl e | Inr found' \<Rightarrow> match_elements es found')"

text \<open>
  The answers of the card, if the device can be opened; \<open>card_errno\<close> is the error
  that is left when the element list is longer than announced, which sets none.
\<close>

record card =
  card_chardev :: bool
  card_id :: string
  card_driver :: string
  card_name :: string
  card_terminated :: bool
  card_count :: nat
  card_elems :: "elem list"
  card_errno :: vol_errno

fun contains :: "string \<Rightarrow> string \<Rightarrow> bool" where
  "contains [] q = (q = [])"
| "contains (c # cs) q = (take (length q) (c # cs) = q \<or> contains cs q)"

definition open_production_mixer :: "vol_errno + card \<Rightarrow> vol_errno + (control_index \<Rightarrow> control_handle)" where
  "open_production_mixer c = (case c of
       Inl e \<Rightarrow> Inl e
     | Inr k \<Rightarrow>
       if \<not> card_chardev k then Inl ENODEV
       else if \<not> card_terminated k \<or> (card_id k \<noteq> ''Codec'' \<and> card_driver k \<noteq> ''sun4i-codec'' \<and> \<not> contains (card_name k) ''H616 Audio Codec'')
       then Inl ENODEV
       else if card_count k = 0 \<or> MAX_CONTROL_ELEMENTS < card_count k then Inl EINVAL
       else if card_count k < length (card_elems k) then Inl (card_errno k)
       else case match_elements (card_elems k) (\<lambda>_. None) of
           Inl e \<Rightarrow> Inl e
         | Inr found \<Rightarrow> if list_ex (\<lambda>i. found i = None) all_controls then Inl ENOENT else Inr (\<lambda>i. the (found i)))"

section \<open>Clients and keys\<close>

text \<open>
  The peer's user if its credentials can be read, and the packet if one was
  received; \<open>MSG_TRUNC\<close> gives the true length of a longer packet.
\<close>

definition handle_client :: "nat option \<Rightarrow> string option \<Rightarrow> vol \<Rightarrow> vol \<times> string" where
  "handle_client peer packet v =
    (if peer \<noteq> Some 0 then (v, ''ERR permission-denied'' @ [LF])
     else case packet of
         None \<Rightarrow> (v, ''ERR invalid-command'' @ [LF])
       | Some request \<Rightarrow>
         if length request \<le> 0 \<or> REQUEST_SIZE \<le> length request then (v, ''ERR invalid-command'' @ [LF])
         else if list_ex (\<lambda>c. byte c < 0x20 \<or> 0x7e < byte c) request then (v, ''ERR invalid-command'' @ [LF])
         else case process_command v request of
             (v1, False) \<Rightarrow> (v1, if errno v1 = EINVAL then ''ERR invalid-command'' @ [LF] else ''ERR hardware-transaction'' @ [LF])
           | (v1, True) \<Rightarrow> (v1, ''OK volume_percent='' @ print_int (volume_percent v1) @ '' muted='' @ print_int (muted v1) @ [LF]))"

record input_event =
  ev_type :: nat
  ev_code :: nat
  ev_value :: int

definition handle_key :: "vol \<Rightarrow> input_event \<Rightarrow> vol" where
  "handle_key v e =
    (if ev_type e \<noteq> EV_KEY \<or> (ev_value e \<noteq> 1 \<and> ev_value e \<noteq> 2) then v
     else if ev_code e = KEY_VOLUMEUP then fst (process_command v ''up'')
     else if ev_code e = KEY_VOLUMEDOWN then fst (process_command v ''down'')
     else v)"

text \<open>The answers of \<^verbatim>\<open>read\<close>: whole events, a broken length or end of file, or an error. No more answers is \<open>EAGAIN\<close>.\<close>

datatype input_read = Events "input_event list" | Broken | Read_Error vol_errno

fun handle_input :: "input_read list \<Rightarrow> vol \<Rightarrow> vol \<times> bool" where
  "handle_input [] v = (v, True)"
| "handle_input (Read_Error e # rs) v =
    (if e = EINTR then handle_input rs v else if e = EAGAIN then (v, True) else (v\<lparr>errno := ENODEV\<rparr>, False))"
| "handle_input (Broken # rs) v = (v\<lparr>errno := ENODEV\<rparr>, False)"
| "handle_input (Events es # rs) v = (if es = [] then (v\<lparr>errno := ENODEV\<rparr>, False) else handle_input rs (foldl handle_key v es))"

section \<open>The event loop\<close>

text \<open>Effects on client connections.\<close>

datatype client_effect = Accepted int | Sent int string | Closed int

fun store_client :: "int \<Rightarrow> int list \<Rightarrow> int list option" where
  "store_client fd [] = None"
| "store_client fd (c # cs) = (if c < 0 then Some (fd # cs) else map_option (\<lambda>ds. c # ds) (store_client fd cs))"

datatype accept_answer = Connection nat | Accept_Error vol_errno

text \<open>The accept loop ends with \<open>EAGAIN\<close>, also when the given answers are used up; the flag is false on any other error.\<close>

fun accept_loop :: "accept_answer list \<Rightarrow> int list \<Rightarrow> int list \<times> client_effect list \<times> bool" where
  "accept_loop [] cs = (cs, [], True)"
| "accept_loop (Accept_Error e # as) cs = (if e = EINTR then accept_loop as cs else (cs, [], e = EAGAIN))"
| "accept_loop (Connection fd # as) cs =
    (case store_client (int fd) cs of
       Some cs1 \<Rightarrow> (let (cs2, fx, ok) = accept_loop as cs1 in (cs2, Accepted (int fd) # fx, ok))
     | None \<Rightarrow> (let (cs2, fx, ok) = accept_loop as cs in
         (cs2, [Accepted (int fd), Sent (int fd) (''ERR busy'' @ [LF]), Closed (int fd)] @ fx, ok)))"

record client_poll =
  cp_in :: bool
  cp_any :: bool
  cp_peer :: "nat option"
  cp_packet :: "string option"

text \<open>The loop over the slots with what \<^verbatim>\<open>poll\<close> said about each.\<close>

fun serve_clients :: "client_poll list \<Rightarrow> int list \<Rightarrow> vol \<Rightarrow> vol \<times> int list \<times> client_effect list" where
  "serve_clients (p # ps) (c # cs) v =
    (if c < 0 \<or> \<not> cp_any p then let (v1, ds, fx) = serve_clients ps cs v in (v1, c # ds, fx)
     else
       let (v1, sent) = (if cp_in p then let (v1, r) = handle_client (cp_peer p) (cp_packet p) v in (v1, [Sent c r]) else (v, []));
           (v2, ds, fx) = serve_clients ps cs v1 in
       (v2, - 1 # ds, sent @ [Closed c] @ fx))"
| "serve_clients ps cs v = (v, cs, [])"

record poll_answer =
  poll_result :: "vol_errno option"
  input_in :: bool
  input_bad :: bool
  listen_in :: bool
  listen_bad :: bool
  input_reads :: "input_read list"
  accepts :: "accept_answer list"
  client_polls :: "client_poll list"

text \<open>
  One round of the loop; the flag is false when the loop returns. A slot that
  was free when \<^verbatim>\<open>poll\<close> was called has no event.
\<close>

definition event_round :: "poll_answer \<Rightarrow> vol \<times> int list \<Rightarrow> (vol \<times> int list) \<times> client_effect list \<times> bool" where
  "event_round p st =
    (let (v, cs) = st in
     case poll_result p of
       Some e \<Rightarrow> if e = EINTR then (st, [], True) else (st, [], False)
     | None \<Rightarrow>
       let (v1, ok1) = (if input_in p then handle_input (input_reads p) v else (v, True)) in
       if \<not> ok1 then ((v1, cs), [], False)
       else if input_bad p then ((v1\<lparr>errno := ENODEV\<rparr>, cs), [], False)
       else if listen_bad p then ((v1\<lparr>errno := EIO\<rparr>, cs), [], False)
       else
         let (cs1, fx1, ok2) = (if listen_in p then accept_loop (accepts p) cs else (cs, [], True)) in
         if \<not> ok2 then ((v1, cs1), fx1, False)
         else
           let polls = map2 (\<lambda>c q. if c < 0 then q\<lparr>cp_in := False, cp_any := False\<rparr> else q) cs (client_polls p);
               (v2, cs2, fx2) = serve_clients polls cs1 v1 in
           ((v2, cs2), fx1 @ fx2, True))"

section \<open>Properties of the searches\<close>

text \<open>Descriptors opened by the search so far.\<close>

definition opened_fds :: "input_entry list \<Rightarrow> int list" where
  "opened_fds ds = List.map_filter (\<lambda>d. if event_entry_name (d_name d) then opened d else None) ds"

definition volume_devices :: "input_entry list \<Rightarrow> int list" where
  "volume_devices ds = List.map_filter (\<lambda>d. if event_entry_name (d_name d) \<and> validate_production_input (device d) then opened d else None) ds"

lemma event_entry_not_dot: "event_entry_name n \<Longrightarrow> n \<noteq> ''.'' \<and> n \<noteq> ''..''"
  by (auto simp: event_entry_name_def)

lemma input_loop_selected:
  "input_loop ds fault seen sel closed = (Inr (Some fd), closed') \<Longrightarrow>
   (case sel of None \<Rightarrow> volume_devices ds = [fd] | Some old \<Rightarrow> fd = old \<and> volume_devices ds = [])"
proof (induction ds fault seen sel closed rule: input_loop.induct)
  case (1 fault seen selected closed)
  then show ?case by (auto simp: volume_devices_def List.map_filter_def split: option.splits)
next
  case (2 d ds fault seen selected closed)
  then show ?case
    by (auto simp: volume_devices_def List.map_filter_simps dest: event_entry_not_dot split: if_splits option.splits)
qed

definition held_fd :: "int option \<Rightarrow> int multiset" where
  "held_fd sel = mset (case sel of None \<Rightarrow> [] | Some fd \<Rightarrow> [fd])"

lemma held_fd_simps [simp]: "held_fd None = {#}" "held_fd (Some fd) = {#fd#}"
  by (simp_all add: held_fd_def)

text \<open>What is closed and what is kept are exactly the descriptors opened before the search ended.\<close>

definition accounts :: "input_entry list \<Rightarrow> int multiset \<Rightarrow> (vol_errno + int option) \<times> int list \<Rightarrow> bool" where
  "accounts ds before result = (\<exists>k. (case fst result of
      Inr s \<Rightarrow> k = length ds \<and> mset (snd result) + held_fd s = before + mset (opened_fds (take k ds))
    | Inl e \<Rightarrow> mset (snd result) = before + mset (opened_fds (take k ds))))"

lemma opened_fds_Cons: "opened_fds (d # ds) = opened_fds [d] @ opened_fds ds"
  by (simp add: opened_fds_def List.map_filter_simps split: option.splits)

lemma accounts_step:
  assumes "accounts ds before' result" "before' = before + mset (opened_fds [d])"
  shows "accounts (d # ds) before result"
proof -
  obtain k where k: "case fst result of Inr s \<Rightarrow> k = length ds \<and> mset (snd result) + held_fd s = before' + mset (opened_fds (take k ds))
      | Inl e \<Rightarrow> mset (snd result) = before' + mset (opened_fds (take k ds))"
    using assms(1) by (auto simp: accounts_def)
  show ?thesis
    unfolding accounts_def
    by (rule exI [of _ "Suc k"]) (use k assms(2) opened_fds_Cons [of d "take k ds"] in \<open>auto split: sum.splits\<close>)
qed

lemma accounts_stop: "mset closed = before + mset (opened_fds (take k ds)) \<Longrightarrow> accounts ds before (Inl e, closed)"
  by (auto simp: accounts_def)

lemma opened_fds_one:
  "opened_fds [d] = (if event_entry_name (d_name d) then (case opened d of None \<Rightarrow> [] | Some fd \<Rightarrow> [fd]) else [])"
  by (simp add: opened_fds_def List.map_filter_simps split: option.splits)

lemma input_loop_accounts: "accounts ds (mset closed + held_fd sel) (input_loop ds fault seen sel closed)"
proof (induction ds arbitrary: seen sel closed)
  case Nil
  then show ?case by (auto simp: accounts_def opened_fds_def List.map_filter_def held_fd_def split: option.splits)
next
  case (Cons d ds)
  have stop: "accounts (d # ds) (mset closed + held_fd sel) (Inl E2BIG, closed @ (case sel of None \<Rightarrow> [] | Some fd \<Rightarrow> [fd]))"
    by (rule accounts_stop [of _ _ 0]) (simp add: opened_fds_def List.map_filter_def held_fd_def)
  have twice: "accounts (d # ds) (mset closed + held_fd sel) (Inl EEXIST, closed @ [fd, old])"
    if "event_entry_name (d_name d)" "opened d = Some fd" "sel = Some old" for fd old
    by (rule accounts_stop [of _ _ 1]) (use that in \<open>simp add: opened_fds_one\<close>)
  have skip: "accounts (d # ds) (mset closed + held_fd sel) (input_loop ds fault n sel closed)"
    if "opened_fds [d] = []" for n
    by (rule accounts_step [OF Cons.IH]) (simp add: that)
  have wrong: "accounts (d # ds) (mset closed + held_fd sel) (input_loop ds fault n sel (closed @ [fd]))"
    if "opened_fds [d] = [fd]" for n fd
    by (rule accounts_step [OF Cons.IH]) (simp add: that)
  have found: "accounts (d # ds) (mset closed + held_fd None) (input_loop ds fault n (Some fd) closed)"
    if "opened_fds [d] = [fd]" for n fd
    by (rule accounts_step [OF Cons.IH]) (simp add: that)
  show ?case
    using event_entry_not_dot [of "d_name d"] stop twice skip wrong found
    by (cases "opened d"; cases sel) (auto simp: opened_fds_one)
qed

text \<open>
  The daemon listens to the one right device. It takes an input device only
  if exactly one event device is the volume keys; every other descriptor it
  opened while searching is closed again, and on any failure all of them are.
\<close>

theorem volume_input_unique:
  assumes "open_volume_input entries fault = (r, closed)"
  shows "case r of Inr fd \<Rightarrow> volume_devices entries = [fd] \<and> mset (opened_fds entries) = add_mset fd (mset closed)
    | Inl e \<Rightarrow> \<exists>k. mset closed = mset (opened_fds (take k entries))"
proof -
  obtain q c where loop: "input_loop entries fault 0 None [] = (q, c)" by fastforce
  have L: "accounts entries {#} (q, c)"
    using input_loop_accounts [of entries "[]" None fault 0] loop by simp
  show ?thesis
  proof (cases q)
    case (Inl e)
    then show ?thesis using assms loop L by (auto simp: open_volume_input_def accounts_def)
  next
    case (Inr sel)
    show ?thesis
    proof (cases sel)
      case None
      then have "r = Inl ENODEV" "mset closed = mset (opened_fds (take (length entries) entries))"
        using assms loop L Inr by (auto simp: open_volume_input_def accounts_def)
      then show ?thesis by (auto intro: exI [of _ "length entries"])
    next
      case (Some fd)
      then show ?thesis using assms loop L Inr input_loop_selected [of entries fault 0 None "[]" fd c]
        by (auto simp: open_volume_input_def accounts_def)
    qed
  qed
qed

text \<open>A device that is not the volume keys and one that is.\<close>

definition no_keys :: input_device where
  "no_keys = \<lparr>chardev = True, dev_name = Some ''gpio-keys-power'', event_bits = Some [3], key_bits = None\<rparr>"

definition volume_keys :: input_device where
  "volume_keys = \<lparr>chardev = True, dev_name = Some ''gpio-keys-volume'', event_bits = Some [3], key_bits = Some [0, 0xC000000000000]\<rparr>"

lemma example_devices: "\<not> validate_production_input no_keys" "validate_production_input volume_keys"
  by (simp_all add: validate_production_input_def no_keys_def volume_keys_def INPUT_DEVICE_NAME_def cstr_def test_bit_set_def EV_KEY_def
      KEY_VOLUMEUP_def KEY_VOLUMEDOWN_def bit_iff_odd_drop_bit drop_bit_eq_div)

theorem volume_input_unique_witness:
  "let entries = [\<lparr>d_name = ''event0'', opened = Some 4, device = no_keys\<rparr>, \<lparr>d_name = ''mice'', opened = None, device = no_keys\<rparr>,
      \<lparr>d_name = ''event12'', opened = Some 5, device = volume_keys\<rparr>] in
   open_volume_input entries None = (Inr 5, [4]) \<and> volume_devices entries = [5]"
  using volume_input_unique [of "[\<lparr>d_name = ''event0'', opened = Some 4, device = no_keys\<rparr>, \<lparr>d_name = ''mice'', opened = None, device = no_keys\<rparr>,
      \<lparr>d_name = ''event12'', opened = Some 5, device = volume_keys\<rparr>]" None "Inr 5" "[4]"]
  by (simp add: open_volume_input_def event_entry_name_def MAX_INPUT_ENTRIES_def example_devices)

text \<open>The controls have different names, so an element of the card fills at most one of them.\<close>

lemma alsa_names_differ: "alsa_name (control_definitions i) = alsa_name (control_definitions j) \<longleftrightarrow> i = j"
  by (cases i; cases j) simp_all

definition named :: "control_index \<Rightarrow> elem list \<Rightarrow> elem list" where
  "named i es = filter (\<lambda>e. fst e = Some (alsa_name (control_definitions i))) es"

lemma match_controls_result:
  "match_controls cs name info found = Inr found' \<Longrightarrow> distinct cs \<Longrightarrow>
   (\<forall>i. if i \<in> set cs \<and> name = alsa_name (control_definitions i)
        then found i = None \<and> (\<exists>a. info = Some a \<and> validate_control_info (control_definitions i) a \<and> found' i = Some (handle_of a))
        else found' i = found i)"
proof (induction cs arbitrary: found)
  case (Cons j cs)
  show ?case
  proof (cases "name = alsa_name (control_definitions j)")
    case False
    then show ?thesis using Cons by auto
  next
    case True
    then obtain a where a: "found j = None" "info = Some a" "validate_control_info (control_definitions j) a"
      "match_controls cs name info (found(j \<mapsto> handle_of a)) = Inr found'"
      using Cons.prems by (auto split: if_splits option.splits)
    show ?thesis using Cons.IH [OF a(4)] Cons.prems(2) a True alsa_names_differ by auto
  qed
qed simp

definition matched :: "control_index \<Rightarrow> elem list \<Rightarrow> control_handle option \<Rightarrow> control_handle option \<Rightarrow> bool" where
  "matched i es before after \<longleftrightarrow>
     (named i es = [] \<and> after = before) \<or>
     (before = None \<and> (\<exists>a. named i es = [(Some (alsa_name (control_definitions i)), Some a)] \<and>
        validate_control_info (control_definitions i) a \<and> after = Some (handle_of a)))"

lemma match_elements_result: "match_elements es found = Inr found' \<Longrightarrow> matched i es (found i) (found' i)"
proof (induction es found rule: match_elements.induct)
  case (3 name info es found)
  obtain f where f: "match_controls all_controls name info found = Inr f" "match_elements es f = Inr found'"
    using "3.prems" by (auto split: sum.splits)
  have IH: "matched i es (f i) (found' i)" by (rule "3.IH" [OF f])
  note m = match_controls_result [OF f(1) orders(5), rule_format, of i]
  show ?case
  proof (cases "name = alsa_name (control_definitions i)")
    case True
    then show ?thesis using m IH orders(6) by (auto simp: matched_def named_def)
  next
    case False
    then show ?thesis using m IH by (simp add: matched_def named_def)
  qed
qed (simp_all add: matched_def named_def)

lemma handle_of_valid:
  "validate_control_info (control_definitions i) a \<Longrightarrow>
   1 \<le> ch_count (handle_of a) \<and> ch_count (handle_of a) \<le> 128 \<and> ch_minimum (handle_of a) = 0 \<and>
   maximum (control_definitions i) \<le> ch_maximum (handle_of a)"
  by (cases i) (auto simp: validate_control_info_def handle_of_def split: if_splits)

lemma mixer_handles:
  assumes "open_production_mixer (Inr k) = Inr h"
  shows "handles_ok (v\<lparr>controls := h\<rparr>)"
    and "\<exists>a. named i (card_elems k) = [(Some (alsa_name (control_definitions i)), Some a)] \<and>
       validate_control_info (control_definitions i) a \<and> h i = handle_of a"
proof -
  obtain found where f: "match_elements (card_elems k) (\<lambda>_. None) = Inr found" "\<not> list_ex (\<lambda>i. found i = None) all_controls"
    and h: "h = (\<lambda>i. the (found i))"
    using assms by (auto simp: open_production_mixer_def split: if_splits sum.splits)
  have all: "found j \<noteq> None" for j using f(2) orders(6) by (auto simp: list_ex_iff)
  have one: "\<exists>a. named j (card_elems k) = [(Some (alsa_name (control_definitions j)), Some a)] \<and>
       validate_control_info (control_definitions j) a \<and> h j = handle_of a" for j
    using match_elements_result [OF f(1), of j] all [of j] h by (auto simp: matched_def)
  have "1 \<le> ch_count (h j) \<and> ch_count (h j) \<le> 128 \<and> ch_minimum (h j) = 0 \<and> maximum (control_definitions j) \<le> ch_maximum (h j)" for j
    using one [of j] handle_of_valid [of j] by auto
  then show "handles_ok (v\<lparr>controls := h\<rparr>)" by (simp add: handles_ok_def)
  show "\<exists>a. named i (card_elems k) = [(Some (alsa_name (control_definitions i)), Some a)] \<and>
       validate_control_info (control_definitions i) a \<and> h i = handle_of a" by (rule one)
qed

text \<open>
  C35: The daemon only works on a complete and unambiguous sound card. If opening
  the mixer succeeds, the card offers each of the seven controls under exactly
  one element with the expected type, range and access, and the handles make
  every value that the daemon ever writes acceptable.
\<close>

theorem mixer_controls_complete:
  assumes "open_production_mixer (Inr k) = Inr h"
  shows "handles_ok (v\<lparr>controls := h\<rparr>) \<and>
    (\<exists>a. named i (card_elems k) = [(Some (alsa_name (control_definitions i)), Some a)] \<and>
       validate_control_info (control_definitions i) a \<and> h i = handle_of a)"
  using mixer_handles [OF assms] by blast

text \<open>A card with the seven controls in another order and one element of its own.\<close>

definition example_card :: card where
  "example_card = \<lparr>card_chardev = True, card_id = ''Codec'', card_driver = ''sun4i-codec'', card_name = ''H616 Audio Codec'',
     card_terminated = True, card_count = 8,
     card_elems = (Some ''Headphone Switch'', None) # map (\<lambda>i. (Some (alsa_name (control_definitions i)),
       Some \<lparr>info_type = ctl_type (control_definitions i), info_count = 1, info_readwrite = True, info_min = minimum (control_definitions i),
         info_max = maximum (control_definitions i), info_items = 2\<rparr>)) (rev all_controls),
     card_errno = EINVAL\<rparr>"

lemma example_card_opens: "\<exists>h. open_production_mixer (Inr example_card) = Inr h"
  by (simp add: open_production_mixer_def example_card_def all_controls_def MAX_CONTROL_ELEMENTS_def validate_control_info_def)

theorem mixer_controls_complete_witness:
  "\<exists>a. named CONTROL_LINE_VOLUME (card_elems example_card) = [(Some ''Line Out Playback Volume'', Some a)] \<and> info_max a = 31"
proof -
  obtain h where h: "open_production_mixer (Inr example_card) = Inr h" using example_card_opens by blast
  obtain a where "named CONTROL_LINE_VOLUME (card_elems example_card) = [(Some (alsa_name (control_definitions CONTROL_LINE_VOLUME)), Some a)]"
    "validate_control_info (control_definitions CONTROL_LINE_VOLUME) a"
    using mixer_controls_complete [OF h] by blast
  then show ?thesis by (auto simp: validate_control_info_def split: if_splits)
qed

end
