(* ===== verification/Volume_Service.thy ===== *)
theory Volume_Service
  imports Volume_Daemon
begin

text \<open>
  What the users of the volume daemon can rely on: the answers of the socket
  agree with card, file and marker; nothing a client or a fault does makes the
  state invalid; a restart finds the last volume again; no connection is lost.
\<close>

section \<open>Commands\<close>

text \<open>A command leaves the state alone, is invalid, or is one commit.\<close>

lemma process_command_commits:
  obtains (get) "process_command v request = (v, True)"
  | (invalid) "process_command v request = (v\<lparr>errno := EINVAL\<rparr>, False)"
  | (commit) vp m where "process_command v request = commit_state vp m v"
proof -
  have "process_command v request \<in> {(v, True), (v\<lparr>errno := EINVAL\<rparr>, False)} \<union> {commit_state vp m v | vp m. True}"
    by (simp add: process_command_def Let_def split: option.split) blast
  then show ?thesis using that by blast
qed

text \<open>A successful command from a fully committed state, and a failed one, under at most one fault.\<close>

lemma process_command_atomic:
  assumes "settled v" "committed v" "one_fault v" "process_command v request = (v', ok)"
  shows "settled v' \<and> committed v' \<and>
    (\<not> ok \<longrightarrow> same_daemon v v' \<and> card_values v' = card_values v \<and> persistent_dir v' = persistent_dir v \<and> ui_dir v' = ui_dir v)"
proof (cases rule: process_command_commits [of v request])
  case get
  then show ?thesis using assms by simp
next
  case invalid
  then have v': "v' = v\<lparr>errno := EINVAL\<rparr>" using assms(4) by simp
  have "same_daemon v v'" "card_values v' = card_values v" "persistent_dir v' = persistent_dir v" "ui_dir v' = ui_dir v"
    by (simp_all add: v' same_daemon_frames(1) card_values_def)
  then show ?thesis using settled_same [OF assms(1)] committed_same [OF assms(2)] by blast
next
  case (commit vp m)
  then have run: "commit_state vp m v = (v', ok)" using assms(4) by simp
  show ?thesis
  proof (cases ok)
    case True
    then show ?thesis using commit_state_success [of vp m v v'] commit_state_settled [of vp m v v'] run assms(1) by simp
  next
    case False
    then have f: "same_daemon v v' \<and> card_values v' = card_values v \<and> persistent_dir v' = persistent_dir v \<and> ui_dir v' = ui_dir v"
      using commit_state_failure [OF _ assms(1,2,3)] run by simp
    then show ?thesis using settled_same [OF assms(1)] committed_same [OF assms(2)] by blast
  qed
qed

definition ok_reply :: "vol \<Rightarrow> string" where
  "ok_reply v = ''OK volume_percent='' @ print_int (volume_percent v) @ '' muted='' @ print_int (muted v) @ [LF]"

lemma handle_client_cases:
  obtains (refused) e where "handle_client peer packet v = (v, ''ERR '' @ e)"
  | (served) request v' ok e where "peer = Some 0" "packet = Some request" "process_command v request = (v', ok)"
      "handle_client peer packet v = (v', if ok then ok_reply v' else ''ERR '' @ e)"
proof (cases "peer = Some 0 \<and> (\<exists>r. packet = Some r \<and> r \<noteq> [] \<and> length r < REQUEST_SIZE \<and> \<not> list_ex (\<lambda>c. byte c < 0x20 \<or> 0x7e < byte c) r)")
  case True
  then obtain r where r: "peer = Some 0" "packet = Some r" "r \<noteq> []" "length r < REQUEST_SIZE"
    "\<not> list_ex (\<lambda>c. byte c < 0x20 \<or> 0x7e < byte c) r" by blast
  obtain v' ok where p: "process_command v r = (v', ok)" by fastforce
  show ?thesis
  proof (cases ok)
    case True
    then show ?thesis using r p by (intro served [of r v' ok "[]"]) (auto simp: handle_client_def ok_reply_def)
  next
    case False
    show ?thesis
      using r p False served [of r v' ok "if errno v' = EINVAL then ''invalid-command'' @ [LF] else ''hardware-transaction'' @ [LF]"]
      by (auto simp: handle_client_def)
  qed
next
  case False
  then have "handle_client peer packet v = (v, ''ERR '' @ (if peer = Some 0 then ''invalid-command'' @ [LF] else ''permission-denied'' @ [LF]))"
    by (cases packet) (auto simp: handle_client_def)
  then show ?thesis by (rule refused)
qed

lemma handle_client_atomic:
  assumes "settled v" "committed v" "one_fault v" "handle_client peer packet v = (v', reply)"
  shows "settled v' \<and> committed v' \<and>
    (reply = ok_reply v' \<and> peer = Some 0 \<or>
     take 4 reply = ''ERR '' \<and> same_daemon v v' \<and> card_values v' = card_values v \<and> persistent_dir v' = persistent_dir v \<and> ui_dir v' = ui_dir v)"
proof (cases rule: handle_client_cases [of peer packet v])
  case (refused e)
  then show ?thesis using assms by (auto simp: same_daemon_frames(1))
next
  case (served request v1 ok e)
  then show ?thesis using assms process_command_atomic [OF assms(1-3) served(3)] by (cases ok) auto
qed

text \<open>
  C31: The answer to a client is the truth. From a state in which card, file and
  marker agree, with at most one fault while the request is served, an answer
  "OK" names the volume and the mute flag that card, file and marker now have;
  any other answer starts with "ERR", and then none of the three has changed.
  Only the user root gets a request served.
\<close>

theorem reply_is_truthful:
  assumes "settled v" "committed v" "one_fault v" "handle_client peer packet v = (v', reply)"
  shows "settled v' \<and> committed v' \<and>
    (reply = ok_reply v' \<and> peer = Some 0 \<or>
     take 4 reply = ''ERR '' \<and> same_daemon v v' \<and> card_values v' = card_values v \<and> persistent_dir v' = persistent_dir v \<and> ui_dir v' = ui_dir v)"
  using assms by (rule handle_client_atomic)

theorem reply_is_truthful_witness:
  "settled example_vol \<and> committed example_vol \<and> one_fault example_vol \<and>
   committed (fst (handle_client (Some 0) (Some ''up'') example_vol))"
  using reply_is_truthful [OF example_vol_ready prod.collapse [symmetric], of "Some 0" "Some ''up''"] example_vol_ready by simp

section \<open>Runs of requests\<close>

text \<open>
  A request of a client or a key, with a fault in one of the system calls made
  for it: the first \<open>n\<close> calls succeed and the next one turns out as \<open>x\<close>.
\<close>

datatype vol_request = Client "nat option" "string option" | Key input_event

fun volume_step :: "vol \<Rightarrow> nat \<times> outcome \<times> vol_request \<Rightarrow> vol \<times> string" where
  "volume_step v (n, x, Client peer packet) = handle_client peer packet (v\<lparr>script := replicate n Done @ [x]\<rparr>)"
| "volume_step v (n, x, Key e) = (handle_key (v\<lparr>script := replicate n Done @ [x]\<rparr>) e, [])"

lemma with_script:
  "settled (v\<lparr>script := s\<rparr>) = settled v" "committed (v\<lparr>script := s\<rparr>) = committed v" "one_fault (v\<lparr>script := replicate n Done @ [x]\<rparr>)"
proof -
  show "settled (v\<lparr>script := s\<rparr>) = settled v"
    by (simp add: settled_def handles_ok_def card_ok_def in_range_def card_values_def no_temporaries_def)
  show "committed (v\<lparr>script := s\<rparr>) = committed v" by (simp add: committed_def shows_volume_def shows_value_def)
  show "one_fault (v\<lparr>script := replicate n Done @ [x]\<rparr>)" by (induction n) (simp_all add: one_fault_def)
qed

lemma handle_key_atomic:
  assumes "settled v" "committed v" "one_fault v"
  shows "settled (handle_key v e) \<and> committed (handle_key v e)"
  using process_command_atomic [OF assms prod.collapse [symmetric]] assms by (simp add: handle_key_def)

interpretation volume_machine: machine_inv volume_step "\<lambda>v. settled v \<and> committed v"
proof
  fix v and e :: "nat \<times> outcome \<times> vol_request"
  assume v: "settled v \<and> committed v"
  obtain n x r where e: "e = (n, x, r)" by (cases e)
  let ?u = "v\<lparr>script := replicate n Done @ [x]\<rparr>"
  have u: "settled ?u" "committed ?u" "one_fault ?u" using v by (simp_all add: with_script)
  show "settled (fst (volume_step v e)) \<and> committed (fst (volume_step v e))"
  proof (cases r)
    case (Client peer packet)
    then show ?thesis using handle_client_atomic [OF u prod.collapse [symmetric], of peer packet] e by simp
  next
    case (Key k)
    then show ?thesis using handle_key_atomic [OF u] e by simp
  qed
qed

section \<open>Restart\<close>

lemma read_file_calm:
  assumes "calm v"
  shows "snd (read_file bs (length bs) v) = Some bs \<and> calm (fst (read_file bs (length bs) v)) \<and>
    mixer_frame v (fst (read_file bs (length bs) v)) \<and> regs (fst (read_file bs (length bs) v)) = regs v"
proof (cases "bs = []")
  case True
  then show ?thesis using assms by (simp add: read_file.simps)
next
  case False
  obtain x v1 where n: "next_outcome v = (x, v1)" by fastforce
  have "x = Done" "calm v1" using next_outcome_cases(2) [OF n] assms by simp_all
  moreover have "read_file [] 0 v1 = (v1, Some [])" by (simp add: read_file.simps)
  moreover have "mixer_frame v v1" "regs v1 = regs v" using next_outcome_frame [of v] n by simp_all
  moreover have "read_file bs (length bs) v = (v1, Some bs)"
    using calculation(1,3) n False by (subst read_file.simps) (simp add: Let_def)
  ultimately show ?thesis by simp
qed

lemma settled_last: "settled (v\<lparr>last_nonzero := l\<rparr>) = settled v"
  by (simp add: settled_def handles_ok_def card_ok_def in_range_def card_values_def no_temporaries_def)

lemma load_saved_state:
  assumes "calm v" "state_ok vp m l"
    "persistent_dir v PERSISTENT_STATE_NAME = Some (saved_file Persistent (volume_text vp m l) (euid v))"
  shows "\<exists>v'. load_persistent_state v = (v', PERSISTENT_LOAD_VALID vp m l) \<and> calm v' \<and> mixer_frame v v' \<and> regs v' = regs v"
proof -
  let ?t = "volume_text vp m l"
  obtain v1 b1 where s1: "sys_call v = (v1, b1)" by fastforce
  obtain v2 b2 where s2: "sys_call v1 = (v2, b2)" by fastforce
  obtain v3 c where rd: "read_file ?t (length ?t) v2 = (v3, c)" by fastforce
  obtain v4 b4 where s4: "sys_call v3 = (v4, b4)" by fastforce
  have 1: "b1" "calm v1" "mixer_frame v v1" "regs v1 = regs v"
    using sys_call_faults(1) [OF assms(1)] sys_call_frame [of v] s1 by simp_all
  have 2: "b2" "calm v2" "mixer_frame v v2" "regs v2 = regs v"
    using sys_call_faults(1) [OF 1(2)] sys_call_frame [of v1] s2 1 mixer_frame_trans by auto
  have 3: "c = Some ?t" "calm v3" "mixer_frame v v3" "regs v3 = regs v"
    using read_file_calm [OF 2(2), of ?t] rd 2 mixer_frame_trans by auto
  have 4: "b4" "calm v4" "mixer_frame v v4" "regs v4 = regs v"
    using sys_call_faults(1) [OF 3(2)] sys_call_frame [of v3] s4 3 mixer_frame_trans by auto
  have "?t \<noteq> []" by (simp add: volume_text_def)
  moreover have "parse_persistent_state ?t = Some (vp, m, l)" using assms(2) by (simp add: parse_volume_text)
  ultimately have "load_persistent_state v = (v4, PERSISTENT_LOAD_VALID vp m l)"
    using 1 2 3 4 s1 s2 rd s4 assms(3) volume_text_length [OF assms(2)]
    by (simp add: load_persistent_state_def saved_file_def mixer_frame_fields)
  then show ?thesis using 4 by blast
qed

text \<open>
  C3: The volume survives a restart. From a state in which card, file and marker
  agree, after any sequence of client requests and key presses, each with at most
  one fault, a new daemon that finds the same durable directory, a working card
  and no left-over temporary files and meets no fault itself starts successfully
  and brings card, file and marker to the volume, the mute flag and the
  remembered volume that the old daemon had.
\<close>

theorem volume_survives_restart:
  assumes "settled v" "committed v" "old = run volume_step v es"
    and "calm r" "handles_ok r" "card_ok r" "no_temporaries Ui r" "persistent_dir r = persistent_dir old" "euid r = euid old"
  shows "\<exists>r'. initialize_audio_state r = (r', True) \<and> settled r' \<and> committed r' \<and>
    volume_percent r' = volume_percent old \<and> muted r' = muted old \<and> last_nonzero r' = last_nonzero old"
proof -
  have old: "settled old" "committed old" using volume_machine.run_invar [of v es] assms(1-3) by simp_all
  let ?vp = "volume_percent old" and ?m = "muted old" and ?l = "last_nonzero old"
  have ok: "state_ok ?vp ?m ?l" using old(2) by (simp add: committed_def)
  obtain r1 where load: "load_persistent_state r = (r1, PERSISTENT_LOAD_VALID ?vp ?m ?l)" "calm r1" "mixer_frame r r1" "regs r1 = regs r"
    using load_saved_state [OF assms(4) ok] old(2) assms(8,9) by (auto simp: committed_def)
  let ?u = "r1\<lparr>last_nonzero := ?l\<rparr>"
  have "settled r" using old(1) assms(5-8) by (simp add: settled_def no_temporaries_def)
  then have "settled r1"
    by (rule settled_same) (use load(3,4) in \<open>simp_all add: same_daemon_frames(2) mixer_frame_fields card_values_def\<close>)
  then have u: "settled ?u" "calm ?u" using load(2) by (simp_all add: settled_last calm_def)
  have args: "0 \<le> ?vp" "?vp \<le> 100" "?m = 0 \<or> ?m = 1" using ok by (auto simp: state_ok_def)
  obtain r' where r': "commit_state ?vp ?m ?u = (r', True)"
    using commit_state_calm [OF u args] by (cases "commit_state ?vp ?m ?u") auto
  have "initialize_audio_state r = (r', True)" using load(1) r' by (simp add: initialize_audio_state_def)
  moreover have "commit_mute ?vp ?m = ?m" "next_last ?vp ?u = ?l"
    using ok by (auto simp: state_ok_def commit_mute_def next_last_def Let_def)
  ultimately show ?thesis using commit_state_success [OF r'] commit_state_settled [OF r' u(1)] by auto
qed

theorem volume_survives_restart_witness:
  "let old = run volume_step example_vol [(3, Fail EIO, Client (Some 0) (Some ''set 25'')), (900, Done, Key \<lparr>ev_type = EV_KEY, ev_code = KEY_VOLUMEUP, ev_value = 1\<rparr>)];
       r = old\<lparr>script := [], initialized := False, volume_percent := 0, muted := 0, last_nonzero := 0\<rparr> in
   \<exists>r'. initialize_audio_state r = (r', True) \<and> volume_percent r' = volume_percent old"
proof -
  let ?es = "[(3, Fail EIO, Client (Some 0) (Some ''set 25'')), (900, Done, Key \<lparr>ev_type = EV_KEY, ev_code = KEY_VOLUMEUP, ev_value = 1\<rparr>)]"
  obtain old where old: "old = run volume_step example_vol ?es" by blast
  let ?r = "old\<lparr>script := [], initialized := False, volume_percent := 0, muted := 0, last_nonzero := 0\<rparr>"
  have s: "settled old" using volume_machine.run_invar [of example_vol ?es] example_vol_ready old by simp
  have "settled ?r = settled old"
    by (simp add: settled_def handles_ok_def card_ok_def in_range_def card_values_def no_temporaries_def)
  then have r: "calm ?r" "handles_ok ?r" "card_ok ?r" "no_temporaries Ui ?r"
    using s unfolding settled_def by (simp_all add: calm_def)
  show ?thesis using volume_survives_restart [OF example_vol_ready(1,2) old r] old by (auto simp: Let_def)
qed

section \<open>The event loop\<close>

text \<open>Whatever happens to the system calls, a failed commit leaves the daemon's own fields alone.\<close>

definition valid_state :: "vol \<Rightarrow> bool" where
  "valid_state v \<longleftrightarrow> initialized v \<and> state_ok (volume_percent v) (muted v) (last_nonzero v)"

lemma valid_state_same: "same_daemon v u \<Longrightarrow> valid_state u = valid_state v"
  by (simp add: same_daemon_def valid_state_def)

lemma rollback_same_daemon:
  assumes "valid_state old" "same_daemon old u"
  shows "same_daemon old (rollback old s mk pe u)"
proof -
  have ok: "state_ok (volume_percent old) (muted old) (last_nonzero old)" "initialized old" using assms(1) by (simp_all add: valid_state_def)
  have pm: "0 \<le> volume_percent old" "volume_percent old \<le> 100" "muted old = 0 \<or> muted old = 1" using ok(1) by (auto simp: state_ok_def)
  let ?v1 = "fst (restore_controls s u)"
  let ?v2 = "if mk then undo_marker old ?v1 else ?v1"
  let ?v3 = "if pe then undo_file old ?v2 else ?v2"
  have 1: "same_daemon old ?v1" using assms(2) same_daemon_frames(2,4) restore_controls_frame by blast
  have "file_frame Ui ?v1 ?v2" using publish_state_replaces [OF pm, of ?v1] ok(2) by (simp add: undo_marker_def replaces_def)
  then have 2: "same_daemon old ?v2" using 1 same_daemon_frames(3,4) by blast
  have "file_frame Persistent ?v2 ?v3" using persist_state_replaces [OF ok(1), of ?v2] ok(2) by (simp add: undo_file_def replaces_def)
  then have 3: "same_daemon old ?v3" using 2 same_daemon_frames(3,4) by blast
  show ?thesis using 3 by (simp add: rollback_def Let_def)
qed

lemma commit_state_valid:
  assumes "valid_state v"
  shows "valid_state (fst (commit_state vp m v))"
proof (cases "vp < 0 \<or> 100 < vp \<or> (m \<noteq> 0 \<and> m \<noteq> 1)")
  case True
  then show ?thesis using assms by (simp add: commit_state_def valid_state_def)
next
  case False
  let ?m = "commit_mute vp m" and ?l = "next_last vp v"
  have m: "0 \<le> vp" "vp \<le> 100" "?m = 0 \<or> ?m = 1" "vp = 0 \<longrightarrow> ?m = 1" using False by (auto simp: commit_mute_def)
  have ok: "state_ok vp ?m ?l" by (rule next_last_ok [OF m])
  obtain v1 s where s: "snapshot_controls v = (v1, s)" by fastforce
  obtain v2 ok2 where a: "apply_controls vp ?m v1 = (v2, ok2)" by fastforce
  obtain v3 ok3 where p: "persist_state vp ?m ?l v2 = (v3, ok3)" by fastforce
  obtain v4 ok4 where u: "publish_state vp ?m v3 = (v4, ok4)" by fastforce
  have s1: "same_daemon v v1" using snapshot_controls_spec(1) [OF s] by (rule same_daemon_frames(2))
  have "mixer_frame v1 v2" using apply_controls_frame [of v1 vp ?m] a by simp
  then have s2: "same_daemon v v2" using s1 same_daemon_frames(2,4) by blast
  have s3: "same_daemon v v3" using persist_state_replaces [OF ok, of v2] p s2 same_daemon_frames(3,4) unfolding replaces_def fst_conv by fastforce
  have s4: "same_daemon v v4" using publish_state_replaces [OF m(1-3), of v3] u s3 same_daemon_frames(3,4) unfolding replaces_def fst_conv by fastforce
  have fin: "valid_state (v4\<lparr>volume_percent := vp, muted := ?m, last_nonzero := ?l, initialized := True\<rparr>)" using ok by (simp add: valid_state_def)
  have old: "valid_state v1" "\<And>t mk pe. valid_state (rollback v t mk pe v2)" "\<And>t mk pe. valid_state (rollback v t mk pe v3)"
    "\<And>t mk pe. valid_state (rollback v t mk pe v4)"
    using assms valid_state_same [OF s1] valid_state_same [OF rollback_same_daemon [OF assms s2]]
      valid_state_same [OF rollback_same_daemon [OF assms s3]] valid_state_same [OF rollback_same_daemon [OF assms s4]]
    by simp_all
  have "commit_state vp m v = (case s of None \<Rightarrow> (v1, False) | Some t \<Rightarrow>
      if \<not> ok2 then (rollback v t False False v2, False) else if \<not> ok3 then (rollback v t False True v3, False)
      else if \<not> ok4 then (rollback v t True True v4, False)
      else (v4\<lparr>volume_percent := vp, muted := ?m, last_nonzero := ?l, initialized := True\<rparr>, True))"
    by (rule commit_state_paths) (use False s a p u in simp_all)
  then show ?thesis using old fin by (simp split: option.split)
qed

lemma process_command_valid: "valid_state v \<Longrightarrow> valid_state (fst (process_command v request))"
  by (cases rule: process_command_commits [of v request]) (simp_all add: commit_state_valid, simp add: valid_state_def)

lemma handle_client_valid: "valid_state v \<Longrightarrow> valid_state (fst (handle_client peer packet v))"
proof (cases rule: handle_client_cases [of peer packet v])
  case (served request v' ok e)
  then show "valid_state v \<Longrightarrow> ?thesis" using process_command_valid [of v request] by simp
qed simp

lemma handle_input_valid: "valid_state v \<Longrightarrow> valid_state (fst (handle_input rs v))"
proof (induction rs v rule: handle_input.induct)
  case (4 es rs v)
  have "valid_state (foldl handle_key v es)"
    using "4.prems" by (induction es arbitrary: v) (simp_all add: handle_key_def process_command_valid)
  then show ?case using 4 by (simp add: valid_state_def)
qed (simp_all add: valid_state_def)

definition accepted_fds :: "client_effect list \<Rightarrow> int list" where
  "accepted_fds fx = List.map_filter (\<lambda>e. case e of Accepted fd \<Rightarrow> Some fd | _ \<Rightarrow> None) fx"

definition closed_fds :: "client_effect list \<Rightarrow> int list" where
  "closed_fds fx = List.map_filter (\<lambda>e. case e of Closed fd \<Rightarrow> Some fd | _ \<Rightarrow> None) fx"

definition held_slots :: "int list \<Rightarrow> int multiset" where
  "held_slots cs = mset (filter (\<lambda>c. 0 \<le> c) cs)"

lemma accepted_closed_simps [simp]:
  "accepted_fds [] = []" "accepted_fds (Accepted fd # fx) = fd # accepted_fds fx" "accepted_fds (Closed fd # fx) = accepted_fds fx" "accepted_fds (Sent fd m # fx) = accepted_fds fx"
  "closed_fds [] = []" "closed_fds (Accepted fd # fx) = closed_fds fx" "closed_fds (Closed fd # fx) = fd # closed_fds fx" "closed_fds (Sent fd m # fx) = closed_fds fx"
  "accepted_fds (fx @ gx) = accepted_fds fx @ accepted_fds gx" "closed_fds (fx @ gx) = closed_fds fx @ closed_fds gx"
  by (simp_all add: accepted_fds_def closed_fds_def List.map_filter_def)

text \<open>The effects account for the change of the slots.\<close>

definition balanced :: "int list \<Rightarrow> client_effect list \<Rightarrow> int list \<Rightarrow> bool" where
  "balanced cs fx cs' \<longleftrightarrow> length cs' = length cs \<and> mset (accepted_fds fx) + held_slots cs = mset (closed_fds fx) + held_slots cs'"

lemma store_client_balanced:
  "store_client (int fd) cs = Some cs' \<Longrightarrow> length cs' = length cs \<and> held_slots cs' = add_mset (int fd) (held_slots cs)"
  by (induction cs arbitrary: cs') (auto simp: held_slots_def split: if_splits)

lemma balanced_accepted:
  "balanced cs1 fx cs2 \<Longrightarrow> length cs1 = length cs \<Longrightarrow> held_slots cs1 = add_mset fd (held_slots cs) \<Longrightarrow> balanced cs (Accepted fd # fx) cs2"
  by (simp add: balanced_def)

lemma balanced_refused: "balanced cs fx cs2 \<Longrightarrow> balanced cs ([Accepted fd, Sent fd t, Closed fd] @ fx) cs2"
  by (simp add: balanced_def)

lemma accept_loop_balanced: "balanced cs (fst (snd (accept_loop as cs))) (fst (accept_loop as cs))"
proof (induction as cs rule: accept_loop.induct)
  case (3 fd as cs)
  show ?case
  proof (cases "store_client (int fd) cs")
    case None
    then show ?thesis using "3.IH"(1) [OF None] balanced_refused by (simp add: split_beta)
  next
    case (Some cs1)
    then show ?thesis using "3.IH"(2) [OF Some] balanced_accepted store_client_balanced [OF Some] by (simp add: split_beta)
  qed
qed (simp_all add: balanced_def)

lemma balanced_kept: "balanced cs fx ds \<Longrightarrow> balanced (c # cs) fx (c # ds)"
  by (simp add: balanced_def held_slots_def)

lemma balanced_served:
  "balanced cs fx ds \<Longrightarrow> 0 \<le> c \<Longrightarrow> balanced (c # cs) (Closed c # fx) (- 1 # ds)" "balanced cs fx ds \<Longrightarrow> balanced cs (Sent c r # fx) ds"
  by (simp_all add: balanced_def held_slots_def)

lemma serve_clients_balanced:
  "valid_state v \<Longrightarrow> valid_state (fst (serve_clients ps cs v)) \<and>
   balanced cs (snd (snd (serve_clients ps cs v))) (fst (snd (serve_clients ps cs v)))"
proof (induction ps cs arbitrary: v rule: list_induct2')
  case (4 p ps c cs)
  let ?h = "handle_client (cp_peer p) (cp_packet p) v"
  have h: "valid_state (fst ?h)" by (rule handle_client_valid [OF "4.prems"])
  consider (kept) "c < 0 \<or> \<not> cp_any p" | (answered) "\<not> (c < 0 \<or> \<not> cp_any p)" "cp_in p" | (dropped) "\<not> (c < 0 \<or> \<not> cp_any p)" "\<not> cp_in p" by blast
  then show ?case
  proof cases
    case kept
    then show ?thesis using "4.IH" [OF "4.prems"] balanced_kept by (simp add: split_beta)
  next
    case answered
    then show ?thesis using "4.IH" [OF h] balanced_served by (simp add: split_beta)
  next
    case dropped
    then show ?thesis using "4.IH" [OF "4.prems"] balanced_served by (simp add: split_beta)
  qed
qed (simp_all add: balanced_def)

lemma balanced_trans: "balanced cs fx ds \<Longrightarrow> balanced ds gx es \<Longrightarrow> balanced cs (fx @ gx) es"
proof -
  assume b: "balanced cs fx ds" "balanced ds gx es"
  then have "mset (accepted_fds fx) + held_slots cs = mset (closed_fds fx) + held_slots ds"
    "mset (accepted_fds gx) + held_slots ds = mset (closed_fds gx) + held_slots es" by (simp_all add: balanced_def)
  then have "mset (accepted_fds fx) + held_slots cs + mset (accepted_fds gx) = mset (closed_fds fx) + (mset (closed_fds gx) + held_slots es)"
    by (simp add: ac_simps)
  then show ?thesis using b by (simp add: balanced_def ac_simps)
qed

lemma event_round_balanced:
  assumes "valid_state v" "event_round p (v, cs) = ((v', cs'), fx, go)"
  shows "valid_state v' \<and> balanced cs fx cs'"
proof -
  have refl: "balanced cs [] cs" by (simp add: balanced_def)
  obtain v1 ok1 where i: "(if input_in p then handle_input (input_reads p) v else (v, True)) = (v1, ok1)" by fastforce
  have v1: "valid_state v1" using i handle_input_valid [OF assms(1), of "input_reads p"] assms(1) by (cases "input_in p") auto
  then have v1e: "valid_state (v1\<lparr>errno := e\<rparr>)" for e by (simp add: valid_state_def)
  obtain cs1 fx1 ok2 where a: "(if listen_in p then accept_loop (accepts p) cs else (cs, [], True)) = (cs1, fx1, ok2)" by (rule prod_cases3)
  have a1: "balanced cs fx1 cs1" using a accept_loop_balanced [of cs "accepts p"] refl by (cases "listen_in p") auto
  let ?polls = "map2 (\<lambda>c q. if c < 0 then q\<lparr>cp_in := False, cp_any := False\<rparr> else q) cs (client_polls p)"
  obtain v2 cs2 fx2 where s: "serve_clients ?polls cs1 v1 = (v2, cs2, fx2)" by (rule prod_cases3)
  have s2: "valid_state v2" "balanced cs1 fx2 cs2" using serve_clients_balanced [OF v1, of ?polls cs1] s by simp_all
  have round: "event_round p (v, cs) = (case poll_result p of Some e \<Rightarrow> ((v, cs), [], e = EINTR) | None \<Rightarrow>
      if \<not> ok1 then ((v1, cs), [], False) else if input_bad p then ((v1\<lparr>errno := ENODEV\<rparr>, cs), [], False)
      else if listen_bad p then ((v1\<lparr>errno := EIO\<rparr>, cs), [], False) else if \<not> ok2 then ((v1, cs1), fx1, False)
      else ((v2, cs2), fx1 @ fx2, True))"
    by (simp only: event_round_def Let_def prod.case i a s) (simp split: option.split)
  have sound: "valid_state (fst (fst r)) \<and> balanced cs (fst (snd r)) (snd (fst r))" if "r = event_round p (v, cs)" for r
    unfolding that round using assms(1) v1 v1e refl a1 s2(1) balanced_trans [OF a1 s2(2)] by (simp split: option.split)
  show ?thesis using sound [OF assms(2) [symmetric]] by simp
qed

text \<open>Rounds of the loop with the effects so far; the slots start free.\<close>

definition loop_step :: "(vol \<times> int list) \<times> client_effect list \<Rightarrow> poll_answer \<Rightarrow> ((vol \<times> int list) \<times> client_effect list) \<times> bool" where
  "loop_step s p = (let (st, fx, go) = event_round p (fst s) in ((st, snd s @ fx), go))"

definition free_slots :: "int list" where
  "free_slots = replicate MAX_CLIENTS (- 1)"

definition loop_ok :: "(vol \<times> int list) \<times> client_effect list \<Rightarrow> bool" where
  "loop_ok s \<longleftrightarrow> valid_state (fst (fst s)) \<and> balanced free_slots (snd s) (snd (fst s))"

interpretation volume_loop: machine_inv loop_step loop_ok
proof
  fix s p
  assume ok: "loop_ok s"
  obtain v cs log where s: "s = ((v, cs), log)" by (cases s) auto
  obtain v' cs' fx go where e: "event_round p (v, cs) = ((v', cs'), fx, go)" by (metis prod.collapse)
  show "loop_ok (fst (loop_step s p))"
    using event_round_balanced [OF _ e] ok balanced_trans [of free_slots log cs fx cs']
    by (simp add: s loop_step_def loop_ok_def e)
qed

text \<open>
  C33: The event loop keeps its promises under every fault. Whatever input,
  connections, requests and failures of system calls the rounds bring, the
  volume, mute flag and remembered volume stay a valid state, there are always
  eight slots, and every accepted connection is either closed or held in a slot,
  exactly once.
\<close>

theorem volume_loop_keeps_clients:
  assumes "valid_state v" "run loop_step ((v, free_slots), []) ps = ((v', cs), log)"
  shows "valid_state v' \<and> length cs = MAX_CLIENTS \<and> mset (accepted_fds log) = mset (closed_fds log) + mset (filter (\<lambda>c. 0 \<le> c) cs)"
proof -
  have "loop_ok ((v, free_slots), [])" using assms(1) by (simp add: loop_ok_def balanced_def)
  then have "loop_ok ((v', cs), log)" using volume_loop.run_invar [of "((v, free_slots), [])" ps] assms(2) by simp
  then show ?thesis by (simp add: loop_ok_def balanced_def free_slots_def held_slots_def filter_replicate)
qed

theorem volume_loop_keeps_clients_witness:
  "valid_state example_vol \<and>
   (let poll = \<lparr>poll_result = None, input_in = False, input_bad = False, listen_in = True, listen_bad = False, input_reads = [],
      accepts = [Connection 9, Accept_Error EINTR, Connection 11, Accept_Error EAGAIN], client_polls = []\<rparr> in
    mset (accepted_fds (snd (run loop_step ((example_vol, free_slots), []) [poll]))) = {#9, 11#})"
proof -
  let ?poll = "\<lparr>poll_result = None, input_in = False, input_bad = False, listen_in = True, listen_bad = False, input_reads = [],
      accepts = [Connection 9, Accept_Error EINTR, Connection 11, Accept_Error EAGAIN], client_polls = []\<rparr>"
  have v: "valid_state example_vol" using example_vol_ready(2) by (simp add: committed_def valid_state_def)
  have r: "run loop_step ((example_vol, free_slots), []) [?poll] =
    ((example_vol, [9, 11, - 1, - 1, - 1, - 1, - 1, - 1]), [Accepted 9, Accepted 11])"
    by (simp add: loop_step_def event_round_def free_slots_def MAX_CLIENTS_def numeral_eq_Suc)
  show ?thesis using v volume_loop_keeps_clients [OF v r] r by (simp add: Let_def)
qed

section \<open>The remembered volume\<close>

lemma set_digits_exact:
  "x \<le> 100 \<Longrightarrow> set_digits ds x = (if (\<forall>c\<in>set ds. isdigit c) \<and> foldl (\<lambda>acc c. 10 * acc + (byte c - 48)) (unat x) ds \<le> 100
     then Some (of_nat (foldl (\<lambda>acc c. 10 * acc + (byte c - 48)) (unat x) ds)) else None)"
proof (induction ds arbitrary: x)
  case (Cons c ds)
  let ?y = "x * 10 + of_nat (byte c - 48)"
  show ?case
  proof (cases "isdigit c")
    case True
    have x: "unat x \<le> 100" using Cons.prems by (simp add: word_le_nat_alt)
    have step: "unat (x * 10 + of_nat d) = 10 * unat x + d" if "d \<le> 9" for d
      using that x by (simp add: unat_word_ariths unat_of_nat take_bit_nat_def)
    define y where "y = ?y"
    have y: "unat y = 10 * unat x + (byte c - 48)" unfolding y_def by (rule step) (use True in \<open>auto simp: isdigit_def\<close>)
    have eq: "set_digits (c # ds) x = (if 100 < y then None else set_digits ds y)"
      using True by (auto simp: isdigit_def y_def Let_def)
    have grow: "a \<le> foldl (\<lambda>acc c. 10 * acc + (byte c - 48)) a es" for a :: nat and es
    proof (induction es arbitrary: a)
      case (Cons e es)
      show ?case using Cons [of "10 * a + (byte e - 48)"] by simp
    qed simp
    show ?thesis
    proof (cases "y \<le> 100")
      case True
      then show ?thesis unfolding eq using \<open>isdigit c\<close> Cons.IH [OF True] y by (simp add: not_less [symmetric])
    next
      case False
      then have "100 < foldl (\<lambda>acc c. 10 * acc + (byte c - 48)) (unat y) ds"
        using grow [of "unat y" ds] by (simp add: word_le_nat_alt)
      then show ?thesis unfolding eq using False by (simp add: y [symmetric] not_le)
    qed
  next
    case False
    then show ?thesis by (auto simp: isdigit_def)
  qed
qed (simp add: word_le_nat_alt)

text \<open>
  The volume in a "set" request is read exactly. A request is accepted if
  and only if decimal digits that denote at most 100 follow the word; the value
  is then the number they denote. In particular the 32-bit arithmetic never
  wraps, however many digits there are.
\<close>

theorem set_request_exact:
  "parse_set_request (''set '' @ ds) =
    (if ds \<noteq> [] \<and> (\<forall>c\<in>set ds. isdigit c) \<and> digits_value ds \<le> 100 then Some (int (digits_value ds)) else None)"
proof -
  have "uint (of_nat n :: u32) = int n" if "n \<le> 100" for n
    using that by (simp add: unsigned_of_nat take_bit_nat_eq_self)
  then show ?thesis by (simp add: parse_set_request_def set_digits_exact digits_value_def)
qed

text \<open>The commands that change the volume, without faults.\<close>

lemma commit_calm_result:
  assumes "settled v" "calm v" "0 \<le> vp" "vp \<le> 100" "m = 0 \<or> m = 1"
  obtains v' where "commit_state vp m v = (v', True)" "settled v'" "calm v'" "committed v'" "volume_percent v' = vp"
    "muted v' = commit_mute vp m" "last_nonzero v' = next_last vp v"
proof -
  obtain v' where run: "commit_state vp m v = (v', True)" "calm v'"
    using commit_state_calm [OF assms] by (cases "commit_state vp m v") auto
  show ?thesis using that [of v'] run commit_state_success [OF run(1)] commit_state_settled [OF run(1) assms(1)] by simp
qed

text \<open>
  Silence is not forgotten. When a daemon at a volume above zero is set to 0
  and then un-muted, both commands succeed and the volume is the one from before.
\<close>

theorem unmute_restores_volume:
  assumes "settled v" "calm v" "valid_state v" "0 < volume_percent v"
  shows "\<exists>v1 v2. process_command v ''set 0'' = (v1, True) \<and> volume_percent v1 = 0 \<and> muted v1 = 1 \<and>
    process_command v1 ''mute-toggle'' = (v2, True) \<and> volume_percent v2 = volume_percent v \<and> muted v2 = 0"
proof -
  have l: "last_nonzero v = volume_percent v" "volume_percent v \<le> 100" using assms(3,4) by (auto simp: valid_state_def state_ok_def)
  have p: "parse_set_request ''set 0'' = Some 0" by (simp add: parse_set_request_def)
  obtain v1 where 1: "commit_state 0 1 v = (v1, True)" "settled v1" "calm v1" "volume_percent v1 = 0" "muted v1 = 1"
    "last_nonzero v1 = next_last 0 v"
    using commit_calm_result [OF assms(1,2), of 0 1] by (auto simp: commit_mute_def)
  have l1: "last_nonzero v1 = volume_percent v" using 1(6) l assms(4) by (simp add: next_last_def Let_def)
  obtain v2 where 2: "commit_state (volume_percent v) 0 v1 = (v2, True)" "volume_percent v2 = volume_percent v" "muted v2 = 0"
    using commit_calm_result [OF 1(2,3), of "volume_percent v" 0] l assms(4) by (auto simp: commit_mute_def)
  have "process_command v ''set 0'' = (v1, True)" using 1(1) p by (simp add: process_command_def Let_def)
  moreover have "process_command v1 ''mute-toggle'' = (v2, True)" using 2(1) 1(4,5) l1 by (simp add: process_command_def Let_def)
  ultimately show ?thesis using 1 2 by blast
qed

theorem unmute_restores_volume_witness:
  "let v = example_vol\<lparr>script := []\<rparr> in volume_percent v = 60 \<and>
    (\<exists>v1 v2. process_command v ''set 0'' = (v1, True) \<and> process_command v1 ''mute-toggle'' = (v2, True) \<and> volume_percent v2 = 60)"
proof -
  have c: "committed (example_vol\<lparr>script := []\<rparr>)" "settled (example_vol\<lparr>script := []\<rparr>)" using example_vol_ready by (simp_all add: with_script)
  then have v: "valid_state (example_vol\<lparr>script := []\<rparr>)" "calm (example_vol\<lparr>script := []\<rparr>)" by (simp_all add: committed_def valid_state_def calm_def)
  have p: "volume_percent (example_vol\<lparr>script := []\<rparr>) = 60" by (simp add: example_vol_def)
  show ?thesis using unmute_restores_volume [OF c(2) v(2,1)] p by (auto simp: Let_def)
qed

section \<open>A cold start that fails\<close>

text \<open>
  At the first commit after a start there is no earlier state of this daemon, so
  the rollback removes the durable file, also when it held a valid volume of the
  previous run: the next start falls back to the default.
\<close>

lemma undo_file_cold:
  assumes "\<not> initialized old" "calm v"
  shows "persistent_dir (undo_file old v) PERSISTENT_STATE_NAME = None"
proof -
  obtain v1 b1 where s1: "sys_call v = (v1, b1)" by fastforce
  have 1: b1 "calm v1" using sys_call_faults(1) [OF assms(2)] s1 by simp_all
  have "persistent_dir (fst (sys_call u)) = persistent_dir u" for u using sys_call_frame(1) [of u] by (simp add: mixer_frame_fields)
  then show ?thesis using assms(1) 1 s1 by (auto simp: undo_file_def unlink_file_def split: prod.splits)
qed

lemma failed_cold_start_forgets:
  assumes v: "settled v" "one_fault v" "\<not> initialized v" and args: "0 \<le> vp" "vp \<le> 100" "m = 0 \<or> m = 1"
    and s: "snapshot_controls v = (v1, Some s)" and a: "apply_controls vp (commit_mute vp m) v1 = (v2, True)"
    and p: "persist_state vp (commit_mute vp m) (next_last vp v) v2 = (v3, False)"
  shows "persistent_dir (fst (commit_state vp m v)) PERSISTENT_STATE_NAME = None"
proof -
  let ?m = "commit_mute vp m"
  obtain v4 ok4 where u: "publish_state vp ?m v3 = (v4, ok4)" by fastforce
  have c: "commit_state vp m v = (rollback v s False True v3, False)" using commit_state_paths [OF args s a p u] by simp
  have ok: "state_ok vp ?m (next_last vp v)" by (rule next_last_ok) (use args in \<open>auto simp: commit_mute_def\<close>)
  note S = snapshot_controls_spec [OF s]
  have h1: "handles_ok v1" using v(1) handles_ok_frame [OF S(1)] by (simp add: settled_def)
  have f2: "mixer_frame v v2" using S(1) apply_controls_frame [of v1 vp ?m] a mixer_frame_trans by (metis fst_conv)
  have "one_fault v2" using tolerantD(3) [OF tolerant_apply_controls [OF args(2), of ?m] h1] S(3) v(2) a by simp
  moreover have "no_temporaries Persistent v2" using v(1) mixer_frame_no_temporaries [OF f2] by (simp add: settled_def)
  ultimately have c3: "calm v3" "controls v3 = controls v"
    using persist_state_replaces [OF ok, of v2] p f2 by (auto simp: replaces_def file_frame_def mixer_frame_fields)
  have "calm (fst (restore_controls s v3))"
    using restore_controls_calm [OF c3(1) _ c3(2)] S(5) v(1) by (simp add: settled_def)
  then show ?thesis using undo_file_cold [OF v(3)] c by (simp add: rollback_def Let_def)
qed

end
