(* ===== verification/Volume_Start.thy ===== *)
theory Volume_Start
  imports Volume_Service
begin

unbundle bit_operations_syntax

text \<open>
  Starting the volume daemon: its directories and socket, and what the runtime
  marker means while the first transaction is not complete.
\<close>

section \<open>Preparing the runtime\<close>

text \<open>What \<^verbatim>\<open>lstat\<close> says of a directory; a link is not a directory.\<close>

record dir_status =
  ds_directory :: bool
  ds_uid :: nat
  ds_mode :: nat

text \<open>\<^verbatim>\<open>mkdir\<close> makes the directory if nothing has its name; the second result is what is there afterwards.\<close>

definition ensure_directory :: "dir_status option \<Rightarrow> nat \<Rightarrow> vol \<Rightarrow> vol \<times> dir_status option \<times> bool" where
  "ensure_directory d mode v =
    (let check = (\<lambda>v1 d1. case sys_call v1 of (v2, ok) \<Rightarrow>
       if ok \<and> (case d1 of None \<Rightarrow> False | Some s \<Rightarrow> ds_directory s \<and> ds_uid s = euid v2 \<and> ds_mode s AND 18 = 0) then (v2, d1, True)
       else (v2\<lparr>errno := EACCES\<rparr>, d1, False)) in
     case next_outcome v of
       (Fail e, v1) \<Rightarrow> if e \<noteq> EEXIST then (v1\<lparr>errno := e\<rparr>, d, False) else check (v1\<lparr>errno := e\<rparr>) d
     | (_, v1) \<Rightarrow> check v1 (if d = None then Some \<lparr>ds_directory = True, ds_uid = euid v1, ds_mode = mode\<rparr> else d))"

definition prepare_persistent_directory :: "dir_status option \<Rightarrow> vol \<Rightarrow> vol \<times> bool" where
  "prepare_persistent_directory d v =
    (case ensure_directory d (7 * 64) v of
       (v1, d1, False) \<Rightarrow> (v1, False)
     | (v1, d1, True) \<Rightarrow> (case sys_call v1 of
         (v2, False) \<Rightarrow> (v2\<lparr>errno := EACCES\<rparr>, False)
       | (v2, True) \<Rightarrow> (case sys_call v2 of (v3, ok) \<Rightarrow>
           if ok \<and> (case d1 of None \<Rightarrow> False | Some s \<Rightarrow> ds_directory s \<and> ds_uid s = euid v3 \<and> ds_mode s mod 4096 = 7 * 64) then (v3, True)
           else ((fst (sys_call v3))\<lparr>errno := EACCES\<rparr>, False))))"

text \<open>The directories before the start, and what has the name of the socket: whether it is a socket, and its owner.\<close>

record runtime_files =
  run_status :: "dir_status option"
  ui_status :: "dir_status option"
  persistent_status :: "dir_status option"
  socket_status :: "(bool \<times> nat) option"

text \<open>Removing the old marker, which need not exist.\<close>

definition remove_marker :: "vol \<Rightarrow> vol \<times> bool" where
  "remove_marker v = (case unlink_file Ui MARKER_NAME v of (v1, ok) \<Rightarrow> (v1, ok \<or> errno v1 = ENOENT))"

definition remove_socket :: "(bool \<times> nat) option \<Rightarrow> vol \<Rightarrow> vol \<times> bool" where
  "remove_socket s v =
    (case sys_call v of
       (v1, False) \<Rightarrow> (v1, errno v1 = ENOENT)
     | (v1, True) \<Rightarrow> (case s of
         None \<Rightarrow> (v1\<lparr>errno := ENOENT\<rparr>, True)
       | Some (is_socket, uid) \<Rightarrow> if \<not> is_socket \<or> uid \<noteq> euid v1 then (v1\<lparr>errno := EEXIST\<rparr>, False) else sys_call v1))"

text \<open>The last four calls are \<^verbatim>\<open>socket\<close>, \<^verbatim>\<open>bind\<close>, \<^verbatim>\<open>chmod\<close> and \<^verbatim>\<open>listen\<close>.\<close>

definition prepare_runtime :: "runtime_files \<Rightarrow> vol \<Rightarrow> vol \<times> bool" where
  "prepare_runtime fs v =
    (case ensure_directory (run_status fs) (7 * 64 + 5 * 8) v of
       (v1, _, False) \<Rightarrow> (v1, False)
     | (v1, _, True) \<Rightarrow> (case ensure_directory (ui_status fs) (7 * 64 + 5 * 8 + 5) v1 of
         (v2, _, False) \<Rightarrow> (v2, False)
       | (v2, _, True) \<Rightarrow>
         andthen (prepare_persistent_directory (persistent_status fs)) (andthen sys_call (andthen remove_marker (andthen sys_call
           (andthen (remove_socket (socket_status fs)) (andthen sys_call (andthen sys_call (andthen sys_call sys_call))))))) v2))"

text \<open>The start of \<^verbatim>\<open>main\<close> up to the event loop; the daemon's fields are zero at first.\<close>

definition start_state :: "vol \<Rightarrow> vol" where
  "start_state v =
    v\<lparr>volume_percent := 0, muted := 0, last_nonzero := 0, initialized := False, marker_sequence := 0, persistent_sequence := 0\<rparr>"

definition volume_start :: "input_entry list \<Rightarrow> vol_errno option \<Rightarrow> vol_errno + card \<Rightarrow> runtime_files \<Rightarrow> vol \<Rightarrow> vol \<times> bool" where
  "volume_start entries fault c fs v0 =
    (let v = start_state v0 in
     case open_volume_input entries fault of
       (Inl e, _) \<Rightarrow> (v\<lparr>errno := e\<rparr>, False)
     | (Inr fd, _) \<Rightarrow> (case open_production_mixer c of
         Inl e \<Rightarrow> (v\<lparr>errno := e\<rparr>, False)
       | Inr h \<Rightarrow> andthen (prepare_runtime fs) initialize_audio_state (v\<lparr>controls := h\<rparr>)))"

section \<open>Calls that leave the files alone\<close>

definition quiet :: "vol \<Rightarrow> vol \<Rightarrow> bool" where
  "quiet v u \<longleftrightarrow> mixer_frame v u \<and> regs u = regs v \<and> (one_fault v \<longrightarrow> one_fault u) \<and> set (script u) \<subseteq> set (script v)"

lemma quiet_refl [simp]: "quiet v v"
  by (simp add: quiet_def)

lemma quiet_trans: "quiet u v \<Longrightarrow> quiet v w \<Longrightarrow> quiet u w"
  unfolding quiet_def using mixer_frame_trans [of u v w] by auto

lemma quiet_errno [simp]: "quiet v (u\<lparr>errno := e\<rparr>) = quiet v u" "quiet (v\<lparr>errno := e\<rparr>) u = quiet v u"
  by (simp_all add: quiet_def mixer_frame_def)

lemma next_outcome_quiet: "quiet v (snd (next_outcome v))"
  using next_outcome_cases(3) [OF prod.collapse [symmetric], of v] next_outcome_frame [of v]
  by (auto simp: quiet_def next_outcome_def split: list.splits)

lemma sys_call_quiet: "quiet v (fst (sys_call v))"
  using next_outcome_quiet [of v] by (auto simp: sys_call_def split: prod.splits outcome.splits)

lemma andthen_quiet: "(\<And>v. quiet v (fst (f v))) \<Longrightarrow> (\<And>v. quiet v (fst (g v))) \<Longrightarrow> quiet v (fst (andthen f g v))"
  by (auto simp: andthen_def split: prod.splits bool.splits) (metis fst_conv quiet_trans)+

lemma read_file_quiet: "quiet v (fst (read_file bs n v))"
proof (induction bs n v rule: read_file.induct)
  case (1 bs wanted v)
  obtain x v1 where n: "next_outcome v = (x, v1)" by fastforce
  have q: "quiet v v1" using next_outcome_quiet [of v] n by simp
  have more: "quiet v (fst (case read_file cs k v1 of (v2, None) \<Rightarrow> (v2, None) | (v2, Some rest) \<Rightarrow> (v2, Some (f rest))))"
    if "quiet v1 (fst (read_file cs k v1))" for cs k and f :: "string \<Rightarrow> string"
    using that quiet_trans [OF q] by (auto split: prod.splits option.splits)
  show ?case
    using n q 1 more quiet_trans [OF q] by (subst read_file.simps) (auto simp: Let_def split: outcome.split)
qed

lemma load_quiet: "quiet v (fst (load_persistent_state v))"
proof -
  obtain v1 b1 where s1: "sys_call v = (v1, b1)" by fastforce
  obtain v2 b2 where s2: "sys_call v1 = (v2, b2)" by fastforce
  have q: "quiet v v1" "quiet v1 v2" using sys_call_quiet [of v] sys_call_quiet [of v1] s1 s2 by simp_all
  have q2: "quiet v v2" using q by (rule quiet_trans)
  have closed: "quiet v (fst (sys_call u))" if "quiet v u" for u using that sys_call_quiet quiet_trans by blast
  have body: "quiet v (fst (case read_file bs n v2 of (v3, None) \<Rightarrow> ((fst (sys_call v3))\<lparr>errno := EIO\<rparr>, PERSISTENT_LOAD_INVALID)
      | (v3, Some contents) \<Rightarrow> (case sys_call v3 of (v4, False) \<Rightarrow> (v4, PERSISTENT_LOAD_INVALID)
         | (v4, True) \<Rightarrow> (case parse_persistent_state contents of None \<Rightarrow> (v4\<lparr>errno := EINVAL\<rparr>, PERSISTENT_LOAD_INVALID)
            | Some (vp, m, l) \<Rightarrow> (v4, PERSISTENT_LOAD_VALID vp m l)))))" for bs n
  proof -
    obtain v3 c where r: "read_file bs n v2 = (v3, c)" by fastforce
    have q3: "quiet v v3" using read_file_quiet [of v2 bs n] r quiet_trans [OF q2] by simp
    obtain v4 b where s: "sys_call v3 = (v4, b)" by fastforce
    have "quiet v v4" using closed [OF q3] s by simp
    then show ?thesis using r s by (cases c; cases b) (auto split: option.split)
  qed
  show ?thesis
    using q q2 closed [OF q2] body s1 s2 by (cases b1; cases "persistent_dir v1 PERSISTENT_STATE_NAME") (simp_all add: load_persistent_state_def)
qed

lemma ensure_directory_quiet: "quiet v (fst (ensure_directory d mode v))"
proof -
  obtain x v1 where n: "next_outcome v = (x, v1)" by fastforce
  have q: "quiet v v1" using next_outcome_quiet [of v] n by simp
  have q2: "quiet v u" if "sys_call v1 = (u, b) \<or> sys_call (v1\<lparr>errno := e\<rparr>) = (u, b)" for u b e
    using that quiet_trans [OF q, of u] sys_call_quiet [of v1] sys_call_quiet [of "v1\<lparr>errno := e\<rparr>"] by auto
  then show ?thesis using n q by (cases x) (auto simp: ensure_directory_def Let_def split: prod.splits if_splits)
qed

lemma prepare_persistent_quiet: "quiet v (fst (prepare_persistent_directory d v))"
proof -
  obtain v1 d1 b1 where e: "ensure_directory d (7 * 64) v = (v1, d1, b1)" by (rule prod_cases3)
  obtain v2 b2 where s2: "sys_call v1 = (v2, b2)" by fastforce
  obtain v3 b3 where s3: "sys_call v2 = (v3, b3)" by fastforce
  have q1: "quiet v v1" using ensure_directory_quiet [of v d "7 * 64"] e by simp
  have q2: "quiet v v2" using quiet_trans [OF q1] sys_call_quiet [of v1] s2 by simp
  have q3: "quiet v v3" using quiet_trans [OF q2] sys_call_quiet [of v2] s3 by simp
  have q4: "quiet v (fst (sys_call v3))" using quiet_trans [OF q3 sys_call_quiet] .
  show ?thesis using e s2 s3 q1 q2 q3 q4 by (cases b1; cases b2) (simp_all add: prepare_persistent_directory_def)
qed

lemma remove_socket_quiet: "quiet v (fst (remove_socket s v))"
proof -
  obtain v1 b1 where s1: "sys_call v = (v1, b1)" by fastforce
  have q1: "quiet v v1" using sys_call_quiet [of v] s1 by simp
  show ?thesis using s1 q1 quiet_trans [OF q1 sys_call_quiet] by (cases b1; cases s) (auto simp: remove_socket_def)
qed

section \<open>The marker\<close>

text \<open>A successful preparation removed the old marker; no call may report that an existing file is missing.\<close>

lemma remove_marker_effect:
  assumes "remove_marker v = (v', True)" "Fail ENOENT \<notin> set (script v)"
  shows "ui_dir v' = (ui_dir v)(MARKER_NAME := None)" "persistent_dir v' = persistent_dir v" "regs v' = regs v" "controls v' = controls v"
    "initialized v' = initialized v" "euid v' = euid v" "one_fault v \<Longrightarrow> one_fault v'"
proof -
  obtain v1 b where s: "sys_call v = (v1, b)" by fastforce
  have q: "quiet v v1" using sys_call_quiet [of v] s by simp
  have e: "errno v1 \<noteq> ENOENT" if "\<not> b"
    using s that assms(2) by (auto simp: sys_call_def next_outcome_def split: list.splits outcome.splits)
  note f = q [unfolded quiet_def] mixer_frame_fields [of v v1]
  show "ui_dir v' = (ui_dir v)(MARKER_NAME := None)"
    using assms(1) s f e by (cases b) (auto simp: remove_marker_def unlink_file_def fun_eq_iff split: if_splits)
  show "persistent_dir v' = persistent_dir v" "regs v' = regs v" "controls v' = controls v" "initialized v' = initialized v"
    "euid v' = euid v" "one_fault v \<Longrightarrow> one_fault v'"
    using assms(1) s f e by (cases b; auto simp: remove_marker_def unlink_file_def one_fault_def split: if_splits)+
qed

lemma prepare_runtime_effect:
  assumes "prepare_runtime fs v = (v', True)" "Fail ENOENT \<notin> set (script v)"
  shows "ui_dir v' = (ui_dir v)(MARKER_NAME := None)" "persistent_dir v' = persistent_dir v" "regs v' = regs v" "controls v' = controls v"
    "initialized v' = initialized v" "euid v' = euid v" "one_fault v \<Longrightarrow> one_fault v'"
proof -
  obtain v1 d1 b1 where e1: "ensure_directory (run_status fs) (7 * 64 + 5 * 8) v = (v1, d1, b1)" by (rule prod_cases3)
  obtain v2 d2 b2 where e2: "ensure_directory (ui_status fs) (7 * 64 + 5 * 8 + 5) v1 = (v2, d2, b2)" by (rule prod_cases3)
  obtain v3 b3 where p3: "prepare_persistent_directory (persistent_status fs) v2 = (v3, b3)" by fastforce
  obtain v4 b4 where s4: "sys_call v3 = (v4, b4)" by fastforce
  obtain v5 b5 where m5: "remove_marker v4 = (v5, b5)" by fastforce
  let ?rest = "andthen sys_call (andthen (remove_socket (socket_status fs)) (andthen sys_call (andthen sys_call (andthen sys_call sys_call))))"
  have path: b1 b2 b3 b4 b5 "?rest v5 = (v', True)"
    using assms(1) e1 e2 p3 s4 m5 by (auto simp: prepare_runtime_def andthen_def [of "prepare_persistent_directory _"]
        andthen_def [of sys_call "andthen remove_marker _"] andthen_def [of remove_marker] split: bool.splits)
  have "quiet v v1" "quiet v1 v2" "quiet v2 v3" "quiet v3 v4"
    using ensure_directory_quiet [of v] ensure_directory_quiet [of v1] prepare_persistent_quiet [of v2] sys_call_quiet [of v3] e1 e2 p3 s4
    by (metis fst_conv)+
  then have q: "quiet v v4" using quiet_trans by blast
  have "quiet v5 (fst (?rest v5))" by (intro andthen_quiet sys_call_quiet remove_socket_quiet)
  then have q': "quiet v5 v'" using path by simp
  have m: "remove_marker v4 = (v5, True)" "Fail ENOENT \<notin> set (script v4)" using m5 path q assms(2) by (auto simp: quiet_def)
  note f = q [unfolded quiet_def] mixer_frame_fields [of v v4] q' [unfolded quiet_def] mixer_frame_fields [of v5 v'] remove_marker_effect [OF m]
  show "ui_dir v' = (ui_dir v)(MARKER_NAME := None)" "persistent_dir v' = persistent_dir v" "regs v' = regs v" "controls v' = controls v"
    "initialized v' = initialized v" "euid v' = euid v" "one_fault v \<Longrightarrow> one_fault v'"
    using f by simp_all
qed

text \<open>A preparation that fails has changed no file, or it has removed the old marker.\<close>

lemma remove_marker_failed:
  assumes "remove_marker v = (v', False)"
  shows "quiet v v'"
proof -
  obtain v1 b where s: "sys_call v = (v1, b)" by fastforce
  have "quiet v v1" using sys_call_quiet [of v] s by simp
  then show ?thesis using assms s by (cases b) (auto simp: remove_marker_def unlink_file_def split: if_splits)
qed

lemma prepare_runtime_failed:
  assumes "prepare_runtime fs v = (v', False)" "Fail ENOENT \<notin> set (script v)"
  shows "quiet v v' \<or> ui_dir v' MARKER_NAME = None"
proof -
  obtain v1 d1 b1 where e1: "ensure_directory (run_status fs) (7 * 64 + 5 * 8) v = (v1, d1, b1)" by (rule prod_cases3)
  obtain v2 d2 b2 where e2: "ensure_directory (ui_status fs) (7 * 64 + 5 * 8 + 5) v1 = (v2, d2, b2)" by (rule prod_cases3)
  obtain v3 b3 where p3: "prepare_persistent_directory (persistent_status fs) v2 = (v3, b3)" by fastforce
  obtain v4 b4 where s4: "sys_call v3 = (v4, b4)" by fastforce
  obtain v5 b5 where m5: "remove_marker v4 = (v5, b5)" by fastforce
  let ?rest = "andthen sys_call (andthen (remove_socket (socket_status fs)) (andthen sys_call (andthen sys_call (andthen sys_call sys_call))))"
  have "quiet v v1" "quiet v1 v2" "quiet v2 v3" "quiet v3 v4"
    using ensure_directory_quiet [of v] ensure_directory_quiet [of v1] prepare_persistent_quiet [of v2] sys_call_quiet [of v3] e1 e2 p3 s4
    by (metis fst_conv)+
  then have q: "quiet v v1" "quiet v v2" "quiet v v3" "quiet v v4" using quiet_trans by blast+
  have rest: "quiet v5 (fst (?rest v5))" by (intro andthen_quiet sys_call_quiet remove_socket_quiet)
  consider "v' \<in> {v1, v2, v3, v4}" | "v' = v5" "\<not> b5" | "b5" "?rest v5 = (v', False)"
    using assms(1) e1 e2 p3 s4 m5 by (auto simp: prepare_runtime_def andthen_def [of "prepare_persistent_directory _"]
        andthen_def [of sys_call "andthen remove_marker _"] andthen_def [of remove_marker] split: bool.splits)
  then show ?thesis
  proof cases
    case 1
    then show ?thesis using q by blast
  next
    case 2
    then have "quiet v4 v'" using m5 remove_marker_failed by simp
    then show ?thesis using quiet_trans [OF q(4)] by blast
  next
    case 3
    have "Fail ENOENT \<notin> set (script v4)" using q(4) assms(2) by (auto simp: quiet_def)
    then have "ui_dir v5 MARKER_NAME = None" using remove_marker_effect(1) [of v4 v5] m5 3(1) by simp
    moreover have "ui_dir v' = ui_dir v5" using rest 3(2) by (simp add: quiet_def mixer_frame_fields)
    ultimately show ?thesis by simp
  qed
qed

lemma undo_file_ui: "initialized old = False \<Longrightarrow> ui_dir (undo_file old v) = ui_dir v"
proof -
  assume "initialized old = False"
  moreover have "ui_dir (fst (sys_call u)) = ui_dir u" for u using sys_call_quiet [of u] by (simp add: quiet_def mixer_frame_fields)
  ultimately show ?thesis by (auto simp: undo_file_def unlink_file_def split: prod.splits) (metis fst_conv)+
qed

lemma undo_marker_cold:
  assumes "initialized old = False" "calm v"
  shows "ui_dir (undo_marker old v) MARKER_NAME = None"
proof -
  obtain v1 b where s: "sys_call v = (v1, b)" by fastforce
  have "b" using sys_call_faults(1) [OF assms(2)] s by simp
  moreover have "ui_dir (fst (sys_call u)) = ui_dir u" for u using sys_call_quiet [of u] by (simp add: quiet_def mixer_frame_fields)
  ultimately show ?thesis using assms(1) s by (simp add: undo_marker_def unlink_file_def)
qed

text \<open>A failed first commit leaves no marker.\<close>

lemma cold_commit_failure:
  assumes fail: "commit_state vp m v = (v', False)" and v: "settled v" "one_fault v" "initialized v = False" "ui_dir v MARKER_NAME = None"
  shows "ui_dir v' MARKER_NAME = None"
proof (cases "vp < 0 \<or> 100 < vp \<or> (m \<noteq> 0 \<and> m \<noteq> 1)")
  case True
  then show ?thesis using fail v by (auto simp: commit_state_def)
next
  case False
  let ?m = "commit_mute vp m" and ?l = "next_last vp v"
  have m: "0 \<le> vp" "vp \<le> 100" "?m = 0 \<or> ?m = 1" "vp = 0 \<longrightarrow> ?m = 1" using False by (auto simp: commit_mute_def)
  have ok: "state_ok vp ?m ?l" by (rule next_last_ok [OF m])
  obtain v1 s where s: "snapshot_controls v = (v1, s)" by fastforce
  obtain v2 ok2 where a: "apply_controls vp ?m v1 = (v2, ok2)" by fastforce
  obtain v3 ok3 where p: "persist_state vp ?m ?l v2 = (v3, ok3)" by fastforce
  obtain v4 ok4 where u: "publish_state vp ?m v3 = (v4, ok4)" by fastforce
  have result: "commit_state vp m v = (case s of None \<Rightarrow> (v1, False) | Some t \<Rightarrow>
      if \<not> ok2 then (rollback v t False False v2, False) else if \<not> ok3 then (rollback v t False True v3, False)
      else if \<not> ok4 then (rollback v t True True v4, False)
      else (v4\<lparr>volume_percent := vp, muted := ?m, last_nonzero := ?l, initialized := True\<rparr>, True))"
    by (rule commit_state_paths) (use False s a p u in auto)
  note S = snapshot_controls_spec [OF s]
  have f2: "mixer_frame v v2" using S(1) apply_controls_frame [of v1 vp ?m] a mixer_frame_trans by (metis fst_conv)
  have h1: "handles_ok v1" using v(1) handles_ok_frame [OF S(1)] by (simp add: settled_def)
  have c2: "one_fault v2" using tolerantD(3) [OF tolerant_apply_controls [OF m(2), of ?m] h1] S(3) v(2) a by simp
  have nt: "no_temporaries Persistent v2" "no_temporaries Ui v2" using v(1) mixer_frame_no_temporaries [OF f2] by (simp_all add: settled_def)
  note P = persist_state_replaces [OF ok, of v2, unfolded p replaces_def fst_conv snd_conv]
  have u3: "ui_dir v3 = ui_dir v" using P f2 file_frame_other(2) by (metis mixer_frame_fields(3))
  have nt3: "no_temporaries Ui v3" using nt(2) u3 f2 by (simp add: no_temporaries_def mixer_frame_fields)
  note U = publish_state_replaces [OF m(1-3), of v3, unfolded u replaces_def fst_conv snd_conv]
  have ctl: "controls v4 = controls v" using P U f2 by (simp add: file_frame_def mixer_frame_fields)
  have undone: "ui_dir (fst (restore_controls t w)) = ui_dir w" for t w using restore_controls_frame [of w t] by (simp add: mixer_frame_fields)
  have calm4: "calm (fst (restore_controls t v4))" if "s = Some t" "\<not> ok4" for t
    using restore_controls_calm [of v4 v] U nt3 P nt c2 that S(5) v(1) ctl by (auto simp: settled_def)
  show ?thesis
    using fail v(3,4) S(1) f2 u3 undo_file_ui [OF v(3)] undo_marker_cold [OF v(3)] calm4 undone
    unfolding result by (auto simp: rollback_def Let_def mixer_frame_fields split: option.splits if_splits)
qed

text \<open>From a prepared runtime on, the marker is there exactly after a success.\<close>

lemma prepared_marker:
  assumes "handles_ok v" "card_ok v" "no_temporaries Persistent v" "no_temporaries Ui v" "initialized v = False"
    and "one_fault v" "Fail ENOENT \<notin> set (script v)"
    and "prepare_runtime fs v = (v1, True)" "initialize_audio_state v1 = (v2, ok)"
  shows "if ok then committed v2 \<and> settled v2 else ui_dir v2 MARKER_NAME = None"
proof -
  note E = prepare_runtime_effect [OF assms(8,7)]
  obtain u r where load: "load_persistent_state v1 = (u, r)" by fastforce
  have q: "quiet v1 u" using load_quiet [of v1] load by simp
  obtain vp m l where c: "commit_state vp m (u\<lparr>last_nonzero := l\<rparr>) = (v2, ok)"
    using assms(9) load by (cases r) (auto simp: initialize_audio_state_def)
  have f: "controls u = controls v" "regs u = regs v" "persistent_dir u = persistent_dir v" "ui_dir u = (ui_dir v)(MARKER_NAME := None)"
    "initialized u = False" using q E assms(5) by (auto simp: quiet_def mixer_frame_fields)
  have "handles_ok u" "card_ok u" "no_temporaries Persistent u" "no_temporaries Ui u"
    using assms(1-4) f by (simp_all add: handles_ok_def card_ok_def in_range_def card_values_def no_temporaries_def)
  then have s: "settled (u\<lparr>last_nonzero := l\<rparr>)" by (simp add: settled_last) (simp add: settled_def)
  have o: "one_fault (u\<lparr>last_nonzero := l\<rparr>)" using q E(7) [OF assms(6)] by (simp add: quiet_def one_fault_def)
  show ?thesis
  proof (cases ok)
    case True
    then show ?thesis using commit_state_success [of vp m _ v2] commit_state_settled [of vp m _ v2] c s by auto
  next
    case False
    then show ?thesis using cold_commit_failure [of vp m "u\<lparr>last_nonzero := l\<rparr>" v2] c s o f by simp
  qed
qed

definition runtime_prepared :: "input_entry list \<Rightarrow> vol_errno option \<Rightarrow> vol_errno + card \<Rightarrow> runtime_files \<Rightarrow> vol \<Rightarrow> bool" where
  "runtime_prepared entries fault c fs v =
    (case (fst (open_volume_input entries fault), open_production_mixer c) of
       (Inr fd, Inr h) \<Rightarrow> snd (prepare_runtime fs ((start_state v)\<lparr>controls := h\<rparr>))
     | _ \<Rightarrow> False)"

text \<open>
  C32: The runtime marker after a start of the daemon. The sound card holds
  values in the ranges it announces, there are no left-over temporary files, at
  most one system call of the start fails, and none reports an existing file as
  missing. Then after a successful start card, durable file and marker agree.
  After a failed one there is no marker, also if an earlier run left one, unless
  the start ended before the runtime directory and socket were prepared (no key
  device, no usable card, or a failing preparation): then the marker is gone or
  card, durable file and runtime directory are all as they were, so that the
  marker of an earlier run may remain.
\<close>

theorem marker_means_ready:
  assumes "\<And>h. open_production_mixer c = Inr h \<Longrightarrow> card_ok (v\<lparr>controls := h\<rparr>)"
    and "no_temporaries Persistent v" "no_temporaries Ui v" "one_fault v" "Fail ENOENT \<notin> set (script v)"
    and "volume_start entries fault c fs v = (v', ok)"
  shows "if ok then committed v' \<and> settled v'
    else ui_dir v' MARKER_NAME = None \<or>
      \<not> runtime_prepared entries fault c fs v \<and>
      ui_dir v' = ui_dir v \<and> persistent_dir v' = persistent_dir v \<and> regs v' = regs v"
proof (cases "\<exists>fd h. fst (open_volume_input entries fault) = Inr fd \<and> open_production_mixer c = Inr h")
  case False
  then have "\<not> ok \<and> ui_dir v' = ui_dir v \<and> persistent_dir v' = persistent_dir v \<and> regs v' = regs v"
    using assms(6) by (auto simp: volume_start_def start_state_def Let_def split: prod.splits sum.splits)
  moreover have "\<not> runtime_prepared entries fault c fs v" using False by (auto simp: runtime_prepared_def split: sum.splits)
  ultimately show ?thesis by simp
next
  case True
  then obtain fd h where h: "fst (open_volume_input entries fault) = Inr fd" "open_production_mixer c = Inr h" by blast
  let ?v = "(start_state v)\<lparr>controls := h\<rparr>"
  have run: "andthen (prepare_runtime fs) initialize_audio_state ?v = (v', ok)"
    using assms(6) h by (auto simp: volume_start_def Let_def split: prod.splits)
  obtain k where k: "c = Inr k" using h(2) by (cases c) (auto simp: open_production_mixer_def)
  have ready: "handles_ok ?v" "card_ok ?v" "no_temporaries Persistent ?v" "no_temporaries Ui ?v" "initialized ?v = False" "one_fault ?v"
    "Fail ENOENT \<notin> set (script ?v)"
    using mixer_handles(1) [OF h(2) [unfolded k], of "start_state v"] assms(1) [OF h(2)] assms(2-5)
    by (simp_all add: start_state_def card_ok_def in_range_def card_values_def no_temporaries_def one_fault_def)
  obtain v1 b where p: "prepare_runtime fs ?v = (v1, b)" by fastforce
  show ?thesis
  proof (cases b)
    case True
    then have "initialize_audio_state v1 = (v', ok)" using run p by (simp add: andthen_def)
    from prepared_marker [OF ready p [unfolded eqTrueI [OF True]] this] show ?thesis by simp
  next
    case False
    then have "v' = v1" "\<not> ok" using run p by (auto simp: andthen_def)
    moreover have "\<not> runtime_prepared entries fault c fs v" using h p False by (simp add: runtime_prepared_def)
    moreover have "quiet ?v v1 \<or> ui_dir v1 MARKER_NAME = None" using prepare_runtime_failed [of fs ?v v1] p False ready(7) by simp
    ultimately show ?thesis by (auto simp: quiet_def mixer_frame_fields start_state_def)
  qed
qed

text \<open>A start with the files of an earlier run, whose socket is still there.\<close>

definition example_runtime :: runtime_files where
  "example_runtime = \<lparr>run_status = Some \<lparr>ds_directory = True, ds_uid = 0, ds_mode = 488\<rparr>, ui_status = None,
     persistent_status = Some \<lparr>ds_directory = True, ds_uid = 0, ds_mode = 448\<rparr>, socket_status = Some (True, 0)\<rparr>"

definition example_inputs :: "input_entry list" where
  "example_inputs = [\<lparr>d_name = ''event0'', opened = Some 4, device = no_keys\<rparr>, \<lparr>d_name = ''event12'', opened = Some 5, device = volume_keys\<rparr>]"

lemma example_card_ok:
  assumes "open_production_mixer (Inr example_card) = Inr h"
  shows "card_ok (example_vol\<lparr>script := [], controls := h\<rparr>)"
proof -
  have h: "ch_minimum (h i) = 0" "maximum (control_definitions i) \<le> ch_maximum (h i)" for i
    using mixer_handles(1) [OF assms, of example_vol] by (simp_all add: handles_ok_def)
  have d: "0 \<le> desired_value 60 0 i \<and> desired_value 60 0 i \<le> maximum (control_definitions i)" for i
    by (rule desired_in_range) simp
  have "0 \<le> desired_value 60 0 i \<and> desired_value 60 0 i \<le> ch_maximum (h i) \<and> 0 \<le> ch_maximum (h i)" for i
    using h [of i] d [of i] by linarith
  then show ?thesis by (auto simp: card_ok_def in_range_def card_values_def reg_values_def example_vol_def h list_all_iff)
qed

theorem marker_means_ready_witness:
  "let v = example_vol\<lparr>script := []\<rparr>; (v', ok) = volume_start example_inputs None (Inr example_card) example_runtime v in
   ui_dir v MARKER_NAME \<noteq> None \<and> (if ok then committed v' \<and> settled v' else ui_dir v' MARKER_NAME = None)"
proof -
  let ?v = "example_vol\<lparr>script := []\<rparr>"
  obtain h where h: "open_production_mixer (Inr example_card) = Inr h" using example_card_opens by blast
  have i: "fst (open_volume_input example_inputs None) = Inr 5"
    by (simp add: open_volume_input_def example_inputs_def event_entry_name_def MAX_INPUT_ENTRIES_def example_devices)
  have "snd (prepare_runtime example_runtime ((start_state ?v)\<lparr>controls := h\<rparr>))"
    by (simp add: prepare_runtime_def example_runtime_def ensure_directory_def prepare_persistent_directory_def remove_marker_def
        remove_socket_def unlink_file_def andthen_def sys_call_def next_outcome_def Let_def example_vol_def start_state_def)
  then have p: "runtime_prepared example_inputs None (Inr example_card) example_runtime ?v" using h i by (simp add: runtime_prepared_def)
  have "settled ?v = settled example_vol"
    by (simp add: settled_def handles_ok_def card_ok_def in_range_def card_values_def no_temporaries_def)
  then have s: "no_temporaries Persistent ?v" "no_temporaries Ui ?v" using example_vol_ready(1) unfolding settled_def by blast+
  have r: "one_fault ?v" "Fail ENOENT \<notin> set (script ?v)" "ui_dir ?v MARKER_NAME \<noteq> None" by (simp_all add: one_fault_def example_vol_def)
  obtain v' ok where run: "volume_start example_inputs None (Inr example_card) example_runtime ?v = (v', ok)" by fastforce
  have "if ok then committed v' \<and> settled v' else ui_dir v' MARKER_NAME = None"
    using marker_means_ready [OF example_card_ok s r(1,2) run] p by presburger
  then show ?thesis using r(3) run by simp
qed

end
