(* ===== verification/Platform_Routes.thy ===== *)
theory Platform_Routes
  imports Catalog Lines Netstream_Files
begin

unbundle bit_operations_syntax

text \<open>
  The table of platform routes of the shell
  (\<^verbatim>\<open>components/rg40xxv-shell/src/platform_routes.c\<close>): the admission file that says
  whether the RPG Maker runtime may be offered, the table of emulators read line
  by line from a JSON file, and the look-ups in it. \<open>memory n\<close> says whether the
  allocations for one more route succeed when \<open>n\<close> are there.
\<close>

section \<open>The admission file\<close>

definition CAP_SCHEMA :: u64 where "CAP_SCHEMA = push_bit 0 1"
definition CAP_ROUTE :: u64 where "CAP_ROUTE = push_bit 1 1"
definition CAP_ARCH :: u64 where "CAP_ARCH = push_bit 2 1"
definition CAP_NW_VERSION :: u64 where "CAP_NW_VERSION = push_bit 3 1"
definition CAP_NW_SHA :: u64 where "CAP_NW_SHA = push_bit 4 1"
definition CAP_CAGE_VERSION :: u64 where "CAP_CAGE_VERSION = push_bit 5 1"
definition CAP_CAGE_SHA :: u64 where "CAP_CAGE_SHA = push_bit 6 1"
definition CAP_CAGE_XWAYLAND :: u64 where "CAP_CAGE_XWAYLAND = push_bit 7 1"
definition CAP_CAGE_PRIVILEGE :: u64 where "CAP_CAGE_PRIVILEGE = push_bit 8 1"
definition CAP_DISPLAY :: u64 where "CAP_DISPLAY = push_bit 9 1"
definition CAP_PAYLOAD :: u64 where "CAP_PAYLOAD = push_bit 10 1"
definition CAP_CLOSURE :: u64 where "CAP_CLOSURE = push_bit 11 1"
definition CAP_NW_QEMU :: u64 where "CAP_NW_QEMU = push_bit 12 1"
definition CAP_CAGE_QEMU :: u64 where "CAP_CAGE_QEMU = push_bit 13 1"
definition CAP_SEATD_QEMU :: u64 where "CAP_SEATD_QEMU = push_bit 14 1"
definition CAP_LOADER :: u64 where "CAP_LOADER = push_bit 15 1"
definition CAP_QEMU_RENDER :: u64 where "CAP_QEMU_RENDER = push_bit 16 1"
definition CAP_QEMU_RENDER_EVIDENCE :: u64 where "CAP_QEMU_RENDER_EVIDENCE = push_bit 17 1"
definition CAP_QEMU_MV :: u64 where "CAP_QEMU_MV = push_bit 18 1"
definition CAP_QEMU_MZ :: u64 where "CAP_QEMU_MZ = push_bit 19 1"
definition CAP_QEMU_REAL_EVIDENCE :: u64 where "CAP_QEMU_REAL_EVIDENCE = push_bit 20 1"
definition CAP_DEVICE :: u64 where "CAP_DEVICE = push_bit 21 1"
definition CAP_DEVICE_DISPLAY :: u64 where "CAP_DEVICE_DISPLAY = push_bit 22 1"
definition CAP_DEVICE_EGL :: u64 where "CAP_DEVICE_EGL = push_bit 23 1"
definition CAP_DEVICE_FULLSCREEN :: u64 where "CAP_DEVICE_FULLSCREEN = push_bit 24 1"
definition CAP_DEVICE_MV :: u64 where "CAP_DEVICE_MV = push_bit 25 1"
definition CAP_DEVICE_MZ :: u64 where "CAP_DEVICE_MZ = push_bit 26 1"
definition CAP_DEVICE_AUDIO :: u64 where "CAP_DEVICE_AUDIO = push_bit 27 1"
definition CAP_DEVICE_INPUT :: u64 where "CAP_DEVICE_INPUT = push_bit 28 1"
definition CAP_DEVICE_EXIT :: u64 where "CAP_DEVICE_EXIT = push_bit 29 1"
definition CAP_DEVICE_SAVE :: u64 where "CAP_DEVICE_SAVE = push_bit 30 1"
definition CAP_DEVICE_MEMORY :: u64 where "CAP_DEVICE_MEMORY = push_bit 31 1"
definition CAP_DEVICE_EVIDENCE :: u64 where "CAP_DEVICE_EVIDENCE = push_bit 32 1"
definition CAP_TRUTH :: u64 where "CAP_TRUTH = push_bit 33 1"
definition CAP_REQUIRED :: u64 where "CAP_REQUIRED = push_bit 34 1 - 1"

lemmas cap_defs = CAP_SCHEMA_def CAP_ROUTE_def CAP_ARCH_def CAP_NW_VERSION_def CAP_NW_SHA_def CAP_CAGE_VERSION_def CAP_CAGE_SHA_def CAP_CAGE_XWAYLAND_def CAP_CAGE_PRIVILEGE_def CAP_DISPLAY_def CAP_PAYLOAD_def CAP_CLOSURE_def CAP_NW_QEMU_def CAP_CAGE_QEMU_def CAP_SEATD_QEMU_def CAP_LOADER_def CAP_QEMU_RENDER_def CAP_QEMU_RENDER_EVIDENCE_def CAP_QEMU_MV_def CAP_QEMU_MZ_def CAP_QEMU_REAL_EVIDENCE_def CAP_DEVICE_def CAP_DEVICE_DISPLAY_def CAP_DEVICE_EGL_def CAP_DEVICE_FULLSCREEN_def CAP_DEVICE_MV_def CAP_DEVICE_MZ_def CAP_DEVICE_AUDIO_def CAP_DEVICE_INPUT_def CAP_DEVICE_EXIT_def CAP_DEVICE_SAVE_def CAP_DEVICE_MEMORY_def CAP_DEVICE_EVIDENCE_def CAP_TRUTH_def

datatype capability_schema = SCHEMA_NONE | SCHEMA_RMUT_V3

datatype truth_level = RPG_TRUTH_NONE | RPG_TRUTH_LOADER | RPG_TRUTH_QEMU_RENDER | RPG_TRUTH_QEMU_REAL | RPG_TRUTH_DEVICE

fun truth_number :: "truth_level \<Rightarrow> nat" where
  "truth_number RPG_TRUTH_NONE = 0"
| "truth_number RPG_TRUTH_LOADER = 1"
| "truth_number RPG_TRUTH_QEMU_RENDER = 2"
| "truth_number RPG_TRUTH_QEMU_REAL = 3"
| "truth_number RPG_TRUTH_DEVICE = 4"

record rpg_capability =
  launchable :: bool
  truth :: truth_level

definition is_sha256 :: "string \<Rightarrow> bool" where
  "is_sha256 v \<longleftrightarrow> length v = 64 \<and> list_all (\<lambda>c. isdigit c \<or> (97 \<le> byte c \<and> byte c \<le> 102)) v"

definition rmut_exact :: "(string \<times> string \<times> u64) list" where
  "rmut_exact =
    [(''route'', ''standalone:rmut-nwjs-aarch64'', CAP_ROUTE),
     (''architecture'', ''aarch64'', CAP_ARCH),
     (''nwjs_version'', ''0.60.1'', CAP_NW_VERSION),
     (''cage_version'', ''0.1.4'', CAP_CAGE_VERSION),
     (''cage_xwayland'', ''DISABLED'', CAP_CAGE_XWAYLAND),
     (''cage_privilege_model'', ''rg40xxv-root-session'', CAP_CAGE_PRIVILEGE),
     (''display_backend'', ''wayland-drm'', CAP_DISPLAY),
     (''runtime_payload'', ''PASS'', CAP_PAYLOAD),
     (''dependency_closure'', ''PASS'', CAP_CLOSURE),
     (''nwjs_qemu_loader_smoke'', ''PASS'', CAP_NW_QEMU),
     (''cage_qemu_loader_smoke'', ''PASS'', CAP_CAGE_QEMU),
     (''seatd_qemu_loader_smoke'', ''PASS'', CAP_SEATD_QEMU),
     (''loader_validation'', ''PASS'', CAP_LOADER)]"

definition rmut_status :: "(string \<times> u64) list" where
  "rmut_status =
    [(''qemu_render_validation'', CAP_QEMU_RENDER),
     (''qemu_real_mv_interactive'', CAP_QEMU_MV),
     (''qemu_real_mz_interactive'', CAP_QEMU_MZ),
     (''device_validation'', CAP_DEVICE),
     (''display_smoke'', CAP_DEVICE_DISPLAY),
     (''egl_panfrost_smoke'', CAP_DEVICE_EGL),
     (''fullscreen_smoke'', CAP_DEVICE_FULLSCREEN),
     (''device_mv_interactive'', CAP_DEVICE_MV),
     (''device_mz_interactive'', CAP_DEVICE_MZ),
     (''audio_smoke'', CAP_DEVICE_AUDIO),
     (''h700_gamepad_smoke'', CAP_DEVICE_INPUT),
     (''menu_start_supervisor_smoke'', CAP_DEVICE_EXIT),
     (''save_restart_smoke'', CAP_DEVICE_SAVE),
     (''peak_pss_under_640_mib'', CAP_DEVICE_MEMORY)]"

definition rmut_evidence :: "(string \<times> u64) list" where
  "rmut_evidence =
    [(''qemu_render_evidence_sha256'', CAP_QEMU_RENDER_EVIDENCE),
     (''qemu_real_evidence_sha256'', CAP_QEMU_REAL_EVIDENCE),
     (''device_evidence_sha256'', CAP_DEVICE_EVIDENCE)]"

text \<open>One entry: whether it is valid, the schema and truth level after it, its field and whether it counts as passed.\<close>

definition capability_field ::
    "string \<Rightarrow> string \<Rightarrow> capability_schema \<Rightarrow> truth_level \<Rightarrow> bool \<times> capability_schema \<times> truth_level \<times> u64 \<times> bool" where
  "capability_field key v schema level =
    (if key = ''schema'' then
       (if schema \<noteq> SCHEMA_NONE then (False, schema, level, 0, False)
        else if v = ''rg40xxv-rmut-runtime-admission-v3'' then (True, SCHEMA_RMUT_V3, level, CAP_SCHEMA, True)
        else (False, schema, level, 0, False))
     else if schema = SCHEMA_NONE then (False, schema, level, 0, False)
     else if key = ''runtime_sha256'' then (is_sha256 v, schema, level, CAP_NW_SHA, is_sha256 v)
     else if key = ''cage_sha256'' then (is_sha256 v, schema, level, CAP_CAGE_SHA, is_sha256 v)
     else if key = ''truth_level'' then
       (if v = ''LOADER_PASS'' then (True, schema, RPG_TRUTH_LOADER, CAP_TRUTH, False)
        else if v = ''QEMU_RENDER_PASS'' then (True, schema, RPG_TRUTH_QEMU_RENDER, CAP_TRUTH, False)
        else if v = ''QEMU_REAL_MV_MZ_INTERACTIVE_PASS'' then (True, schema, RPG_TRUTH_QEMU_REAL, CAP_TRUTH, False)
        else if v = ''DEVICE_PASS'' then (True, schema, RPG_TRUTH_DEVICE, CAP_TRUTH, True)
        else (False, schema, level, CAP_TRUTH, False))
     else (case find (\<lambda>e. fst e = key) rmut_exact of
         Some (_, w, field) \<Rightarrow> (v = w, schema, level, field, v = w)
       | None \<Rightarrow> (case find (\<lambda>e. fst e = key) rmut_status of
           Some (_, field) \<Rightarrow> (v = ''PASS'' \<or> v = ''UNVERIFIED'', schema, level, field, v = ''PASS'')
         | None \<Rightarrow> (case find (\<lambda>e. fst e = key) rmut_evidence of
             Some (_, field) \<Rightarrow> (is_sha256 v \<or> v = ''UNVERIFIED'', schema, level, field, is_sha256 v)
           | None \<Rightarrow> (False, schema, level, 0, False)))))"

record capability_state =
  cap_seen :: u64
  cap_passed :: u64
  cap_schema :: capability_schema
  cap_level :: truth_level
  cap_valid :: bool

definition capability_start :: capability_state where
  "capability_start = \<lparr>cap_seen = 0, cap_passed = 0, cap_schema = SCHEMA_NONE, cap_level = RPG_TRUTH_NONE, cap_valid = True\<rparr>"

definition capability_entry :: "capability_state \<Rightarrow> string \<times> string \<Rightarrow> capability_state" where
  "capability_entry st e =
    (case capability_field (fst e) (snd e) (cap_schema st) (cap_level st) of
       (ok, schema, level, field, passed) \<Rightarrow>
         \<lparr>cap_seen = cap_seen st OR field, cap_passed = (if passed then cap_passed st OR field else cap_passed st), cap_schema = schema,
          cap_level = level, cap_valid = ok \<and> \<not> (field \<noteq> 0 \<and> cap_seen st AND field \<noteq> 0)\<rparr>)"

text \<open>
  One buffer of \<^verbatim>\<open>fgets\<close>: to skip, malformed, or a key and its value. The end of the
  file was met if the buffer has neither a line feed nor its full length.
\<close>

datatype capability_line = Skip | Malformed | Entry string string

definition capability_line :: "string \<Rightarrow> capability_line" where
  "capability_line buffer =
    (let whole = cstr buffer; line = takeWhile (\<lambda>c. c \<noteq> LF) whole;
         key = takeWhile (\<lambda>c. c \<noteq> CHR ''='') line; rest = dropWhile (\<lambda>c. c \<noteq> CHR ''='') line in
     if LF \<notin> set whole \<and> \<not> (LF \<notin> set buffer \<and> length buffer < 511) then Malformed
     else if line = [] \<or> hd line = CHR ''#'' then Skip
     else if CR \<in> set line then Malformed
     else if rest = [] \<or> key = [] \<or> tl rest = [] then Malformed
     else Entry key (tl rest))"

function capability_loop :: "capability_state \<Rightarrow> string \<Rightarrow> capability_state" where
  "capability_loop st s =
    (if \<not> cap_valid st then st
     else case fgets 512 s of
         None \<Rightarrow> st
       | Some (buffer, rest) \<Rightarrow>
         (case capability_line buffer of
            Skip \<Rightarrow> capability_loop st rest
          | Malformed \<Rightarrow> st\<lparr>cap_valid := False\<rparr>
          | Entry k v \<Rightarrow> capability_loop (capability_entry st (k, v)) rest))"
  by pat_completeness auto
termination by (relation "measure (\<lambda>(st, s). length s)") (auto dest: fgets_shorter)

declare capability_loop.simps [simp del]

definition RPG_CAPABILITY_DEFAULT :: string where
  "RPG_CAPABILITY_DEFAULT = ''/opt/rg40xxv/rpgmaker/runtime/admission.env''"

definition no_capability :: rpg_capability where
  "no_capability = \<lparr>launchable = False, truth = RPG_TRUTH_NONE\<rparr>"

text \<open>The file as \<^verbatim>\<open>lstat\<close> and \<^verbatim>\<open>fopen\<close> give it; \<open>opened\<close> and \<open>read_ok\<close> say whether opening and reading succeed.\<close>

definition admission_text :: "string option \<Rightarrow> dir \<Rightarrow> bool \<Rightarrow> string option" where
  "admission_text env d opened =
    (let p = (case env of None \<Rightarrow> RPG_CAPABILITY_DEFAULT | Some v \<Rightarrow> if v = [] then RPG_CAPABILITY_DEFAULT else v) in
     if take 1 p \<noteq> ''/'' then None
     else (case d p of
         None \<Rightarrow> None
       | Some f \<Rightarrow>
         if kind f \<noteq> Regular \<or> st_mode f AND 18 \<noteq> 0 \<or> length (fdata f) \<le> 0 \<or> 16384 < length (fdata f) then None
         else if \<not> opened then None else Some (fdata f)))"

definition rpg_capability_load :: "string option \<Rightarrow> dir \<Rightarrow> bool \<Rightarrow> bool \<Rightarrow> rpg_capability" where
  "rpg_capability_load env d opened read_ok =
    (case admission_text env d opened of
       None \<Rightarrow> no_capability
     | Some t \<Rightarrow>
       let st = capability_loop capability_start t;
           valid = (cap_valid st \<and> read_ok \<and> cap_schema st = SCHEMA_RMUT_V3 \<and> cap_seen st = CAP_REQUIRED) in
       \<lparr>launchable = valid \<and> cap_passed st = CAP_REQUIRED \<and> cap_level st = RPG_TRUTH_DEVICE,
        truth = (if valid then cap_level st else RPG_TRUTH_NONE)\<rparr>)"

section \<open>The routes\<close>

definition utf8_bytes :: "nat list \<Rightarrow> string" where
  "utf8_bytes = map char_of"

text \<open>The four notes in Chinese, as their UTF-8 bytes.\<close>

definition rpg_capability_suffix :: "rpg_capability \<Rightarrow> string" where
  "rpg_capability_suffix c =
    (if launchable c then []
     else utf8_bytes (case truth c of
         RPG_TRUTH_LOADER \<Rightarrow> [239, 188, 136, 229, 131, 133, 32, 76, 111, 97, 100, 101, 114, 32, 232, 168, 186, 230, 150, 183, 239, 188, 137]
       | RPG_TRUTH_QEMU_RENDER \<Rightarrow> [239, 188, 136, 229, 131, 133, 32, 81, 69, 77, 85, 32, 230, 184, 178, 230, 159, 147, 232, 168, 186, 230, 150, 183, 239, 188, 137]
       | RPG_TRUTH_QEMU_REAL \<Rightarrow> [239, 188, 136, 229, 131, 133, 32, 81, 69, 77, 85, 32, 233, 129, 138, 230, 136, 178, 232, 168, 186, 230, 150, 183, 239, 188, 137]
       | RPG_TRUTH_DEVICE \<Rightarrow> [239, 188, 136, 229, 159, 183, 232, 161, 140, 229, 153, 168, 230, 156, 170, 229, 176, 177, 231, 183, 146, 239, 188, 137]
       | RPG_TRUTH_NONE \<Rightarrow> [239, 188, 136, 229, 159, 183, 232, 161, 140, 229, 153, 168, 230, 156, 170, 229, 176, 177, 231, 183, 146, 239, 188, 137]))"

definition is_rpg_web_system :: "string \<Rightarrow> bool" where
  "is_rpg_web_system s \<longleftrightarrow> s = ''RPGMV'' \<or> s = ''RPGMZ''"

record platform_route =
  rt_system :: string
  label_zh_tw :: string
  primary :: string
  rt_fallback :: string
  rt_playable :: bool

record platform_routes =
  route_items :: "platform_route list"
  source_path :: string
  rpg_truth_level :: nat
  rpg_launchable :: bool

text \<open>Positions in a line: where a text first occurs, and the next place of a character from a position on.\<close>

fun strstr_at :: "string \<Rightarrow> string \<Rightarrow> nat option" where
  "strstr_at [] q = (if q = [] then Some 0 else None)"
| "strstr_at (t # ts) q = (if is_prefix q (t # ts) then Some 0 else map_option Suc (strstr_at ts q))"

definition strchr_at :: "string \<Rightarrow> nat \<Rightarrow> char \<Rightarrow> nat option" where
  "strchr_at line start c = (let k = length (takeWhile (\<lambda>x. x \<noteq> c) (drop start line)) in if start + k < length line then Some (start + k) else None)"

definition extract_after :: "string \<Rightarrow> string \<Rightarrow> nat \<Rightarrow> string option" where
  "extract_after line marker buffer_size =
    (case strstr_at line marker of
       None \<Rightarrow> None
     | Some p \<Rightarrow>
       let start = p + length marker in
       (case strchr_at line start (CHR 0x22) of
          None \<Rightarrow> None
        | Some e \<Rightarrow> if buffer_size \<le> e - start then None else Some (take (e - start) (drop start line))))"

definition system_marker :: string where "system_marker = ''    '' @ [CHR 0x22]"
definition label_marker :: string where "label_marker = [CHR 0x22] @ ''label_zh_TW'' @ [CHR 0x22] @ '': '' @ [CHR 0x22]"
definition routes_marker :: string where "routes_marker = [CHR 0x22] @ ''routes'' @ [CHR 0x22] @ '': ['' @ [CHR 0x22]"
definition unplayable_marker :: string where "unplayable_marker = [CHR 0x22] @ ''playable'' @ [CHR 0x22] @ '': false''"

text \<open>The second route of the list in the line, if it ends before the list does and fits.\<close>

definition second_route :: "string \<Rightarrow> string" where
  "second_route line =
    (case Option.bind (strstr_at line routes_marker) (\<lambda>p. strchr_at line (p + 12) (CHR 0x22)) of
       None \<Rightarrow> []
     | Some first_end \<Rightarrow>
       (case (strchr_at line (Suc first_end) (CHR '',''), strchr_at line (Suc first_end) (CHR '']'')) of
          (Some comma, Some routes_end) \<Rightarrow>
            if routes_end \<le> comma then []
            else (case strchr_at line comma (CHR 0x22) of
                Some quote \<Rightarrow>
                  if routes_end \<le> quote then []
                  else (case strchr_at line (Suc quote) (CHR 0x22) of
                      Some e \<Rightarrow> if e < routes_end \<and> e - quote - 1 < 96 then take (e - quote - 1) (drop (Suc quote) line) else []
                    | None \<Rightarrow> [])
              | None \<Rightarrow> [])
        | _ \<Rightarrow> []))"

definition add_route :: "(nat \<Rightarrow> bool) \<Rightarrow> platform_routes \<Rightarrow> string \<Rightarrow> rpg_capability \<Rightarrow> platform_routes \<times> int" where
  "add_route memory routes line cap =
    (case (extract_after line system_marker 64, extract_after line label_marker 128, extract_after line routes_marker 96) of
       (Some sys, Some label, Some prim) \<Rightarrow>
         let suffix = (if is_rpg_web_system sys then rpg_capability_suffix cap else []) in
         if is_rpg_web_system sys \<and> 128 < length label + (length suffix + 1) then (routes, - 1)
         else if \<not> memory (length (route_items routes)) then (routes, - 1)
         else (routes\<lparr>route_items := route_items routes @
           [\<lparr>rt_system = sys, label_zh_tw = label @ suffix, primary = prim, rt_fallback = second_route line,
             rt_playable = (\<not> strstr line unplayable_marker \<or> (launchable cap \<and> is_rpg_web_system sys))\<rparr>]\<rparr>, 0)
     | _ \<Rightarrow> (routes, 0))"

definition platform_routes_destroy :: "platform_routes \<Rightarrow> platform_routes" where
  "platform_routes_destroy routes = \<lparr>route_items = [], source_path = [], rpg_truth_level = 0, rpg_launchable = False\<rparr>"

fun load_routes :: "(nat \<Rightarrow> bool) \<Rightarrow> rpg_capability \<Rightarrow> platform_routes \<Rightarrow> string list \<Rightarrow> platform_routes \<times> int" where
  "load_routes memory cap routes [] = (routes, 0)"
| "load_routes memory cap routes (line # ls) =
    (if strstr line ([CHR 0x22] @ ''label_zh_TW'' @ [CHR 0x22]) \<and> strstr line ([CHR 0x22] @ ''routes'' @ [CHR 0x22]) then
       (case add_route memory routes line cap of (routes1, result) \<Rightarrow> if result = 0 then load_routes memory cap routes1 ls else (routes1, result))
     else load_routes memory cap routes ls)"

text \<open>\<open>file\<close> is what the stream of the table delivers, if it can be opened.\<close>

definition platform_routes_load :: "(nat \<Rightarrow> bool) \<Rightarrow> rpg_capability \<Rightarrow> string option \<Rightarrow> platform_routes \<Rightarrow> string \<Rightarrow> platform_routes \<times> int" where
  "platform_routes_load memory cap stream routes p =
    (let r = (platform_routes_destroy routes)\<lparr>rpg_truth_level := truth_number (truth cap), rpg_launchable := launchable cap, source_path := snprintf_s PATH_MAX p\<rparr> in
     case stream of
       None \<Rightarrow> (r, - 1)
     | Some t \<Rightarrow> (case load_routes memory cap r (fgets_lines 1024 t) of
         (r1, result) \<Rightarrow> if result \<noteq> 0 then (platform_routes_destroy r1, result) else (r1, result)))"

definition platform_route_find :: "platform_routes \<Rightarrow> string \<Rightarrow> platform_route option" where
  "platform_route_find routes s = find (\<lambda>r. rt_system r = s) (route_items routes)"

definition platform_route_frontend :: "string \<Rightarrow> string" where
  "platform_route_frontend selector =
    (if selector = ''standalone:ppsspp'' then ''PPSSPP standalone''
     else if selector = ''standalone:drastic'' then ''DraStic''
     else if take 11 selector = ''standalone:'' then ''Standalone''
     else if take 7 selector = ''script:'' then ''Native script''
     else if take 8 selector = ''aarch64:'' then ''RetroArch AArch64''
     else if take 9 selector = ''libretro:'' then ''RetroArch''
     else ''Unavailable'')"

definition platform_route_runtime :: "string \<Rightarrow> string" where
  "platform_route_runtime selector =
    (if selector = ''standalone:ppsspp'' then ''PPSSPP''
     else if selector = ''standalone:drastic'' then ''ARMhf''
     else if take 7 selector = ''script:'' then ''AArch64/Linux''
     else if CHR '':'' \<notin> set selector then selector else tl (dropWhile (\<lambda>c. c \<noteq> CHR '':'') selector))"

section \<open>What the admission means\<close>

text \<open>The reference: the 34 facts in the order of their bits, each with the test its value must pass.\<close>

definition capability_facts :: "(string \<times> (string \<Rightarrow> bool)) list" where
  "capability_facts =
    [(''schema'', \<lambda>v. v = ''rg40xxv-rmut-runtime-admission-v3''),
     (''route'', \<lambda>v. v = ''standalone:rmut-nwjs-aarch64''),
     (''architecture'', \<lambda>v. v = ''aarch64''),
     (''nwjs_version'', \<lambda>v. v = ''0.60.1''),
     (''runtime_sha256'', is_sha256),
     (''cage_version'', \<lambda>v. v = ''0.1.4''),
     (''cage_sha256'', is_sha256),
     (''cage_xwayland'', \<lambda>v. v = ''DISABLED''),
     (''cage_privilege_model'', \<lambda>v. v = ''rg40xxv-root-session''),
     (''display_backend'', \<lambda>v. v = ''wayland-drm''),
     (''runtime_payload'', \<lambda>v. v = ''PASS''),
     (''dependency_closure'', \<lambda>v. v = ''PASS''),
     (''nwjs_qemu_loader_smoke'', \<lambda>v. v = ''PASS''),
     (''cage_qemu_loader_smoke'', \<lambda>v. v = ''PASS''),
     (''seatd_qemu_loader_smoke'', \<lambda>v. v = ''PASS''),
     (''loader_validation'', \<lambda>v. v = ''PASS''),
     (''qemu_render_validation'', \<lambda>v. v = ''PASS''),
     (''qemu_render_evidence_sha256'', is_sha256),
     (''qemu_real_mv_interactive'', \<lambda>v. v = ''PASS''),
     (''qemu_real_mz_interactive'', \<lambda>v. v = ''PASS''),
     (''qemu_real_evidence_sha256'', is_sha256),
     (''device_validation'', \<lambda>v. v = ''PASS''),
     (''display_smoke'', \<lambda>v. v = ''PASS''),
     (''egl_panfrost_smoke'', \<lambda>v. v = ''PASS''),
     (''fullscreen_smoke'', \<lambda>v. v = ''PASS''),
     (''device_mv_interactive'', \<lambda>v. v = ''PASS''),
     (''device_mz_interactive'', \<lambda>v. v = ''PASS''),
     (''audio_smoke'', \<lambda>v. v = ''PASS''),
     (''h700_gamepad_smoke'', \<lambda>v. v = ''PASS''),
     (''menu_start_supervisor_smoke'', \<lambda>v. v = ''PASS''),
     (''save_restart_smoke'', \<lambda>v. v = ''PASS''),
     (''peak_pss_under_640_mib'', \<lambda>v. v = ''PASS''),
     (''device_evidence_sha256'', is_sha256),
     (''truth_level'', \<lambda>v. v = ''DEVICE_PASS'')]"

definition capability_passes :: "string \<times> string \<Rightarrow> bool" where
  "capability_passes e = (case map_of capability_facts (fst e) of None \<Rightarrow> False | Some test \<Rightarrow> test (snd e))"

text \<open>The entries of the file, if every line is well formed.\<close>

function admission_entries :: "string \<Rightarrow> (string \<times> string) list option" where
  "admission_entries s = (case fgets 512 s of
       None \<Rightarrow> Some []
     | Some (buffer, rest) \<Rightarrow>
       (case capability_line buffer of
          Skip \<Rightarrow> admission_entries rest
        | Malformed \<Rightarrow> None
        | Entry k v \<Rightarrow> map_option (Cons (k, v)) (admission_entries rest)))"
  by pat_completeness auto
termination by (relation "measure length") (auto dest: fgets_shorter)

declare admission_entries.simps [simp del]

definition facts_admitted :: "(string \<times> string) list \<Rightarrow> bool" where
  "facts_admitted es \<longleftrightarrow> es \<noteq> [] \<and> fst (hd es) = ''schema'' \<and> distinct (map fst es) \<and> set (map fst es) = set (map fst capability_facts) \<and>
     list_all capability_passes es"

text \<open>The loop is a run over the entries that stops at the first invalid one.\<close>

fun run_entries :: "capability_state \<Rightarrow> (string \<times> string) list \<Rightarrow> capability_state" where
  "run_entries st [] = st"
| "run_entries st (e # es) = (if cap_valid st then run_entries (capability_entry st e) es else st)"

lemma run_entries_invalid: "\<not> cap_valid st \<Longrightarrow> run_entries st es = st"
  by (cases es) auto

lemma capability_loop_run:
  "cap_valid st \<Longrightarrow> (case admission_entries s of Some es \<Rightarrow> capability_loop st s = run_entries st es | None \<Rightarrow> \<not> cap_valid (capability_loop st s))"
proof (induction s arbitrary: st rule: admission_entries.induct)
  case (1 s)
  show ?case
  proof (cases "fgets 512 s")
    case None
    then show ?thesis using 1(3) by (simp add: admission_entries.simps [of s] capability_loop.simps [of st s])
  next
    case (Some r)
    obtain b t where r: "fgets 512 s = Some (b, t)" using Some by (cases r) simp
    show ?thesis
    proof (cases "capability_line b")
      case Skip
      then show ?thesis using 1(1) [OF r refl Skip 1(3)] r 1(3)
        by (auto simp: admission_entries.simps [of s] capability_loop.simps [of st s] split: option.splits)
    next
      case Malformed
      then show ?thesis using r 1(3) by (simp add: admission_entries.simps [of s] capability_loop.simps [of st s])
    next
      case (Entry k v)
      let ?st = "capability_entry st (k, v)"
      show ?thesis
      proof (cases "cap_valid ?st")
        case True
        then show ?thesis using 1(2) [OF r refl Entry True] r 1(3) Entry
          by (auto simp: admission_entries.simps [of s] capability_loop.simps [of st s] split: option.splits)
      next
        case False
        then have "capability_loop ?st t = ?st" by (simp add: capability_loop.simps)
        then show ?thesis using r 1(3) Entry False run_entries_invalid
          by (auto simp: admission_entries.simps [of s] capability_loop.simps [of st s] split: option.splits)
      qed
    qed
  qed
qed

text \<open>The bit of a key.\<close>

definition fact_index :: "string \<Rightarrow> nat" where
  "fact_index k = length (takeWhile (\<lambda>e. fst e \<noteq> k) capability_facts)"

lemma facts_distinct: "distinct (map fst capability_facts)" "length capability_facts = 34"
  by (simp_all add: capability_facts_def)

lemma fact_index_nth: "i < 34 \<Longrightarrow> fact_index (fst (capability_facts ! i)) = i"
proof -
  assume i: "i < 34"
  let ?k = "fst (capability_facts ! i)"
  have "takeWhile (\<lambda>e. fst e \<noteq> ?k) capability_facts = take i capability_facts"
  proof (rule takeWhile_eq_take_P_nth)
    show "fst (capability_facts ! j) \<noteq> ?k" if "j < i" "j < length capability_facts" for j
      using that i facts_distinct nth_eq_iff_index_eq [of "map fst capability_facts" j i] by auto
  qed simp
  then show ?thesis using i facts_distinct(2) by (simp add: fact_index_def)
qed

lemma fact_index_less: "fact_index k < 34 \<longleftrightarrow> k \<in> fst ` set capability_facts"
proof
  assume "fact_index k < 34"
  then have "fact_index k < length capability_facts" by (simp add: facts_distinct)
  from nth_length_takeWhile [OF this [unfolded fact_index_def]] this show "k \<in> fst ` set capability_facts"
    by (metis (no_types, lifting) fact_index_def image_eqI nth_mem)
next
  assume "k \<in> fst ` set capability_facts"
  then obtain i where "i < length capability_facts" "fst (capability_facts ! i) = k" by (auto simp: in_set_conv_nth)
  then show "fact_index k < 34" using fact_index_nth [of i] by (simp add: facts_distinct)
qed

lemma fact_index_inj: "k \<in> fst ` set capability_facts \<Longrightarrow> fact_index k = fact_index k' \<Longrightarrow> k = k'"
proof -
  have n: "fst (capability_facts ! fact_index x) = x" if "fact_index x < 34" for x
    using nth_length_takeWhile [of "\<lambda>e. fst e \<noteq> x" capability_facts] that by (simp add: fact_index_def facts_distinct)
  assume "k \<in> fst ` set capability_facts" "fact_index k = fact_index k'"
  then show "k = k'" using fact_index_less n by metis
qed


text \<open>What the tables give for the keys they hold.\<close>

lemma find_key: "distinct (map fst xs) \<Longrightarrow> e \<in> set xs \<Longrightarrow> find (\<lambda>x. fst x = fst e) xs = Some e"
proof (induction xs)
  case (Cons x xs)
  then show ?case by (cases "fst x = fst e") (auto simp: image_iff)
qed simp

lemma find_absent: "k \<notin> fst ` set xs \<Longrightarrow> find (\<lambda>x. fst x = k) xs = None"
  unfolding find_None_iff by blast

lemma distinct_parts:
  "distinct (as @ bs @ cs @ ds) \<Longrightarrow> (distinct as \<and> distinct bs \<and> distinct cs) \<and> (set as \<inter> set bs = {} \<and> set as \<inter> set cs = {} \<and> set bs \<inter> set cs = {}) \<and>
    (set as \<union> set bs \<union> set cs) \<inter> set ds = {}"
  by auto

lemma not_in_other: "A \<inter> B = {} \<Longrightarrow> k \<in> A \<Longrightarrow> k \<notin> B"
  by blast

lemma tables_apart:
  "distinct (map fst rmut_exact @ map fst rmut_status @ map fst rmut_evidence @ [''schema'', ''runtime_sha256'', ''cage_sha256'', ''truth_level''])"
  by code_simp

lemma table_rows:
  "(k, w, f) \<in> set rmut_exact \<Longrightarrow> k \<noteq> ''truth_level'' \<and> capability_field k v SCHEMA_RMUT_V3 level = (v = w, SCHEMA_RMUT_V3, level, f, v = w)"
  "(k, f) \<in> set rmut_status \<Longrightarrow> k \<noteq> ''truth_level'' \<and>
     capability_field k v SCHEMA_RMUT_V3 level = (v = ''PASS'' \<or> v = ''UNVERIFIED'', SCHEMA_RMUT_V3, level, f, v = ''PASS'')"
  "(k, f) \<in> set rmut_evidence \<Longrightarrow> k \<noteq> ''truth_level'' \<and>
     capability_field k v SCHEMA_RMUT_V3 level = (is_sha256 v \<or> v = ''UNVERIFIED'', SCHEMA_RMUT_V3, level, f, is_sha256 v)"
proof -
  have apart: "k \<notin> set [''schema'', ''runtime_sha256'', ''cage_sha256'', ''truth_level'']"
    if "k \<in> fst ` set rmut_exact \<union> fst ` set rmut_status \<union> fst ` set rmut_evidence" for k
    by (rule not_in_other [OF distinct_parts [OF tables_apart, THEN conjunct2, THEN conjunct2, unfolded set_map] that])
  have d: "distinct (map fst rmut_exact)" "distinct (map fst rmut_status)" "distinct (map fst rmut_evidence)"
    "fst ` set rmut_exact \<inter> fst ` set rmut_status = {}" "fst ` set rmut_exact \<inter> fst ` set rmut_evidence = {}" "fst ` set rmut_status \<inter> fst ` set rmut_evidence = {}"
    using distinct_parts [OF tables_apart] unfolding set_map by simp_all
  show "k \<noteq> ''truth_level'' \<and> capability_field k v SCHEMA_RMUT_V3 level = (v = w, SCHEMA_RMUT_V3, level, f, v = w)" if e: "(k, w, f) \<in> set rmut_exact"
  proof -
    have "k \<in> fst ` set rmut_exact" using e by force
    then show ?thesis using apart [of k] find_key [OF d(1) e] by (simp add: capability_field_def)
  qed
  show "k \<noteq> ''truth_level'' \<and> capability_field k v SCHEMA_RMUT_V3 level = (v = ''PASS'' \<or> v = ''UNVERIFIED'', SCHEMA_RMUT_V3, level, f, v = ''PASS'')"
    if e: "(k, f) \<in> set rmut_status"
  proof -
    have k: "k \<in> fst ` set rmut_status" using e by force
    then have "k \<notin> fst ` set rmut_exact" using d(4) by blast
    then show ?thesis using k apart [of k] find_key [OF d(2) e] find_absent [of k rmut_exact] by (simp add: capability_field_def)
  qed
  show "k \<noteq> ''truth_level'' \<and> capability_field k v SCHEMA_RMUT_V3 level = (is_sha256 v \<or> v = ''UNVERIFIED'', SCHEMA_RMUT_V3, level, f, is_sha256 v)"
    if e: "(k, f) \<in> set rmut_evidence"
  proof -
    have k: "k \<in> fst ` set rmut_evidence" using e by force
    then have "k \<notin> fst ` set rmut_exact" "k \<notin> fst ` set rmut_status" using d(5,6) by blast+
    then show ?thesis using k apart [of k] find_key [OF d(3) e] find_absent [of k rmut_exact] find_absent [of k rmut_status] by (simp add: capability_field_def)
  qed
qed

definition field_means :: "nat \<Rightarrow> string \<Rightarrow> (string \<Rightarrow> bool) \<Rightarrow> bool" where
  "field_means i k test \<longleftrightarrow> (\<forall>v level. k \<noteq> ''schema'' \<longrightarrow> (\<exists>ok level'. capability_field k v SCHEMA_RMUT_V3 level =
      (ok, SCHEMA_RMUT_V3, level', push_bit i 1, test v) \<and> (test v \<longrightarrow> ok) \<and>
      (if k = ''truth_level'' then test v \<longrightarrow> level' = RPG_TRUTH_DEVICE else level' = level)))"

lemma table_means:
  "(k, w, push_bit i 1) \<in> set rmut_exact \<Longrightarrow> field_means i k (\<lambda>v. v = w)"
  "(k, push_bit i 1) \<in> set rmut_status \<Longrightarrow> field_means i k (\<lambda>v. v = ''PASS'')"
  "(k, push_bit i 1) \<in> set rmut_evidence \<Longrightarrow> field_means i k is_sha256"
  using table_rows by (auto simp: field_means_def simp del: push_bit_of_1)

lemma other_means: "field_means 0 ''schema'' test" "field_means 4 ''runtime_sha256'' is_sha256" "field_means 6 ''cage_sha256'' is_sha256"
  by (simp_all add: field_means_def capability_field_def CAP_NW_SHA_def CAP_CAGE_SHA_def)

lemma truth_means: "field_means 33 ''truth_level'' (\<lambda>v. v = ''DEVICE_PASS'')"
proof -
  have "\<exists>ok level'. capability_field ''truth_level'' v SCHEMA_RMUT_V3 level = (ok, SCHEMA_RMUT_V3, level', push_bit 33 1, v = ''DEVICE_PASS'') \<and>
      (v = ''DEVICE_PASS'' \<longrightarrow> ok) \<and> (v = ''DEVICE_PASS'' \<longrightarrow> level' = RPG_TRUTH_DEVICE)" for v level
    by (cases "v = ''DEVICE_PASS''") (simp_all add: capability_field_def CAP_TRUTH_def ex_bool_eq)
  then show ?thesis unfolding field_means_def by (intro allI impI) (simp only: refl if_True)
qed

lemma field_means_rows: "list_all (\<lambda>(i, k, test). field_means i k test) (enumerate 0 capability_facts)"
proof -
  have "list_all (\<lambda>(i, k, test). field_means i k test) (zip [0, 1, 2, 3, 4, 5, 6, 7, 8, 9, 10, 11, 12, 13, 14, 15, 16, 17, 18, 19, 20, 21, 22, 23, 24, 25, 26, 27, 28, 29, 30, 31, 32, 33] capability_facts)"
    unfolding capability_facts_def zip_Cons_Cons zip_Nil list.pred_inject prod.case
    by (intro conjI TrueI; ((rule other_means truth_means) | (rule table_means(1), simp add: rmut_exact_def cap_defs; fail) |
       (rule table_means(2), simp add: rmut_status_def cap_defs; fail) | (rule table_means(3), simp add: rmut_evidence_def cap_defs; fail) | (simp; fail)))
  moreover have "[0..<34] = [0, 1, 2, 3, 4, 5, 6, 7, 8, 9, 10, 11, 12, 13, 14, 15, 16, 17, 18, 19, 20, 21, 22, 23, 24, 25, 26, 27, 28, 29, 30, 31, 32, 33]" by code_simp
  ultimately show ?thesis by (simp only: enumerate_eq_zip facts_distinct add_0_left)
qed

lemma capability_passes_row: "i < 34 \<Longrightarrow> capability_passes (fst (capability_facts ! i), v) = snd (capability_facts ! i) v"
proof -
  assume "i < 34"
  then have "(fst (capability_facts ! i), snd (capability_facts ! i)) \<in> set capability_facts" by (simp add: facts_distinct)
  then have "map_of capability_facts (fst (capability_facts ! i)) = Some (snd (capability_facts ! i))" by (rule map_of_is_SomeI [OF facts_distinct(1)])
  then show ?thesis by (simp add: capability_passes_def)
qed

lemma capability_field_fact:
  assumes "k \<in> fst ` set capability_facts" "k \<noteq> ''schema''"
  shows "\<exists>ok level'. capability_field k v SCHEMA_RMUT_V3 level =
      (ok, SCHEMA_RMUT_V3, level', push_bit (fact_index k) 1, capability_passes (k, v)) \<and> (capability_passes (k, v) \<longrightarrow> ok) \<and>
      (if k = ''truth_level'' then capability_passes (k, v) \<longrightarrow> level' = RPG_TRUTH_DEVICE else level' = level)"
proof -
  obtain i where i: "i < 34" "k = fst (capability_facts ! i)" using assms(1) by (auto simp: in_set_conv_nth facts_distinct)
  then have "(i, capability_facts ! i) \<in> set (enumerate 0 capability_facts)" by (simp add: in_set_enumerate_eq facts_distinct)
  with field_means_rows have "field_means i k (snd (capability_facts ! i))" using i(2) by (auto simp: list_all_iff split: prod.splits)
  then show ?thesis using assms(2) unfolding field_means_def capability_passes_row [OF i(1), folded i(2)] fact_index_nth [OF i(1), folded i(2)] by blast
qed

lemma capability_field_unknown: "k \<notin> fst ` set capability_facts \<Longrightarrow> \<not> fst (capability_field k v schema level)"
proof -
  assume k: "k \<notin> fst ` set capability_facts"
  have sub: "''schema'' \<in> fst ` set capability_facts" "''runtime_sha256'' \<in> fst ` set capability_facts" "''cage_sha256'' \<in> fst ` set capability_facts"
    "''truth_level'' \<in> fst ` set capability_facts" "fst ` set rmut_exact \<subseteq> fst ` set capability_facts" "fst ` set rmut_status \<subseteq> fst ` set capability_facts"
    "fst ` set rmut_evidence \<subseteq> fst ` set capability_facts"
    unfolding set_map [symmetric] subset_code list_all_iff [symmetric] by code_simp+
  then have "find (\<lambda>e. fst e = k) rmut_exact = None" "find (\<lambda>e. fst e = k) rmut_status = None" "find (\<lambda>e. fst e = k) rmut_evidence = None"
    unfolding find_None_iff using k by blast+
  moreover have "k \<noteq> ''schema''" "k \<noteq> ''runtime_sha256''" "k \<noteq> ''cage_sha256''" "k \<noteq> ''truth_level''" using k sub(1-4) by metis+
  ultimately show ?thesis by (simp add: capability_field_def)
qed

text \<open>The two words are the sets of seen and passed facts.\<close>

definition tracks :: "capability_state \<Rightarrow> nat set \<Rightarrow> nat set \<Rightarrow> bool" where
  "tracks st S P \<longleftrightarrow> (\<forall>i. bit (cap_seen st) i \<longleftrightarrow> i \<in> S) \<and> (\<forall>i. bit (cap_passed st) i \<longleftrightarrow> i \<in> P) \<and> P \<subseteq> S \<and> S \<subseteq> {..<34} \<and>
     (33 \<in> P \<longrightarrow> cap_level st = RPG_TRUTH_DEVICE) \<and> cap_schema st = SCHEMA_RMUT_V3"

lemma required_bits: "w = CAP_REQUIRED \<longleftrightarrow> (\<forall>i. bit w i \<longleftrightarrow> i < 34)"
proof -
  have "CAP_REQUIRED = mask 34" by (simp add: CAP_REQUIRED_def mask_eq_exp_minus_1)
  moreover have "bit w i \<Longrightarrow> i < 64" for i using bit_imp_le_length [of w i] by simp
  ultimately show ?thesis by (auto simp: bit_eq_iff bit_simps)
qed

lemma tracks_required:
  "tracks st S P \<Longrightarrow> cap_seen st = CAP_REQUIRED \<longleftrightarrow> S = {..<34}"
  "tracks st S P \<Longrightarrow> cap_passed st = CAP_REQUIRED \<longleftrightarrow> P = {..<34}"
  by (simp_all add: required_bits tracks_def set_eq_iff)

lemma truth_index: "fact_index ''truth_level'' = 33"
  using fact_index_nth [of 33] by (simp add: capability_facts_def)

lemma one_bit: "i < 34 \<Longrightarrow> bit ((w :: u64) OR push_bit i 1) j \<longleftrightarrow> bit w j \<or> j = i" "i < 34 \<Longrightarrow> push_bit i 1 \<noteq> (0 :: u64)"
  "w AND push_bit i 1 \<noteq> 0 \<longleftrightarrow> bit w i"
  by (auto simp: bit_simps and_exp_eq_0_iff_not_bit)

lemma capability_entry_tracks:
  assumes "tracks st S P" and e: "k \<in> fst ` set capability_facts" "k \<noteq> ''schema''"
  shows "fact_index k \<in> S \<Longrightarrow> \<not> cap_valid (capability_entry st (k, v))"
    and "fact_index k \<notin> S \<Longrightarrow> capability_passes (k, v) \<Longrightarrow> cap_valid (capability_entry st (k, v))"
    and "fact_index k \<notin> S \<Longrightarrow> tracks (capability_entry st (k, v)) (insert (fact_index k) S) (if capability_passes (k, v) then insert (fact_index k) P else P)"
proof -
  obtain ok level' where f: "capability_field k v SCHEMA_RMUT_V3 (cap_level st) = (ok, SCHEMA_RMUT_V3, level', push_bit (fact_index k) 1, capability_passes (k, v))"
      and ok: "capability_passes (k, v) \<longrightarrow> ok"
      and level: "if k = ''truth_level'' then capability_passes (k, v) \<longrightarrow> level' = RPG_TRUTH_DEVICE else level' = cap_level st"
    using capability_field_fact [OF e] by blast
  have i: "fact_index k < 34" using e(1) by (simp add: fact_index_less)
  have st: "cap_schema st = SCHEMA_RMUT_V3" "bit (cap_seen st) j \<longleftrightarrow> j \<in> S" "bit (cap_passed st) j \<longleftrightarrow> j \<in> P" "P \<subseteq> S" "S \<subseteq> {..<34}"
      "33 \<in> P \<longrightarrow> cap_level st = RPG_TRUTH_DEVICE" for j
    using assms(1) by (auto simp: tracks_def)
  have entry: "capability_entry st (k, v) = \<lparr>cap_seen = cap_seen st OR push_bit (fact_index k) 1,
      cap_passed = (if capability_passes (k, v) then cap_passed st OR push_bit (fact_index k) 1 else cap_passed st), cap_schema = SCHEMA_RMUT_V3,
      cap_level = level', cap_valid = (ok \<and> fact_index k \<notin> S)\<rparr>"
    using one_bit(2) [OF i] by (simp only: capability_entry_def fst_conv snd_conv st(1) f prod.case one_bit(3) st(2)) simp
  show "fact_index k \<in> S \<Longrightarrow> \<not> cap_valid (capability_entry st (k, v))" by (simp add: entry)
  show "fact_index k \<notin> S \<Longrightarrow> capability_passes (k, v) \<Longrightarrow> cap_valid (capability_entry st (k, v))" using ok by (simp add: entry)
  have "level' = RPG_TRUTH_DEVICE" if "fact_index k \<notin> S" "33 \<in> (if capability_passes (k, v) then insert (fact_index k) P else P)"
    using that level st fact_index_inj [OF e(1), of "''truth_level''"] truth_index by (auto split: if_splits)
  then show "fact_index k \<notin> S \<Longrightarrow> tracks (capability_entry st (k, v)) (insert (fact_index k) S) (if capability_passes (k, v) then insert (fact_index k) P else P)"
    unfolding tracks_def entry using st i one_bit(1) [OF i] by (auto simp del: push_bit_of_1)
qed

lemma capability_entry_known: "tracks st S P \<Longrightarrow> cap_valid (capability_entry st (k, v)) \<Longrightarrow> k \<in> fst ` set capability_facts \<and> k \<noteq> ''schema''"
  using capability_field_unknown [of k v "cap_schema st" "cap_level st"]
  by (auto simp: capability_entry_def tracks_def capability_field_def [of "''schema''"] split: prod.splits)

abbreviation passed_facts :: "(string \<times> string) list \<Rightarrow> nat set" where
  "passed_facts es \<equiv> fact_index ` fst ` set (filter capability_passes es)"

lemma run_entries_tracks:
  "tracks st S P \<Longrightarrow> cap_valid st \<Longrightarrow> cap_valid (run_entries st es) \<Longrightarrow>
    tracks (run_entries st es) (S \<union> fact_index ` fst ` set es) (P \<union> passed_facts es) \<and> distinct (map fst es) \<and>
    (\<forall>k \<in> fst ` set es. k \<in> fst ` set capability_facts \<and> k \<noteq> ''schema'' \<and> fact_index k \<notin> S)"
proof (induction es arbitrary: st S P)
  case (Cons e es)
  obtain k v where e: "e = (k, v)" by fastforce
  let ?st = "capability_entry st e" and ?P = "if capability_passes e then insert (fact_index k) P else P"
  have valid: "cap_valid ?st"
    using Cons.prems(2,3) run_entries_invalid [of ?st es] by (cases "cap_valid ?st") auto
  have k: "k \<in> fst ` set capability_facts" "k \<noteq> ''schema''" using capability_entry_known [OF Cons.prems(1) valid [unfolded e]] by simp_all
  have S: "fact_index k \<notin> S" using capability_entry_tracks(1) [OF Cons.prems(1) k] valid e by blast
  have t: "tracks ?st (insert (fact_index k) S) ?P" using capability_entry_tracks(3) [OF Cons.prems(1) k S] e by simp
  have r: "run_entries st (e # es) = run_entries ?st es" using Cons.prems(2) by simp
  note IH = Cons.IH [OF t valid Cons.prems(3) [unfolded r]]
  have "k \<notin> fst ` set es" using IH by blast
  moreover have "insert (fact_index k) S \<union> fact_index ` fst ` set es = S \<union> fact_index ` fst ` set (e # es)" by (auto simp: e)
  moreover have "?P \<union> passed_facts es = P \<union> passed_facts (e # es)" by (auto simp: e)
  ultimately show ?case using IH k S unfolding r by (auto simp: e)
qed simp

lemma run_entries_valid:
  "tracks st S P \<Longrightarrow> cap_valid st \<Longrightarrow> distinct (map fst es) \<Longrightarrow>
   (\<forall>e \<in> set es. capability_passes e \<and> fst e \<in> fst ` set capability_facts \<and> fst e \<noteq> ''schema'' \<and> fact_index (fst e) \<notin> S) \<Longrightarrow> cap_valid (run_entries st es)"
proof (induction es arbitrary: st S P)
  case (Cons e es)
  obtain k v where e: "e = (k, v)" by fastforce
  let ?st = "capability_entry st e" and ?P = "if capability_passes e then insert (fact_index k) P else P"
  have k: "k \<in> fst ` set capability_facts" "k \<noteq> ''schema''" "fact_index k \<notin> S" "capability_passes (k, v)" using Cons.prems(4) e by auto
  have valid: "cap_valid ?st" using capability_entry_tracks(2) [OF Cons.prems(1) k(1,2,3,4)] e by simp
  have t: "tracks ?st (insert (fact_index k) S) ?P" using capability_entry_tracks(3) [OF Cons.prems(1) k(1,2,3)] e by simp
  have "fact_index (fst x) \<noteq> fact_index k" if "x \<in> set es" for x
    using that fact_index_inj [OF k(1), of "fst x"] Cons.prems(3) e by force
  then have "cap_valid (run_entries ?st es)"
    using Cons.prems(3,4) by (intro Cons.IH [OF t valid]) auto
  then show ?case using Cons.prems(2) by simp
qed simp

text \<open>The first entry has to be the schema.\<close>

lemma first_entry:
  "cap_valid (capability_entry capability_start e) \<longleftrightarrow> fst e = ''schema'' \<and> capability_passes e"
  "fst e = ''schema'' \<Longrightarrow> capability_passes e \<Longrightarrow> tracks (capability_entry capability_start e) {0} {0}"
proof -
  have s: "capability_passes (''schema'', v) \<longleftrightarrow> v = ''rg40xxv-rmut-runtime-admission-v3''" for v
    by (simp add: capability_passes_def capability_facts_def)
  show "cap_valid (capability_entry capability_start e) \<longleftrightarrow> fst e = ''schema'' \<and> capability_passes e"
    using s by (cases e) (auto simp: capability_entry_def capability_start_def capability_field_def)
  show "fst e = ''schema'' \<Longrightarrow> capability_passes e \<Longrightarrow> tracks (capability_entry capability_start e) {0} {0}"
    using s by (cases e) (auto simp: capability_entry_def capability_start_def capability_field_def CAP_SCHEMA_def tracks_def bit_1_iff)
qed

lemma schema_index: "fact_index ''schema'' = 0" "''schema'' \<in> fst ` set capability_facts"
  using fact_index_nth [of 0] by (simp_all add: capability_facts_def)

lemma fact_indices: "fact_index ` fst ` set capability_facts = {..<34}"
proof (intro equalityI subsetI)
  fix i :: nat assume "i \<in> {..<34}"
  then show "i \<in> fact_index ` fst ` set capability_facts"
    using fact_index_nth [of i] facts_distinct(2) by (metis image_eqI lessThan_iff nth_mem)
qed (use fact_index_less in blast)

lemma keys_covered: "K \<subseteq> fst ` set capability_facts \<Longrightarrow> fact_index ` K = {..<34} \<longleftrightarrow> K = fst ` set capability_facts"
proof -
  assume K: "K \<subseteq> fst ` set capability_facts"
  have "inj_on fact_index (fst ` set capability_facts)" using fact_index_inj by (auto simp: inj_on_def)
  from inj_on_image_eq_iff [OF this K subset_refl] show ?thesis by (simp add: fact_indices)
qed

definition admitted_state :: "capability_state \<Rightarrow> bool" where
  "admitted_state st \<longleftrightarrow> cap_valid st \<and> cap_schema st = SCHEMA_RMUT_V3 \<and> cap_seen st = CAP_REQUIRED \<and> cap_passed st = CAP_REQUIRED \<and>
     cap_level st = RPG_TRUTH_DEVICE"

lemma tracks_admitted: "tracks st {..<34} {..<34} \<Longrightarrow> cap_valid st \<Longrightarrow> admitted_state st"
  by (simp add: admitted_state_def tracks_required) (simp add: tracks_def)

lemma distinct_keys_eq: "distinct (map fst r) \<Longrightarrow> x \<in> set r \<Longrightarrow> y \<in> set r \<Longrightarrow> fst x = fst y \<Longrightarrow> x = y"
  by (metis eq_key_imp_eq_value prod.collapse)

lemma admitted_facts:
  assumes e: "fst e = ''schema''" "capability_passes e" and a: "admitted_state (run_entries (capability_entry capability_start e) r)"
  shows "facts_admitted (e # r)"
proof -
  let ?run = "run_entries (capability_entry capability_start e) r"
  have v: "cap_valid (capability_entry capability_start e)" "cap_valid ?run" using first_entry(1) e a by (simp_all add: admitted_state_def)
  note t = run_entries_tracks [OF first_entry(2) [OF e] v]
  have seen: "{0} \<union> fact_index ` fst ` set r = {..<34}" and passed: "{0} \<union> passed_facts r = {..<34}"
    using a tracks_required [OF conjunct1 [OF t]] by (simp_all add: admitted_state_def)
  have known: "k \<in> fst ` set capability_facts" "k \<noteq> ''schema''" "fact_index k \<noteq> 0" if "k \<in> fst ` set r" for k
    using that t by auto
  have "capability_passes x" if x: "x \<in> set r" for x
  proof -
    have "fact_index (fst x) \<in> {0} \<union> fact_index ` fst ` set r" using x by simp
    then have "fact_index (fst x) \<in> {0} \<union> passed_facts r" by (simp only: seen passed)
    moreover have "fact_index (fst x) \<noteq> 0" using known(3) x by simp
    ultimately have "fact_index (fst x) \<in> passed_facts r" by simp
    then obtain y where y: "y \<in> set r" "capability_passes y" "fact_index (fst y) = fact_index (fst x)" by auto
    have "fst y = fst x" using fact_index_inj [OF known(1) y(3)] y(1) by simp
    then show ?thesis using distinct_keys_eq [of r y x] t x y by simp
  qed
  moreover have "fst ` set (e # r) = fst ` set capability_facts"
  proof (rule iffD1 [OF keys_covered])
    show "fst ` set (e # r) \<subseteq> fst ` set capability_facts" using known(1) e(1) schema_index(2) by auto
    show "fact_index ` fst ` set (e # r) = {..<34}" using seen e(1) schema_index(1) by simp
  qed
  ultimately show ?thesis using e t known(2) unfolding facts_admitted_def by (force simp: list_all_iff)
qed

lemma facts_admitted_run:
  assumes a: "facts_admitted (e # r)"
  shows "admitted_state (run_entries (capability_entry capability_start e) r)"
proof -
  have e: "fst e = ''schema''" "capability_passes e" and d: "distinct (map fst r)" "fst e \<notin> fst ` set r" "list_all capability_passes r"
      and keys: "insert (fst e) (fst ` set r) = fst ` set capability_facts"
    using a unfolding facts_admitted_def list.sel list.map distinct.simps set_map list.set image_insert list.pred_inject by blast+
  have v: "cap_valid (capability_entry capability_start e)" using first_entry(1) e by simp
  have r: "capability_passes x \<and> fst x \<in> fst ` set capability_facts \<and> fst x \<noteq> ''schema'' \<and> fact_index (fst x) \<notin> {0}" if x: "x \<in> set r" for x
  proof -
    have "fst x \<in> fst ` set capability_facts" "fst x \<noteq> ''schema''" using x keys d(2) e(1) by (metis imageI insertI2) (use x d(2) e(1) in force)
    then show ?thesis using fact_index_inj [of "fst x" "''schema''"] schema_index(1) x d(3) by (auto simp: list_all_iff)
  qed
  have valid: "cap_valid (run_entries (capability_entry capability_start e) r)"
    by (rule run_entries_valid [OF first_entry(2) [OF e] v d(1)]) (use r in simp)
  have all: "filter capability_passes r = r" using d(3) by (simp add: filter_id_conv list_all_iff)
  have "{0} \<union> fact_index ` fst ` set r = fact_index ` insert (fst e) (fst ` set r)" using e(1) schema_index(1) by simp
  also have "\<dots> = {..<34}" by (simp only: keys fact_indices)
  finally show ?thesis
    using run_entries_tracks [OF first_entry(2) [OF e] v valid] valid unfolding all by (intro tracks_admitted) simp_all
qed

lemma admitted_run: "admitted_state (run_entries capability_start es) \<longleftrightarrow> facts_admitted es"
proof (cases es)
  case Nil
  have "(0 :: u64) \<noteq> CAP_REQUIRED" using required_bits [of 0] by (metis bit_0_eq bot_apply bot_bool_def zero_less_numeral)
  then show ?thesis using Nil by (simp add: capability_start_def facts_admitted_def admitted_state_def)
next
  case (Cons e r)
  have run: "run_entries capability_start es = run_entries (capability_entry capability_start e) r" by (simp add: Cons capability_start_def)
  have "fst e = ''schema'' \<and> capability_passes e" if "admitted_state (run_entries capability_start es)"
    using that run_entries_invalid [of "capability_entry capability_start e" r] first_entry(1) [of e] by (auto simp: run admitted_state_def)
  then show ?thesis using admitted_facts [of e r] facts_admitted_run [of e r] unfolding run unfolding Cons by blast
qed

text \<open>
  The RPG Maker runtime is offered exactly on complete evidence. The
  capability is launchable exactly if the admission file is a regular file,
  writable by nobody else and of at most 16384 bytes, is read without error, all
  its lines are well formed, and its entries are the 34 required facts, each
  exactly once and with a value that passes its test, the schema first.
\<close>

theorem capability_launchable_exact:
  "launchable (rpg_capability_load env d opened read_ok) \<longleftrightarrow>
    read_ok \<and> (\<exists>t es. admission_text env d opened = Some t \<and> admission_entries t = Some es \<and> facts_admitted es)"
proof (cases "admission_text env d opened")
  case None
  then show ?thesis by (simp add: rpg_capability_load_def no_capability_def)
next
  case (Some t)
  have "cap_valid capability_start" by (simp add: capability_start_def)
  from capability_loop_run [OF this, of t] admitted_run show ?thesis
    by (auto simp: rpg_capability_load_def admitted_state_def Some Let_def split: option.splits)
qed

section \<open>The routes of a table\<close>

text \<open>What is known of a line that became a route.\<close>

definition route_of :: "rpg_capability \<Rightarrow> string \<Rightarrow> platform_route \<Rightarrow> bool" where
  "route_of cap line r \<longleftrightarrow> extract_after line system_marker 64 = Some (rt_system r) \<and> extract_after line routes_marker 96 = Some (primary r) \<and>
     rt_fallback r = second_route line \<and> rt_playable r = (\<not> strstr line unplayable_marker \<or> (launchable cap \<and> is_rpg_web_system (rt_system r))) \<and>
     (\<exists>label. extract_after line label_marker 128 = Some label \<and>
       label_zh_tw r = label @ (if is_rpg_web_system (rt_system r) then rpg_capability_suffix cap else []))"

lemma add_route_items:
  "add_route memory routes line cap = (routes1, 0) \<Longrightarrow> r \<in> set (route_items routes1) \<Longrightarrow> r \<in> set (route_items routes) \<or> route_of cap line r"
  by (auto simp: add_route_def route_of_def Let_def split: if_splits option.splits)

lemma load_routes_items:
  "load_routes memory cap routes ls = (routes1, 0) \<Longrightarrow> r \<in> set (route_items routes1) \<Longrightarrow>
   r \<in> set (route_items routes) \<or> (\<exists>line \<in> set ls. route_of cap line r)"
proof (induction memory cap routes ls arbitrary: routes1 rule: load_routes.induct)
  case (2 memory cap routes line ls)
  show ?case
  proof (cases "strstr line ([CHR 0x22] @ ''label_zh_TW'' @ [CHR 0x22]) \<and> strstr line ([CHR 0x22] @ ''routes'' @ [CHR 0x22])")
    case True
    obtain r2 res where a: "add_route memory routes line cap = (r2, res)" by fastforce
    then have "res = 0" "load_routes memory cap r2 ls = (routes1, 0)" using "2.prems"(1) True by (auto split: if_splits)
    then show ?thesis using "2.IH"(1) [OF True a [symmetric]] "2.prems"(2) add_route_items [of memory routes line cap r2 r] a by auto
  next
    case False
    then have "load_routes memory cap routes ls = (routes1, 0)" using "2.prems"(1) by auto
    then show ?thesis using "2.IH"(2) [OF False] "2.prems"(2) by auto
  qed
qed simp

lemma loaded_route:
  assumes "platform_routes_load memory cap (Some t) routes p = (routes1, 0)" "platform_route_find routes1 s = Some r"
  shows "rt_system r = s \<and> (\<exists>line \<in> set (fgets_lines 1024 t). route_of cap line r)"
proof -
  let ?r0 = "(platform_routes_destroy routes)\<lparr>rpg_truth_level := truth_number (truth cap), rpg_launchable := launchable cap, source_path := snprintf_s PATH_MAX p\<rparr>"
  have load: "load_routes memory cap ?r0 (fgets_lines 1024 t) = (routes1, 0)"
    using assms(1) by (auto simp: platform_routes_load_def Let_def split: prod.splits if_splits)
  have "r \<in> set (route_items routes1)" "rt_system r = s" using assms(2) by (auto simp: platform_route_find_def find_Some_iff)
  with load_routes_items [OF load] show ?thesis by (auto simp: platform_routes_destroy_def)
qed

end
