(* ===== verification/Catalog_Snapshot.thy ===== *)
theory Catalog_Snapshot
  imports Library_State Scanf Qsort Platform_Routes
begin

unbundle bit_operations_syntax

text \<open>
  The catalogue snapshot of the shell
  (\<^verbatim>\<open>components/rg40xxv-shell/src/catalog_snapshot.c\<close>): its text format, loading it
  with every check, and replacing it on disk. \<open>memory n\<close> says whether the
  allocations for one more entry succeed when \<open>n\<close> are there; \<^verbatim>\<open>qsort\<close> is a
  parameter, once for games and once for texts.
\<close>

section \<open>Tokens\<close>

definition SNAPSHOT_SCHEMA :: string where "SNAPSHOT_SCHEMA = ''RG40XXV-CATALOG-V3''"
definition SNAPSHOT_MAX_BYTES :: nat where "SNAPSHOT_MAX_BYTES = 32 * 1024 * 1024"
definition SNAPSHOT_MAX_GAMES :: nat where "SNAPSHOT_MAX_GAMES = 65536"
definition SNAPSHOT_MAX_PLATFORMS :: nat where "SNAPSHOT_MAX_PLATFORMS = 4096"
definition SNAPSHOT_MAX_LINE :: nat where "SNAPSHOT_MAX_LINE = PATH_MAX * 6"
definition NAME_MAX :: nat where "NAME_MAX = 255"

definition snapshot_digits :: string where "snapshot_digits = ''0123456789abcdef''"

definition token_hex_value :: "char \<Rightarrow> nat option" where
  "token_hex_value c = (if 48 \<le> byte c \<and> byte c \<le> 57 then Some (byte c - 48)
     else if 97 \<le> byte c \<and> byte c \<le> 102 then Some (byte c - 97 + 10)
     else if 65 \<le> byte c \<and> byte c \<le> 70 then Some (byte c - 65 + 10) else None)"

fun decode_pairs :: "string \<Rightarrow> string option" where
  "decode_pairs [] = Some []"
| "decode_pairs [c] = None"
| "decode_pairs (h # l # cs) =
    (case (token_hex_value h, token_hex_value l) of
       (Some high, Some low) \<Rightarrow> (let c = char_of (high * 16 + low) in if c = NUL then None else map_option (Cons c) (decode_pairs cs))
     | _ \<Rightarrow> None)"

definition decode_token :: "string \<Rightarrow> nat \<Rightarrow> string option" where
  "decode_token token maximum_size =
    (if token = ''-'' then Some []
     else if length token = 0 \<or> odd (length token) \<or> maximum_size < length token div 2 then None
     else decode_pairs token)"

definition write_token :: "string \<Rightarrow> string" where
  "write_token v = (if v = [] then ''-'' else concat (map (\<lambda>c. [snapshot_digits ! (byte c div 16), snapshot_digits ! (byte c mod 16)]) v))"

section \<open>Records\<close>

text \<open>
  The routes with what \<^verbatim>\<open>stat\<close> tells of the file they were read from: whether it is
  regular, its time and its size.
\<close>

record route_table = platform_routes +
  route_file :: "(bool \<times> int \<times> int \<times> u64) option"

abbreviation route_count :: "route_table \<Rightarrow> nat" where
  "route_count r \<equiv> length (route_items r)"

definition stat_time_ns :: "int \<Rightarrow> int \<Rightarrow> u64" where
  "stat_time_ns seconds nanoseconds = of_int seconds * 1000000000 + of_int nanoseconds"

definition route_fingerprint :: "route_table \<Rightarrow> (u64 \<times> u64) option" where
  "route_fingerprint r =
    (if source_path r = [] then None
     else case route_file r of
         Some (True, seconds, nanoseconds, bytes) \<Rightarrow> Some (stat_time_ns seconds nanoseconds, bytes)
       | _ \<Rightarrow> None)"

definition add_unique :: "string list \<Rightarrow> string \<Rightarrow> string list" where
  "add_unique vs v = (if v \<in> set vs then vs else vs @ [v])"

definition add_snapshot_game :: "(nat \<Rightarrow> bool) \<Rightarrow> catalog_state \<Rightarrow> game_entry \<Rightarrow> catalog_state option" where
  "add_snapshot_game memory c g =
    (if SNAPSHOT_MAX_GAMES \<le> length (games c) \<or> \<not> memory (length (games c)) then None
     else Some (c\<lparr>games := games c @ [g], systems := add_unique (systems c) (system g), cores := add_unique (cores c) (core g)\<rparr>))"

definition add_platform_record :: "(nat \<Rightarrow> bool) \<Rightarrow> catalog_state \<Rightarrow> catalog_platform_record \<Rightarrow> catalog_state option" where
  "add_platform_record memory c r =
    (if SNAPSHOT_MAX_PLATFORMS \<le> length (platforms c) \<or> \<not> memory (length (platforms c)) then None
     else Some (c\<lparr>platforms := platforms c @ [r]\<rparr>))"

text \<open>The tokens \<^verbatim>\<open>strtok_r\<close> finds one after another.\<close>

definition tokens :: "string \<Rightarrow> string list" where
  "tokens s = filter (\<lambda>t. t \<noteq> []) (split_on (CHR '' '') s)"

text \<open>A whole token as a number.\<close>

definition whole_unsigned :: "string \<Rightarrow> nat option" where
  "whole_unsigned t = (case strtoul t of (x, err, rest) \<Rightarrow> if \<not> err \<and> rest = [] then Some x else None)"

definition whole_signed :: "string \<Rightarrow> int option" where
  "whole_signed t = (case strtol t of (x, err, rest) \<Rightarrow> if \<not> err \<and> rest = [] then Some x else None)"

definition parse_platform_line :: "(nat \<Rightarrow> bool) \<Rightarrow> catalog_state \<Rightarrow> string \<Rightarrow> catalog_state option" where
  "parse_platform_line memory c line =
    (case tokens line of
       [k, a, b, m, t, e, n] \<Rightarrow>
         if k \<noteq> ''platform'' then None
         else (case (map whole_unsigned [a, b, m, t, e], decode_token n NAME_MAX) of
             ([Some dev, Some ino, Some mtime, Some ctime, Some entries], Some name) \<Rightarrow>
               if name = [] \<or> CHR ''/'' \<in> set name then None
               else add_platform_record memory c \<lparr>pr_name = name, device = of_nat dev, inode_number = of_nat ino,
                 mtime_ns = of_nat mtime, ctime_ns = of_nat ctime, entry_count = of_nat entries\<rparr>
           | _ \<Rightarrow> None)
     | _ \<Rightarrow> None)"

definition game_limits :: "nat list" where
  "game_limits = [PATH_MAX - 1, PATH_MAX - 1, PATH_MAX - 1, 64, 128, 96, 96, 96, 96]"

definition parse_game_line :: "(nat \<Rightarrow> bool) \<Rightarrow> catalog_state \<Rightarrow> string \<Rightarrow> catalog_state option" where
  "parse_game_line memory c line =
    (case tokens line of
       k # m # p # fs \<Rightarrow>
         if k \<noteq> ''game'' \<or> length fs \<noteq> 9 then None
         else (case (whole_signed m, whole_signed p, those (map2 decode_token fs game_limits)) of
             (Some changed, Some plays, Some [a, b, d, e, f, g, h, i, j]) \<Rightarrow>
               if (plays \<noteq> 0 \<and> plays \<noteq> 1) \<or> take 1 b \<noteq> ''/'' \<or> take 1 d \<noteq> ''/'' \<or> e = [] \<or> g = [] then None
               else add_snapshot_game memory c \<lparr>title = a, path = b, cover_path = d, system = e, system_label = f, core = g,
                 frontend = h, runtime = i, fallback = j, content_hash = [], modified = changed, last_played = 0, favorite = False,
                 recent = False, route_lock = False, save_present = False, save_warning = False, playable = plays \<noteq> 0\<rparr>
           | _ \<Rightarrow> None)
     | _ \<Rightarrow> None)"

section \<open>Loading\<close>

text \<open>\<^verbatim>\<open>getline\<close>: the line with its line feed, and what follows.\<close>

definition getline :: "string \<Rightarrow> (string \<times> string) option" where
  "getline s = (if s = [] then None
     else let k = Suc (length (takeWhile (\<lambda>c. c \<noteq> LF) s)) in Some (take k s, drop k s))"

lemma getline_shorter: "getline s = Some (l, r) \<Longrightarrow> length r < length s"
  by (auto simp: getline_def Let_def split: if_splits)

definition line_text :: "string \<Rightarrow> string" where
  "line_text l = strip_line_end (cstr l)"

definition empty_catalog :: catalog_state where
  "empty_catalog = \<lparr>games = [], visible = [], visible_capacity = 0, systems = [], cores = [], platforms = [],
     refresh_cursor = [], system_filter = 0, core_filter = 0, favorites_only = False, recent_only = False, search_all_systems = False,
     apps_only = False, rpg_only = False, query = [], rom_root = [], filter_state_path = [], favorites_path = [],
     stock_favorites_path = [], history_path = []\<rparr>"

definition catalog_destroy :: "catalog_ui \<Rightarrow> catalog_ui" where
  "catalog_destroy ui = ui\<lparr>catalog := empty_catalog\<rparr>"

definition require :: "bool \<Rightarrow> unit option" where
  "require b = (if b then Some () else None)"

definition routes_format :: "directive list" where
  "routes_format = [Literal ''routes'', Blank, Unsigned64, Blank, Unsigned64, Blank, Unsigned64]"

definition rpg_format :: "directive list" where
  "rpg_format = [Literal ''rpg-capability'', Blank, Unsigned32, Blank, Number]"

definition complete_format :: "directive list" where
  "complete_format = [Literal ''complete'', Blank, Number]"

definition platforms_format :: "directive list" where
  "platforms_format = [Literal ''platforms'', Blank, Unsigned64]"

definition end_format :: "directive list" where
  "end_format = [Literal ''end'', Blank, Unsigned64, Blank, Unsigned64]"

text \<open>The seven lines before the records: whether the scan was complete, the cursor, and the number of platform records.\<close>

definition snapshot_header :: "route_table \<Rightarrow> string \<Rightarrow> string \<Rightarrow> (bool \<times> string \<times> int \<times> string) option" where
  "snapshot_header routes root t = do {
     (l1, t1) \<leftarrow> getline t;
     require (length l1 \<le> SNAPSHOT_MAX_LINE \<and> cstr l1 = SNAPSHOT_SCHEMA @ [LF]);
     (l2, t2) \<leftarrow> getline t1;
     require (6 < length l2 \<and> take 5 (cstr l2) = ''root '');
     stored_root \<leftarrow> decode_token (drop 5 (line_text l2)) (PATH_MAX - 1);
     require (stored_root = root);
     (mtime, bytes) \<leftarrow> route_fingerprint routes;
     (l3, t3) \<leftarrow> getline t2;
     require (fst (sscanf routes_format (cstr l3)) = [int (route_count routes), uint mtime, uint bytes]);
     (l4, t4) \<leftarrow> getline t3;
     (truth, launchable) \<leftarrow> (case fst (sscanf rpg_format (cstr l4)) of [a, b] \<Rightarrow> Some (a, b) | _ \<Rightarrow> None);
     require (truth \<le> 4 \<and> (launchable = 0 \<or> launchable = 1) \<and> truth = int (rpg_truth_level routes) \<and>
       (launchable \<noteq> 0) = rpg_launchable routes);
     (l5, t5) \<leftarrow> getline t4;
     finished \<leftarrow> (case fst (sscanf complete_format (cstr l5)) of [a] \<Rightarrow> Some a | _ \<Rightarrow> None);
     require (finished = 0 \<or> finished = 1);
     (l6, t6) \<leftarrow> getline t5;
     require (7 < length l6 \<and> take 7 (cstr l6) = ''cursor '');
     cursor \<leftarrow> decode_token (drop 7 (line_text l6)) NAME_MAX;
     require (CHR ''/'' \<notin> set cursor);
     (l7, t7) \<leftarrow> getline t6;
     n \<leftarrow> (case fst (sscanf platforms_format (cstr l7)) of [a] \<Rightarrow> Some a | _ \<Rightarrow> None);
     require (n \<le> int SNAPSHOT_MAX_PLATFORMS);
     Some (finished \<noteq> 0, cursor, n, t7)}"

fun load_platforms :: "(nat \<Rightarrow> bool) \<Rightarrow> nat \<Rightarrow> catalog_state \<Rightarrow> string \<Rightarrow> (catalog_state \<times> string) option" where
  "load_platforms memory 0 c t = Some (c, t)"
| "load_platforms memory (Suc n) c t = (case getline t of
       None \<Rightarrow> None
     | Some (l, r) \<Rightarrow> if SNAPSHOT_MAX_LINE < length l then None
         else (case parse_platform_line memory c (line_text l) of None \<Rightarrow> None | Some c1 \<Rightarrow> load_platforms memory n c1 r))"

text \<open>The loop over the games, up to the last line, after which nothing may follow.\<close>

function load_games :: "(nat \<Rightarrow> bool) \<Rightarrow> catalog_state \<Rightarrow> string \<Rightarrow> catalog_state option" where
  "load_games memory c t = (case getline t of
       None \<Rightarrow> None
     | Some (l, r) \<Rightarrow>
       if SNAPSHOT_MAX_LINE < length l then None
       else if take 4 (line_text l) = ''end '' then
         (if fst (sscanf end_format (line_text l)) = [int (length (games c)), int (length (platforms c))] \<and> getline r = None
          then Some c else None)
       else (case parse_game_line memory c (line_text l) of None \<Rightarrow> None | Some c1 \<Rightarrow> load_games memory c1 r))"
  by pat_completeness auto
termination by (relation "measure (\<lambda>(memory, c, t). length t)") (auto dest: getline_shorter)

declare load_games.simps [simp del]

definition compare_game :: "game_entry \<Rightarrow> game_entry \<Rightarrow> int" where
  "compare_game a b = (let s = strcmp (system a) (system b) in if s \<noteq> 0 then s else strcmp (title a) (title b))"

type_synonym 'a qsort = "('a \<Rightarrow> 'a \<Rightarrow> int) \<Rightarrow> 'a list \<Rightarrow> 'a list"

definition sort_catalog :: "game_entry qsort \<Rightarrow> string qsort \<Rightarrow> catalog_state \<Rightarrow> catalog_state" where
  "sort_catalog qg qt c = c\<lparr>games := qg compare_game (games c), systems := qt strcmp (systems c), cores := qt strcmp (cores c)\<rparr>"

text \<open>The file that a safe opening gives, if it is acceptable.\<close>

definition snapshot_file :: "nat \<Rightarrow> dir \<Rightarrow> string \<Rightarrow> string option" where
  "snapshot_file uid d p = (case d p of
       None \<Rightarrow> None
     | Some f \<Rightarrow>
       if kind f \<noteq> Regular \<or> st_uid f \<noteq> uid \<or> st_nlink f \<noteq> 1 \<or> st_mode f AND 18 \<noteq> 0 \<or> length (fdata f) \<le> 0 \<or>
         SNAPSHOT_MAX_BYTES < length (fdata f) then None
       else Some (fdata f))"

definition catalog_snapshot_load ::
    "os_env \<Rightarrow> (nat \<Rightarrow> bool) \<Rightarrow> game_entry qsort \<Rightarrow> string qsort \<Rightarrow> route_table \<Rightarrow> nat \<Rightarrow> dir \<Rightarrow> string option \<Rightarrow> string option \<Rightarrow>
     catalog_ui \<Rightarrow> catalog_ui \<times> int \<times> bool" where
  "catalog_snapshot_load env memory qg qt routes uid d p root ui =
    (case (p, root) of
       (Some name, Some rr) \<Rightarrow>
         if take 1 name \<noteq> ''/'' then (ui, - 1, False)
         else (case snapshot_file uid d name of
             None \<Rightarrow> (ui, - 1, False)
           | Some t \<Rightarrow> (case snapshot_header routes rr t of
               None \<Rightarrow> (ui, - 1, False)
             | Some (finished, cursor, n, r) \<Rightarrow>
               let u0 = catalog_destroy ui;
                   c = (catalog u0)\<lparr>rom_root := rr, refresh_cursor := cursor\<rparr> in
               if PATH_MAX \<le> length rr then (u0, - 1, False)
               else (case load_platforms memory (nat n) c r of
                   None \<Rightarrow> (u0, - 1, False)
                 | Some (c1, r1) \<Rightarrow> (case load_games memory c1 r1 of
                     None \<Rightarrow> (u0, - 1, False)
                   | Some c2 \<Rightarrow> (catalog_apply_filters env (u0\<lparr>catalog := sort_catalog qg qt c2\<rparr>), 0, finished)))))
     | _ \<Rightarrow> (ui, - 1, False))"

section \<open>Writing\<close>

text \<open>Words with single spaces between them.\<close>

fun unwords :: "string list \<Rightarrow> string" where
  "unwords [] = []"
| "unwords [w] = w"
| "unwords (w # ws) = w @ CHR '' '' # unwords ws"

definition platform_line :: "catalog_platform_record \<Rightarrow> string" where
  "platform_line r = unwords [''platform'', print_nat (unat (device r)), print_nat (unat (inode_number r)), print_nat (unat (mtime_ns r)),
     print_nat (unat (ctime_ns r)), print_nat (unat (entry_count r)), write_token (pr_name r)]"

definition game_fields :: "game_entry \<Rightarrow> string list" where
  "game_fields g = [title g, path g, cover_path g, system g, system_label g, core g, frontend g, runtime g, fallback g]"

definition game_line :: "game_entry \<Rightarrow> string" where
  "game_line g = unwords (''game'' # print_int (modified g) # (if playable g then ''1'' else ''0'') # map write_token (game_fields g))"

definition end_line :: "catalog_state \<Rightarrow> string" where
  "end_line c = unwords [''end'', print_nat (length (games c)), print_nat (length (platforms c))]"

definition header_lines :: "route_table \<Rightarrow> u64 \<times> u64 \<Rightarrow> string \<Rightarrow> bool \<Rightarrow> catalog_state \<Rightarrow> string list" where
  "header_lines routes stamp root finished c =
    [SNAPSHOT_SCHEMA,
     ''root '' @ write_token root,
     unwords [''routes'', print_nat (route_count routes), print_nat (unat (fst stamp)), print_nat (unat (snd stamp))],
     unwords [''rpg-capability'', print_nat (rpg_truth_level routes), if rpg_launchable routes then ''1'' else ''0''],
     unwords [''complete'', if finished then ''1'' else ''0''],
     ''cursor '' @ write_token (refresh_cursor c),
     unwords [''platforms'', print_nat (length (platforms c))]]"

text \<open>The text written if no output call fails.\<close>

definition write_snapshot_stream :: "route_table \<Rightarrow> string \<Rightarrow> bool \<Rightarrow> catalog_state \<Rightarrow> string option" where
  "write_snapshot_stream routes root finished c =
    map_option (\<lambda>stamp. lines_text (header_lines routes stamp root finished c @ map platform_line (platforms c) @ map game_line (games c) @ [end_line c]))
      (route_fingerprint routes)"

section \<open>Replacing the file\<close>

text \<open>
  How the system calls turn out. \<open>sn_written\<close> is the number of bytes that reach the
  file before an output call, the flush or the sync fails, if one does.
\<close>

record snap_env =
  sn_euid :: nat
  sn_pid :: int
  sn_clock :: nat
  sn_dir_stat :: bool
  sn_path_stat :: "errno option"
  sn_open :: bool
  sn_fdopen :: bool
  sn_written :: "nat option"
  sn_fclose :: bool
  sn_rename :: bool
  sn_dir_sync :: bool
  sn_unlink :: bool

text \<open>The part of the path after its last slash, and the directory before it.\<close>

definition last_part :: "string \<Rightarrow> string" where
  "last_part p = rev (takeWhile (\<lambda>c. c \<noteq> CHR ''/'') (rev p))"

definition parent_directory :: "string \<Rightarrow> string" where
  "parent_directory p = (let before = take (length p - length (last_part p) - 1) p in if before = [] then ''/'' else before)"

definition snapshot_temporary :: "snap_env \<Rightarrow> string \<Rightarrow> string" where
  "snapshot_temporary env p = p @ ''.tmp.'' @ print_int (sn_pid env) @ ''.'' @ print_nat (sn_clock env)"

definition target_replaceable :: "snap_env \<Rightarrow> dir \<Rightarrow> string \<Rightarrow> bool" where
  "target_replaceable env d p =
    (case sn_path_stat env of
       Some e \<Rightarrow> e = ENOENT
     | None \<Rightarrow> (case d p of None \<Rightarrow> True | Some f \<Rightarrow> kind f = Regular \<and> st_uid f = sn_euid env))"

definition snapshot_unlink :: "snap_env \<Rightarrow> string \<Rightarrow> dir \<Rightarrow> dir list" where
  "snapshot_unlink env name d = (if sn_unlink env then [d(name := None)] else [])"

definition new_inode :: "snap_env \<Rightarrow> string \<Rightarrow> inode" where
  "new_inode env t = \<lparr>fdata = t, kind = Regular, st_uid = sn_euid env, st_nlink = 1, st_mode = MODE_0600\<rparr>"

text \<open>The disk after each change, the result, and whether the stream was left open.\<close>

definition catalog_snapshot_write ::
    "snap_env \<Rightarrow> route_table \<Rightarrow> dir \<Rightarrow> string option \<Rightarrow> string option \<Rightarrow> bool \<Rightarrow> catalog_state \<Rightarrow> dir list \<times> int \<times> bool" where
  "catalog_snapshot_write env routes d p root finished c =
    (case (p, root) of
       (Some name, Some rr) \<Rightarrow>
         let tmp = snapshot_temporary env name in
         if take 1 name \<noteq> ''/'' \<or> last_part name = [] \<or> PATH_MAX \<le> length (parent_directory name) then ([], - 1, False)
         else if \<not> (sn_dir_stat env \<and> (case d (parent_directory name) of None \<Rightarrow> False | Some f \<Rightarrow> kind f = Directory \<and> st_uid f = sn_euid env)) \<or>
           \<not> target_replaceable env d name \<or> PATH_MAX \<le> length tmp then ([], - 1, False)
         else if \<not> sn_open env \<or> d tmp \<noteq> None then (snapshot_unlink env tmp d, - 1, False)
         else
           let d0 = d(tmp \<mapsto> new_inode env []) in
           if \<not> sn_fdopen env then (d0 # snapshot_unlink env tmp d0, - 1, False)
           else
             let text = write_snapshot_stream routes rr finished c;
                 content = (case text of None \<Rightarrow> [] | Some t \<Rightarrow> (case sn_written env of None \<Rightarrow> t | Some k \<Rightarrow> take k t));
                 d1 = d(tmp \<mapsto> new_inode env content) in
             if text = None \<or> sn_written env \<noteq> None then ([d0, d1] @ snapshot_unlink env tmp d1, - 1, True)
             else if \<not> sn_fclose env \<or> \<not> sn_rename env then ([d0, d1] @ snapshot_unlink env tmp d1, - 1, False)
             else ([d0, d1, d1(name := d1 tmp, tmp := None)], if sn_dir_sync env then 0 else - 1, False)
     | _ \<Rightarrow> ([], - 1, False))"

section \<open>Tokens are read back\<close>

lemma clean_field_simps [simp]:
  "clean_field []" "clean_field (c # t) \<longleftrightarrow> 0x20 \<le> byte c \<and> clean_field t" "clean_field (s @ t) \<longleftrightarrow> clean_field s \<and> clean_field t"
  by (auto simp: clean_field_def)

lemma snapshot_nibbles: "n < 16 \<Longrightarrow> token_hex_value (snapshot_digits ! n) = Some n \<and> 48 \<le> byte (snapshot_digits ! n)"
proof -
  have "\<forall>n \<in> set [0..<16]. token_hex_value (snapshot_digits ! n) = Some n \<and> 48 \<le> byte (snapshot_digits ! n)"
    by (simp add: upt_rec snapshot_digits_def token_hex_value_def)
  then show "n < 16 \<Longrightarrow> ?thesis" by simp
qed

abbreviation encode_pairs :: "string \<Rightarrow> string" where
  "encode_pairs v \<equiv> concat (map (\<lambda>c. [snapshot_digits ! (byte c div 16), snapshot_digits ! (byte c mod 16)]) v)"

lemma byte_nibbles: "byte c div 16 < 16" "byte c mod 16 < 16" "byte c div 16 * 16 + byte c mod 16 = byte c"
  using byte_less [of c] by (simp_all add: less_mult_imp_div_less)

lemma decode_encode_pairs: "NUL \<notin> set v \<Longrightarrow> decode_pairs (encode_pairs v) = Some v"
proof (induction v)
  case (Cons c v)
  have "token_hex_value (snapshot_digits ! (byte c div 16)) = Some (byte c div 16)" "token_hex_value (snapshot_digits ! (byte c mod 16)) = Some (byte c mod 16)"
    using snapshot_nibbles byte_nibbles by blast+
  moreover have "char_of (byte c div 16 * 16 + byte c mod 16) = c" by (simp only: byte_nibbles(3) char_of_byte)
  moreover have "c \<noteq> NUL" using Cons.prems by auto
  ultimately show ?case using Cons by (simp add: Let_def del: div_mult_mod_eq)
qed simp

lemma length_encode_pairs: "length (encode_pairs v) = 2 * length v"
  by (induction v) simp_all

lemma write_token_decode: "NUL \<notin> set v \<Longrightarrow> length v \<le> n \<Longrightarrow> decode_token (write_token v) n = Some v"
proof (cases "v = []")
  case False
  assume v: "NUL \<notin> set v" "length v \<le> n"
  have "encode_pairs v \<noteq> ''-''" using length_encode_pairs [of v] by (metis One_nat_def even_Suc even_mult_iff even_numeral even_zero length_0_conv length_Cons list.size(3))
  moreover have "encode_pairs v \<noteq> []" using False length_encode_pairs [of v] by (metis length_0_conv mult_eq_0_iff zero_neq_numeral)
  ultimately show ?thesis using False v length_encode_pairs [of v] decode_encode_pairs [OF v(1)]
    by (simp add: write_token_def decode_token_def)
qed (simp add: write_token_def decode_token_def)

definition word_ok :: "string \<Rightarrow> bool" where
  "word_ok w \<longleftrightarrow> w \<noteq> [] \<and> (\<forall>c \<in> set w. 0x20 < byte c)"

lemma write_token_word [simp]: "word_ok (write_token v)"
proof -
  have d: "0x20 < byte (snapshot_digits ! n)" if "n < 16" for n
    using snapshot_nibbles [OF that] by linarith
  have "\<forall>c \<in> set (encode_pairs v). 0x20 < byte c"
    using d byte_nibbles(1,2) by auto
  moreover have "v \<noteq> [] \<Longrightarrow> encode_pairs v \<noteq> []" by (cases v) auto
  ultimately show ?thesis by (auto simp: word_ok_def write_token_def)
qed

lemma print_word [simp]: "word_ok (print_nat n)" "word_ok (print_int i)"
proof -
  have "0x20 < byte c" if "c \<in> set (print_nat k)" for c k
    using print_nat_digits [OF that] by (simp add: isdigit_def)
  then have n: "word_ok (print_nat k)" for k by (auto simp: word_ok_def)
  then show "word_ok (print_nat n)" by blast
  show "word_ok (print_int i)" using n by (auto simp: print_int_def word_ok_def)
qed

lemma word_okD: "word_ok w \<Longrightarrow> w \<noteq> [] \<and> CHR '' '' \<notin> set w \<and> clean_field w"
  by (auto simp: word_ok_def clean_field_def)

lemma tokens_unwords: "list_all word_ok ws \<Longrightarrow> tokens (unwords ws) = ws"
proof (induction ws rule: unwords.induct)
  case (3 w v ws)
  then show ?case using word_okD [of w] by (simp add: tokens_def)
qed (auto simp: tokens_def dest: word_okD)

lemma clean_unwords: "list_all word_ok ws \<Longrightarrow> clean_field (unwords ws)"
  by (induction ws rule: unwords.induct) (auto dest: word_okD)

lemma whole_numbers [simp]: "n < 2 ^ 64 \<Longrightarrow> whole_unsigned (print_nat n) = Some n"
  "- (2 ^ 63) \<le> i \<Longrightarrow> i < 2 ^ 63 \<Longrightarrow> whole_signed (print_int i) = Some i"
  by (simp_all add: whole_unsigned_def whole_signed_def)

section \<open>Lines are read back\<close>

text \<open>What a record must be like to be stored, and what is stored of a game.\<close>

definition field_ok :: "nat \<Rightarrow> string \<Rightarrow> bool" where
  "field_ok n v \<longleftrightarrow> NUL \<notin> set v \<and> length v \<le> n"

definition platform_storable :: "catalog_platform_record \<Rightarrow> bool" where
  "platform_storable r \<longleftrightarrow> field_ok NAME_MAX (pr_name r) \<and> pr_name r \<noteq> [] \<and> CHR ''/'' \<notin> set (pr_name r)"

definition snapshot_game :: "game_entry \<Rightarrow> game_entry" where
  "snapshot_game g = g\<lparr>content_hash := [], last_played := 0, favorite := False, recent := False, route_lock := False,
     save_present := False, save_warning := False\<rparr>"

definition game_storable :: "game_entry \<Rightarrow> bool" where
  "game_storable g \<longleftrightarrow> list_all2 field_ok game_limits (game_fields g) \<and> take 1 (path g) = ''/'' \<and> take 1 (cover_path g) = ''/'' \<and>
     system g \<noteq> [] \<and> core g \<noteq> [] \<and> - (2 ^ 63) \<le> modified g \<and> modified g < 2 ^ 63 \<and> length (game_line g) < SNAPSHOT_MAX_LINE"

lemma decode_fields:
  "list_all2 field_ok ns vs \<Longrightarrow> those (map2 decode_token (map write_token vs) ns) = Some vs"
proof (induction ns vs rule: list_all2_induct)
  case (Cons n ns v vs)
  then show ?case using write_token_decode [of v n] by (simp add: field_ok_def)
qed simp

lemma print_bit: "(if b then ''1'' else ''0'') = print_int (if b then 1 else 0)" "(if b then ''1'' else ''0'') = print_nat (if b then 1 else 0)"
  using print_nat_bits by (simp_all add: print_int_def)

lemma parse_platform_line_written:
  assumes "platform_storable r"
  shows "parse_platform_line memory c (platform_line r) = add_platform_record memory c r"
proof -
  have t: "tokens (platform_line r) = [''platform'', print_nat (unat (device r)), print_nat (unat (inode_number r)), print_nat (unat (mtime_ns r)),
     print_nat (unat (ctime_ns r)), print_nat (unat (entry_count r)), write_token (pr_name r)]"
    unfolding platform_line_def by (rule tokens_unwords) (simp add: word_ok_def [of "''platform''"])
  have u: "unat w < 18446744073709551616" for w :: u64 using unsigned_less [of w] by simp
  have d: "decode_token (write_token (pr_name r)) NAME_MAX = Some (pr_name r)"
    using assms by (simp add: write_token_decode platform_storable_def field_ok_def)
  show ?thesis unfolding parse_platform_line_def t using assms d u by (cases r) (simp add: platform_storable_def)
qed

lemma parse_game_line_written:
  assumes "game_storable g"
  shows "parse_game_line memory c (game_line g) = add_snapshot_game memory c (snapshot_game g)"
proof -
  have t: "tokens (game_line g) = ''game'' # print_int (modified g) # (if playable g then ''1'' else ''0'') # map write_token (game_fields g)"
    unfolding game_line_def by (rule tokens_unwords) (simp add: word_ok_def [of "''game''"] print_bit(1) list_all_iff)
  have d: "those (map2 decode_token (map write_token (game_fields g)) game_limits) = Some (game_fields g)"
    using assms by (intro decode_fields) (simp add: game_storable_def)
  have n: "length (map write_token (game_fields g)) = 9" by (simp add: game_fields_def)
  have m: "whole_signed (print_int (modified g)) = Some (modified g)" using assms by (simp add: game_storable_def)
  have p: "whole_signed (if playable g then ''1'' else ''0'') = Some (if playable g then 1 else 0)" by (simp add: print_bit(1))
  show ?thesis unfolding parse_game_line_def t using assms d n m p
    by (cases g) (simp add: game_fields_def game_storable_def snapshot_game_def)
qed

lemma getline_line: "LF \<notin> set l \<Longrightarrow> getline (l @ LF # r) = Some (l @ [LF], r)"
proof -
  assume l: "LF \<notin> set l"
  have "takeWhile (\<lambda>c. c \<noteq> LF) (l @ LF # r) = l" using l by (subst takeWhile_append2) auto
  then show ?thesis by (simp add: getline_def Let_def)
qed

lemma line_read:
  assumes "clean_field l"
  shows "getline (l @ LF # r) = Some (l @ [LF], r)" "line_text (l @ [LF]) = l" "cstr (l @ [LF]) = l @ [LF]"
proof -
  have c: "LF \<notin> set l" "CR \<notin> set l" "NUL \<notin> set l" using assms by (auto simp: clean_field_def)
  show "getline (l @ LF # r) = Some (l @ [LF], r)" by (rule getline_line [OF c(1)])
  show cs: "cstr (l @ [LF]) = l @ [LF]" using c by simp
  show "line_text (l @ [LF]) = l" unfolding line_text_def cs using c by simp
qed

lemma clean_lines:
  "clean_field (platform_line r)" "clean_field (game_line g)" "clean_field (end_line c)"
proof -
  show "clean_field (platform_line r)" unfolding platform_line_def by (rule clean_unwords) (simp add: word_ok_def [of "''platform''"])
  show "clean_field (game_line g)" unfolding game_line_def
    by (rule clean_unwords) (simp add: word_ok_def [of "''game''"] print_bit(1) list_all_iff)
  show "clean_field (end_line c)" unfolding end_line_def by (rule clean_unwords) (simp add: word_ok_def [of "''end''"])
qed

lemma unwords_length: "length (unwords ws) \<le> sum_list (map (\<lambda>w. Suc (length w)) ws)"
  by (induction ws rule: unwords.induct) auto

section \<open>The snapshot is read back\<close>

lemma platform_line_short: "platform_storable r \<Longrightarrow> length (platform_line r) < SNAPSHOT_MAX_LINE"
proof -
  assume r: "platform_storable r"
  have u: "length (print_nat (unat w)) \<le> 20" for w :: u64
    using unsigned_less [of w, where ?'a = nat] by (intro length_print_nat [of _ 19, simplified]) simp
  have t: "length (write_token (pr_name r)) \<le> 510"
    using r length_encode_pairs [of "pr_name r"] by (simp add: write_token_def platform_storable_def field_ok_def NAME_MAX_def)
  have "length (platform_line r) \<le> 9 + 5 * 21 + 511"
    unfolding platform_line_def
    using unwords_length [of "[''platform'', print_nat (unat (device r)), print_nat (unat (inode_number r)), print_nat (unat (mtime_ns r)),
     print_nat (unat (ctime_ns r)), print_nat (unat (entry_count r)), write_token (pr_name r)]"] t u [of "device r"] u [of "inode_number r"]
      u [of "mtime_ns r"] u [of "ctime_ns r"] u [of "entry_count r"] by simp
  then show ?thesis by (simp add: SNAPSHOT_MAX_LINE_def PATH_MAX_def)
qed

lemma load_platforms_written:
  "list_all platform_storable rs \<Longrightarrow> length (platforms c) + length rs \<le> SNAPSHOT_MAX_PLATFORMS \<Longrightarrow>
   load_platforms (\<lambda>_. True) (length rs) c (lines_text (map platform_line rs) @ t) = Some (c\<lparr>platforms := platforms c @ rs\<rparr>, t)"
proof (induction rs arbitrary: c)
  case (Cons r rs)
  note l = line_read [OF clean_lines(1) [of r]]
  have p: "parse_platform_line (\<lambda>_. True) c (platform_line r) = Some (c\<lparr>platforms := platforms c @ [r]\<rparr>)"
    using Cons.prems by (simp add: parse_platform_line_written add_platform_record_def)
  have s: "length (platform_line r) < SNAPSHOT_MAX_LINE" using Cons.prems by (simp add: platform_line_short)
  have "load_platforms (\<lambda>_. True) (length rs) (c\<lparr>platforms := platforms c @ [r]\<rparr>) (lines_text (map platform_line rs) @ t) =
      Some (c\<lparr>platforms := platforms c @ r # rs\<rparr>, t)"
    using Cons.IH [of "c\<lparr>platforms := platforms c @ [r]\<rparr>"] Cons.prems by simp
  then show ?case using l p s by simp
qed simp

definition with_snapshot_games :: "catalog_state \<Rightarrow> game_entry list \<Rightarrow> catalog_state" where
  "with_snapshot_games c gs = c\<lparr>games := games c @ gs, systems := foldl add_unique (systems c) (map system gs),
     cores := foldl add_unique (cores c) (map core gs)\<rparr>"

lemma end_line_scan:
  "length (games c) < 2 ^ 64 \<Longrightarrow> length (platforms c) < 2 ^ 64 \<Longrightarrow>
   fst (sscanf end_format (end_line c)) = [int (length (games c)), int (length (platforms c))] \<and> take 4 (end_line c) = ''end ''"
proof -
  assume n: "length (games c) < 2 ^ 64" "length (platforms c) < 2 ^ 64"
  have sp: "isspace (CHR '' '')" "\<not> isdigit (CHR '' '')" by (simp_all add: isspace_def isdigit_def)
  have d: "dropWhile isspace (print_nat n) = print_nat n" for n by simp
  have last: "sscanf [Unsigned64] (print_nat (length (platforms c))) = ([int (length (platforms c))], None)"
    using sscanf_unsigned(1) [of "[]" _ "[]"] n(2) by simp
  show ?thesis unfolding end_format_def end_line_def
    using n sp print_nat_stops(1) [of "CHR '' '' # print_nat (length (platforms c))" "length (games c)"]
    by (simp add: sscanf_unsigned(1) last del: dropWhile_isspace_print_nat) (simp add: last)
qed

lemma load_games_written:
  "list_all game_storable gs \<Longrightarrow> length (games c) + length gs \<le> SNAPSHOT_MAX_GAMES \<Longrightarrow> length (platforms c) \<le> SNAPSHOT_MAX_PLATFORMS \<Longrightarrow>
   load_games (\<lambda>_. True) c (lines_text (map game_line gs @ [end_line (with_snapshot_games c (map snapshot_game gs))])) =
     Some (with_snapshot_games c (map snapshot_game gs))"
proof (induction gs arbitrary: c)
  case Nil
  have c: "with_snapshot_games c [] = c" by (simp add: with_snapshot_games_def)
  note l = line_read(1) [OF clean_lines(3) [of c], of "[]"] line_read(2,3) [OF clean_lines(3) [of c]]
  have n: "length (games c) < 2 ^ 64" "length (platforms c) < 2 ^ 64"
    using Nil.prems(2,3) by (simp_all add: SNAPSHOT_MAX_GAMES_def SNAPSHOT_MAX_PLATFORMS_def)
  have digits: "length (print_nat k) \<le> 20" if "k < 2 ^ 64" for k using that by (intro length_print_nat [of _ 19, simplified]) simp
  have "length (end_line c) \<le> 4 + 21 + 21" unfolding end_line_def
    using unwords_length [of "[''end'', print_nat (length (games c)), print_nat (length (platforms c))]"] digits [OF n(1)] digits [OF n(2)] by simp
  then have "length (end_line c) < SNAPSHOT_MAX_LINE" by (simp add: SNAPSHOT_MAX_LINE_def PATH_MAX_def)
  moreover have "getline [] = None" by (simp add: getline_def)
  ultimately show ?case using l end_line_scan [OF n] by (simp add: c load_games.simps [of "\<lambda>_. True" c])
next
  case (Cons g gs)
  let ?c = "c\<lparr>games := games c @ [snapshot_game g], systems := add_unique (systems c) (system g), cores := add_unique (cores c) (core g)\<rparr>"
  note l = line_read [OF clean_lines(2) [of g]]
  have p: "parse_game_line (\<lambda>_. True) c (game_line g) = Some ?c"
    using Cons.prems by (simp add: parse_game_line_written add_snapshot_game_def snapshot_game_def)
  have s: "length (game_line g) < SNAPSHOT_MAX_LINE" using Cons.prems by (simp add: game_storable_def)
  have e: "take 4 (game_line g) \<noteq> ''end ''" by (simp add: game_line_def)
  have w: "with_snapshot_games ?c (map snapshot_game gs) = with_snapshot_games c (map snapshot_game (g # gs))"
    by (simp add: with_snapshot_games_def snapshot_game_def)
  have "load_games (\<lambda>_. True) ?c (lines_text (map game_line gs @ [end_line (with_snapshot_games ?c (map snapshot_game gs))])) =
      Some (with_snapshot_games ?c (map snapshot_game gs))"
    by (rule Cons.IH) (use Cons.prems in simp_all)
  then show ?case using l p s e by (simp add: w load_games.simps [of "\<lambda>_. True" c])
qed

text \<open>The lines of the header are scanned with their line feed.\<close>

lemma separators: "isspace (CHR '' '')" "\<not> isdigit (CHR '' '')" "\<not> isdigit LF"
  by (simp_all add: isspace_def isdigit_def)

lemma header_scans:
  "a < 2 ^ 64 \<Longrightarrow> b < 2 ^ 64 \<Longrightarrow> d < 2 ^ 64 \<Longrightarrow>
     fst (sscanf routes_format (unwords [''routes'', print_nat a, print_nat b, print_nat d] @ [LF])) = [int a, int b, int d]"
  "a < 2 ^ 32 \<Longrightarrow> fst (sscanf rpg_format (unwords [''rpg-capability'', print_nat a, if f then ''1'' else ''0''] @ [LF])) = [int a, if f then 1 else 0]"
  "fst (sscanf complete_format (unwords [''complete'', if f then ''1'' else ''0''] @ [LF])) = [if f then 1 else 0]"
  "a < 2 ^ 64 \<Longrightarrow> fst (sscanf platforms_format (unwords [''platforms'', print_nat a] @ [LF])) = [int a]"
proof -
  have d: "dropWhile isspace (print_nat n @ c # r) = print_nat n @ c # r" if "\<not> isdigit c" for n c r
    using print_nat_stops(1) [of "c # r" n] that by simp
  have e: "dropWhile isspace (print_int (if f then 1 else 0) @ [LF]) = print_int (if f then 1 else 0) @ [LF]"
    using d [of LF] separators by (simp add: print_int_def)
  show "fst (sscanf routes_format (unwords [''routes'', print_nat a, print_nat b, print_nat d] @ [LF])) = [int a, int b, int d]"
    if "a < 2 ^ 64" "b < 2 ^ 64" "d < 2 ^ 64"
    using that by (simp add: routes_format_def separators d sscanf_unsigned split_beta)
  show "fst (sscanf rpg_format (unwords [''rpg-capability'', print_nat a, if f then ''1'' else ''0''] @ [LF])) = [int a, if f then 1 else 0]"
    if "a < 2 ^ 32" unfolding print_bit(1)
    using that sscanf_number [of "[LF]" "if f then 1 else 0" "[]"]
    by (simp add: rpg_format_def separators d e sscanf_unsigned split_beta del: if_split if_distribR)
  show "fst (sscanf complete_format (unwords [''complete'', if f then ''1'' else ''0''] @ [LF])) = [if f then 1 else 0]"
    unfolding print_bit(1) using sscanf_number [of "[LF]" "if f then 1 else 0" "[]"]
    by (simp add: complete_format_def separators e split_beta)
  show "fst (sscanf platforms_format (unwords [''platforms'', print_nat a] @ [LF])) = [int a]" if "a < 2 ^ 64"
    using that by (simp add: platforms_format_def separators d sscanf_unsigned split_beta)
qed

text \<open>What the surroundings of the records must be like.\<close>

definition header_storable :: "route_table \<Rightarrow> string \<Rightarrow> catalog_state \<Rightarrow> bool" where
  "header_storable routes root c \<longleftrightarrow> route_count routes < 2 ^ 64 \<and> rpg_truth_level routes \<le> 4 \<and> field_ok (PATH_MAX - 1) root \<and>
     field_ok NAME_MAX (refresh_cursor c) \<and> CHR ''/'' \<notin> set (refresh_cursor c) \<and> length (platforms c) \<le> SNAPSHOT_MAX_PLATFORMS"

lemma header_line_clean: "l \<in> set (header_lines routes stamp root finished c) \<Longrightarrow> clean_field l"
proof -
  have w: "word_ok ''routes''" "word_ok ''rpg-capability''" "word_ok ''complete''" "word_ok ''platforms''" by (simp_all add: word_ok_def)
  have t: "clean_field (write_token v)" for v using word_okD [OF write_token_word] by blast
  have u: "clean_field (unwords [''routes'', print_nat (route_count routes), print_nat (unat (fst stamp)), print_nat (unat (snd stamp))])"
    "clean_field (unwords [''rpg-capability'', print_nat (rpg_truth_level routes), if rpg_launchable routes then ''1'' else ''0''])"
    "clean_field (unwords [''complete'', if finished then ''1'' else ''0''])" "clean_field (unwords [''platforms'', print_nat (length (platforms c))])"
    unfolding print_bit(1) by (rule clean_unwords; simp add: w)+
  show "l \<in> set (header_lines routes stamp root finished c) \<Longrightarrow> clean_field l"
    unfolding header_lines_def using t u by (auto simp: SNAPSHOT_SCHEMA_def simp del: unwords.simps)
qed

lemma snapshot_header_written:
  assumes ok: "header_storable routes root c" and stamp: "route_fingerprint routes = Some stamp"
  shows "snapshot_header routes root (lines_text (header_lines routes stamp root finished c) @ t) =
    Some (finished, refresh_cursor c, int (length (platforms c)), t)"
proof -
  obtain l1 l2 l3 l4 l5 l6 l7 where ls: "header_lines routes stamp root finished c = [l1, l2, l3, l4, l5, l6, l7]"
    by (simp add: header_lines_def)
  have eqs: "l1 = SNAPSHOT_SCHEMA" "l2 = ''root '' @ write_token root"
    "l3 = unwords [''routes'', print_nat (route_count routes), print_nat (unat (fst stamp)), print_nat (unat (snd stamp))]"
    "l4 = unwords [''rpg-capability'', print_nat (rpg_truth_level routes), if rpg_launchable routes then ''1'' else ''0'']"
    "l5 = unwords [''complete'', if finished then ''1'' else ''0'']" "l6 = ''cursor '' @ write_token (refresh_cursor c)"
    "l7 = unwords [''platforms'', print_nat (length (platforms c))]"
    using ls unfolding header_lines_def by blast+
  have clean: "clean_field l1" "clean_field l2" "clean_field l3" "clean_field l4" "clean_field l5" "clean_field l6" "clean_field l7"
    using header_line_clean [of _ routes stamp root finished c] unfolding ls by simp_all
  have u: "unat w < 18446744073709551616" for w :: u64 using unsigned_less [of w] by simp
  have scans: "fst (sscanf routes_format (l3 @ [LF])) = [int (route_count routes), uint (fst stamp), uint (snd stamp)]"
    "fst (sscanf rpg_format (l4 @ [LF])) = [int (rpg_truth_level routes), if rpg_launchable routes then 1 else 0]"
    "fst (sscanf complete_format (l5 @ [LF])) = [if finished then 1 else 0]" "fst (sscanf platforms_format (l7 @ [LF])) = [int (length (platforms c))]"
    unfolding eqs using ok u
    by (simp_all only: header_scans header_storable_def) (simp_all add: header_scans SNAPSHOT_MAX_PLATFORMS_def del: unwords.simps)
  have tokens: "decode_token (drop 5 l2) (PATH_MAX - 1) = Some root" "decode_token (drop 7 l6) NAME_MAX = Some (refresh_cursor c)"
    "take 5 (l2 @ [LF]) = ''root ''" "take 7 (l6 @ [LF]) = ''cursor ''" "6 < length (l2 @ [LF])" "7 < length (l6 @ [LF])"
    using ok word_okD [OF write_token_word, of root] by (simp_all add: eqs header_storable_def field_ok_def write_token_decode)
  obtain mt sz where st: "stamp = (mt, sz)" by fastforce
  note stamp = stamp [unfolded st] and scans = scans [unfolded st fst_conv snd_conv]
  have bits: "int (rpg_truth_level routes) \<le> 4" "((if b then 1 else 0 :: int) = 0 \<or> (if b then 1 else 0 :: int) = 1) = True"
    "((if b then 1 else 0 :: int) \<noteq> 0) = b" "CHR ''/'' \<notin> set (refresh_cursor c)" "int (length (platforms c)) \<le> int SNAPSHOT_MAX_PLATFORMS" for b
    using ok by (auto simp: header_storable_def)
  have short: "length (l1 @ [LF]) \<le> SNAPSHOT_MAX_LINE" by (simp add: eqs SNAPSHOT_SCHEMA_def SNAPSHOT_MAX_LINE_def PATH_MAX_def)
  have "snapshot_header routes root (l1 @ LF # l2 @ LF # l3 @ LF # l4 @ LF # l5 @ LF # l6 @ LF # l7 @ LF # t) =
    Some (finished, refresh_cursor c, int (length (platforms c)), t)"
    unfolding snapshot_header_def
    by (simp only: line_read [OF clean(1)] line_read [OF clean(2)] line_read [OF clean(3)] line_read [OF clean(4)] line_read [OF clean(5)]
        line_read [OF clean(6)] line_read [OF clean(7)] eqs(1) [symmetric] short scans tokens stamp bits require_def bind.simps prod.case
        list.case if_True simp_thms prod.collapse fst_conv snd_conv)
  then show ?thesis by (simp add: ls)
qed

section \<open>Replacement and round trip\<close>

lemma temporary_differs: "snapshot_temporary env p \<noteq> p"
  by (simp add: snapshot_temporary_def)

lemma snapshot_write_done:
  assumes "catalog_snapshot_write env routes d (Some p) (Some root) finished c = (states, 0, leaked)"
  shows "\<exists>t. write_snapshot_stream routes root finished c = Some t \<and> states \<noteq> [] \<and> last states = d(p \<mapsto> new_inode env t)"
  using assms temporary_differs [of env p] temporary_differs [of env p, symmetric]
  by (auto simp: catalog_snapshot_write_def Let_def fun_eq_iff split: if_splits option.splits)

text \<open>
  Replacing the snapshot is atomic. Whatever system call fails and wherever
  the write breaks off, at every moment the snapshot file is the old one or the
  complete new text, and no file but the snapshot and its temporary file has
  changed.
\<close>

theorem snapshot_write_atomic:
  assumes "catalog_snapshot_write env routes d (Some p) (Some root) finished c = (states, r, leaked)" "e \<in> set states"
  shows "(e p = d p \<or> (\<exists>t. write_snapshot_stream routes root finished c = Some t \<and> e p = Some (new_inode env t))) \<and>
    (\<forall>n. n = p \<or> n = snapshot_temporary env p \<or> e n = d n)"
  using assms temporary_differs [of env p] temporary_differs [of env p, symmetric]
  by (auto simp: catalog_snapshot_write_def snapshot_unlink_def Let_def split: if_splits option.splits)

definition game_key :: "game_entry \<Rightarrow> nat list \<times> nat list" where
  "game_key g = (map byte (system g), map byte (title g))"

lemma compare_game_key:
  "compare_game a b = (if game_key a < game_key b then - 1 else if game_key a = game_key b then 0 else 1)"
  by (auto simp: compare_game_def game_key_def strcmp_lex less_prod_def')

lemma add_unique_fold: "set (foldl add_unique vs xs) = set vs \<union> set xs" "distinct vs \<Longrightarrow> distinct (foldl add_unique vs xs)"
  by (induction xs arbitrary: vs) (auto simp: add_unique_def)

definition sorted_names :: "string list \<Rightarrow> string set \<Rightarrow> bool" where
  "sorted_names vs V \<longleftrightarrow> set vs = V \<and> distinct vs \<and> sorted (map (map byte) vs)"

lemma qsort_names: "qsort_ok qt \<Longrightarrow> distinct vs \<Longrightarrow> sorted_names (qt strcmp vs) (set vs)"
proof -
  assume q: "qsort_ok qt" and d: "distinct vs"
  note k = qsort_key [OF q, of strcmp "map byte" vs, OF strcmp_lex]
  have "set (qt strcmp vs) = set vs" using k(1) mset_eq_setD by blast
  moreover have "distinct (qt strcmp vs)" using k(1) d mset_eq_imp_distinct_iff by blast
  ultimately show ?thesis using k(2) by (simp add: sorted_names_def)
qed

definition catalog_storable :: "route_table \<Rightarrow> string \<Rightarrow> catalog_state \<Rightarrow> bool" where
  "catalog_storable routes root c \<longleftrightarrow> header_storable routes root c \<and> list_all platform_storable (platforms c) \<and>
     list_all game_storable (games c) \<and> length (games c) \<le> SNAPSHOT_MAX_GAMES"

lemma load_written_text:
  assumes "catalog_storable routes root c" "route_fingerprint routes = Some stamp"
    and "platforms c0 = []" "games c0 = []" "systems c0 = []" "cores c0 = []"
  shows "\<exists>r r1. snapshot_header routes root (lines_text (header_lines routes stamp root finished c @ map platform_line (platforms c) @
        map game_line (games c) @ [end_line c])) = Some (finished, refresh_cursor c, int (length (platforms c)), r) \<and>
      load_platforms (\<lambda>_. True) (length (platforms c)) c0 r = Some (c0\<lparr>platforms := platforms c\<rparr>, r1) \<and>
      load_games (\<lambda>_. True) (c0\<lparr>platforms := platforms c\<rparr>) r1 = Some (with_snapshot_games (c0\<lparr>platforms := platforms c\<rparr>) (map snapshot_game (games c)))"
proof -
  let ?r1 = "lines_text (map game_line (games c) @ [end_line c])"
  let ?r = "lines_text (map platform_line (platforms c)) @ ?r1"
  let ?c = "c0\<lparr>platforms := platforms c\<rparr>"
  have ok: "header_storable routes root c" "list_all platform_storable (platforms c)" "list_all game_storable (games c)"
    "length (games c) \<le> SNAPSHOT_MAX_GAMES" using assms(1) by (simp_all add: catalog_storable_def)
  then have n: "length (platforms c) \<le> SNAPSHOT_MAX_PLATFORMS" by (simp add: header_storable_def)
  have e: "end_line (with_snapshot_games ?c (map snapshot_game (games c))) = end_line c"
    using assms(3,4) by (simp add: end_line_def with_snapshot_games_def)
  have "lines_text (header_lines routes stamp root finished c @ map platform_line (platforms c) @ map game_line (games c) @ [end_line c]) =
      lines_text (header_lines routes stamp root finished c) @ ?r" by (simp add: lines_text_def)
  then have "snapshot_header routes root (lines_text (header_lines routes stamp root finished c @ map platform_line (platforms c) @
        map game_line (games c) @ [end_line c])) = Some (finished, refresh_cursor c, int (length (platforms c)), ?r)"
    using snapshot_header_written [OF ok(1) assms(2)] by simp
  moreover have "load_platforms (\<lambda>_. True) (length (platforms c)) c0 ?r = Some (?c, ?r1)"
    using load_platforms_written [OF ok(2), of c0 ?r1] n assms(3) by simp
  moreover have "load_games (\<lambda>_. True) ?c ?r1 = Some (with_snapshot_games ?c (map snapshot_game (games c)))"
    using load_games_written [OF ok(3), of ?c] ok(4) n assms(4) unfolding e by simp
  ultimately show ?thesis by blast
qed

text \<open>
  What is written is loaded again. If a catalogue whose records respect the
  limits of the format is written successfully, loading the file succeeds in a
  shell with the same routes and gives the same games (less what is kept in
  other files) in the order of system and title, the same platform records,
  cursor and completeness, and the sorted lists of systems and cores that occur.
\<close>

theorem snapshot_write_load:
  assumes "catalog_snapshot_write env routes d (Some p) (Some root) finished c = (states, 0, leaked)"
    and "catalog_storable routes root c" "length (fdata (the (last states p))) \<le> SNAPSHOT_MAX_BYTES" "qsort_ok qg" "qsort_ok qt"
  shows "\<exists>ui'. catalog_snapshot_load oe (\<lambda>_. True) qg qt routes (sn_euid env) (last states) (Some p) (Some root) ui = (ui', 0, finished) \<and>
    mset (games (catalog ui')) = mset (map snapshot_game (games c)) \<and> sorted (map game_key (games (catalog ui'))) \<and>
    platforms (catalog ui') = platforms c \<and> refresh_cursor (catalog ui') = refresh_cursor c \<and> rom_root (catalog ui') = root \<and>
    sorted_names (systems (catalog ui')) (system ` set (games c)) \<and> sorted_names (cores (catalog ui')) (core ` set (games c))"
proof -
  obtain t where t: "write_snapshot_stream routes root finished c = Some t" "last states = d(p \<mapsto> new_inode env t)"
    using snapshot_write_done [OF assms(1)] by blast
  obtain stamp where stamp: "route_fingerprint routes = Some stamp" and written: "t = lines_text (header_lines routes stamp root finished c @
      map platform_line (platforms c) @ map game_line (games c) @ [end_line c])"
    using t(1) by (auto simp: write_snapshot_stream_def)
  have opened: "snapshot_file (sn_euid env) (last states) p = Some t"
    using assms(3) t(2) last_lines_text [of "header_lines routes stamp root finished c @ map platform_line (platforms c) @ map game_line (games c) @ [end_line c]"]
    unfolding written [symmetric] by (simp add: snapshot_file_def new_inode_def MODE_0600_def)
  have path: "take 1 p = ''/''" using assms(1) by (auto simp: catalog_snapshot_write_def Let_def split: if_splits)
  let ?c0 = "(catalog (catalog_destroy ui))\<lparr>rom_root := root, refresh_cursor := refresh_cursor c\<rparr>"
  let ?c2 = "with_snapshot_games (?c0\<lparr>platforms := platforms c\<rparr>) (map snapshot_game (games c))"
  let ?u = "(catalog_destroy ui)\<lparr>catalog := sort_catalog qg qt ?c2\<rparr>"
  obtain r r1 where load: "snapshot_header routes root t = Some (finished, refresh_cursor c, int (length (platforms c)), r)"
      "load_platforms (\<lambda>_. True) (length (platforms c)) ?c0 r = Some (?c0\<lparr>platforms := platforms c\<rparr>, r1)"
      "load_games (\<lambda>_. True) (?c0\<lparr>platforms := platforms c\<rparr>) r1 = Some ?c2"
    using load_written_text [OF assms(2) stamp, of ?c0 finished] unfolding written by (auto simp: catalog_destroy_def empty_catalog_def)
  have "length root < PATH_MAX" using assms(2) by (auto simp: catalog_storable_def header_storable_def field_ok_def PATH_MAX_def)
  then have result: "catalog_snapshot_load oe (\<lambda>_. True) qg qt routes (sn_euid env) (last states) (Some p) (Some root) ui =
      (catalog_apply_filters oe ?u, 0, finished)"
    using opened path load by (simp add: catalog_snapshot_load_def Let_def)
  obtain v n where kept: "catalog (catalog_apply_filters oe ?u) = (catalog ?u)\<lparr>visible_capacity := n, visible := v\<rparr>"
    using apply_filters_kept [of ?u oe] by (auto simp: sort_catalog_def with_snapshot_games_def catalog_destroy_def empty_catalog_def)
  have names: "set (foldl add_unique [] xs) = set xs" "distinct (foldl add_unique [] xs)" for xs :: "string list"
    using add_unique_fold [of "[]" xs] by simp_all
  have fields: "system (snapshot_game g) = system g" "core (snapshot_game g) = core g" for g by (simp_all add: snapshot_game_def)
  note sorted = qsort_key [OF assms(4), of compare_game game_key "map snapshot_game (games c)", OF compare_game_key]
    qsort_names [OF assms(5) names(2) [of "map system (games c)"]] qsort_names [OF assms(5) names(2) [of "map core (games c)"]]
  show ?thesis using result kept sorted names
    by (simp add: sort_catalog_def with_snapshot_games_def catalog_destroy_def empty_catalog_def fields comp_def)
qed

lemma length_write_token: "length (write_token v) \<le> 2 * length v + 1"
  using length_encode_pairs [of v] by (simp add: write_token_def)

text \<open>A written snapshot is no longer than its lines at their limit.\<close>

lemma lines_text_short: "(\<And>l. l \<in> set ls \<Longrightarrow> length l < n) \<Longrightarrow> length (lines_text ls) \<le> n * length ls"
proof (induction ls)
  case (Cons l ls)
  then have "length l < n" "length (lines_text ls) \<le> n * length ls" by simp_all
  then show ?case by simp
qed simp

lemma print_u64_short: "n < 2 ^ 64 \<Longrightarrow> length (print_nat n) \<le> 20"
  by (rule length_print_nat [of _ 19, simplified]) simp

lemma header_line_short:
  assumes "header_storable routes root c" "l \<in> set (header_lines routes stamp root finished c)"
  shows "length l < SNAPSHOT_MAX_LINE"
proof -
  have u: "unat w < 2 ^ 64" for w :: u64 using unsigned_less [of w] by simp
  have t: "length (write_token v) \<le> 2 * n + 1" if "field_ok n v" for n v
    using length_write_token [of v] that by (simp add: field_ok_def)
  have n: "length (print_nat (route_count routes)) \<le> 20" "length (print_nat (unat (fst stamp))) \<le> 20" "length (print_nat (unat (snd stamp))) \<le> 20"
    "length (print_nat (rpg_truth_level routes)) \<le> 20" "length (print_nat (length (platforms c))) \<le> 20"
    using assms(1) u by (auto intro!: print_u64_short simp: header_storable_def SNAPSHOT_MAX_PLATFORMS_def)
  have r: "length (write_token root) \<le> 8191" "length (write_token (refresh_cursor c)) \<le> 511"
    using assms(1) t [of "PATH_MAX - 1" root] t [of NAME_MAX "refresh_cursor c"] by (auto simp: header_storable_def PATH_MAX_def NAME_MAX_def)
  show ?thesis using assms(2) n r
    by (auto simp: header_lines_def SNAPSHOT_SCHEMA_def SNAPSHOT_MAX_LINE_def PATH_MAX_def)
qed

lemma written_length:
  assumes "catalog_storable routes root c" "\<forall>g \<in> set (games c). length (game_line g) < SNAPSHOT_MAX_LINE"
    "write_snapshot_stream routes root finished c = Some t"
  shows "length t \<le> SNAPSHOT_MAX_LINE * (8 + length (platforms c) + length (games c))"
proof -
  have n: "length (print_nat (length (games c))) \<le> 20" "length (print_nat (length (platforms c))) \<le> 20"
    using assms(1) by (auto intro!: print_u64_short simp: catalog_storable_def header_storable_def SNAPSHOT_MAX_PLATFORMS_def SNAPSHOT_MAX_GAMES_def)
  then have e: "length (end_line c) < SNAPSHOT_MAX_LINE" by (simp add: end_line_def SNAPSHOT_MAX_LINE_def PATH_MAX_def)
  obtain stamp where t: "t = lines_text (header_lines routes stamp root finished c @ map platform_line (platforms c) @ map game_line (games c) @ [end_line c])"
    using assms(3) by (auto simp: write_snapshot_stream_def)
  have n: "length (header_lines routes stamp root finished c) = 7" by (simp add: header_lines_def)
  have "length l < SNAPSHOT_MAX_LINE"
    if "l \<in> set (header_lines routes stamp root finished c @ map platform_line (platforms c) @ map game_line (games c) @ [end_line c])" for l
    using that assms e platform_line_short header_line_short [of routes root c l stamp finished]
    by (auto simp: catalog_storable_def list_all_iff)
  then have "length t \<le> SNAPSHOT_MAX_LINE * length (header_lines routes stamp root finished c @ map platform_line (platforms c) @ map game_line (games c) @ [end_line c])"
    unfolding t by (rule lines_text_short)
  then show ?thesis using n by (simp add: ac_simps)
qed

text \<open>The checks before the temporary file is made, and a write after them without faults.\<close>

definition snapshot_writable :: "snap_env \<Rightarrow> dir \<Rightarrow> string \<Rightarrow> bool" where
  "snapshot_writable env d p \<longleftrightarrow> take 1 p = ''/'' \<and> last_part p \<noteq> [] \<and> length (parent_directory p) < PATH_MAX \<and> length (snapshot_temporary env p) < PATH_MAX \<and>
     sn_dir_stat env \<and> (\<exists>f. d (parent_directory p) = Some f \<and> kind f = Directory \<and> st_uid f = sn_euid env) \<and> target_replaceable env d p"

lemma snapshot_write_complete:
  assumes "snapshot_writable env d p" "sn_open env" "sn_fdopen env" "d (snapshot_temporary env p) = None" "sn_written env = None" "sn_fclose env"
    "sn_rename env" "sn_dir_sync env" "write_snapshot_stream routes root finished c = Some t"
  shows "catalog_snapshot_write env routes d (Some p) (Some root) finished c =
    ([d(snapshot_temporary env p \<mapsto> new_inode env []), d(snapshot_temporary env p \<mapsto> new_inode env t), d(p \<mapsto> new_inode env t)], 0, False)"
  using assms temporary_differs [of env p] temporary_differs [of env p, symmetric]
  by (auto simp: snapshot_writable_def catalog_snapshot_write_def Let_def fun_eq_iff)

text \<open>A small catalogue and a write of it without faults.\<close>

definition snapshot_sample :: catalog_state where
  "snapshot_sample = (catalog sample_catalog)\<lparr>games := [(sample_game ''Tetris'' 5)\<lparr>path := ''/roms/GBA/Tetris.gba'', cover_path := ''/roms/GBA/Imgs/Tetris.png''\<rparr>],
     platforms := [\<lparr>pr_name = ''GBA'', device = 8, inode_number = 21, mtime_ns = 1000, ctime_ns = 1001, entry_count = 1\<rparr>]\<rparr>"

definition snapshot_routes :: route_table where
  "snapshot_routes = \<lparr>route_items = [], source_path = ''/etc/routes'', rpg_truth_level = 2, rpg_launchable = True, route_file = Some (True, 17, 5, 900)\<rparr>"

definition snapshot_sample_env :: snap_env where
  "snapshot_sample_env = \<lparr>sn_euid = 0, sn_pid = 77, sn_clock = 123, sn_dir_stat = True, sn_path_stat = None, sn_open = True, sn_fdopen = True,
     sn_written = None, sn_fclose = True, sn_rename = True, sn_dir_sync = True, sn_unlink = True\<rparr>"

definition snapshot_sample_dir :: dir where
  "snapshot_sample_dir = [''/var'' \<mapsto> \<lparr>fdata = [], kind = Directory, st_uid = 0, st_nlink = 2, st_mode = 448\<rparr>]"

lemma snapshot_sample_storable: "catalog_storable snapshot_routes ''/roms'' snapshot_sample"
    "\<forall>g \<in> set (games snapshot_sample). length (game_line g) < SNAPSHOT_MAX_LINE"
proof -
  let ?g = "(sample_game ''Tetris'' 5)\<lparr>path := ''/roms/GBA/Tetris.gba'', cover_path := ''/roms/GBA/Imgs/Tetris.png''\<rparr>"
  have "length (print_int 0) \<le> 1" by (simp add: print_int_def print_nat_bits)
  then have "length (game_line ?g) \<le> 400"
    using unwords_length [of "''game'' # print_int (modified ?g) # (if playable ?g then ''1'' else ''0'') # map write_token (game_fields ?g)"]
      length_write_token [of "''Tetris''"] length_write_token [of "''/roms/GBA/Tetris.gba''"] length_write_token [of "''/roms/GBA/Imgs/Tetris.png''"]
      length_write_token [of "''GBA''"] length_write_token [of "''mgba''"] length_write_token [of "[]"]
    unfolding game_line_def by (simp add: game_fields_def sample_game_def)
  then have "length (game_line ?g) < SNAPSHOT_MAX_LINE" by (simp add: SNAPSHOT_MAX_LINE_def PATH_MAX_def)
  then show "\<forall>g \<in> set (games snapshot_sample). length (game_line g) < SNAPSHOT_MAX_LINE" "catalog_storable snapshot_routes ''/roms'' snapshot_sample"
    by (simp_all add: catalog_storable_def header_storable_def snapshot_routes_def snapshot_sample_def sample_catalog_def platform_storable_def field_ok_def
        game_storable_def game_limits_def game_fields_def sample_game_def NAME_MAX_def PATH_MAX_def SNAPSHOT_MAX_PLATFORMS_def SNAPSHOT_MAX_GAMES_def)
qed

lemma snapshot_sample_writable: "snapshot_writable (snapshot_sample_env\<lparr>sn_written := k\<rparr>) snapshot_sample_dir ''/var/c.v3''"
    "snapshot_sample_dir (snapshot_temporary (snapshot_sample_env\<lparr>sn_written := k\<rparr>) ''/var/c.v3'') = None"
proof -
  let ?p = "''/var/c.v3''"
  have tmp: "snapshot_temporary (snapshot_sample_env\<lparr>sn_written := k\<rparr>) ?p = ''/var/c.v3.tmp.77.123''"
    unfolding snapshot_temporary_def snapshot_sample_env_def by code_simp
  have parts: "last_part ?p = ''c.v3''" "parent_directory ?p = ''/var''" by (simp_all add: last_part_def parent_directory_def)
  show "snapshot_writable (snapshot_sample_env\<lparr>sn_written := k\<rparr>) snapshot_sample_dir ?p"
    unfolding snapshot_writable_def tmp parts
    by (simp add: snapshot_sample_env_def snapshot_sample_dir_def PATH_MAX_def target_replaceable_def)
  show "snapshot_sample_dir (snapshot_temporary (snapshot_sample_env\<lparr>sn_written := k\<rparr>) ?p) = None"
    unfolding tmp by (simp add: snapshot_sample_dir_def)
qed

theorem snapshot_write_load_witness:
  "catalog_storable snapshot_routes ''/roms'' snapshot_sample \<and>
   (\<exists>states. catalog_snapshot_write snapshot_sample_env snapshot_routes snapshot_sample_dir (Some ''/var/c.v3'') (Some ''/roms'') True snapshot_sample = (states, 0, False) \<and>
    (\<exists>ui'. catalog_snapshot_load sample_env (\<lambda>_. True) insertion_sort insertion_sort snapshot_routes 0 (last states) (Some ''/var/c.v3'') (Some ''/roms'') sample_catalog = (ui', 0, True) \<and>
      map path (games (catalog ui')) = [''/roms/GBA/Tetris.gba'']))"
proof -
  let ?p = "''/var/c.v3''"
  obtain t where s: "write_snapshot_stream snapshot_routes ''/roms'' True snapshot_sample = Some t"
    by (simp add: write_snapshot_stream_def route_fingerprint_def snapshot_routes_def)
  have n: "length t \<le> SNAPSHOT_MAX_BYTES"
    using written_length [OF snapshot_sample_storable s] by (simp add: snapshot_sample_def SNAPSHOT_MAX_LINE_def SNAPSHOT_MAX_BYTES_def PATH_MAX_def)
  have env: "snapshot_sample_env\<lparr>sn_written := None\<rparr> = snapshot_sample_env" by (simp add: snapshot_sample_env_def)
  have w: "catalog_snapshot_write snapshot_sample_env snapshot_routes snapshot_sample_dir (Some ?p) (Some ''/roms'') True snapshot_sample =
     ([snapshot_sample_dir(snapshot_temporary snapshot_sample_env ?p \<mapsto> new_inode snapshot_sample_env []),
       snapshot_sample_dir(snapshot_temporary snapshot_sample_env ?p \<mapsto> new_inode snapshot_sample_env t),
       snapshot_sample_dir(?p \<mapsto> new_inode snapshot_sample_env t)], 0, False)"
    using snapshot_sample_writable [of None, unfolded env] by (intro snapshot_write_complete s) (simp_all add: snapshot_sample_env_def)
  have b: "length (fdata (the ((snapshot_sample_dir(?p \<mapsto> new_inode snapshot_sample_env t)) ?p))) \<le> SNAPSHOT_MAX_BYTES"
    using n by (simp add: new_inode_def)
  have one: "map path gs = [''/roms/GBA/Tetris.gba'']" if "mset gs = mset (map snapshot_game (games snapshot_sample))" for gs
    using that by (simp add: snapshot_sample_def snapshot_game_def)
  have "sn_euid snapshot_sample_env = 0" by (simp add: snapshot_sample_env_def)
  then show ?thesis
    using snapshot_write_load [OF w snapshot_sample_storable(1) _ insertion_sort_ok insertion_sort_ok, of sample_env sample_catalog] b one
      snapshot_sample_storable(1) w by auto
qed

theorem snapshot_write_atomic_witness:
  "\<exists>states r leaked e. catalog_snapshot_write (snapshot_sample_env\<lparr>sn_written := Some 40\<rparr>) snapshot_routes snapshot_sample_dir (Some ''/var/c.v3'') (Some ''/roms'') True
      snapshot_sample = (states, r, leaked) \<and> e \<in> set states \<and> e ''/var/c.v3'' = snapshot_sample_dir ''/var/c.v3''"
proof -
  let ?env = "snapshot_sample_env\<lparr>sn_written := Some 40\<rparr>" and ?p = "''/var/c.v3''"
  obtain states r leaked where w: "catalog_snapshot_write ?env snapshot_routes snapshot_sample_dir (Some ?p) (Some ''/roms'') True snapshot_sample = (states, r, leaked)"
    by (rule prod_cases3)
  have "sn_open ?env" "sn_fdopen ?env" by (simp_all add: snapshot_sample_env_def)
  then have e: "snapshot_sample_dir(snapshot_temporary ?env ?p \<mapsto> new_inode ?env []) \<in> set states"
    using w snapshot_sample_writable [of "Some 40"]
    by (auto simp: catalog_snapshot_write_def snapshot_writable_def Let_def simp del: fun_upd_apply)
  then show ?thesis using snapshot_write_atomic [OF w e] w temporary_differs [of ?env ?p] by auto
qed

text \<open>
  Two defects of the error paths: a failed write leaves the stream open, and when
  the temporary name is already taken the file that has it is removed although
  this call did not create it.
\<close>

lemma failed_write_leaks_stream:
  assumes "snapshot_writable env d p"
    "sn_open env" "sn_fdopen env" "d (snapshot_temporary env p) = None" "sn_written env = Some k"
  shows "\<exists>states. catalog_snapshot_write env routes d (Some p) (Some root) finished c = (states, - 1, True)"
  using assms by (auto simp: snapshot_writable_def catalog_snapshot_write_def Let_def)

lemma taken_temporary_removed:
  assumes "snapshot_writable env d p"
    "d (snapshot_temporary env p) = Some other" "sn_unlink env"
  shows "catalog_snapshot_write env routes d (Some p) (Some root) finished c = ([d(snapshot_temporary env p := None)], - 1, False)"
  using assms by (auto simp: snapshot_writable_def catalog_snapshot_write_def Let_def snapshot_unlink_def)

end
