(* ===== verification/Catalog_Scan.thy ===== *)
theory Catalog_Scan
  imports Catalog_Snapshot
begin

text \<open>
  Scanning the directories of games
  (\<^verbatim>\<open>components/rg40xxv-shell/src/catalog_scan.c\<close>). The file system is a parameter:
  what \<^verbatim>\<open>readdir\<close> lists in a directory, what \<^verbatim>\<open>lstat\<close> and \<^verbatim>\<open>realpath\<close> say of a path,
  the readings of the monotonic clock one after another, and which allocations
  succeed. It stays as it is during one scan.
\<close>

section \<open>Surroundings\<close>

record file_stat =
  fs_kind :: file_kind
  fs_dev :: u64
  fs_ino :: u64
  fs_mtime :: "int \<times> int"
  fs_ctime :: "int \<times> int"

text \<open>For one more game: its texts and its place in the array, a new system name, a new core name.\<close>

record allocation =
  al_entry :: bool
  al_system :: bool
  al_core :: bool

record scan_world =
  list_names :: "string \<Rightarrow> string list option"
  lstat_of :: "string \<Rightarrow> file_stat option"
  real_path :: "string \<Rightarrow> string option"
  scan_clock :: "nat \<Rightarrow> u64"
  alloc_at :: "nat \<Rightarrow> allocation"

text \<open>The last field counts the readings of the clock.\<close>

record scan_budget =
  entries :: nat
  max_entries :: nat
  deadline_ns :: u64
  clock_reads :: nat

record scan_source =
  src_root :: string
  preferred_root :: "string option"

definition scan_budget_expired :: "scan_world \<Rightarrow> scan_budget \<Rightarrow> scan_budget \<times> bool" where
  "scan_budget_expired w b =
    (if max_entries b \<le> entries b then (b, True)
     else let b1 = b\<lparr>entries := Suc (entries b)\<rparr> in
       if deadline_ns b1 \<noteq> 0 then (b1\<lparr>clock_reads := Suc (clock_reads b1)\<rparr>, deadline_ns b1 \<le> scan_clock w (clock_reads b1)) else (b1, False))"

section \<open>Covers\<close>

record cover_index_item =
  stem :: string
  item_path :: string
  preference :: int

definition compare_cover :: "cover_index_item \<Rightarrow> cover_index_item \<Rightarrow> int" where
  "compare_cover a b = (let s = strcmp (stem a) (stem b) in if s \<noteq> 0 then s else preference a - preference b)"

text \<open>\<^verbatim>\<open>strrchr(name, '.')\<close> as the part before the last dot and the part from it on.\<close>

definition split_extension :: "string \<Rightarrow> (string \<times> string) option" where
  "split_extension name =
    (if CHR ''.'' \<notin> set name then None
     else let e = length (takeWhile (\<lambda>c. c \<noteq> CHR ''.'') (rev name)); n = length name - Suc e in Some (take n name, drop n name))"

definition cover_preference :: "string \<Rightarrow> (string \<times> int) option" where
  "cover_preference name =
    (case split_extension name of
       None \<Rightarrow> None
     | Some (base, extension) \<Rightarrow>
       if base = [] then None
       else if strcasecmp_eq extension ''.jpg'' \<or> strcasecmp_eq extension ''.jpeg'' then Some (base, 0)
       else if strcasecmp_eq extension ''.png'' then Some (base, 1)
       else if strcasecmp_eq extension ''.bmp'' then Some (base, 2)
       else None)"

definition cover_index_add :: "scan_world \<Rightarrow> cover_index_item list \<Rightarrow> string \<Rightarrow> string \<Rightarrow> cover_index_item list \<times> int" where
  "cover_index_add w covers directory name =
    (case cover_preference name of
       None \<Rightarrow> (covers, 0)
     | Some (base, pref) \<Rightarrow>
       if \<not> al_entry (alloc_at w (length covers)) then (covers, - 1)
       else let p = directory @ ''/'' @ name in
         if PATH_MAX \<le> length p then (covers, - 1)
         else (covers @ [\<lparr>stem = base, item_path = p, preference = pref\<rparr>], 0))"

fun cover_loop :: "scan_world \<Rightarrow> string \<Rightarrow> string list \<Rightarrow> cover_index_item list \<Rightarrow> scan_budget \<Rightarrow> cover_index_item list \<times> scan_budget \<times> int" where
  "cover_loop w directory [] covers b = (covers, b, 0)"
| "cover_loop w directory (name # names) covers b =
    (if take 1 name = ''.'' then cover_loop w directory names covers b
     else (case scan_budget_expired w b of (b1, expired) \<Rightarrow>
       if expired then (covers, b1, 1)
       else (case cover_index_add w covers directory name of (covers1, r) \<Rightarrow>
         if r \<noteq> 0 then (covers1, b1, - 1) else cover_loop w directory names covers1 b1)))"

definition cover_index_build ::
    "scan_world \<Rightarrow> cover_index_item qsort \<Rightarrow> string \<Rightarrow> scan_budget \<Rightarrow> cover_index_item list \<times> scan_budget \<times> int" where
  "cover_index_build w qc system_dir b =
    (let directory = system_dir @ ''/Imgs'' in
     if PATH_MAX \<le> length directory then ([], b, - 1)
     else (case list_names w directory of
         None \<Rightarrow> ([], b, 0)
       | Some names \<Rightarrow> (case cover_loop w directory names [] b of
           (covers, b1, r) \<Rightarrow> if r = 0 then (qc compare_cover covers, b1, 0) else (covers, b1, r))))"

text \<open>The binary search for the first item that is not before the stem.\<close>

function cover_search :: "cover_index_item list \<Rightarrow> string \<Rightarrow> nat \<Rightarrow> nat \<Rightarrow> nat" where
  "cover_search covers s left right =
    (if left < right then
       let middle = left + (right - left) div 2 in
       if strcmp (stem (covers ! middle)) s < 0 then cover_search covers s (middle + 1) right else cover_search covers s left middle
     else left)"
  by pat_completeness auto
termination by (relation "measure (\<lambda>(covers, s, left, right). right - left)") auto

declare cover_search.simps [simp del]

definition cover_index_find :: "cover_index_item list \<Rightarrow> string \<Rightarrow> string option" where
  "cover_index_find covers s =
    (let left = cover_search covers s 0 (length covers) in
     if left < length covers \<and> strcmp (stem (covers ! left)) s = 0 then Some (item_path (covers ! left)) else None)"

section \<open>What a system runs on\<close>

definition core_for_system :: "string \<Rightarrow> string" where
  "core_for_system s =
    (if strcasecmp_eq s ''GBA'' \<or> strcasecmp_eq s ''GB'' \<or> strcasecmp_eq s ''GBC'' then ''mGBA''
     else if strcasecmp_eq s ''FC'' \<or> strcasecmp_eq s ''FDS'' then ''FCEUmm''
     else if strcasecmp_eq s ''SFC'' then ''Snes9x''
     else if strcasecmp_eq s ''MD'' \<or> strcasecmp_eq s ''SMS'' \<or> strcasecmp_eq s ''GG'' then ''Genesis Plus GX''
     else if strcasecmp_eq s ''PS'' then ''PCSX-ReARMed''
     else if strcasecmp_eq s ''N64'' then ''Mupen64Plus''
     else if strcasecmp_eq s ''NDS'' then ''standalone:drastic''
     else if strcasecmp_eq s ''PSP'' then ''standalone:ppsspp''
     else if strcasecmp_eq s ''EASYRPG'' then ''libretro:easyrpg''
     else if strcasecmp_eq s ''RPGMV'' \<or> strcasecmp_eq s ''RPGMZ'' then ''standalone:rmut-nwjs-aarch64''
     else if strcasecmp_eq s ''DOS'' then ''libretro:dosbox_pure''
     else if strcasecmp_eq s ''PORTS'' \<or> strcasecmp_eq s ''APPS'' then ''native''
     else if strcasecmp_eq s ''PS2'' then ''experimental:unavailable''
     else ''RetroArch'')"

definition frontend_for_system :: "string \<Rightarrow> string \<Rightarrow> string" where
  "frontend_for_system s cr =
    (if strcasecmp_eq s ''PSP'' then ''PPSSPP standalone''
     else if strcasecmp_eq s ''NDS'' then ''DraStic''
     else if strcasecmp_eq s ''RPGMV'' \<or> strcasecmp_eq s ''RPGMZ'' then ''Standalone''
     else if cr = ''native'' then ''Native port''
     else ''RetroArch'')"

definition runtime_for_system :: "string \<Rightarrow> string \<Rightarrow> string" where
  "runtime_for_system s cr =
    (if strcasecmp_eq s ''PSP'' then ''PPSSPP''
     else if strcasecmp_eq s ''NDS'' then ''ARMhf''
     else if cr = ''native'' then ''AArch64/Linux''
     else cr)"

definition fallback_for_system :: "string \<Rightarrow> string" where
  "fallback_for_system s =
    (if strcasecmp_eq s ''PSP'' then ''libretro:ppsspp''
     else if strcasecmp_eq s ''NDS'' then ''libretro:melonds (ARMhf)''
     else [])"

definition rom_extensions :: "string list" where
  "rom_extensions =
    [''.zip'', ''.7z'', ''.rar'', ''.nes'', ''.fds'', ''.sfc'', ''.smc'',
     ''.gba'', ''.gb'', ''.gbc'', ''.nds'', ''.n64'', ''.z64'', ''.v64'',
     ''.md'', ''.gen'', ''.sms'', ''.gg'', ''.32x'', ''.cue'', ''.chd'',
     ''.iso'', ''.pbp'', ''.cso'', ''.gdi'', ''.bin'', ''.a26'', ''.a52'',
     ''.a78'', ''.atr'', ''.xex'', ''.d64'', ''.adf'', ''.lha'', ''.hdf'',
     ''.rom'', ''.pce'', ''.ngp'', ''.ngc'', ''.ws'', ''.wsc'', ''.col'',
     ''.vec'', ''.wad'', ''.pak'', ''.m3u'', ''.sh'', ''.love'', ''.elf'',
     ''.exe'', ''.vb'', ''.p8'', ''.mgw'', ''.dosz'', ''.jar'', ''.lnx'',
     ''.d88'', ''.tap'', ''.tzx'', ''.prg'', ''.crt'', ''.scummvm'']"

definition is_rom_file :: "string \<Rightarrow> bool" where
  "is_rom_file name =
    (case split_extension name of None \<Rightarrow> False | Some (base, extension) \<Rightarrow> list_ex (strcasecmp_eq extension) rom_extensions)"

definition title_from_name :: "string \<Rightarrow> string" where
  "title_from_name name = (case split_extension name of None \<Rightarrow> name | Some (base, extension) \<Rightarrow> base)"

section \<open>Two sources\<close>

definition strip_slashes :: "string \<Rightarrow> nat" where
  "strip_slashes root = max 1 (length (rev (dropWhile (\<lambda>c. c = CHR ''/'') (rev root))))"

definition relative_to_root :: "string \<Rightarrow> string \<Rightarrow> string option" where
  "relative_to_root root p =
    (if take 1 root \<noteq> ''/'' \<or> take 1 p \<noteq> ''/'' then None
     else let n = strip_slashes root in
       if take n root \<noteq> take n p \<or> (1 < n \<and> take 1 (drop n p) \<noteq> ''/'') then None
       else let relative = dropWhile (\<lambda>c. c = CHR ''/'') (drop n p) in
         if relative = [] then None else Some relative)"

definition preferred_source_has_game :: "scan_world \<Rightarrow> catalog_state \<Rightarrow> scan_source \<Rightarrow> string \<Rightarrow> file_kind \<Rightarrow> bool" where
  "preferred_source_has_game w c source p k =
    (case preferred_root source of
       None \<Rightarrow> False
     | Some pref \<Rightarrow> (case relative_to_root (src_root source) p of
         None \<Rightarrow> False
       | Some relative \<Rightarrow>
         if list_ex (\<lambda>g. case relative_to_root pref (path g) of None \<Rightarrow> False | Some r \<Rightarrow> strcasecmp_eq r relative) (games c) then True
         else let q = pref @ ''/'' @ relative in
           if PATH_MAX \<le> length q then False
           else (case lstat_of w q of
               None \<Rightarrow> False
             | Some st \<Rightarrow> (k = Regular \<and> fs_kind st = Regular) \<or> (k = Directory \<and> fs_kind st = Directory))))"

definition easyrpg_project_is_launchable :: "scan_world \<Rightarrow> string \<Rightarrow> file_stat \<Rightarrow> bool" where
  "easyrpg_project_is_launchable w p st =
    (if fs_kind st \<noteq> Directory then False
     else let database = p @ ''/RPG_RT.ldb'' in
       if PATH_MAX \<le> length database then False
       else (case lstat_of w database of None \<Rightarrow> False | Some ds \<Rightarrow> fs_kind ds = Regular \<and> fs_dev ds = fs_dev st))"

definition catalog_system_name :: "catalog_state \<Rightarrow> string \<Rightarrow> string" where
  "catalog_system_name c s = (case find (\<lambda>x. strcasecmp_eq x s) (systems c) of None \<Rightarrow> s | Some x \<Rightarrow> x)"

section \<open>Adding a game\<close>

definition grow_unique :: "bool \<Rightarrow> string list \<Rightarrow> string \<Rightarrow> (string list) option" where
  "grow_unique ok vs v = (if v \<in> set vs then Some vs else if ok then Some (vs @ [v]) else None)"

text \<open>The entry for a game; the name of its system has been chosen.\<close>

definition new_game ::
    "scan_world \<Rightarrow> platform_routes \<Rightarrow> cover_index_item list \<Rightarrow> string \<Rightarrow> string \<Rightarrow> string \<Rightarrow> string \<Rightarrow> int \<Rightarrow> game_entry" where
  "new_game w routes covers system_name p name system_dir changed =
    (let route = platform_route_find routes system_name;
         cr = (case route of None \<Rightarrow> core_for_system system_name | Some r \<Rightarrow> primary r);
         ti = title_from_name name in
     \<lparr>title = ti, path = (case real_path w p of None \<Rightarrow> p | Some q \<Rightarrow> q),
      cover_path = (case cover_index_find covers ti of None \<Rightarrow> system_dir @ ''/Imgs/'' @ ti @ ''.png'' | Some q \<Rightarrow> q),
      system = system_name,
      system_label = (case route of None \<Rightarrow> system_name | Some r \<Rightarrow> label_zh_tw r),
      core = cr,
      frontend = (case route of None \<Rightarrow> frontend_for_system system_name cr | Some r \<Rightarrow> platform_route_frontend cr),
      runtime = (case route of None \<Rightarrow> runtime_for_system system_name cr | Some r \<Rightarrow> platform_route_runtime cr),
      fallback = (case route of None \<Rightarrow> fallback_for_system system_name | Some r \<Rightarrow> rt_fallback r),
      content_hash = [], modified = changed, last_played = 0, favorite = False, recent = False, route_lock = False, save_present = False,
      save_warning = False,
      playable = (case route of None \<Rightarrow> \<not> strcasecmp_eq system_name ''RPGMV'' \<and> \<not> strcasecmp_eq system_name ''RPGMZ'' | Some r \<Rightarrow> rt_playable r)\<rparr>)"

definition add_game ::
    "scan_world \<Rightarrow> platform_routes \<Rightarrow> cover_index_item list \<Rightarrow> catalog_state \<Rightarrow> string \<Rightarrow> string \<Rightarrow> string \<Rightarrow> string \<Rightarrow> int \<Rightarrow> catalog_state \<times> int" where
  "add_game w routes covers c p name system_dir s changed =
    (let g = new_game w routes covers (catalog_system_name c s) p name system_dir changed; a = alloc_at w (length (games c)) in
     if PATH_MAX \<le> length (cover_path g) \<or> \<not> al_entry a then (c, - 1)
     else (case grow_unique (al_system a) (systems c) (system g) of
         None \<Rightarrow> (c, - 1)
       | Some ss \<Rightarrow> (case grow_unique (al_core a) (cores c) (core g) of
           None \<Rightarrow> (c\<lparr>systems := ss\<rparr>, - 1)
         | Some cs \<Rightarrow> (c\<lparr>systems := ss, cores := cs, games := games c @ [g]\<rparr>, 0))))"

section \<open>Walking a directory\<close>

record scan_state =
  sc_catalog :: catalog_state
  sc_budget :: scan_budget
  direct_entries :: u64

text \<open>What is done with an entry: nothing, add the file at a path, or go into a directory.\<close>

datatype scan_action = Ignore | Add string file_kind int | Descend string

definition hidden_entry :: "string \<Rightarrow> bool" where
  "hidden_entry name \<longleftrightarrow> take 1 name = ''.'' \<or> strcasecmp_eq name ''Imgs''"

definition scan_entry :: "scan_world \<Rightarrow> string \<Rightarrow> nat \<Rightarrow> string \<Rightarrow> string \<Rightarrow> scan_action" where
  "scan_entry w s depth directory name =
    (let p = directory @ ''/'' @ name in
     if PATH_MAX \<le> length p then Ignore
     else (case lstat_of w p of
         None \<Rightarrow> Ignore
       | Some st \<Rightarrow>
         if fs_kind st = Directory \<and> depth = 0 \<and> strcasecmp_eq s ''EASYRPG'' \<and> \<not> easyrpg_project_is_launchable w p st then Ignore
         else if fs_kind st = Directory \<and> depth = 0 \<and> (strcasecmp_eq s ''EASYRPG'' \<or> strcasecmp_eq s ''RPGMV'' \<or> strcasecmp_eq s ''RPGMZ'') then
           Add p Directory (fst (fs_mtime st))
         else if fs_kind st = Directory \<and> depth = 0 \<and> strcasecmp_eq s ''APPS'' then
           (let launcher = p @ ''/launch.sh'' in
            if PATH_MAX \<le> length launcher then Ignore
            else (case lstat_of w launcher of
                None \<Rightarrow> Ignore
              | Some ls \<Rightarrow> if fs_kind ls = Regular then Add launcher Regular (fst (fs_mtime ls)) else Ignore))
         else if fs_kind st = Directory \<and> depth < 8 \<and> \<not> strcasecmp_eq s ''PORTS'' then Descend p
         else if fs_kind st = Regular \<and> is_rom_file name \<and>
             (\<not> strcasecmp_eq s ''PORTS'' \<or> strcasecmp_eq (snd (the (split_extension name))) ''.sh'') then
           Add p Regular (fst (fs_mtime st))
         else Ignore))"

lemma scan_entry_descend: "scan_entry w s depth directory name = Descend p \<Longrightarrow> depth < 8"
  by (auto simp: scan_entry_def Let_def split: if_splits option.splits)

text \<open>What does not change during the scan of one system. The test of the depth below the call is never true by the lemma above.\<close>

record scan_job =
  jb_world :: scan_world
  jb_routes :: platform_routes
  jb_covers :: "cover_index_item list"
  jb_system_dir :: string
  jb_system :: string
  jb_source :: scan_source

function scan_names :: "scan_job \<Rightarrow> nat \<Rightarrow> string \<Rightarrow> string list \<Rightarrow> scan_state \<Rightarrow> scan_state \<times> int" where
  "scan_names j depth directory [] st = (st, 0)"
| "scan_names j depth directory (name # names) st =
    (if hidden_entry name then scan_names j depth directory names st
     else
       let st1 = (if depth = 0 then st\<lparr>direct_entries := direct_entries st + 1\<rparr> else st) in
       (case scan_budget_expired (jb_world j) (sc_budget st1) of (b, expired) \<Rightarrow>
         let st2 = st1\<lparr>sc_budget := b\<rparr> in
         if expired then (st2, 1)
         else (case scan_entry (jb_world j) (jb_system j) depth directory name of
             Ignore \<Rightarrow> scan_names j depth directory names st2
           | Add p k changed \<Rightarrow>
             if preferred_source_has_game (jb_world j) (sc_catalog st2) (jb_source j) p k then scan_names j depth directory names st2
             else (case add_game (jb_world j) (jb_routes j) (jb_covers j) (sc_catalog st2) p name (jb_system_dir j) (jb_system j) changed of (c, r) \<Rightarrow>
               if r \<noteq> 0 then (st2\<lparr>sc_catalog := c\<rparr>, r) else scan_names j depth directory names (st2\<lparr>sc_catalog := c\<rparr>))
           | Descend p \<Rightarrow>
             if 8 \<le> depth then (st2, 0)
             else (case list_names (jb_world j) p of
                 None \<Rightarrow> scan_names j depth directory names st2
               | Some inner \<Rightarrow> (case scan_names j (Suc depth) p inner st2 of (st3, r) \<Rightarrow>
                   if r \<noteq> 0 then (st3, r) else scan_names j depth directory names st3)))))"
  by pat_completeness auto
termination
  by (relation "measures [\<lambda>(j, depth, directory, names, st). 8 - depth, \<lambda>(j, depth, directory, names, st). length names]") auto

declare scan_names.simps [simp del]

definition scan_directory :: "scan_job \<Rightarrow> string \<Rightarrow> scan_state \<Rightarrow> scan_state \<times> int" where
  "scan_directory j directory st = (case list_names (jb_world j) directory of None \<Rightarrow> (st, 0) | Some names \<Rightarrow> scan_names j 0 directory names st)"

section \<open>Scans\<close>

definition catalog_sort_and_filter :: "os_env \<Rightarrow> game_entry qsort \<Rightarrow> string qsort \<Rightarrow> catalog_ui \<Rightarrow> catalog_ui" where
  "catalog_sort_and_filter env qg qt ui = catalog_apply_filters env (ui\<lparr>catalog := sort_catalog qg qt (catalog ui)\<rparr>)"

definition scan_system ::
    "scan_world \<Rightarrow> platform_routes \<Rightarrow> cover_index_item qsort \<Rightarrow> scan_source \<Rightarrow> string \<Rightarrow> string \<Rightarrow> catalog_state \<times> scan_budget \<Rightarrow> (catalog_state \<times> scan_budget \<times> u64) \<times> int" where
  "scan_system w routes qc source directory s cb =
    (case cover_index_build w qc directory (snd cb) of (covers, b, r) \<Rightarrow>
       if r \<noteq> 0 then ((fst cb, b, 0), r)
       else (case scan_directory \<lparr>jb_world = w, jb_routes = routes, jb_covers = covers, jb_system_dir = directory, jb_system = s, jb_source = source\<rparr> directory
           \<lparr>sc_catalog = fst cb, sc_budget = b, direct_entries = 0\<rparr> of
         (st, r1) \<Rightarrow> ((sc_catalog st, sc_budget st, direct_entries st), r1)))"

fun root_loop ::
    "scan_world \<Rightarrow> platform_routes \<Rightarrow> cover_index_item qsort \<Rightarrow> scan_source \<Rightarrow> string list \<Rightarrow> catalog_state \<times> scan_budget \<Rightarrow> (catalog_state \<times> scan_budget) \<times> int" where
  "root_loop w routes qc source [] cb = (cb, 0)"
| "root_loop w routes qc source (name # names) cb =
    (if hidden_entry name then root_loop w routes qc source names cb
     else (case scan_budget_expired w (snd cb) of (b, expired) \<Rightarrow>
       if expired then ((fst cb, b), 1)
       else
         let p = src_root source @ ''/'' @ name in
         if PATH_MAX \<le> length p \<or> (case lstat_of w p of None \<Rightarrow> True | Some st \<Rightarrow> fs_kind st \<noteq> Directory) then
           root_loop w routes qc source names (fst cb, b)
         else (case scan_system w routes qc source p name (fst cb, b) of ((c, b1, n), r) \<Rightarrow>
           if r \<noteq> 0 then ((c, b1), r) else root_loop w routes qc source names (c, b1))))"

definition scan_root ::
    "scan_world \<Rightarrow> platform_routes \<Rightarrow> cover_index_item qsort \<Rightarrow> scan_source \<Rightarrow> catalog_state \<times> scan_budget \<Rightarrow> (catalog_state \<times> scan_budget) \<times> int" where
  "scan_root w routes qc source cb =
    (case list_names w (src_root source) of None \<Rightarrow> (cb, - 1) | Some names \<Rightarrow> root_loop w routes qc source names cb)"

text \<open>The budget; the deadline takes the first reading of the clock.\<close>

definition new_budget :: "scan_world \<Rightarrow> nat \<Rightarrow> u32 \<Rightarrow> scan_budget" where
  "new_budget w limit max_ms =
    \<lparr>entries = 0, max_entries = (if limit = 0 then SIZE_MAX else limit),
     deadline_ns = (if max_ms = 0 then 0 else scan_clock w 0 + ucast max_ms * 1000000), clock_reads = (if max_ms = 0 then 0 else 1)\<rparr>"

definition catalog_scan_bounded ::
    "os_env \<Rightarrow> game_entry qsort \<Rightarrow> string qsort \<Rightarrow> cover_index_item qsort \<Rightarrow> scan_world \<Rightarrow> platform_routes \<Rightarrow> catalog_ui \<Rightarrow> string option \<Rightarrow> nat \<Rightarrow> u32 \<Rightarrow> catalog_ui \<times> int" where
  "catalog_scan_bounded env qg qt qc w routes ui root limit max_ms =
    (let u = catalog_destroy ui in
     case root of
       None \<Rightarrow> (catalog_apply_filters env u, - 1)
     | Some rr \<Rightarrow>
       if take 1 rr \<noteq> ''/'' then (catalog_apply_filters env u, - 1)
       else
         let u1 = u\<lparr>catalog := (catalog u)\<lparr>rom_root := snprintf_s PATH_MAX rr\<rparr>\<rparr> in
         if PATH_MAX \<le> length rr then (catalog_apply_filters env u1, - 1)
         else (case scan_root w routes qc \<lparr>src_root = rr, preferred_root = None\<rparr> (catalog u1, new_budget w limit max_ms) of ((c, b), r) \<Rightarrow>
           if r < 0 then (catalog_apply_filters env (catalog_destroy (u1\<lparr>catalog := c\<rparr>)), - 1)
           else (catalog_sort_and_filter env qg qt (u1\<lparr>catalog := c\<rparr>), r)))"

definition catalog_scan ::
    "os_env \<Rightarrow> game_entry qsort \<Rightarrow> string qsort \<Rightarrow> cover_index_item qsort \<Rightarrow> scan_world \<Rightarrow> platform_routes \<Rightarrow> catalog_ui \<Rightarrow> string option \<Rightarrow> catalog_ui \<times> int" where
  "catalog_scan env qg qt qc w routes ui root =
    (case catalog_scan_bounded env qg qt qc w routes ui root 0 0 of (u, r) \<Rightarrow> (u, if r < 0 then - 1 else 0))"

text \<open>The two resolved roots, if they are absolute, exist and differ.\<close>

definition resolved_roots :: "scan_world \<Rightarrow> string option \<Rightarrow> string option \<Rightarrow> (string \<times> string) option" where
  "resolved_roots w root pref =
    (case (root, pref) of
       (Some r, Some q) \<Rightarrow>
         if take 1 r \<noteq> ''/'' \<or> take 1 q \<noteq> ''/'' then None
         else (case (real_path w r, real_path w q) of (Some a, Some b) \<Rightarrow> if a = b then None else Some (a, b) | _ \<Rightarrow> None)
     | _ \<Rightarrow> None)"

definition catalog_append_source_bounded ::
    "os_env \<Rightarrow> game_entry qsort \<Rightarrow> string qsort \<Rightarrow> cover_index_item qsort \<Rightarrow> scan_world \<Rightarrow> platform_routes \<Rightarrow> catalog_ui \<Rightarrow> string option \<Rightarrow> string option \<Rightarrow>
     nat \<Rightarrow> u32 \<Rightarrow> catalog_ui \<times> int" where
  "catalog_append_source_bounded env qg qt qc w routes ui root pref limit max_ms =
    (case resolved_roots w root pref of
       None \<Rightarrow> (ui, - 1)
     | Some (a, b) \<Rightarrow> (case scan_root w routes qc \<lparr>src_root = a, preferred_root = Some b\<rparr> (catalog ui, new_budget w limit max_ms) of
         ((c, bg), r) \<Rightarrow> (catalog_sort_and_filter env qg qt (ui\<lparr>catalog := c\<rparr>), r)))"

text \<open>A moved game leaves an empty entry behind, here \<open>None\<close>. The system name is copied when the catalogue has its own spelling.\<close>

definition move_cached_game :: "scan_world \<Rightarrow> catalog_state \<Rightarrow> game_entry \<Rightarrow> catalog_state \<times> game_entry option \<times> int" where
  "move_cached_game w c g =
    (let a = alloc_at w (length (games c)); name = catalog_system_name c (system g); g1 = g\<lparr>system := name\<rparr> in
     if \<not> al_entry a then (c, Some g, - 1)
     else (case grow_unique (al_system a) (systems c) name of
         None \<Rightarrow> (c, Some g1, - 1)
       | Some ss \<Rightarrow> (case grow_unique (al_core a) (cores c) (core g) of
           None \<Rightarrow> (c\<lparr>systems := ss\<rparr>, Some g1, - 1)
         | Some cs \<Rightarrow> (c\<lparr>systems := ss, cores := cs, games := games c @ [g1]\<rparr>, None, 0))))"

definition cached_game_wanted :: "scan_world \<Rightarrow> scan_source \<Rightarrow> catalog_state \<Rightarrow> game_entry \<Rightarrow> bool" where
  "cached_game_wanted w source c g =
    (relative_to_root (src_root source) (path g) \<noteq> None \<and>
     (case lstat_of w (path g) of
        None \<Rightarrow> False
      | Some st \<Rightarrow> (fs_kind st = Regular \<or> fs_kind st = Directory) \<and> \<not> preferred_source_has_game w c source (path g) (fs_kind st)))"

fun cached_loop :: "scan_world \<Rightarrow> scan_source \<Rightarrow> game_entry option list \<Rightarrow> catalog_state \<Rightarrow> catalog_state \<times> game_entry option list \<times> int" where
  "cached_loop w source [] c = (c, [], 0)"
| "cached_loop w source (None # gs) c = (case cached_loop w source gs c of (c1, rest, r) \<Rightarrow> (c1, None # rest, r))"
| "cached_loop w source (Some g # gs) c =
    (if \<not> cached_game_wanted w source c g then (case cached_loop w source gs c of (c1, rest, r) \<Rightarrow> (c1, Some g # rest, r))
     else (case move_cached_game w c g of (c1, left, r) \<Rightarrow>
       if r \<noteq> 0 then (c1, left # gs, - 1)
       else (case cached_loop w source gs c1 of (c2, rest, r2) \<Rightarrow> (c2, left # rest, r2))))"

definition catalog_append_cached_source ::
    "os_env \<Rightarrow> game_entry qsort \<Rightarrow> string qsort \<Rightarrow> scan_world \<Rightarrow> catalog_ui \<Rightarrow> game_entry option list \<Rightarrow> string option \<Rightarrow> string option \<Rightarrow>
     catalog_ui \<times> game_entry option list \<times> int" where
  "catalog_append_cached_source env qg qt w ui cached root pref =
    (case resolved_roots w root pref of
       None \<Rightarrow> (ui, cached, - 1)
     | Some (a, b) \<Rightarrow> (case cached_loop w \<lparr>src_root = a, preferred_root = Some b\<rparr> cached (catalog ui) of
         (c, rest, r) \<Rightarrow> (catalog_sort_and_filter env qg qt (ui\<lparr>catalog := c\<rparr>), rest, r)))"

text \<open>\<open>mountinfo\<close> is the text of \<^verbatim>\<open>/proc/self/mountinfo\<close> if it can be opened; its fifth field is the mount point.\<close>

function mount_listed :: "string \<Rightarrow> string \<Rightarrow> bool" where
  "mount_listed mount s = (case getline s of
       None \<Rightarrow> False
     | Some (l, r) \<Rightarrow> (case drop 4 (tokens (cstr l)) of f # fs \<Rightarrow> f = mount | [] \<Rightarrow> False) \<or> mount_listed mount r)"
  by pat_completeness auto
termination by (relation "measure (\<lambda>(mount, s). length s)") (auto dest: getline_shorter)

declare mount_listed.simps [simp del]

definition plain_directory :: "scan_world \<Rightarrow> string \<Rightarrow> bool" where
  "plain_directory w p = (case lstat_of w p of None \<Rightarrow> False | Some st \<Rightarrow> fs_kind st = Directory)"

definition catalog_optional_source_available :: "scan_world \<Rightarrow> string option \<Rightarrow> string option \<Rightarrow> string option \<Rightarrow> bool" where
  "catalog_optional_source_available w mountinfo mount root =
    (case (mount, root) of
       (Some m, Some r) \<Rightarrow>
         if take 1 m \<noteq> ''/'' \<or> take 1 r \<noteq> ''/'' then False
         else let n = strip_slashes m in
           if length r \<le> n \<or> take n m \<noteq> take n r \<or> take 1 (drop n r) \<noteq> ''/'' \<or> \<not> plain_directory w m \<or> \<not> plain_directory w r then False
           else (case mountinfo of None \<Rightarrow> False | Some t \<Rightarrow> mount_listed (take n m) t)
     | _ \<Rightarrow> False)"

definition catalog_scan_platform ::
    "os_env \<Rightarrow> game_entry qsort \<Rightarrow> string qsort \<Rightarrow> cover_index_item qsort \<Rightarrow> scan_world \<Rightarrow> platform_routes \<Rightarrow> catalog_ui \<Rightarrow> string \<Rightarrow> string \<Rightarrow> nat \<Rightarrow> u32 \<Rightarrow>
     catalog_ui \<times> u64 \<times> int" where
  "catalog_scan_platform env qg qt qc w routes ui platform_path s limit max_ms =
    (case scan_system w routes qc \<lparr>src_root = platform_path, preferred_root = None\<rparr> platform_path s (catalog ui, new_budget w limit max_ms) of
       ((c, b, n), r) \<Rightarrow>
         let u = ui\<lparr>catalog := c\<rparr> in
         if r < 0 then (u, n, - 1) else (catalog_sort_and_filter env qg qt u, n, r))"

section \<open>The cover of a game\<close>

definition cover_key :: "cover_index_item \<Rightarrow> nat list \<times> int" where
  "cover_key c = (map byte (stem c), preference c)"

lemma compare_cover_key: "(compare_cover a b < 0 \<longleftrightarrow> cover_key a < cover_key b) \<and> (compare_cover a b = 0 \<longleftrightarrow> cover_key a = cover_key b)"
  using strcmp_lex [of "stem a" "stem b"] by (auto simp: compare_cover_def cover_key_def Let_def less_prod_def')

lemma cover_search_bounds:
  "left \<le> right \<Longrightarrow> right \<le> length covers \<Longrightarrow> sorted (map (\<lambda>c. map byte (stem c)) covers) \<Longrightarrow>
   (\<forall>i < left. strcmp (stem (covers ! i)) s < 0) \<Longrightarrow> (\<forall>i. right \<le> i \<and> i < length covers \<longrightarrow> \<not> strcmp (stem (covers ! i)) s < 0) \<Longrightarrow>
   (let k = cover_search covers s left right in k \<le> length covers \<and> (\<forall>i < k. strcmp (stem (covers ! i)) s < 0) \<and>
     (\<forall>i. k \<le> i \<and> i < length covers \<longrightarrow> \<not> strcmp (stem (covers ! i)) s < 0))"
proof (induction covers s left right rule: cover_search.induct)
  case (1 covers s left right)
  show ?case
  proof (cases "left < right")
    case True
    let ?m = "left + (right - left) div 2"
    have m: "left \<le> ?m" "?m < right" using True by auto
    have mono: "map byte (stem (covers ! i)) \<le> map byte (stem (covers ! k))" if "i \<le> k" "k < length covers" for i k
      using sorted_nth_mono [OF "1.prems"(3), of i k] that by simp
    have lt: "strcmp a b < 0 \<longleftrightarrow> map byte a < map byte b" for a b using strcmp_lex [of a b] by simp
    show ?thesis
    proof (cases "strcmp (stem (covers ! ?m)) s < 0")
      case before: True
      then have "\<forall>i < ?m + 1. strcmp (stem (covers ! i)) s < 0" using mono [of _ ?m] m "1.prems"(2) by (auto simp: lt less_Suc_eq_le intro: le_less_trans)
      then show ?thesis using "1.IH"(1) [OF True refl before] m "1.prems" before True by (simp add: cover_search.simps [of covers s left right])
    next
      case after: False
      then have "\<forall>i. ?m \<le> i \<and> i < length covers \<longrightarrow> \<not> strcmp (stem (covers ! i)) s < 0" using mono [of ?m] by (force simp: lt)
      then show ?thesis using "1.IH"(2) [OF True refl after] m "1.prems" after True by (simp add: cover_search.simps [of covers s left right])
    qed
  next
    case False
    then have "cover_search covers s left right = left" by (simp add: cover_search.simps [of covers s left right])
    then show ?thesis using "1.prems" False by (simp add: Let_def)
  qed
qed

text \<open>
  A game gets its best cover. In the index sorted by \<^verbatim>\<open>qsort\<close>, for any allowed
  behaviour of \<^verbatim>\<open>qsort\<close> on equal items, the binary search finds a cover exactly if
  there is one for the stem, and then one whose kind is preferred to none of the
  others for that stem.
\<close>

theorem cover_index_find_best:
  assumes "qsort_ok qc"
  shows "case cover_index_find (qc compare_cover covers) s of
      None \<Rightarrow> s \<notin> stem ` set covers
    | Some p \<Rightarrow> \<exists>c \<in> set covers. stem c = s \<and> item_path c = p \<and> (\<forall>d \<in> set covers. stem d = s \<longrightarrow> preference c \<le> preference d)"
proof -
  let ?cs = "qc compare_cover covers"
  note q = qsort_sign [OF assms, of compare_cover cover_key covers, OF compare_cover_key]
  have set: "set ?cs = set covers" using q(1) mset_eq_setD by blast
  have "sorted (map fst (map cover_key ?cs))" using q(2) by (fastforce simp: sorted_iff_nth_mono less_eq_prod_def)
  then have "sorted (map (\<lambda>c. map byte (stem c)) ?cs)" by (simp add: cover_key_def comp_def)
  then obtain k where k: "k = cover_search ?cs s 0 (length ?cs)" "k \<le> length ?cs" "\<forall>i < k. strcmp (stem (?cs ! i)) s < 0"
      "\<forall>i. k \<le> i \<and> i < length ?cs \<longrightarrow> \<not> strcmp (stem (?cs ! i)) s < 0"
    using cover_search_bounds [of 0 "length ?cs" ?cs s] by (auto simp: Let_def)
  have at: "k \<le> i" if "i < length ?cs" "stem (?cs ! i) = s" for i
    using k(3) that by (metis linorder_not_less strcmp_0 less_irrefl)
  show ?thesis
  proof (cases "k < length ?cs \<and> stem (?cs ! k) = s")
    case True
    have "preference (?cs ! k) \<le> preference (?cs ! i)" if "i < length ?cs" "stem (?cs ! i) = s" for i
      using sorted_nth_mono [OF q(2), of k i] at [OF that] that True by (auto simp: cover_key_def less_eq_prod_def)
    then have "\<exists>c \<in> set ?cs. stem c = s \<and> item_path c = item_path (?cs ! k) \<and> (\<forall>d \<in> set ?cs. stem d = s \<longrightarrow> preference c \<le> preference d)"
      using True by (intro bexI [of _ "?cs ! k"]) (auto simp: in_set_conv_nth)
    then show ?thesis using True by (simp add: cover_index_find_def k(1) [symmetric] set Let_def)
  next
    case False
    have "stem (?cs ! i) \<noteq> s" if "i < length ?cs" for i
    proof
      assume e: "stem (?cs ! i) = s"
      have n: "k < length ?cs" using at [OF that e] that by simp
      have le: "map byte (stem (?cs ! k)) \<le> map byte s"
        using sorted_nth_mono [OF \<open>sorted (map (\<lambda>c. map byte (stem c)) ?cs)\<close> at [OF that e]] that e n by simp
      have "\<not> map byte (stem (?cs ! k)) < map byte s" using n k(4) [rule_format, of k] strcmp_lex [of "stem (?cs ! k)" s] by auto
      then show False using n le False strcmp_lex [of "stem (?cs ! k)" s] by auto
    qed
    then have "s \<notin> stem ` set ?cs" by (metis imageE in_set_conv_nth)
    then show ?thesis using False by (auto simp: cover_index_find_def k(1) [symmetric] set Let_def)
  qed
qed

section \<open>What a scan finds\<close>

text \<open>The reference: every file of the tree that is a game, in the order of the directories, without a budget.\<close>

function found :: "scan_world \<Rightarrow> string \<Rightarrow> nat \<Rightarrow> string \<Rightarrow> string list \<Rightarrow> (string \<times> string \<times> int) list" where
  "found w s depth directory [] = []"
| "found w s depth directory (name # names) =
    (if hidden_entry name then []
     else (case scan_entry w s depth directory name of
         Ignore \<Rightarrow> []
       | Add p k changed \<Rightarrow> [(p, name, changed)]
       | Descend p \<Rightarrow> if 8 \<le> depth then [] else (case list_names w p of None \<Rightarrow> [] | Some inner \<Rightarrow> found w s (Suc depth) p inner))) @
    found w s depth directory names"
  by pat_completeness auto
termination
  by (relation "measures [\<lambda>(w, s, depth, directory, names). 8 - depth, \<lambda>(w, s, depth, directory, names). length names]") auto

declare found.simps [simp del]

lemmas found_simps = found.simps(1) found.simps(2)

text \<open>The entries made of them, in a catalogue that has its own name for the system.\<close>

definition job_game :: "scan_job \<Rightarrow> catalog_state \<Rightarrow> string \<times> string \<times> int \<Rightarrow> game_entry" where
  "job_game j c f = (case f of (p, name, changed) \<Rightarrow>
     new_game (jb_world j) (jb_routes j) (jb_covers j) (catalog_system_name c (jb_system j)) p name (jb_system_dir j) changed)"

definition with_added :: "catalog_state \<Rightarrow> game_entry list \<Rightarrow> catalog_state" where
  "with_added c gs = c\<lparr>systems := foldl add_unique (systems c) (map system gs), cores := foldl add_unique (cores c) (map core gs), games := games c @ gs\<rparr>"

lemma with_added_append: "with_added (with_added c gs) hs = with_added c (gs @ hs)"
  by (simp add: with_added_def)

lemma with_added_Nil [simp]: "with_added c [] = c"
  by (simp add: with_added_def)

lemma games_with_added [simp]: "games (with_added c gs) = games c @ gs"
  by (simp add: with_added_def)

lemma grow_unique_add: "grow_unique ok vs v = Some ws \<Longrightarrow> ws = add_unique vs v"
  by (auto simp: grow_unique_def add_unique_def split: if_splits)

lemma system_new_game [simp]: "system (new_game w routes covers n p name d changed) = n"
  by (simp add: new_game_def Let_def)

lemma add_game_with:
  "add_game w routes covers c p name d s changed = (c', 0) \<Longrightarrow>
   c' = with_added c [new_game w routes covers (catalog_system_name c s) p name d changed]"
  by (auto simp: add_game_def Let_def with_added_def dest: grow_unique_add split: if_splits option.splits)

lemma add_game_fails:
  "add_game w routes covers c p name d s changed = (c', r) \<Longrightarrow> r \<noteq> 0 \<Longrightarrow> r = - 1 \<and> games c' = games c"
  by (auto simp: add_game_def Let_def split: if_splits option.splits)

lemma find_append: "find P (xs @ ys) = (case find P xs of None \<Rightarrow> find P ys | Some x \<Rightarrow> Some x)"
  by (induction xs) simp_all

lemma system_name_stable: "system g = catalog_system_name c s \<Longrightarrow> catalog_system_name (with_added c [g]) s = catalog_system_name c s"
  by (auto simp: catalog_system_name_def with_added_def add_unique_def find_append strcasecmp_eq_def split: option.splits)

lemma system_name_games:
  "list_all (\<lambda>g. system g = catalog_system_name c s) gs \<Longrightarrow> catalog_system_name (with_added c gs) s = catalog_system_name c s"
proof (induction gs arbitrary: c)
  case (Cons g gs)
  then have "catalog_system_name (with_added c [g]) s = catalog_system_name c s" by (intro system_name_stable) simp
  then show ?case using Cons.IH [of "with_added c [g]"] Cons.prems by (simp add: with_added_append)
qed simp

lemma job_game_system: "list_all (\<lambda>g. system g = catalog_system_name c (jb_system j)) (map (job_game j c) fs)"
  by (auto simp: list_all_iff job_game_def)

lemma job_game_stable: "job_game j (with_added c (map (job_game j c) fs)) = job_game j c"
  using system_name_games [OF job_game_system] by (simp add: job_game_def fun_eq_iff)

text \<open>From \<open>c\<close> the found files are added one after another up to \<open>c'\<close>, all of them if the result is 0.\<close>

definition scan_adds :: "scan_job \<Rightarrow> catalog_state \<Rightarrow> (string \<times> string \<times> int) list \<Rightarrow> catalog_state \<Rightarrow> int \<Rightarrow> bool" where
  "scan_adds j c files c' r \<longleftrightarrow> (\<exists>fs rest. files = fs @ rest \<and> games c' = games c @ map (job_game j c) fs \<and>
     (r \<noteq> - 1 \<longrightarrow> c' = with_added c (map (job_game j c) fs)) \<and> (r = 0 \<longrightarrow> rest = [])) \<and> r \<in> {0, 1, - 1}"

lemma scan_adds_done: "scan_adds j c files c' 0 \<longleftrightarrow> c' = with_added c (map (job_game j c) files)"
  by (auto simp: scan_adds_def with_added_def)

lemma scan_adds_stop: "r \<in> {1, - 1} \<Longrightarrow> games c' = games c \<Longrightarrow> (r = 1 \<Longrightarrow> c' = c) \<Longrightarrow> scan_adds j c files c' r"
  by (auto simp: scan_adds_def intro!: exI [of _ "[]"])

lemma scan_adds_then: "scan_adds j c xs c1 0 \<Longrightarrow> scan_adds j c1 ys c2 r \<Longrightarrow> scan_adds j c (xs @ ys) c2 r"
proof -
  assume a: "scan_adds j c xs c1 0" and b: "scan_adds j c1 ys c2 r"
  have c1: "c1 = with_added c (map (job_game j c) xs)" using a by (simp add: scan_adds_done)
  have g: "job_game j c1 = job_game j c" unfolding c1 by (rule job_game_stable)
  obtain fs rest where f: "ys = fs @ rest" "games c2 = games c1 @ map (job_game j c) fs" "r \<noteq> - 1 \<longrightarrow> c2 = with_added c1 (map (job_game j c) fs)"
      "r = 0 \<longrightarrow> rest = []" "r \<in> {0, 1, - 1}" using b by (auto simp: scan_adds_def g)
  have "xs @ ys = (xs @ fs) @ rest" "games c2 = games c @ map (job_game j c) (xs @ fs)" "r \<noteq> - 1 \<longrightarrow> c2 = with_added c (map (job_game j c) (xs @ fs))"
    using f c1 by (auto simp: with_added_append)
  then show ?thesis unfolding scan_adds_def using f(4,5) by blast
qed

lemma scan_adds_more: "scan_adds j c xs c' r \<Longrightarrow> r \<noteq> 0 \<Longrightarrow> scan_adds j c (xs @ ys) c' r"
  unfolding scan_adds_def by (metis append_assoc)

lemma scan_adds_next:
  "scan_adds j c xs c1 r1 \<Longrightarrow> (r1 = 0 \<Longrightarrow> scan_adds j c1 ys c2 r) \<Longrightarrow> (r1 \<noteq> 0 \<Longrightarrow> c2 = c1 \<and> r = r1) \<Longrightarrow> scan_adds j c (xs @ ys) c2 r"
  using scan_adds_then scan_adds_more by (cases "r1 = 0") auto

lemma scan_adds_one:
  assumes "add_game (jb_world j) (jb_routes j) (jb_covers j) c p name (jb_system_dir j) (jb_system j) changed = (c', r)"
  shows "scan_adds j c [(p, name, changed)] c' r"
proof (cases "r = 0")
  case True
  then show ?thesis using add_game_with [OF assms [unfolded True]] by (simp add: scan_adds_done job_game_def)
next
  case False
  then show ?thesis using add_game_fails [OF assms] by (intro scan_adds_stop) auto
qed

text \<open>A single source never skips a game.\<close>

lemma preferred_none: "preferred_root source = None \<Longrightarrow> \<not> preferred_source_has_game w c source p k"
  by (simp add: preferred_source_has_game_def)

lemma scan_names_found:
  "preferred_root (jb_source j) = None \<Longrightarrow> scan_names j depth directory names st = (st', r) \<Longrightarrow>
   scan_adds j (sc_catalog st) (found (jb_world j) (jb_system j) depth directory names) (sc_catalog st') r"
proof (induction j depth directory names st arbitrary: st' r rule: scan_names.induct)
  case (1 j depth directory st)
  then show ?case by (simp add: scan_names.simps found_simps scan_adds_done)
next
  case (2 j depth directory name names st)
  note one = "2.prems"(1)
  let ?w = "jb_world j" and ?f = "found (jb_world j) (jb_system j)"
  define st1 where "st1 = (if depth = 0 then st\<lparr>direct_entries := direct_entries st + 1\<rparr> else st)"
  obtain b expired where e: "scan_budget_expired ?w (sc_budget st1) = (b, expired)" by fastforce
  define st2 where "st2 = st1\<lparr>sc_budget := b\<rparr>"
  have c2 [simp]: "sc_catalog st2 = sc_catalog st" by (simp add: st2_def st1_def)
  note step = "2.prems"(2) [unfolded scan_names.simps(2), folded st1_def, unfolded Let_def e prod.case, folded st2_def]
  note IH = "2.IH"(2-) [OF _ st1_def e [symmetric] st2_def]
  consider "hidden_entry name" | "\<not> hidden_entry name" expired | "\<not> hidden_entry name" "\<not> expired" by blast
  then show ?case
  proof cases
    case 1
    then show ?thesis using "2.IH"(1) [OF 1 one] "2.prems"(2) by (simp add: scan_names.simps(2) found_simps(2))
  next
    case 2
    then have "st' = st2" "r = 1" using step by auto
    then show ?thesis by (intro scan_adds_stop) simp_all
  next
    case v: 3
    show ?thesis
    proof (cases "scan_entry ?w (jb_system j) depth directory name")
      case Ignore
      then show ?thesis using IH(1) [OF v Ignore one] step v by (simp add: found_simps(2))
    next
      case (Add p k changed)
      note not_there = preferred_none [OF one, of ?w "sc_catalog st2" p k]
      obtain c r1 where g: "add_game ?w (jb_routes j) (jb_covers j) (sc_catalog st2) p name (jb_system_dir j) (jb_system j) changed = (c, r1)" by fastforce
      have "scan_adds j (sc_catalog st) ([(p, name, changed)] @ ?f depth directory names) (sc_catalog st') r"
        by (rule scan_adds_next [OF scan_adds_one [OF g, unfolded c2]])
          (use IH(3) [OF v Add not_there g [symmetric] _ one] step v Add not_there g in auto)
      then show ?thesis using Add v by (simp add: found_simps(2))
    next
      case (Descend p)
      have d: "\<not> 8 \<le> depth" using scan_entry_descend [OF Descend] by simp
      show ?thesis
      proof (cases "list_names ?w p")
        case None
        then show ?thesis using IH(4) [OF v Descend d None one] step v Descend d by (simp add: found_simps(2))
      next
        case (Some inner)
        obtain st3 r1 where i: "scan_names j (Suc depth) p inner st2 = (st3, r1)" by fastforce
        have "scan_adds j (sc_catalog st) (?f (Suc depth) p inner @ ?f depth directory names) (sc_catalog st') r"
          by (rule scan_adds_next [OF IH(5) [OF v Descend d Some one i, unfolded c2]])
            (use IH(6) [OF v Descend d Some i [symmetric] _ one] step v Descend d Some i in auto)
        then show ?thesis using Descend d v Some by (simp add: found_simps(2))
      qed
    qed
  qed
qed

text \<open>The same without recursion: which directories a scan enters, and which files are games there.\<close>

inductive scanned_directory :: "scan_world \<Rightarrow> string \<Rightarrow> string \<Rightarrow> nat \<Rightarrow> string \<Rightarrow> bool" for w s root where
  scanned_root: "scanned_directory w s root 0 root"
| scanned_below: "scanned_directory w s root depth directory \<Longrightarrow> list_names w directory = Some names \<Longrightarrow> name \<in> set names \<Longrightarrow> \<not> hidden_entry name \<Longrightarrow>
    scan_entry w s depth directory name = Descend p \<Longrightarrow> scanned_directory w s root (Suc depth) p"

definition is_game_file :: "scan_world \<Rightarrow> string \<Rightarrow> string \<Rightarrow> string \<times> string \<times> int \<Rightarrow> bool" where
  "is_game_file w s root f \<longleftrightarrow> (case f of (p, name, changed) \<Rightarrow>
     \<exists>depth directory names k. scanned_directory w s root depth directory \<and> list_names w directory = Some names \<and> name \<in> set names \<and> \<not> hidden_entry name \<and>
       scan_entry w s depth directory name = Add p k changed)"

lemma found_cases:
  "f \<in> set (found w s depth directory (name # names)) \<Longrightarrow> f \<in> set (found w s depth directory names) \<or> \<not> hidden_entry name \<and>
    ((\<exists>p k changed. scan_entry w s depth directory name = Add p k changed \<and> f = (p, name, changed)) \<or>
     (\<exists>p inner. scan_entry w s depth directory name = Descend p \<and> \<not> 8 \<le> depth \<and> list_names w p = Some inner \<and> f \<in> set (found w s (Suc depth) p inner)))"
  by (cases "hidden_entry name"; cases "scan_entry w s depth directory name") (auto simp: found_simps(2) split: option.splits if_splits)

lemma found_sound:
  "f \<in> set (found w s depth directory names) \<Longrightarrow> scanned_directory w s root depth directory \<Longrightarrow> list_names w directory = Some all \<Longrightarrow> set names \<subseteq> set all \<Longrightarrow>
   is_game_file w s root f"
proof (induction w s depth directory names arbitrary: all rule: found.induct)
  case (2 w s depth directory name names)
  consider "f \<in> set (found w s depth directory names)"
    | p k changed where "\<not> hidden_entry name" "scan_entry w s depth directory name = Add p k changed" "f = (p, name, changed)"
    | p inner where "\<not> hidden_entry name" "scan_entry w s depth directory name = Descend p" "\<not> 8 \<le> depth" "list_names w p = Some inner" "f \<in> set (found w s (Suc depth) p inner)"
    using found_cases [OF "2.prems"(1)] by blast
  then show ?case
  proof cases
    case 1
    then show ?thesis using "2.IH"(2) "2.prems" by auto
  next
    case 2
    then show ?thesis using "2.prems"(2-4) by (auto simp: is_game_file_def)
  next
    case 3
    have "scanned_directory w s root (Suc depth) p" using scanned_below [OF "2.prems"(2,3) _ 3(1,2)] "2.prems"(4) by simp
    then show ?thesis using "2.IH"(1) [OF 3(1,2,3,4,5) _ 3(4)] by simp
  qed
qed (simp add: found_simps)

lemma found_here:
  assumes "name \<in> set names" "\<not> hidden_entry name"
  shows "scan_entry w s depth directory name = Add p k changed \<Longrightarrow> (p, name, changed) \<in> set (found w s depth directory names)"
    and "scan_entry w s depth directory name = Descend p \<Longrightarrow> list_names w p = Some inner \<Longrightarrow> set (found w s (Suc depth) p inner) \<subseteq> set (found w s depth directory names)"
  using assms scan_entry_descend [of w s depth directory name p]
  by (induction names) (auto simp: found_simps(2))

lemma found_below:
  "scanned_directory w s root depth directory \<Longrightarrow> list_names w root = Some all \<Longrightarrow> list_names w directory = Some names \<Longrightarrow>
   set (found w s depth directory names) \<subseteq> set (found w s 0 root all)"
proof (induction arbitrary: names rule: scanned_directory.induct)
  case (scanned_below depth directory inner name p)
  have "set (found w s (Suc depth) p names) \<subseteq> set (found w s depth directory inner)"
    by (rule found_here(2) [OF scanned_below.hyps(3,4,5) scanned_below.prems(2)])
  also have "\<dots> \<subseteq> set (found w s 0 root all)" by (rule scanned_below.IH [OF scanned_below.prems(1) scanned_below.hyps(2)])
  finally show ?case .
qed simp

lemma found_exact: "list_names w root = Some all \<Longrightarrow> f \<in> set (found w s 0 root all) \<longleftrightarrow> is_game_file w s root f"
proof
  assume l: "list_names w root = Some all"
  show "f \<in> set (found w s 0 root all) \<Longrightarrow> is_game_file w s root f" using found_sound [OF _ scanned_root l] by simp
  assume "is_game_file w s root f"
  then obtain depth directory names k p name changed where d: "f = (p, name, changed)" "scanned_directory w s root depth directory" "list_names w directory = Some names"
      "name \<in> set names" "\<not> hidden_entry name" "scan_entry w s depth directory name = Add p k changed" by (auto simp: is_game_file_def)
  then show "f \<in> set (found w s 0 root all)" using found_here(1) [OF d(4,5,6)] found_below [OF d(2) l d(3)] by auto
qed

definition platform_files :: "scan_world \<Rightarrow> string \<Rightarrow> string \<Rightarrow> (string \<times> string \<times> int) list" where
  "platform_files w s root = (case list_names w root of None \<Rightarrow> [] | Some names \<Rightarrow> found w s 0 root names)"

lemma unreadable_root: "list_names w root = None \<Longrightarrow> scanned_directory w s root depth directory \<Longrightarrow> directory = root"
  by (rotate_tac 1, induction rule: scanned_directory.induct) auto

lemma platform_files_exact: "f \<in> set (platform_files w s root) \<longleftrightarrow> is_game_file w s root f"
proof (cases "list_names w root")
  case None
  then show ?thesis using unreadable_root [OF None] by (fastforce simp: platform_files_def is_game_file_def)
next
  case (Some all)
  then show ?thesis using found_exact [OF Some] by (simp add: platform_files_def)
qed

section \<open>Scanning a platform\<close>

lemma scan_system_adds:
  assumes "scan_system w routes qc source root s (c, b) = ((c', b', n), r)" "preferred_root source = None"
  shows "\<exists>j. jb_world j = w \<and> jb_routes j = routes \<and> jb_system j = s \<and> jb_system_dir j = root \<and> r \<in> {0, 1, - 1} \<and>
    scan_adds j c (platform_files w s root) c' r"
proof -
  obtain covers b1 r1 where cb: "cover_index_build w qc root b = (covers, b1, r1)" by (rule prod_cases3)
  define j where "j = \<lparr>jb_world = w, jb_routes = routes, jb_covers = covers, jb_system_dir = root, jb_system = s, jb_source = source\<rparr>"
  have j: "jb_world j = w" "jb_routes j = routes" "jb_system j = s" "jb_system_dir j = root" "jb_source j = source" by (simp_all add: j_def)
  have r1: "r1 \<in> {0, 1, - 1}"
  proof -
    have "snd (snd (cover_loop w d ns cs x)) \<in> {0, 1, - 1}" for d ns cs x
      by (induction ns arbitrary: cs x) (auto split: prod.splits)
    then show ?thesis using cb by (auto simp: cover_index_build_def Let_def split: if_splits option.splits prod.splits) (metis insert_iff snd_conv)
  qed
  show ?thesis
  proof (cases "r1 = 0")
    case False
    then have "c' = c" "r = r1" using assms(1) cb by (auto simp: scan_system_def)
    then have "scan_adds j c (platform_files w s root) c' r"
      using r1 False by (intro scan_adds_stop) auto
    then show ?thesis using j r1 \<open>r = r1\<close> by (intro exI [of _ j]) simp
  next
    case True
    let ?st = "\<lparr>sc_catalog = c, sc_budget = b1, direct_entries = 0\<rparr>"
    obtain st where st: "scan_directory j root ?st = (st, r)" "c' = sc_catalog st"
      using assms(1) cb True by (auto simp: scan_system_def j_def split: prod.splits)
    have "scan_adds j c (platform_files w s root) c' r"
    proof (cases "list_names w root")
      case None
      then show ?thesis using st by (auto simp: scan_directory_def platform_files_def j scan_adds_done)
    next
      case (Some names)
      then show ?thesis using st scan_names_found [of j 0 root names ?st st r] assms(2) by (simp add: scan_directory_def platform_files_def j)
    qed
    then show ?thesis using j by (intro exI [of _ j]) (auto simp: scan_adds_def)
  qed
qed

lemma sorted_games:
  assumes "qsort_ok qg"
  shows "mset (games (catalog (catalog_sort_and_filter env qg qt ui))) = mset (games (catalog ui))"
    "sorted (map game_key (games (catalog (catalog_sort_and_filter env qg qt ui))))"
proof -
  note q = qsort_key [OF assms, of compare_game game_key "games (catalog ui)", OF compare_game_key]
  have "games (catalog (catalog_sort_and_filter env qg qt ui)) = qg compare_game (games (catalog ui))"
    by (simp add: catalog_sort_and_filter_def apply_filters_games sort_catalog_def)
  then show "mset (games (catalog (catalog_sort_and_filter env qg qt ui))) = mset (games (catalog ui))"
    "sorted (map game_key (games (catalog (catalog_sort_and_filter env qg qt ui))))" using q by simp_all
qed

text \<open>
  A finished scan of a platform finds exactly its games. If the scan is not
  cut short, the catalogue has, beside the games it had, entries for every game
  file in the tree of the platform (up to eight directories deep, without hidden
  names and the directory of covers) and no others; if the budget runs out, it
  has entries for some of them. In both cases the catalogue is sorted by system
  and title.
\<close>

theorem scan_platform_exact:
  assumes "catalog_scan_platform env qg qt qc w routes ui root s limit max_ms = (u, n, r)" "0 \<le> r" "qsort_ok qg"
  shows "\<exists>j fs. jb_world j = w \<and> jb_routes j = routes \<and> jb_system j = s \<and> jb_system_dir j = root \<and>
    mset (games (catalog u)) = mset (games (catalog ui)) + mset (map (job_game j (catalog ui)) fs) \<and> (\<forall>f \<in> set fs. is_game_file w s root f) \<and>
    (r = 0 \<longrightarrow> (\<forall>f. is_game_file w s root f \<longrightarrow> f \<in> set fs)) \<and> (r = 0 \<or> r = 1) \<and> sorted (map game_key (games (catalog u)))"
proof -
  obtain c' b' r1 where ss: "scan_system w routes qc \<lparr>src_root = root, preferred_root = None\<rparr> root s (catalog ui, new_budget w limit max_ms) = ((c', b', n), r1)"
      and r: "r1 = r" "u = catalog_sort_and_filter env qg qt (ui\<lparr>catalog := c'\<rparr>)"
    using assms(1,2) by (auto simp: catalog_scan_platform_def Let_def split: prod.splits if_splits)
  obtain j where j: "jb_world j = w" "jb_routes j = routes" "jb_system j = s" "jb_system_dir j = root" "r \<in> {0, 1, - 1}" "scan_adds j (catalog ui) (platform_files w s root) c' r"
    using scan_system_adds [OF ss] r(1) by auto
  obtain fs rest where f: "platform_files w s root = fs @ rest" "games c' = games (catalog ui) @ map (job_game j (catalog ui)) fs" "r = 0 \<longrightarrow> rest = []"
    using j(6) by (auto simp: scan_adds_def)
  have exact: "f \<in> set fs \<union> set rest \<longleftrightarrow> is_game_file w s root f" for f using platform_files_exact [of f w s root] f(1) by simp
  have "mset (games (catalog u)) = mset (games (catalog ui)) + mset (map (job_game j (catalog ui)) fs)" "sorted (map game_key (games (catalog u)))"
    using sorted_games [OF assms(3), of env qt "ui\<lparr>catalog := c'\<rparr>"] f(2) unfolding r(2) by simp_all
  then show ?thesis using j exact f(3) assms(2) by (intro exI [of _ j] exI [of _ fs]) auto
qed

section \<open>A second source\<close>

text \<open>
  A game that may be added from the second source while the games \<open>known\<close> are
  there: it is made of a file that has no counterpart among them and none on disk
  below the preferred root.
\<close>

definition without_counterpart :: "scan_world \<Rightarrow> scan_source \<Rightarrow> game_entry list \<Rightarrow> game_entry \<Rightarrow> bool" where
  "without_counterpart w source known g \<longleftrightarrow> (\<exists>p. path g = (case real_path w p of None \<Rightarrow> p | Some q \<Rightarrow> q) \<and>
     (\<forall>pref relative. preferred_root source = Some pref \<longrightarrow> relative_to_root (src_root source) p = Some relative \<longrightarrow>
       (\<forall>h \<in> set known. \<forall>r. relative_to_root pref (path h) = Some r \<longrightarrow> \<not> strcasecmp_eq r relative)))"

lemma no_counterpart:
  assumes "\<not> preferred_source_has_game w c source p k" "set known \<subseteq> set (games c)"
  shows "without_counterpart w source known (new_game w routes covers n p name d changed)"
  unfolding without_counterpart_def
proof (rule exI [of _ p], intro conjI allI impI ballI)
  show "path (new_game w routes covers n p name d changed) = (case real_path w p of None \<Rightarrow> p | Some q \<Rightarrow> q)" by (simp add: new_game_def Let_def)
  fix pref relative h r
  assume "preferred_root source = Some pref" "relative_to_root (src_root source) p = Some relative" "h \<in> set known" "relative_to_root pref (path h) = Some r"
  moreover from this have "strcasecmp_eq r relative \<Longrightarrow> list_ex (\<lambda>g. case relative_to_root pref (path g) of None \<Rightarrow> False | Some r \<Rightarrow> strcasecmp_eq r relative) (games c)"
    using assms(2) by (auto simp: list_ex_iff intro!: bexI [of _ h])
  ultimately show "\<not> strcasecmp_eq r relative" using assms(1) by (auto simp: preferred_source_has_game_def)
qed

definition grows :: "scan_world \<Rightarrow> scan_source \<Rightarrow> game_entry list \<Rightarrow> catalog_state \<Rightarrow> catalog_state \<Rightarrow> bool" where
  "grows w source known c c' \<longleftrightarrow> (\<exists>gs. games c' = games c @ gs \<and> list_all (without_counterpart w source known) gs)"

lemma grows_refl [simp]: "grows w source known c c"
  by (simp add: grows_def)

lemma grows_trans [trans]: "grows w source known a b \<Longrightarrow> grows w source known b c \<Longrightarrow> grows w source known a c"
  by (auto simp: grows_def)

lemma grows_known: "grows w source known c c' \<Longrightarrow> set known \<subseteq> set (games c) \<Longrightarrow> set known \<subseteq> set (games c')"
  by (auto simp: grows_def)

lemma add_game_grows:
  assumes "add_game w routes covers c p name d s changed = (c', r)" "\<not> preferred_source_has_game w c source p k" "set known \<subseteq> set (games c)"
  shows "grows w source known c c'"
proof (cases "r = 0")
  case True
  then show ?thesis using add_game_with [OF assms(1) [unfolded True]] no_counterpart [OF assms(2,3)] by (simp add: grows_def)
next
  case False
  then show ?thesis using add_game_fails [OF assms(1)] by (simp add: grows_def)
qed

lemma scan_names_grows:
  "scan_names j depth directory names st = (st', r) \<Longrightarrow> set known \<subseteq> set (games (sc_catalog st)) \<Longrightarrow>
   grows (jb_world j) (jb_source j) known (sc_catalog st) (sc_catalog st')"
proof (induction j depth directory names st arbitrary: st' r rule: scan_names.induct)
  case (1 j depth directory st)
  then show ?case by (simp add: scan_names.simps)
next
  case (2 j depth directory name names st)
  let ?w = "jb_world j"
  let ?grows = "grows ?w (jb_source j) known"
  define st1 where "st1 = (if depth = 0 then st\<lparr>direct_entries := direct_entries st + 1\<rparr> else st)"
  obtain b expired where e: "scan_budget_expired ?w (sc_budget st1) = (b, expired)" by fastforce
  define st2 where "st2 = st1\<lparr>sc_budget := b\<rparr>"
  have c2 [simp]: "sc_catalog st2 = sc_catalog st" by (simp add: st2_def st1_def)
  note step = "2.prems"(1) [unfolded scan_names.simps(2), folded st1_def, unfolded Let_def e prod.case, folded st2_def]
  note IH = "2.IH"(2-) [OF _ st1_def e [symmetric] st2_def]
  consider "hidden_entry name" | "\<not> hidden_entry name" expired | "\<not> hidden_entry name" "\<not> expired" by blast
  then show ?case
  proof cases
    case 1
    then show ?thesis using "2.IH"(1) [OF 1 _ "2.prems"(2)] "2.prems"(1) by (simp add: scan_names.simps(2))
  next
    case 2
    then have "st' = st2" using step by auto
    then show ?thesis by simp
  next
    case v: 3
    note known = "2.prems"(2)
    show ?thesis
    proof (cases "scan_entry ?w (jb_system j) depth directory name")
      case Ignore
      then show ?thesis using IH(1) [OF v Ignore] known step v by simp
    next
      case (Add p k changed)
      show ?thesis
      proof (cases "preferred_source_has_game ?w (sc_catalog st2) (jb_source j) p k")
        case True
        then show ?thesis using IH(2) [OF v Add True] known step v Add by simp
      next
        case False
        obtain c r1 where g: "add_game ?w (jb_routes j) (jb_covers j) (sc_catalog st2) p name (jb_system_dir j) (jb_system j) changed = (c, r1)" by fastforce
        have a: "?grows (sc_catalog st) c" using add_game_grows [OF g False, of known] known by simp
        show ?thesis using IH(3) [OF v Add False g [symmetric]] grows_trans [OF a] grows_known [OF a known] step v Add False g a
          by (auto split: if_splits)
      qed
    next
      case (Descend p)
      have d: "\<not> 8 \<le> depth" using scan_entry_descend [OF Descend] by simp
      show ?thesis
      proof (cases "list_names ?w p")
        case None
        then show ?thesis using IH(4) [OF v Descend d None] known step v Descend d by simp
      next
        case (Some inner)
        obtain st3 r1 where i: "scan_names j (Suc depth) p inner st2 = (st3, r1)" by fastforce
        have a: "?grows (sc_catalog st) (sc_catalog st3)" using IH(5) [OF v Descend d Some i] known by simp
        show ?thesis using IH(6) [OF v Descend d Some i [symmetric]] grows_trans [OF a] grows_known [OF a known] step v Descend d Some i a
          by (auto split: if_splits)
      qed
    qed
  qed
qed

lemma scan_system_grows:
  "scan_system w routes qc source root s (c, b) = ((c', b', n), r) \<Longrightarrow> set known \<subseteq> set (games c) \<Longrightarrow> grows w source known c c'"
  by (auto simp: scan_system_def scan_directory_def split: prod.splits if_splits option.splits dest!: scan_names_grows [where known = known])

lemma root_loop_grows:
  "root_loop w routes qc source names (c, b) = ((c', b'), r) \<Longrightarrow> set known \<subseteq> set (games c) \<Longrightarrow> grows w source known c c'"
proof (induction names arbitrary: c b)
  case (Cons name names)
  obtain b1 expired where e: "scan_budget_expired w b = (b1, expired)" by fastforce
  let ?p = "src_root source @ ''/'' @ name"
  obtain c1 b2 n r1 where s: "scan_system w routes qc source ?p name (c, b1) = ((c1, b2, n), r1)" by (metis prod.collapse)
  have a: "grows w source known c c1" by (rule scan_system_grows [OF s Cons.prems(2)])
  show ?case using Cons.prems Cons.IH Cons.IH [OF _ grows_known [OF a Cons.prems(2)]] grows_trans [OF a] e s a
    by (auto simp: Let_def split: if_splits)
qed simp

text \<open>
  A second source never disturbs the first. Whatever happens during the scan
  of the second root, the catalogue keeps every game it had; a game is added only
  if none of those has the same path relative to its root, up to the case of
  letters.
\<close>

theorem second_source_keeps_first:
  assumes "catalog_append_source_bounded env qg qt qc w routes ui root pref limit max_ms = (u, r)" "qsort_ok qg"
  shows "u = ui \<or> (\<exists>added root' pref'. real_path w (the root) = Some root' \<and> real_path w (the pref) = Some pref' \<and>
    mset (games (catalog u)) = mset (games (catalog ui)) + mset added \<and>
    list_all (without_counterpart w \<lparr>src_root = root', preferred_root = Some pref'\<rparr> (games (catalog ui))) added)"
proof (cases "resolved_roots w root pref")
  case None
  then show ?thesis using assms(1) by (simp add: catalog_append_source_bounded_def)
next
  case (Some ab)
  obtain a b where ab: "resolved_roots w root pref = Some (a, b)" using Some by (cases ab) simp
  let ?source = "\<lparr>src_root = a, preferred_root = Some b\<rparr>"
  have roots: "real_path w (the root) = Some a" "real_path w (the pref) = Some b"
    using ab by (auto simp: resolved_roots_def split: option.splits if_splits)
  obtain c bg where s: "scan_root w routes qc ?source (catalog ui, new_budget w limit max_ms) = ((c, bg), r)" "u = catalog_sort_and_filter env qg qt (ui\<lparr>catalog := c\<rparr>)"
    using assms(1) ab by (auto simp: catalog_append_source_bounded_def split: prod.splits)
  have "grows w ?source (games (catalog ui)) (catalog ui) c"
    using s(1) by (auto simp: scan_root_def split: option.splits dest!: root_loop_grows [where known = "games (catalog ui)"])
  then obtain gs where g: "games c = games (catalog ui) @ gs" "list_all (without_counterpart w ?source (games (catalog ui))) gs" by (auto simp: grows_def)
  have "mset (games (catalog u)) = mset (games (catalog ui)) + mset gs"
    using sorted_games(1) [OF assms(2), of env qt "ui\<lparr>catalog := c\<rparr>"] s(2) g(1) by simp
  then show ?thesis using g(2) roots by blast
qed

end
