(* ===== verification/Catalog_Incremental.thy ===== *)
theory Catalog_Incremental
  imports Catalog_Scan
begin

text \<open>
  The incremental refresh of the catalogue
  (\<^verbatim>\<open>components/rg40xxv-shell/src/catalog_incremental.c\<close>): platforms whose directory
  is unchanged keep the games of the snapshot, the others are scanned while time
  is left, and the result is written as the new snapshot. An entry that was moved
  out of the old catalogue leaves zeroed memory behind, here \<open>None\<close>. The two counters
  of the log line are left out.
\<close>

section \<open>Directories and records\<close>

definition INCREMENTAL_MAX_PLATFORMS :: nat where "INCREMENTAL_MAX_PLATFORMS = 4096"
definition INCREMENTAL_MAX_GAMES :: nat where "INCREMENTAL_MAX_GAMES = 65536"

record platform_directory =
  pd_name :: string
  pd_path :: string
  metadata :: file_stat

definition compare_directory :: "platform_directory \<Rightarrow> platform_directory \<Rightarrow> int" where
  "compare_directory a b = strcmp (pd_name a) (pd_name b)"

text \<open>The entry as a platform directory, if it is one.\<close>

definition as_directory :: "scan_world \<Rightarrow> string \<Rightarrow> string \<Rightarrow> platform_directory option" where
  "as_directory w root name =
    (if hidden_entry name then None
     else let p = root @ ''/'' @ name in
       if PATH_MAX \<le> length p then None
       else (case lstat_of w p of
           None \<Rightarrow> None
         | Some st \<Rightarrow> if fs_kind st = Directory then Some \<lparr>pd_name = name, pd_path = p, metadata = st\<rparr> else None))"

fun directory_loop :: "scan_world \<Rightarrow> string \<Rightarrow> string list \<Rightarrow> platform_directory list \<Rightarrow> platform_directory list option" where
  "directory_loop w root [] items = Some items"
| "directory_loop w root (name # names) items =
    (case as_directory w root name of
       None \<Rightarrow> directory_loop w root names items
     | Some item \<Rightarrow>
       if INCREMENTAL_MAX_PLATFORMS \<le> length items \<or> \<not> al_entry (alloc_at w (length items)) then None
       else directory_loop w root names (items @ [item]))"

definition list_directories :: "platform_directory qsort \<Rightarrow> scan_world \<Rightarrow> string \<Rightarrow> platform_directory list option" where
  "list_directories qd w root =
    (case list_names w root of None \<Rightarrow> None | Some names \<Rightarrow> map_option (qd compare_directory) (directory_loop w root names []))"

text \<open>The index of the first record with the name.\<close>

fun find_record :: "catalog_platform_record option list \<Rightarrow> string \<Rightarrow> nat option" where
  "find_record [] name = None"
| "find_record (r # rs) name =
    (case r of
       Some rec \<Rightarrow> if pr_name rec = name then Some 0 else map_option Suc (find_record rs name)
     | None \<Rightarrow> map_option Suc (find_record rs name))"

definition record_at :: "catalog_platform_record option list \<Rightarrow> string \<Rightarrow> catalog_platform_record option" where
  "record_at rs name = (case find_record rs name of None \<Rightarrow> None | Some i \<Rightarrow> rs ! i)"

definition time_ns :: "int \<times> int \<Rightarrow> u64" where
  "time_ns t = stat_time_ns (fst t) (snd t)"

definition record_matches :: "catalog_platform_record option \<Rightarrow> file_stat \<Rightarrow> bool" where
  "record_matches rec st =
    (case rec of
       None \<Rightarrow> False
     | Some r \<Rightarrow> device r = fs_dev st \<and> inode_number r = fs_ino st \<and> mtime_ns r = time_ns (fs_mtime st) \<and> ctime_ns r = time_ns (fs_ctime st))"

definition metadata_unchanged :: "file_stat \<Rightarrow> file_stat \<Rightarrow> bool" where
  "metadata_unchanged before after \<longleftrightarrow> fs_dev before = fs_dev after \<and> fs_ino before = fs_ino after \<and>
     fs_mtime before = fs_mtime after \<and> fs_ctime before = fs_ctime after"

section \<open>Moving entries\<close>

text \<open>\<open>memory n\<close> says whether the allocations for one more game or record succeed when \<open>n\<close> are there.\<close>

definition move_game :: "(nat \<Rightarrow> bool) \<Rightarrow> catalog_state \<Rightarrow> game_entry \<Rightarrow> catalog_state option" where
  "move_game memory c g =
    (if INCREMENTAL_MAX_GAMES \<le> length (games c) \<or> \<not> memory (length (games c)) then None
     else Some (c\<lparr>systems := add_unique (systems c) (system g), cores := add_unique (cores c) (core g), games := games c @ [g]\<rparr>))"

fun move_games :: "(nat \<Rightarrow> bool) \<Rightarrow> catalog_state \<Rightarrow> game_entry option list \<Rightarrow> string \<Rightarrow> (catalog_state \<times> game_entry option list) option" where
  "move_games memory c [] s = Some (c, [])"
| "move_games memory c (None # gs) s = map_option (\<lambda>(c1, rest). (c1, None # rest)) (move_games memory c gs s)"
| "move_games memory c (Some g # gs) s =
    (if system g = s then
       (case move_game memory c g of
          None \<Rightarrow> None
        | Some c1 \<Rightarrow> map_option (\<lambda>(c2, rest). (c2, None # rest)) (move_games memory c1 gs s))
     else map_option (\<lambda>(c1, rest). (c1, Some g # rest)) (move_games memory c gs s))"

definition move_record :: "(nat \<Rightarrow> bool) \<Rightarrow> catalog_state \<Rightarrow> catalog_platform_record option \<Rightarrow> catalog_state option" where
  "move_record memory c rec =
    (case rec of
       None \<Rightarrow> Some c
     | Some r \<Rightarrow> if memory (length (platforms c)) then Some (c\<lparr>platforms := platforms c @ [r]\<rparr>) else None)"

text \<open>What is left of the old catalogue while the new one is built.\<close>

record old_catalog =
  old_games :: "game_entry option list"
  old_records :: "catalog_platform_record option list"

definition retain_old :: "(nat \<Rightarrow> bool) \<Rightarrow> catalog_state \<Rightarrow> old_catalog \<Rightarrow> string \<Rightarrow> (catalog_state \<times> old_catalog) option" where
  "retain_old memory c old name =
    (case move_games memory c (old_games old) name of
       None \<Rightarrow> None
     | Some (c1, rest) \<Rightarrow>
       (case move_record memory c1 (record_at (old_records old) name) of
          None \<Rightarrow> None
        | Some c2 \<Rightarrow> Some (c2, old\<lparr>old_games := rest,
            old_records := (case find_record (old_records old) name of None \<Rightarrow> old_records old | Some i \<Rightarrow> (old_records old)[i := None])\<rparr>)))"

definition fresh_record :: "string \<Rightarrow> file_stat \<Rightarrow> u64 \<Rightarrow> catalog_platform_record" where
  "fresh_record name st n = \<lparr>pr_name = name, device = fs_dev st, inode_number = fs_ino st, mtime_ns = time_ns (fs_mtime st),
     ctime_ns = time_ns (fs_ctime st), entry_count = n\<rparr>"

definition add_fresh_record :: "(nat \<Rightarrow> bool) \<Rightarrow> catalog_state \<Rightarrow> string \<Rightarrow> file_stat \<Rightarrow> u64 \<Rightarrow> catalog_state option" where
  "add_fresh_record memory c name st n = move_record memory c (Some (fresh_record name st n))"

section \<open>Refreshing\<close>

text \<open>
  The surroundings: the file system, whose clock is read anew during the scan of
  each directory, what \<^verbatim>\<open>lstat\<close> says of a directory after its scan, the readings of
  the clock by the refresh itself, and the allocations.
\<close>

record refresh_env =
  re_os :: os_env
  re_games :: "game_entry qsort"
  re_names :: "string qsort"
  re_covers :: "cover_index_item qsort"
  re_directories :: "platform_directory qsort"
  re_world :: scan_world
  re_scan_clock :: "nat \<Rightarrow> nat \<Rightarrow> u64"
  re_after :: "string \<Rightarrow> file_stat option"
  re_start :: u64
  re_check :: "nat \<Rightarrow> u64"
  re_now :: "nat \<Rightarrow> u64"
  re_memory :: "nat \<Rightarrow> bool"

definition empty_ui :: catalog_ui where
  "empty_ui = \<lparr>catalog = empty_catalog, game_index = 0, carousel_position = 0, carousel_from = 0, carousel_target = 0, carousel_started = 0\<rparr>"

definition catalog_snapshot_needs_refresh :: "refresh_env \<Rightarrow> catalog_ui \<Rightarrow> string \<Rightarrow> bool" where
  "catalog_snapshot_needs_refresh e ui root =
    (case list_directories (re_directories e) (re_world e) root of
       None \<Rightarrow> True
     | Some ds \<Rightarrow> length ds \<noteq> length (platforms (catalog ui)) \<or>
         list_ex (\<lambda>d. \<not> record_matches (record_at (map Some (platforms (catalog ui))) (pd_name d)) (metadata d)) ds)"

text \<open>The scan of one changed directory, if it ends in time and the directory has not changed meanwhile.\<close>

definition scan_changed :: "refresh_env \<Rightarrow> platform_routes \<Rightarrow> u64 \<Rightarrow> nat \<Rightarrow> platform_directory \<Rightarrow> (game_entry list \<times> file_stat \<times> u64) option" where
  "scan_changed e routes deadline i d =
    (let remaining = (if re_now e i < deadline then ucast ((deadline - re_now e i) div 1000000) else 0 :: u32) in
     if remaining = 0 then None
     else (case catalog_scan_platform (re_os e) (re_games e) (re_names e) (re_covers e) ((re_world e)\<lparr>scan_clock := re_scan_clock e i\<rparr>) routes empty_ui
         (pd_path d) (pd_name d) 0 remaining of
       (u, n, r) \<Rightarrow> if r \<noteq> 0 then None
         else (case re_after e (pd_path d) of
             None \<Rightarrow> None
           | Some after \<Rightarrow> if metadata_unchanged (metadata d) after then Some (games (catalog u), after, n) else None)))"

text \<open>One directory after another; the third component says whether the refresh is blocked.\<close>

fun refresh_loop ::
    "refresh_env \<Rightarrow> platform_routes \<Rightarrow> u64 \<Rightarrow> nat \<Rightarrow> platform_directory list \<Rightarrow> catalog_state \<times> old_catalog \<times> bool \<Rightarrow> (catalog_state \<times> old_catalog \<times> bool) option" where
  "refresh_loop e routes deadline i [] st = Some st"
| "refresh_loop e routes deadline i (d # ds) (c, old, blocked) =
    (if record_matches (record_at (old_records old) (pd_name d)) (metadata d) then
       (case retain_old (re_memory e) c old (pd_name d) of
          None \<Rightarrow> None
        | Some (c1, old1) \<Rightarrow> refresh_loop e routes deadline (Suc i) ds (c1, old1, blocked))
     else
       (case (if \<not> blocked \<and> re_check e i < deadline then scan_changed e routes deadline i d else None) of
          Some (gs, after, n) \<Rightarrow>
            (case move_games (re_memory e) c (map Some gs) (pd_name d) of
               None \<Rightarrow> None
             | Some (c1, rest) \<Rightarrow>
               (case add_fresh_record (re_memory e) c1 (pd_name d) after n of
                  None \<Rightarrow> None
                | Some c2 \<Rightarrow> refresh_loop e routes deadline (Suc i) ds (c2, old, blocked)))
        | None \<Rightarrow>
            let c0 = (if refresh_cursor c = [] then c\<lparr>refresh_cursor := snprintf_s (NAME_MAX + 1) (pd_name d)\<rparr> else c) in
            (case retain_old (re_memory e) c0 old (pd_name d) of
               None \<Rightarrow> None
             | Some (c1, old1) \<Rightarrow> refresh_loop e routes deadline (Suc i) ds (c1, old1, True))))"

definition old_of :: "catalog_state \<Rightarrow> old_catalog" where
  "old_of c = \<lparr>old_games = map Some (games c), old_records = map Some (platforms c)\<rparr>"

definition all_match :: "catalog_state \<Rightarrow> platform_directory list \<Rightarrow> bool" where
  "all_match c ds \<longleftrightarrow> length (platforms c) = length ds \<and> list_all (\<lambda>d. record_matches (record_at (map Some (platforms c)) (pd_name d)) (metadata d)) ds"

text \<open>Building the new catalogue from the old one in \<open>ui\<close>, and writing it.\<close>

definition catalog_rebuild ::
    "refresh_env \<Rightarrow> snap_env \<Rightarrow> route_table \<Rightarrow> dir \<Rightarrow> catalog_ui \<Rightarrow> string \<Rightarrow> string \<Rightarrow> u32 \<Rightarrow> platform_directory list \<Rightarrow> catalog_ui \<times> dir list \<times> int" where
  "catalog_rebuild e s routes disk ui p root max_ms ds =
    (case refresh_loop e (platform_routes.truncate routes) (re_start e + ucast max_ms * 1000000) 0 ds
        (empty_catalog\<lparr>rom_root := snprintf_s PATH_MAX root\<rparr>, old_of (catalog ui), False) of
       None \<Rightarrow> (ui\<lparr>catalog := empty_catalog\<rparr>, [], - 1)
     | Some (c, old, blocked) \<Rightarrow>
       let u = catalog_apply_filters (re_os e) (ui\<lparr>catalog := c\<rparr>) in
       (case catalog_snapshot_write s routes disk (Some p) (Some root) (\<not> blocked) (catalog u) of
          (states, wr, leaked) \<Rightarrow> if wr \<noteq> 0 then (u, states, - 1) else (u, states, if blocked then 1 else 0)))"

definition catalog_snapshot_refresh ::
    "refresh_env \<Rightarrow> snap_env \<Rightarrow> route_table \<Rightarrow> dir \<Rightarrow> catalog_ui \<Rightarrow> string \<Rightarrow> string \<Rightarrow> u32 \<Rightarrow> catalog_ui \<times> dir list \<times> int" where
  "catalog_snapshot_refresh e s routes disk ui p root max_ms =
    (case catalog_snapshot_load (re_os e) (re_memory e) (re_games e) (re_names e) routes (sn_euid s) disk (Some p) (Some root) ui of
       (ui1, r, finished) \<Rightarrow>
         let loaded = (r = 0); ui2 = (if loaded then ui1 else catalog_destroy ui1) in
         (case list_directories (re_directories e) (re_world e) root of
            None \<Rightarrow> (ui2, [], - 1)
          | Some ds \<Rightarrow> if loaded \<and> all_match (catalog ui2) ds \<and> finished then (ui2, [], 0) else catalog_rebuild e s routes disk ui2 p root max_ms ds))"

section \<open>What is left of the old catalogue\<close>

text \<open>The games of a platform that have not been moved yet.\<close>

definition games_of :: "game_entry option list \<Rightarrow> string \<Rightarrow> game_entry list" where
  "games_of gs s = filter (\<lambda>g. system g = s) (List.map_filter id gs)"

lemma games_of_simps [simp]: "games_of [] s = []" "games_of (None # gs) s = games_of gs s"
  "games_of (Some g # gs) s = (if system g = s then g # games_of gs s else games_of gs s)"
  by (simp_all add: games_of_def List.map_filter_def)

lemma games_of_map [simp]: "games_of (map Some gs) s = filter (\<lambda>g. system g = s) gs"
  by (induction gs) simp_all

lemma move_game_with: "move_game memory c g = Some c1 \<Longrightarrow> c1 = with_added c [g]"
  by (auto simp: move_game_def with_added_def split: if_splits)

lemma move_games_with:
  "move_games memory c gs s = Some (c', rest) \<Longrightarrow> c' = with_added c (games_of gs s) \<and> (\<forall>n. n \<noteq> s \<longrightarrow> games_of rest n = games_of gs n)"
proof (induction memory c gs s arbitrary: c' rest rule: move_games.induct)
  case (3 memory c g gs s)
  show ?case
  proof (cases "system g = s")
    case True
    obtain c1 where m: "move_game memory c g = Some c1" using "3.prems" True by (auto split: option.splits)
    obtain r where r: "move_games memory c1 gs s = Some (c', r)" "rest = None # r" using "3.prems" True m by auto
    then show ?thesis using "3.IH"(1) [OF True m r(1)] move_game_with [OF m] True by (simp add: with_added_append)
  next
    case False
    then show ?thesis using "3.IH"(2) [OF False] "3.prems" by auto
  qed
qed auto

lemma find_record_Some: "find_record rs name = Some i \<Longrightarrow> i < length rs \<and> (\<exists>r. rs ! i = Some r \<and> pr_name r = name)"
  by (induction rs arbitrary: i) (auto split: option.splits if_splits)

lemma record_at_name: "record_at rs name = Some r \<Longrightarrow> pr_name r = name"
  by (auto simp: record_at_def split: option.splits dest!: find_record_Some)

lemma record_at_simps: "record_at [] name = None"
  "record_at (r # rs) name = (case r of Some rec \<Rightarrow> if pr_name rec = name then r else record_at rs name | None \<Rightarrow> record_at rs name)"
  by (auto simp: record_at_def split: option.splits)

lemma record_at_other: "rs ! i = Some r \<Longrightarrow> pr_name r \<noteq> name \<Longrightarrow> record_at (rs[i := None]) name = record_at rs name"
proof (induction rs arbitrary: i)
  case (Cons x rs)
  then show ?case by (cases i) (auto simp: record_at_simps split: option.splits)
qed (simp add: record_at_simps)

lemma record_at_map: "distinct (map pr_name rs) \<Longrightarrow> r \<in> set rs \<Longrightarrow> record_at (map Some rs) (pr_name r) = Some r"
  by (induction rs) (auto simp: record_at_simps)

text \<open>For the platforms that are still to come, nothing has been moved.\<close>

definition untouched :: "old_catalog \<Rightarrow> old_catalog \<Rightarrow> string set \<Rightarrow> bool" where
  "untouched first old names \<longleftrightarrow> (\<forall>n \<in> names. record_at (old_records old) n = record_at (old_records first) n \<and> games_of (old_games old) n = games_of (old_games first) n)"

lemma retain_old_moves:
  assumes "retain_old memory c old name = Some (c', old')"
  shows "c' = (with_added c (games_of (old_games old) name))\<lparr>platforms := platforms c @ (case record_at (old_records old) name of None \<Rightarrow> [] | Some r \<Rightarrow> [r])\<rparr>"
    and "untouched first old names \<Longrightarrow> name \<notin> names \<Longrightarrow> untouched first old' names"
proof -
  obtain c1 rest where m: "move_games memory c (old_games old) name = Some (c1, rest)" using assms by (auto simp: retain_old_def split: option.splits)
  note mg = move_games_with [OF m]
  have p: "platforms c1 = platforms c" using mg by (simp add: with_added_def)
  obtain rs where r: "old' = old\<lparr>old_games := rest, old_records := rs\<rparr>"
      "rs = (case find_record (old_records old) name of None \<Rightarrow> old_records old | Some i \<Rightarrow> (old_records old)[i := None])"
      "move_record memory c1 (record_at (old_records old) name) = Some c'"
    using assms m by (auto simp: retain_old_def split: option.splits)
  show "c' = (with_added c (games_of (old_games old) name))\<lparr>platforms := platforms c @ (case record_at (old_records old) name of None \<Rightarrow> [] | Some r \<Rightarrow> [r])\<rparr>"
    using r(3) mg p by (auto simp: move_record_def split: option.splits if_splits)
  have kept: "record_at rs n = record_at (old_records old) n" if "n \<noteq> name" for n
    using that r(2) find_record_Some [of "old_records old" name] by (auto split: option.splits simp: record_at_other)
  show "untouched first old' names" if u: "untouched first old names" "name \<notin> names"
    unfolding untouched_def
  proof
    fix n assume n: "n \<in> names"
    with u(2) have "n \<noteq> name" by blast
    then show "record_at (old_records old') n = record_at (old_records first) n \<and> games_of (old_games old') n = games_of (old_games first) n"
      using kept mg r(1) u(1) n by (simp add: untouched_def)
  qed
qed

section \<open>The outcome for each directory\<close>

text \<open>The games and the record of a directory in the new catalogue, and whether the refresh was blocked there.\<close>

record outcome =
  o_games :: "game_entry list"
  o_record :: "catalog_platform_record option"
  o_blocked :: bool

definition outcome_of :: "refresh_env \<Rightarrow> platform_routes \<Rightarrow> u64 \<Rightarrow> old_catalog \<Rightarrow> platform_directory \<Rightarrow> outcome \<Rightarrow> bool" where
  "outcome_of e routes deadline first d x \<longleftrightarrow>
    (o_games x = games_of (old_games first) (pd_name d) \<and> o_record x = record_at (old_records first) (pd_name d) \<and>
       o_blocked x = (\<not> record_matches (record_at (old_records first) (pd_name d)) (metadata d))) \<or>
    (\<not> o_blocked x \<and> (\<exists>i gs after n. scan_changed e routes deadline i d = Some (gs, after, n) \<and>
       o_games x = filter (\<lambda>g. system g = pd_name d) gs \<and> o_record x = Some (fresh_record (pd_name d) after n)))"

definition outcome_records :: "outcome list \<Rightarrow> catalog_platform_record list" where
  "outcome_records xs = concat (map (\<lambda>x. case o_record x of None \<Rightarrow> [] | Some r \<Rightarrow> [r]) xs)"

lemma platforms_with_added [simp]: "platforms (with_added c gs) = platforms c"
  by (simp add: with_added_def)

lemma refresh_loop_outcomes:
  "refresh_loop e routes deadline i ds (c, old, b) = Some (c', old', b') \<Longrightarrow> distinct (map pd_name ds) \<Longrightarrow> untouched first old (pd_name ` set ds) \<Longrightarrow>
   \<exists>xs. list_all2 (outcome_of e routes deadline first) ds xs \<and> games c' = games c @ concat (map o_games xs) \<and>
     platforms c' = platforms c @ outcome_records xs \<and> b' = (b \<or> list_ex o_blocked xs)"
proof (induction ds arbitrary: i c old b)
  case Nil
  then show ?case by (intro exI [of _ "[]"]) (simp add: outcome_records_def)
next
  case (Cons d ds)
  let ?n = "pd_name d" and ?old = "record_at (old_records old) (pd_name d)"
  have n: "?n \<notin> pd_name ` set ds" "distinct (map pd_name ds)" using Cons.prems(2) by auto
  have u: "untouched first old (pd_name ` set ds)" "?old = record_at (old_records first) ?n" "games_of (old_games old) ?n = games_of (old_games first) ?n"
    using Cons.prems(3) by (auto simp: untouched_def)
  have more: "\<exists>xs. list_all2 (outcome_of e routes deadline first) (d # ds) xs \<and> games c' = games c @ concat (map o_games xs) \<and>
      platforms c' = platforms c @ outcome_records xs \<and> b' = (b \<or> list_ex o_blocked xs)"
    if next_ok: "refresh_loop e routes deadline (Suc i) ds (c1, old1, b \<or> o_blocked x) = Some (c', old', b')" "untouched first old1 (pd_name ` set ds)"
      "outcome_of e routes deadline first d x" "games c1 = games c @ o_games x" "platforms c1 = platforms c @ (case o_record x of None \<Rightarrow> [] | Some r \<Rightarrow> [r])"
    for c1 old1 x
  proof -
    obtain xs where "list_all2 (outcome_of e routes deadline first) ds xs" "games c' = games c1 @ concat (map o_games xs)"
        "platforms c' = platforms c1 @ outcome_records xs" "b' = ((b \<or> o_blocked x) \<or> list_ex o_blocked xs)"
      using Cons.IH [OF next_ok(1) n(2) next_ok(2)] by blast
    then show ?thesis using next_ok(3-5) by (intro exI [of _ "x # xs"]) (auto simp: outcome_records_def)
  qed
  have retained: ?case
    if r: "retain_old (re_memory e) c0 old ?n = Some (c1, old1)" "refresh_loop e routes deadline (Suc i) ds (c1, old1, b \<or> \<not> record_matches ?old (metadata d)) = Some (c', old', b')"
      "games c0 = games c" "platforms c0 = platforms c" for c0 c1 old1
    by (rule more [of c1 old1 "\<lparr>o_games = games_of (old_games first) ?n, o_record = ?old, o_blocked = (\<not> record_matches ?old (metadata d))\<rparr>"])
      (use r u retain_old_moves(1) [OF r(1)] retain_old_moves(2) [OF r(1), of first "pd_name ` set ds"] n(1) in \<open>simp_all add: outcome_of_def\<close>)
  show ?case
  proof (cases "record_matches ?old (metadata d)")
    case True
    then show ?thesis using Cons.prems(1) retained [of c] by (auto split: option.splits)
  next
    case False
    show ?thesis
    proof (cases "if \<not> b \<and> re_check e i < deadline then scan_changed e routes deadline i d else None")
      case None
      then show ?thesis using Cons.prems(1) False retained [of "if refresh_cursor c = [] then c\<lparr>refresh_cursor := snprintf_s (NAME_MAX + 1) ?n\<rparr> else c"]
        by (auto simp: Let_def split: option.splits if_splits)
    next
      case (Some t)
      obtain gs after k where t: "t = (gs, after, k)" by (rule prod_cases3)
      have s: "scan_changed e routes deadline i d = Some (gs, after, k)" using Some t by (auto split: if_splits)
      obtain c1 rest where m: "move_games (re_memory e) c (map Some gs) ?n = Some (c1, rest)" using Cons.prems(1) False Some t by (auto split: option.splits)
      obtain c2 where a: "add_fresh_record (re_memory e) c1 ?n after k = Some c2" "refresh_loop e routes deadline (Suc i) ds (c2, old, b) = Some (c', old', b')"
        using Cons.prems(1) False Some t m by (auto split: option.splits)
      let ?x = "\<lparr>o_games = filter (\<lambda>g. system g = ?n) gs, o_record = Some (fresh_record ?n after k), o_blocked = False\<rparr>"
      have x: "outcome_of e routes deadline first d ?x" unfolding outcome_of_def using s by (intro disjI2) auto
      have c2: "games c2 = games c @ o_games ?x" "platforms c2 = platforms c @ [fresh_record ?n after k]"
        using a(1) move_games_with [OF m] by (auto simp: add_fresh_record_def move_record_def split: if_splits)
      show ?thesis by (rule more [of c2 old ?x]) (use a(2) u(1) x c2 in simp_all)
    qed
  qed
qed

section \<open>Scans of changed directories\<close>

lemma scan_entry_clock: "scan_entry (w\<lparr>scan_clock := x\<rparr>) = scan_entry w"
proof -
  have l: "lstat_of (w\<lparr>scan_clock := x\<rparr>) = lstat_of w" by simp
  have r: "easyrpg_project_is_launchable (w\<lparr>scan_clock := x\<rparr>) = easyrpg_project_is_launchable w"
    unfolding easyrpg_project_is_launchable_def l ..
  show ?thesis unfolding scan_entry_def l r ..
qed

lemma scanned_directory_clock: "scanned_directory (w\<lparr>scan_clock := x\<rparr>) s root depth directory \<longleftrightarrow> scanned_directory w s root depth directory"
proof
  show "scanned_directory (w\<lparr>scan_clock := x\<rparr>) s root depth directory \<Longrightarrow> scanned_directory w s root depth directory"
    by (induction rule: scanned_directory.induct) (auto simp: scan_entry_clock intro: scanned_directory.intros)
  show "scanned_directory w s root depth directory \<Longrightarrow> scanned_directory (w\<lparr>scan_clock := x\<rparr>) s root depth directory"
    by (induction rule: scanned_directory.induct) (auto simp: scan_entry_clock intro: scanned_directory.intros)
qed

lemma is_game_file_clock: "is_game_file (w\<lparr>scan_clock := x\<rparr>) s root f \<longleftrightarrow> is_game_file w s root f"
  by (simp add: is_game_file_def scanned_directory_clock scan_entry_clock)

lemma job_game_empty: "system (job_game j empty_catalog f) = jb_system j"
  by (simp add: job_game_def catalog_system_name_def empty_catalog_def split: prod.splits)

lemma scan_changed_exact:
  assumes "scan_changed e routes deadline i d = Some (gs, after, n)" "qsort_ok (re_games e)"
  shows "metadata_unchanged (metadata d) after \<and> (\<forall>g \<in> set gs. system g = pd_name d) \<and> sorted (map game_key gs) \<and>
    (\<exists>j fs. jb_routes j = routes \<and> jb_system j = pd_name d \<and> jb_system_dir j = pd_path d \<and> mset gs = mset (map (job_game j empty_catalog) fs) \<and>
      (\<forall>f. f \<in> set fs \<longleftrightarrow> is_game_file (re_world e) (pd_name d) (pd_path d) f))"
proof -
  let ?w = "(re_world e)\<lparr>scan_clock := re_scan_clock e i\<rparr>"
  obtain ms u where s: "catalog_scan_platform (re_os e) (re_games e) (re_names e) (re_covers e) ?w routes empty_ui (pd_path d) (pd_name d) 0 ms = (u, n, 0)"
      "gs = games (catalog u)" and m: "metadata_unchanged (metadata d) after"
    using assms(1) by (auto simp: scan_changed_def Let_def split: if_splits prod.splits option.splits)
  have c: "catalog empty_ui = empty_catalog" "games empty_catalog = []" by (simp_all add: empty_ui_def empty_catalog_def)
  note scan_platform_exact [OF s(1) order_refl assms(2), unfolded c s(2) [symmetric] mset.simps add_0_left]
  then obtain j fs where jf: "jb_routes j = routes \<and> jb_system j = pd_name d \<and> jb_system_dir j = pd_path d \<and> mset gs = mset (map (job_game j empty_catalog) fs) \<and>
      (\<forall>f \<in> set fs. is_game_file ?w (pd_name d) (pd_path d) f) \<and> (\<forall>f. is_game_file ?w (pd_name d) (pd_path d) f \<longrightarrow> f \<in> set fs) \<and> sorted (map game_key gs)"
    by blast
  then have j: "jb_routes j = routes" "jb_system j = pd_name d" "jb_system_dir j = pd_path d" "mset gs = mset (map (job_game j empty_catalog) fs)"
      "\<forall>f. f \<in> set fs \<longleftrightarrow> is_game_file ?w (pd_name d) (pd_path d) f" "sorted (map game_key gs)"
    by blast+
  have "system g = pd_name d" if "g \<in> set gs" for g
  proof -
    have "g \<in> set (map (job_game j empty_catalog) fs)" using that mset_eq_setD [OF j(4)] by simp
    then show ?thesis using job_game_empty j(2) by auto
  qed
  then show ?thesis using j m unfolding is_game_file_clock by blast
qed

section \<open>The refreshed catalogue\<close>

lemma apply_filters_platforms [simp]: "platforms (catalog (catalog_apply_filters env ui)) = platforms (catalog ui)"
proof -
  have "platforms (clamp_filter_indices c) = platforms c" for c by (simp add: clamp_filter_indices_def Let_def)
  then show ?thesis by (cases "view_room env (clamp_filter_indices (catalog ui))")
    (simp_all add: catalog_apply_filters_result(1) catalog_apply_filters_no_room)
qed

text \<open>The catalogue the refresh starts from: that of the snapshot, or nothing.\<close>

definition start_catalog :: "catalog_ui \<times> int \<times> bool \<Rightarrow> catalog_state" where
  "start_catalog l = (case l of (ui1, r, finished) \<Rightarrow> if r = 0 then catalog ui1 else empty_catalog)"

lemma refresh_cases:
  assumes "catalog_snapshot_refresh e s routes disk ui p root max_ms = (u, states, r)" "r \<noteq> - 1" "list_directories (re_directories e) (re_world e) root = Some ds"
    "catalog_snapshot_load (re_os e) (re_memory e) (re_games e) (re_names e) routes (sn_euid s) disk (Some p) (Some root) ui = l"
  shows "(r = 0 \<and> catalog u = start_catalog l \<and> all_match (start_catalog l) ds) \<or>
    (\<exists>deadline c old. refresh_loop e (platform_routes.truncate routes) deadline 0 ds (empty_catalog\<lparr>rom_root := snprintf_s PATH_MAX root\<rparr>, old_of (start_catalog l), False) =
       Some (c, old, r = 1) \<and> games (catalog u) = games c \<and> platforms (catalog u) = platforms c \<and> (r = 0 \<or> r = 1))"
proof -
  obtain ui1 lr finished where l: "l = (ui1, lr, finished)" by (rule prod_cases3)
  define ui2 where "ui2 = (if lr = 0 then ui1 else catalog_destroy ui1)"
  have start: "catalog ui2 = start_catalog l" by (simp add: ui2_def start_catalog_def l catalog_destroy_def)
  have run: "catalog_snapshot_refresh e s routes disk ui p root max_ms =
      (if lr = 0 \<and> all_match (start_catalog l) ds \<and> finished then (ui2, [], 0) else catalog_rebuild e s routes disk ui2 p root max_ms ds)"
    unfolding catalog_snapshot_refresh_def assms(3,4) l prod.case Let_def ui2_def [symmetric] option.case start [unfolded l] ..
  show ?thesis
  proof (cases "lr = 0 \<and> all_match (start_catalog l) ds \<and> finished")
    case True
    then show ?thesis using assms(1) start unfolding run by auto
  next
    case False
    then have "catalog_rebuild e s routes disk ui2 p root max_ms ds = (u, states, r)" using assms(1) unfolding run if_not_P [OF False] by simp
    then obtain c old blocked where loop: "refresh_loop e (platform_routes.truncate routes) (re_start e + ucast max_ms * 1000000) 0 ds
        (empty_catalog\<lparr>rom_root := snprintf_s PATH_MAX root\<rparr>, old_of (start_catalog l), False) = Some (c, old, blocked)"
      and u: "u = catalog_apply_filters (re_os e) (ui2\<lparr>catalog := c\<rparr>)" "r = (if blocked then 1 else 0)"
      using assms(2) unfolding catalog_rebuild_def start by (auto simp: Let_def split: option.splits prod.splits if_splits)
    have "blocked = (r = 1)" using u(2) by simp
    then show ?thesis using loop u by (intro disjI2 exI [of _ "re_start e + ucast max_ms * 1000000"] exI [of _ c] exI [of _ old]) auto
  qed
qed

lemma refresh_outcomes:
  assumes "catalog_snapshot_refresh e s routes disk ui p root max_ms = (u, states, r)" "r \<noteq> - 1" "list_directories (re_directories e) (re_world e) root = Some ds"
    "catalog_snapshot_load (re_os e) (re_memory e) (re_games e) (re_names e) routes (sn_euid s) disk (Some p) (Some root) ui = l" "distinct (map pd_name ds)"
  shows "(r = 0 \<and> catalog u = start_catalog l \<and> all_match (start_catalog l) ds) \<or>
    (\<exists>deadline xs. list_all2 (outcome_of e (platform_routes.truncate routes) deadline (old_of (start_catalog l))) ds xs \<and>
       games (catalog u) = concat (map o_games xs) \<and> platforms (catalog u) = outcome_records xs \<and> (r = 1 \<longleftrightarrow> list_ex o_blocked xs) \<and> (r = 0 \<or> r = 1))"
proof -
  have "untouched (old_of (start_catalog l)) (old_of (start_catalog l)) (pd_name ` set ds)" by (simp add: untouched_def)
  from refresh_cases [OF assms(1-4)] refresh_loop_outcomes [OF _ assms(5) this] show ?thesis
    by (fastforce simp: empty_catalog_def)
qed

section \<open>Records of the new catalogue\<close>

lemma outcome_record_name: "outcome_of e routes deadline first d x \<Longrightarrow> o_record x = Some rec \<Longrightarrow> pr_name rec = pd_name d"
  by (auto simp: outcome_of_def fresh_record_def dest: record_at_name [OF sym])

lemma fresh_record_matches: "metadata_unchanged st after \<Longrightarrow> record_matches (Some (fresh_record name after n)) st"
  by (simp add: record_matches_def fresh_record_def metadata_unchanged_def)

lemma outcome_blocked:
  assumes "outcome_of e routes deadline first d x" "qsort_ok (re_games e)"
  shows "o_blocked x \<longleftrightarrow> \<not> record_matches (o_record x) (metadata d)"
  using assms(1) unfolding outcome_of_def
proof (elim disjE conjE exE)
  fix i gs after n
  assume s: "scan_changed e routes deadline i d = Some (gs, after, n)" "o_record x = Some (fresh_record (pd_name d) after n)" "\<not> o_blocked x"
  then show ?thesis using fresh_record_matches scan_changed_exact [OF s(1) assms(2)] by simp
qed simp

lemma outcome_records_Cons: "outcome_records (x # xs) = (case o_record x of None \<Rightarrow> [] | Some r \<Rightarrow> [r]) @ outcome_records xs"
  by (simp add: outcome_records_def)

lemma outcome_records_length: "length (outcome_records xs) \<le> length xs" "length (outcome_records xs) = length xs \<longleftrightarrow> list_all (\<lambda>x. o_record x \<noteq> None) xs"
proof -
  show le: "length (outcome_records xs) \<le> length xs" for xs
    by (induction xs) (auto simp: outcome_records_Cons outcome_records_def [of "[]"] split: option.splits)
  show "length (outcome_records xs) = length xs \<longleftrightarrow> list_all (\<lambda>x. o_record x \<noteq> None) xs"
  proof (induction xs)
    case (Cons x xs)
    then show ?case using le [of xs] by (auto simp: outcome_records_Cons split: option.splits)
  qed (simp add: outcome_records_def)
qed

abbreviation named :: "platform_directory list \<Rightarrow> outcome list \<Rightarrow> bool" where
  "named ds xs \<equiv> list_all2 (\<lambda>d x. \<forall>rec. o_record x = Some rec \<longrightarrow> pr_name rec = pd_name d) ds xs"

lemma record_at_absent: "named ds xs \<Longrightarrow> n \<notin> pd_name ` set ds \<Longrightarrow> record_at (map Some (outcome_records xs)) n = None"
  by (induction rule: list_all2_induct) (auto simp: outcome_records_def record_at_simps split: option.splits)

lemma record_at_outcome:
  "named ds xs \<Longrightarrow> distinct (map pd_name ds) \<Longrightarrow> (d, x) \<in> set (zip ds xs) \<Longrightarrow> record_at (map Some (outcome_records xs)) (pd_name d) = o_record x"
proof (induction rule: list_all2_induct)
  case (Cons d' ds x' xs)
  show ?case
  proof (cases "(d, x) = (d', x')")
    case True
    then show ?thesis using Cons record_at_absent [OF Cons(2), of "pd_name d"] by (auto simp: outcome_records_Cons record_at_simps split: option.splits)
  next
    case False
    then have "(d, x) \<in> set (zip ds xs)" using Cons.prems(2) by auto
    moreover from this have "d \<in> set ds" by (rule set_zip_leftD)
    then have "pd_name d \<noteq> pd_name d'" using Cons.prems(1) by (metis distinct.simps(2) image_eqI list.simps(9) set_map)
    ultimately show ?thesis using Cons by (auto simp: outcome_records_Cons record_at_simps split: option.splits)
  qed
qed simp

lemma all_match_outcomes:
  assumes "list_all2 (outcome_of e routes deadline first) ds xs" "distinct (map pd_name ds)" "qsort_ok (re_games e)" "platforms c = outcome_records xs"
  shows "all_match c ds \<longleftrightarrow> \<not> list_ex o_blocked xs"
proof -
  have n: "named ds xs" using assms(1) by (rule list_all2_mono) (blast dest: outcome_record_name)
  have len: "length ds = length xs" using assms(1) by (rule list_all2_lengthD)
  have at: "record_at (map Some (platforms c)) (pd_name d) = o_record x" "o_blocked x \<longleftrightarrow> \<not> record_matches (o_record x) (metadata d)" if "(d, x) \<in> set (zip ds xs)" for d x
    using record_at_outcome [OF n assms(2) that] outcome_blocked [OF _ assms(3)] that assms(1,4) by (auto simp: list_all2_iff)
  have some: "o_record x \<noteq> None" if "(d, x) \<in> set (zip ds xs)" "\<not> o_blocked x" for d x
    using at(2) [OF that(1)] that(2) by (auto simp: record_matches_def split: option.splits)
  have pairs: "list_ex o_blocked xs \<longleftrightarrow> (\<exists>(d, x) \<in> set (zip ds xs). o_blocked x)" "list_all P ds \<longleftrightarrow> (\<forall>(d, x) \<in> set (zip ds xs). P d)"
      "list_all (\<lambda>x. o_record x \<noteq> None) xs \<longleftrightarrow> (\<forall>(d, x) \<in> set (zip ds xs). o_record x \<noteq> None)" for P
  proof -
    have "set ds = fst ` set (zip ds xs)" "set xs = snd ` set (zip ds xs)" using len by (metis map_fst_zip set_map, metis map_snd_zip set_map)
    then show "list_ex o_blocked xs \<longleftrightarrow> (\<exists>(d, x) \<in> set (zip ds xs). o_blocked x)" "list_all P ds \<longleftrightarrow> (\<forall>(d, x) \<in> set (zip ds xs). P d)"
        "list_all (\<lambda>x. o_record x \<noteq> None) xs \<longleftrightarrow> (\<forall>(d, x) \<in> set (zip ds xs). o_record x \<noteq> None)" for P
      by (simp_all add: list_ex_iff list_all_iff split_beta)
  qed
  have full: "list_all (\<lambda>x. o_record x \<noteq> None) xs" if "\<not> list_ex o_blocked xs"
    using that some unfolding pairs by fast
  have "list_all (\<lambda>d. record_matches (record_at (map Some (platforms c)) (pd_name d)) (metadata d)) ds \<longleftrightarrow> \<not> list_ex o_blocked xs"
    unfolding pairs(1,2) using at by fastforce
  then show ?thesis unfolding all_match_def
    using full outcome_records_length(2) [of xs] assms(4) len by auto
qed

text \<open>
  A refresh knows whether another one is needed. After a refresh that did not
  fail, the test for a needed refresh on the same directories says yes exactly if
  the refresh reported that it was cut short: no change is forgotten, and nothing
  is scanned again for ever.
\<close>

theorem refresh_needed_exact:
  assumes "catalog_snapshot_refresh e s routes disk ui p root max_ms = (u, states, r)" "r \<noteq> - 1" "list_directories (re_directories e) (re_world e) root = Some ds"
    "distinct (map pd_name ds)" "qsort_ok (re_games e)"
  shows "catalog_snapshot_needs_refresh e u root \<longleftrightarrow> r = 1"
proof -
  have "catalog_snapshot_needs_refresh e u root \<longleftrightarrow> \<not> all_match (catalog u) ds"
    by (auto simp: catalog_snapshot_needs_refresh_def assms(3) all_match_def list_ex_iff list_all_iff)
  then show ?thesis using refresh_outcomes [OF assms(1,2,3) refl assms(4)] all_match_outcomes [OF _ assms(4,5)] by fastforce
qed

end
