(* ===== verification/Spec2Isabelle.thy ===== *)
theory Spec2Isabelle
  imports Power_UI Netstream_Import Bluetooth_Backend Input_Snapshot Frame_Scheduler Cover_Limits Persistence Volume_Start Catalog_Incremental
begin

text \<open>
  Verification of the userland of an RG40XX V handheld (the C code under
  \<^verbatim>\<open>src/components\<close>): the launcher shell with its background workers, the
  settings store library, the Bluetooth helper and the volume daemon.

  \<^bold>\<open>Parts and how they interact.\<close> The shell (\<^verbatim>\<open>rg40xxv-shell\<close>) is one process: a main
  loop takes SDL and evdev events, dispatches them to the screens, asks the
  frame scheduler how long to sleep, and draws. Around it are a power machine
  (button, lock screen, backlight), an input latch that swallows keys held over
  a focus change, the catalogue of games with its views, the files that keep
  favourites, history and filters, a thread that writes these files, and a
  thread that runs the Bluetooth helper. The helper (\<^verbatim>\<open>bluetooth-runtime\<close>) asks
  BlueZ and prints a snapshot the shell parses. The library \<^verbatim>\<open>netstream\<close> keeps Wi-Fi
  profiles and streaming hosts in two database files. The volume daemon
  (\<^verbatim>\<open>device-control/volume\<close>) owns the sound card's controls; it takes commands on
  a socket and volume keys, and publishes what it did in a durable file and a
  runtime marker.

  \<^bold>\<open>How code is modelled.\<close> A C struct is a record, an enumeration a datatype, a
  fixed array the list of its used entries (the whole array where unused slots
  matter), 32- and 64-bit integers are words, texts are byte lists; a null or
  -1 index is \<open>None\<close>. Functions that can fail return a sum or an option, or a
  state with a flag. Loops are recursive functions with a termination proof;
  the only fuel is a loop bound of the code itself (16 attempts to create a
  temporary file, 40 links in \<open>follow\<close>, the limit of the kernel), and
  \<open>buffer_grow\<close>, which would not end from capacity zero, is a partial function
  proved to return for every reachable buffer. Code that is not in the
  repository (the kernel's answers, the C library's \<^verbatim>\<open>qsort\<close>, SDL, BlueZ) is a
  parameter; what is relied on is a hypothesis such as \<open>qsort_ok\<close>, with an
  instance that meets it.

  \<^bold>\<open>Foundations.\<close>
  \<^item> \<open>Prelude\<close>: bytes, C strings, \<^verbatim>\<open>strtol\<close>, printing of numbers, wrapping clocks.
  \<^item> \<open>Machines\<close>: the locales \<open>machine_inv\<close> and \<open>machine_history\<close> for step functions
    and their runs; interpreted by the power machine, the power UI, the latch,
    the Bluetooth worker and its clients, the catalogue, the state writer, the
    volume commands and the volume event loop.
  \<^item> \<open>Fifo\<close>: the contract of a bounded queue, interpreted by the ring in an array.
    \<open>keyed_db\<close> (in \<open>Netstream_Db\<close>) and \<open>named_enum\<close> (in \<open>Netstream_Validate\<close>) are the
    contracts of the two databases and of the named enumerations of the store.
  \<^item> \<open>Qsort\<close>, \<open>Scanf\<close>, \<open>Lines\<close>, \<open>Percent\<close>, \<open>Utf8\<close>: sorting contract, \<^verbatim>\<open>sscanf\<close>, lines of
    a text file, percent coding and UTF-8, shared by the components below.

  \<^bold>\<open>The shell.\<close>
  \<^item> \<open>Power_State\<close> (\<^verbatim>\<open>power.c\<close>): the state machine; a shutdown needs two held
    intervals of three seconds, the ways past the lock are the settings switch,
    three presses in time and, a defect, the end of a countdown; timeouts are
    exact. \<open>Power_UI\<close> (\<^verbatim>\<open>power_ui.c\<close>, \<^verbatim>\<open>power_input_filter.c\<close>, parts of \<^verbatim>\<open>input.c\<close> and
    \<^verbatim>\<open>main.c\<close>): the backlight follows the view; lost events cancel a countdown.
  \<^item> \<open>Input_Latch\<close>, \<open>Input_Navigation\<close>, \<open>Input_Snapshot\<close> (\<^verbatim>\<open>input_latch.c\<close>,
    \<^verbatim>\<open>input_navigation.c\<close>, \<^verbatim>\<open>input_latch_snapshot.c\<close>): input opens only after all
    controls were released long enough, unless it is forced; reacquiring sees exactly what is held;
    axis thresholds do not overflow.
  \<^item> \<open>Frame_Scheduler\<close> (\<^verbatim>\<open>frame_scheduler.c\<close>): sleeping misses no frame, also when the
    clock wraps. \<open>Cover_Limits\<close> (\<^verbatim>\<open>cover_limits.c\<close>): an accepted image has bounded
    dimensions, and the header's true dimensions are found.
  \<^item> \<open>Catalog\<close> (\<^verbatim>\<open>catalog.c\<close>): the merge sort is the stable sort, a view is the
    filtered list, indices stay valid. \<open>Library_State\<close> (\<^verbatim>\<open>favorites.c\<close>, \<^verbatim>\<open>history.c\<close>,
    \<^verbatim>\<open>filter_state.c\<close>, the payloads of \<^verbatim>\<open>persistence.c\<close>): what is written is read back.
    \<open>Persistence\<close> (\<^verbatim>\<open>persistence.c\<close>): from a plain temporary name (free or a regular
    file with one link) a save is all or nothing, and stopping leaves on the disk
    the last request of every file under every interleaving when no call of a
    save failed, and an old or requested text in any case.
  \<^item> \<open>Bluetooth_Snapshot\<close>, \<open>Bluetooth_Helper\<close>, \<open>Bluetooth_Backend\<close>
    (\<^verbatim>\<open>bluetooth_backend.c\<close>): the parser of the helper's output, the capability file,
    running the helper without leaks and with a deadline, and client and worker
    interleaved at the mutex sections: order of requests, well-formed snapshots,
    what a failure keeps.
  \<^item> \<open>Platform_Routes\<close> (\<^verbatim>\<open>platform_routes.c\<close>): the RPG Maker runtime is offered
    exactly on complete evidence; every route comes from a line of the table.
    \<open>Catalog_Snapshot\<close> (\<^verbatim>\<open>catalog_snapshot.c\<close>): replacing the snapshot is atomic, and
    what is written is loaded again. \<open>Catalog_Scan\<close> (\<^verbatim>\<open>catalog_scan.c\<close>): a finished
    scan finds exactly the games of a platform, the best cover is chosen, a second
    source keeps the first. \<open>Catalog_Incremental\<close> (\<^verbatim>\<open>catalog_incremental.c\<close>): after a
    refresh another one is needed exactly if it was cut short.
  \<^bold>\<open>The other programs.\<close>
  \<^item> \<open>Netstream_Validate\<close>, \<open>Netstream_Codec\<close>, \<open>Netstream_Db\<close>, \<open>Netstream_Files\<close>,
    \<open>Netstream_Store\<close>, \<open>Netstream_Import\<close> (\<^verbatim>\<open>netstream.c\<close>): validation, buffers and
    numbers, the databases as a refinement of finite maps, atomic replacement
    under every fault, save and load as a round trip, opening the store without
    leaking descriptors and with its lock held, all-or-nothing import of the
    vendor file.
  \<^item> \<open>Bluetooth_Model\<close> (\<^verbatim>\<open>bluetooth_model.c\<close>, the finalisation in
    \<^verbatim>\<open>bluetooth_control.c\<close>): sanitised names, normalised addresses, sorted devices;
    with \<open>Bluetooth_Snapshot\<close> the protocol between helper and shell.
  \<^item> \<open>Volume_Mixer\<close>, \<open>Volume_State\<close>, \<open>Volume_Daemon\<close>, \<open>Volume_Service\<close>, \<open>Volume_Start\<close>
    (\<^verbatim>\<open>rg40xxv-volume-daemon.c\<close>): the daemon's state is extended by the card's
    registers, its two directories and a script of outcomes, one for each system
    call (success, an error, a short transfer, another value stored). A commit
    is all or nothing under one fault, the answers to clients are true, the
    volume survives a restart, after a successful start the marker is true and
    after a failed one gone (or nothing was touched), the event loop loses
    no connection and keeps a valid state under any faults.

  \<^bold>\<open>Bounds.\<close> Where a theorem allows faults it says how many: the file layers of
  \<open>netstream\<close>, of the snapshot and of the state writer any number, the volume transactions at most
  one for each request, since the rollback itself uses the same calls.

  \<^bold>\<open>Not modelled.\<close> Drawing (\<^verbatim>\<open>render*.c\<close>, \<^verbatim>\<open>text.c\<close>, the screens' drawing) and texture
  caches are SDL calls without a result the program depends on. Sysfs, ALSA and
  process access of the shell (\<^verbatim>\<open>hardware*.c\<close>, \<^verbatim>\<open>system_info.c\<close>, \<^verbatim>\<open>audio.c\<close>,
  \<^verbatim>\<open>launcher.c\<close>, \<^verbatim>\<open>lifecycle.c\<close>) is input and output against the device. The D-Bus
  part of the Bluetooth helper depends on BlueZ through libdbus.
  \<^verbatim>\<open>netstreamctl.c\<close> prints what the library returns. The YouTube component is C++
  over SDL and GStreamer. Not covered for lack of time rather than for their
  nature: the settings screens and the streaming backend of the shell.
\<close>

end
